(* ===== verification/CF_Prelude.thy ===== *)
theory CF_Prelude
  imports Main "HOL-Library.Word" "HOL-Library.Signed_Division" "HOL-Library.Multiset"
begin

text \<open>
  Shared vocabulary of the development: the C integer types the modelled files use, the three
  values of \<open>CFComparisonResult\<close>, checked array access (an access outside an array is \<open>None\<close>,
  never an arbitrary value), and the generic lemmas on lists and words that several components
  need.
\<close>

unbundle bit_operations_syntax

type_synonym u8 = "8 word"
type_synonym u16 = "16 word"
type_synonym u32 = "32 word"
type_synonym u64 = "64 word"
type_synonym u128 = "128 word"

text \<open>Fact collections used across the components.\<close>

named_theorems cf_defs "definitions of small accessors, unfolded by simp"
named_theorems cf_bounds "bounds of array and word operations"

section \<open>Comparison results\<close>

text \<open>\<open>CFComparisonResult\<close> of CFBase.h: -1, 0 and 1.\<close>

datatype CFComparisonResult = kCFCompareLessThan | kCFCompareEqualTo | kCFCompareGreaterThan

definition cmp_int :: "CFComparisonResult \<Rightarrow> int" where
  "cmp_int r = (case r of kCFCompareLessThan \<Rightarrow> -1 | kCFCompareEqualTo \<Rightarrow> 0
     | kCFCompareGreaterThan \<Rightarrow> 1)"

definition cmp_of :: "'a::linorder \<Rightarrow> 'a \<Rightarrow> CFComparisonResult" where
  "cmp_of x y = (if x < y then kCFCompareLessThan
     else if x > y then kCFCompareGreaterThan else kCFCompareEqualTo)"

lemma cmp_of_simps [simp]:
  "cmp_of x y = kCFCompareLessThan \<longleftrightarrow> x < y"
  "cmp_of x y = kCFCompareGreaterThan \<longleftrightarrow> x > y"
  "cmp_of x y = kCFCompareEqualTo \<longleftrightarrow> x = y"
  by (auto simp: cmp_of_def)

section \<open>Checked array access\<close>

definition rd :: "'a list \<Rightarrow> nat \<Rightarrow> 'a option" where
  "rd xs i = (if i < length xs then Some (xs ! i) else None)"

definition wr :: "'a list \<Rightarrow> nat \<Rightarrow> 'a \<Rightarrow> 'a list option" where
  "wr xs i v = (if i < length xs then Some (xs[i := v]) else None)"

lemma rd_in [simp]: "i < length xs \<Longrightarrow> rd xs i = Some (xs ! i)"
  by (simp add: rd_def)

lemma wr_in [simp]: "i < length xs \<Longrightarrow> wr xs i v = Some (xs[i := v])"
  by (simp add: wr_def)

lemma rd_eq_Some [simp]: "rd xs i = Some v \<longleftrightarrow> i < length xs \<and> v = xs ! i"
  by (auto simp: rd_def)

lemma wr_eq_Some [simp]: "wr xs i v = Some ys \<longleftrightarrow> i < length xs \<and> ys = xs[i := v]"
  by (auto simp: wr_def)

lemma rd_eq_None [simp]: "rd xs i = None \<longleftrightarrow> length xs \<le> i"
  by (auto simp: rd_def)

lemma wr_eq_None [simp]: "wr xs i v = None \<longleftrightarrow> length xs \<le> i"
  by (auto simp: wr_def)

text \<open>Access with a signed index.\<close>

definition rd_at :: "'a list \<Rightarrow> int \<Rightarrow> 'a option" where
  "rd_at xs i = (if i < 0 then None else rd xs (nat i))"

definition wr_at :: "'a list \<Rightarrow> int \<Rightarrow> 'a \<Rightarrow> 'a list option" where
  "wr_at xs i v = (if i < 0 then None else wr xs (nat i) v)"

text \<open>Block access, the model of \<open>memcpy\<close> and \<open>memmove\<close>: reading \<open>n\<close> elements from an offset, and
  writing a block at an offset.\<close>

definition rd_block :: "'a list \<Rightarrow> nat \<Rightarrow> nat \<Rightarrow> 'a list option" where
  "rd_block xs off n = (if off + n \<le> length xs then Some (take n (drop off xs)) else None)"

definition wr_block :: "'a list \<Rightarrow> nat \<Rightarrow> 'a list \<Rightarrow> 'a list option" where
  "wr_block xs off ys = (if off + length ys \<le> length xs
     then Some (take off xs @ ys @ drop (off + length ys) xs) else None)"

lemma rd_block_in [simp]: "off + n \<le> length xs \<Longrightarrow> rd_block xs off n = Some (take n (drop off xs))"
  by (simp add: rd_block_def)

lemma wr_block_in [simp]: "off + length ys \<le> length xs \<Longrightarrow>
    wr_block xs off ys = Some (take off xs @ ys @ drop (off + length ys) xs)"
  by (simp add: wr_block_def)

section \<open>The highest set bit\<close>

text \<open>\<open>flsl\<close>: the position of the most significant one bit, from 1, and 0 for 0.\<close>

fun flsl :: "nat \<Rightarrow> nat" where
  "flsl n = (if n = 0 then 0 else Suc (flsl (n div 2)))"

declare flsl.simps [simp del]

lemma flsl_bound: "n < 2 ^ flsl n"
  by (induction n rule: flsl.induct) (subst flsl.simps, auto)

lemma flsl_le: "n < 2 ^ k \<Longrightarrow> flsl n \<le> k"
proof (induction n arbitrary: k rule: flsl.induct)
  case (1 n)
  show ?case
  proof (cases "n = 0")
    case False
    with 1 obtain k' where k: "k = Suc k'" by (cases k) auto
    then show ?thesis using 1 False by (subst flsl.simps) auto
  qed (simp add: flsl.simps)
qed

section \<open>Histories of operations\<close>

text \<open>Running a list of operations that may fail, and the contract under which such runs refine runs
  on an abstract state: every operation accepted in a state succeeds, keeps the invariant, does on the
  abstraction what the specification says, and takes no more than its cost from the room.  The
  specification and the acceptance may depend on a part of the state that no operation changes.\<close>

fun run_steps :: "('t \<Rightarrow> 'o \<Rightarrow> 't option) \<Rightarrow> 't \<Rightarrow> 'o list \<Rightarrow> 't option" where
  "run_steps step t [] = Some t"
| "run_steps step t (x # xs) = Option.bind (step t x) (\<lambda>t. run_steps step t xs)"

text \<open>A history is accepted when every operation is, in the abstract state where its turn comes.\<close>

fun accepted :: "('m \<Rightarrow> 'o \<Rightarrow> 'm) \<Rightarrow> ('m \<Rightarrow> 'o \<Rightarrow> bool) \<Rightarrow> 'm \<Rightarrow> 'o list \<Rightarrow> bool" where
  "accepted spec ok m [] = True"
| "accepted spec ok m (x # xs) = (ok m x \<and> accepted spec ok (spec m x) xs)"

lemma accepted_everywhere [simp]: "accepted spec (\<lambda>m. ok) m xs \<longleftrightarrow> (\<forall>x\<in>set xs. ok x)"
  by (induction xs arbitrary: m) auto

locale guarded_history =
  fixes step :: "'t \<Rightarrow> 'o \<Rightarrow> 't option" and abs :: "'t \<Rightarrow> 'm" and inv :: "'t \<Rightarrow> bool"
    and fixed :: "'t \<Rightarrow> 'c" and spec :: "'c \<Rightarrow> 'm \<Rightarrow> 'o \<Rightarrow> 'm" and ok :: "'c \<Rightarrow> 'm \<Rightarrow> 'o \<Rightarrow> bool"
    and room :: "'t \<Rightarrow> nat" and cost :: "'o \<Rightarrow> nat"
  assumes guarded_law: "inv t \<Longrightarrow> ok (fixed t) (abs t) x \<Longrightarrow> cost x \<le> room t \<Longrightarrow>
    \<exists>t'. step t x = Some t' \<and> inv t' \<and> fixed t' = fixed t \<and> abs t' = spec (fixed t) (abs t) x
      \<and> room t \<le> cost x + room t'"
begin

lemma guarded_run:
  "inv t \<Longrightarrow> accepted (spec (fixed t)) (ok (fixed t)) (abs t) xs \<Longrightarrow> sum_list (map cost xs) \<le> room t \<Longrightarrow>
   \<exists>t'. run_steps step t xs = Some t' \<and> inv t' \<and> fixed t' = fixed t
     \<and> abs t' = foldl (spec (fixed t)) (abs t) xs \<and> room t \<le> sum_list (map cost xs) + room t'"
proof (induction xs arbitrary: t)
  case (Cons x xs)
  then have "ok (fixed t) (abs t) x" "cost x \<le> room t" by auto
  from guarded_law [OF Cons.prems(1) this] obtain t' where t': "step t x = Some t'" "inv t'"
    "fixed t' = fixed t" "abs t' = spec (fixed t) (abs t) x" "room t \<le> cost x + room t'" by blast
  with Cons.IH [of t'] Cons.prems show ?case by fastforce
qed simp

end

text \<open>The case where the acceptance does not depend on the abstract state and an operation costs one.\<close>

locale history =
  fixes step :: "'t \<Rightarrow> 'o \<Rightarrow> 't option" and abs :: "'t \<Rightarrow> 'm" and inv :: "'t \<Rightarrow> bool"
    and fixed :: "'t \<Rightarrow> 'c" and spec :: "'c \<Rightarrow> 'm \<Rightarrow> 'o \<Rightarrow> 'm" and ok :: "'c \<Rightarrow> 'o \<Rightarrow> bool"
    and room :: "'t \<Rightarrow> nat"
  assumes step_law: "inv t \<Longrightarrow> ok (fixed t) x \<Longrightarrow> 0 < room t \<Longrightarrow>
    \<exists>t'. step t x = Some t' \<and> inv t' \<and> fixed t' = fixed t \<and> abs t' = spec (fixed t) (abs t) x
      \<and> room t \<le> Suc (room t')"

sublocale history \<subseteq> guarded: guarded_history step abs inv fixed spec "\<lambda>c m. ok c" room "\<lambda>x. 1"
  using step_law by unfold_locales auto

context history begin

lemma run_law:
  "inv t \<Longrightarrow> \<forall>x\<in>set xs. ok (fixed t) x \<Longrightarrow> length xs \<le> room t \<Longrightarrow>
   \<exists>t'. run_steps step t xs = Some t' \<and> inv t' \<and> fixed t' = fixed t
     \<and> abs t' = foldl (spec (fixed t)) (abs t) xs \<and> room t \<le> length xs + room t'"
  using guarded.guarded_run [of t xs] by (simp add: sum_list_triv)

end

section \<open>Words\<close>

lemma unat_ucast: "unat (ucast x :: 'b::len word) = unat x mod 2 ^ LENGTH('b)"
  for x :: "'a::len word"
  by (simp add: unsigned_ucast_eq unsigned_take_bit_eq take_bit_eq_mod [where 'a = nat])

lemma unat_ucast_small: "unat x < 2 ^ LENGTH('b) \<Longrightarrow> unat (ucast x :: 'b::len word) = unat x"
  for x :: "'a::len word"
  by (simp add: unat_ucast)

lemma unat_of_nat_small: "n < 2 ^ LENGTH('b) \<Longrightarrow> unat (word_of_nat n :: 'b::len word) = n"
  by (simp add: unat_of_nat)

lemma sint_lt_power: "sint x < 2 ^ LENGTH('w)" for x :: "'w::len word"
proof -
  have "sint x < 2 ^ (LENGTH('w) - 1)" by (rule sint_lt)
  also have "\<dots> \<le> (2 :: int) ^ LENGTH('w)" by (simp add: power_increasing_iff)
  finally show ?thesis .
qed

lemma sint_gt_power: "- (2 ^ LENGTH('w)) < sint x" for x :: "'w::len word"
proof -
  have "(2 :: int) ^ (LENGTH('w) - 1) < 2 ^ LENGTH('w)" by (rule power_strict_increasing) simp_all
  with sint_ge [of x] show ?thesis by linarith
qed

lemma unat_pos_sint: "0 \<le> sint x \<Longrightarrow> int (unat x) = sint x" for x :: "'w::len word"
  using sint_lt_power [of x] by (simp add: uint_sint take_bit_int_eq_self)

lemma unat_neg_sint: "sint x < 0 \<Longrightarrow> int (unat (- x)) = - sint x" for x :: "'w::len word"
proof -
  assume neg: "sint x < 0"
  have "uint (- x) = - uint x mod 2 ^ LENGTH('w)" by (rule uint_word_ariths)
  also have "\<dots> = - sint x mod 2 ^ LENGTH('w)"
    by (simp add: uint_sint take_bit_eq_mod mod_minus_eq)
  also have "\<dots> = - sint x" using neg sint_gt_power [of x] by simp
  finally show ?thesis by simp
qed

lemma word_of_int_sint [simp]: "word_of_int (sint x) = x" for x :: "'w::len word"
  by simp

end
