(* ===== verification/BigNumber.thy ===== *)
theory BigNumber
  imports CF_Prelude
begin

text \<open>
  The base-one-billion numbers of \<open>CFBigNumber.c\<close> / \<open>CFBigNumber.h\<close>: five 32-bit digits, least
  significant first, and a sign that is -1 or 0.  The target is the LP64 one, so the 128-bit
  functions are present and \<open>long\<close> has 64 bits.  Leading underscores of the C names are dropped.
  \<open>digs_val\<close> and \<open>bn_val\<close> give the number a value denotes.

  The negations \<open>-1 * inNum\<close> and \<open>-1 * result\<close> of 32, 64 and 128 bits are undefined in C for the most
  negative integer; the words of the model have there the value that wraps around.  The code itself
  asks for it in one place, when \<open>_CFNumberCreateWithBigNum\<close> (BigNumberCreate) makes its limits.
\<close>

section \<open>Data\<close>

record CFBigNum =
  digits :: "u32 list"
  sign :: u8

definition CFBigNum_zeroed :: CFBigNum where
  \<comment> \<open>\<open>memset(r, 0, sizeof( *r))\<close>\<close>
  "CFBigNum_zeroed = \<lparr>digits = replicate 5 0, sign = 0\<rparr>"

definition GET_FIFTH_DIGIT :: "u128 \<Rightarrow> u128" where
  "GET_FIFTH_DIGIT A = A div 1000000000000000000000000000000000000"

definition GET_FOURTH_DIGIT :: "u128 \<Rightarrow> u128" where
  "GET_FOURTH_DIGIT A = A div 1000000000000000000000000000"

definition GET_THIRD_DIGIT :: "'w::len word \<Rightarrow> 'w word" where
  "GET_THIRD_DIGIT A = A div 1000000000000000000"

definition GET_SECOND_DIGIT :: "'w::len word \<Rightarrow> 'w word" where
  "GET_SECOND_DIGIT A = A div 1000000000"

definition GET_REMAINDER_FIFTH_DIGIT :: "u128 \<Rightarrow> u128 \<Rightarrow> u128" where
  "GET_REMAINDER_FIFTH_DIGIT A B = A - B * 1000000000000000000000000000000000000"

definition GET_REMAINDER_FOURTH_DIGIT :: "u128 \<Rightarrow> u128 \<Rightarrow> u128" where
  "GET_REMAINDER_FOURTH_DIGIT A B = A - B * 1000000000000000000000000000"

definition GET_REMAINDER_THIRD_DIGIT :: "'w::len word \<Rightarrow> 'w word \<Rightarrow> 'w word" where
  "GET_REMAINDER_THIRD_DIGIT A B = A - B * 1000000000000000000"

definition GET_REMAINDER_SECOND_DIGIT :: "'w::len word \<Rightarrow> 'w word \<Rightarrow> 'w word" where
  "GET_REMAINDER_SECOND_DIGIT A B = A - B * 1000000000"

section \<open>Initialisation from machine integers\<close>

definition CFBigNumInitWithInt8 :: "u8 \<Rightarrow> CFBigNum" where
  "CFBigNumInitWithInt8 inNum = (let r = CFBigNum_zeroed in
     if sint inNum < 0
     then r\<lparr>sign := -1, digits := (digits r)[0 := ucast (-1 * inNum)]\<rparr>
     else r\<lparr>digits := (digits r)[0 := ucast inNum]\<rparr>)"

definition CFBigNumInitWithInt16 :: "u16 \<Rightarrow> CFBigNum" where
  "CFBigNumInitWithInt16 inNum = (let r = CFBigNum_zeroed in
     if sint inNum < 0
     then r\<lparr>sign := -1, digits := (digits r)[0 := ucast (-1 * inNum)]\<rparr>
     else r\<lparr>digits := (digits r)[0 := ucast inNum]\<rparr>)"

definition CFBigNumInitWithUInt8 :: "u8 \<Rightarrow> CFBigNum" where
  "CFBigNumInitWithUInt8 inNum = (let r = CFBigNum_zeroed in
     r\<lparr>digits := (digits r)[0 := ucast inNum]\<rparr>)"

definition CFBigNumInitWithUInt16 :: "u16 \<Rightarrow> CFBigNum" where
  "CFBigNumInitWithUInt16 inNum = (let r = CFBigNum_zeroed in
     r\<lparr>digits := (digits r)[0 := ucast inNum]\<rparr>)"

definition CFBigNumInitWithUInt32 :: "u32 \<Rightarrow> CFBigNum" where
  "CFBigNumInitWithUInt32 inNum = (let r = CFBigNum_zeroed;
     unsignInNum = inNum;
     dig0 = GET_SECOND_DIGIT unsignInNum in
     r\<lparr>digits := (digits r)[0 := GET_REMAINDER_SECOND_DIGIT unsignInNum dig0, 1 := dig0]\<rparr>)"

definition CFBigNumInitWithInt32 :: "u32 \<Rightarrow> CFBigNum" where
  "CFBigNumInitWithInt32 inNum = (let r = CFBigNum_zeroed;
     (r, unsignInNum) = (if sint inNum < 0 then (r\<lparr>sign := -1\<rparr>, -1 * inNum) else (r, inNum));
     dig0 = GET_SECOND_DIGIT unsignInNum in
     r\<lparr>digits := (digits r)[0 := GET_REMAINDER_SECOND_DIGIT unsignInNum dig0, 1 := dig0]\<rparr>)"

definition CFBigNumInitWithUInt64 :: "u64 \<Rightarrow> CFBigNum" where
  "CFBigNumInitWithUInt64 inNum = (let r = CFBigNum_zeroed;
     unsignInNum = inNum;
     dig2 = (ucast (GET_THIRD_DIGIT unsignInNum) :: u32);
     unsignInNum = GET_REMAINDER_THIRD_DIGIT unsignInNum (ucast dig2);
     dig1 = (ucast (GET_SECOND_DIGIT unsignInNum) :: u32) in
     r\<lparr>digits := (digits r)
         [0 := ucast (GET_REMAINDER_SECOND_DIGIT unsignInNum (ucast dig1)),
          1 := dig1, 2 := dig2]\<rparr>)"

definition CFBigNumInitWithInt64 :: "u64 \<Rightarrow> CFBigNum" where
  "CFBigNumInitWithInt64 inNum = (let r = CFBigNum_zeroed;
     (r, unsignInNum) = (if sint inNum < 0 then (r\<lparr>sign := -1\<rparr>, -1 * inNum) else (r, inNum));
     dig2 = (ucast (GET_THIRD_DIGIT unsignInNum) :: u32);
     unsignInNum = GET_REMAINDER_THIRD_DIGIT unsignInNum (ucast dig2);
     dig1 = (ucast (GET_SECOND_DIGIT unsignInNum) :: u32) in
     r\<lparr>digits := (digits r)
         [0 := ucast (GET_REMAINDER_SECOND_DIGIT unsignInNum (ucast dig1)),
          1 := dig1, 2 := dig2]\<rparr>)"

definition CFBigNumInitWithUInt128 :: "u128 \<Rightarrow> CFBigNum" where
  "CFBigNumInitWithUInt128 inNum = (let r = CFBigNum_zeroed;
     unsignInNum = inNum;
     dig4 = (ucast (GET_FIFTH_DIGIT unsignInNum) :: u32);
     unsignInNum = GET_REMAINDER_FIFTH_DIGIT unsignInNum (ucast dig4);
     dig3 = (ucast (GET_FOURTH_DIGIT unsignInNum) :: u32);
     unsignInNum = GET_REMAINDER_FOURTH_DIGIT unsignInNum (ucast dig3);
     dig2 = (ucast (GET_THIRD_DIGIT unsignInNum) :: u32);
     unsignInNum = GET_REMAINDER_THIRD_DIGIT unsignInNum (ucast dig2);
     dig1 = (ucast (GET_SECOND_DIGIT unsignInNum) :: u32) in
     r\<lparr>digits := (digits r)
         [0 := ucast (GET_REMAINDER_SECOND_DIGIT unsignInNum (ucast dig1)),
          1 := dig1, 2 := dig2, 3 := dig3, 4 := dig4]\<rparr>)"

definition CFBigNumInitWithInt128 :: "u128 \<Rightarrow> CFBigNum" where
  "CFBigNumInitWithInt128 inNum = (let r = CFBigNum_zeroed;
     (r, unsignInNum) = (if sint inNum < 0 then (r\<lparr>sign := -1\<rparr>, -1 * inNum) else (r, inNum));
     dig4 = (ucast (GET_FIFTH_DIGIT unsignInNum) :: u32);
     unsignInNum = GET_REMAINDER_FIFTH_DIGIT unsignInNum (ucast dig4);
     dig3 = (ucast (GET_FOURTH_DIGIT unsignInNum) :: u32);
     unsignInNum = GET_REMAINDER_FOURTH_DIGIT unsignInNum (ucast dig3);
     dig2 = (ucast (GET_THIRD_DIGIT unsignInNum) :: u32);
     unsignInNum = GET_REMAINDER_THIRD_DIGIT unsignInNum (ucast dig2);
     dig1 = (ucast (GET_SECOND_DIGIT unsignInNum) :: u32) in
     r\<lparr>digits := (digits r)
         [0 := ucast (GET_REMAINDER_SECOND_DIGIT unsignInNum (ucast dig1)),
          1 := dig1, 2 := dig2, 3 := dig3, 4 := dig4]\<rparr>)"

section \<open>Reading machine integers back\<close>

definition CFBigNumGetInt8 :: "CFBigNum \<Rightarrow> u8" where
  "CFBigNumGetInt8 num = (let result = ucast (digits num ! 0) in
     if sint (sign num) < 0 then -1 * result else result)"

definition CFBigNumGetInt16 :: "CFBigNum \<Rightarrow> u16" where
  "CFBigNumGetInt16 num = (let result = ucast (digits num ! 0) in
     if sint (sign num) < 0 then -1 * result else result)"

definition CFBigNumGetUInt8 :: "CFBigNum \<Rightarrow> u8" where
  "CFBigNumGetUInt8 num = ucast (digits num ! 0)"

definition CFBigNumGetUInt16 :: "CFBigNum \<Rightarrow> u16" where
  "CFBigNumGetUInt16 num = ucast (digits num ! 0)"

definition CFBigNumGetUInt32 :: "CFBigNum \<Rightarrow> u32" where
  "CFBigNumGetUInt32 num = (let result = digits num ! 0 in
     result + digits num ! 1 * 1000000000)"

definition CFBigNumGetInt32 :: "CFBigNum \<Rightarrow> u32" where
  "CFBigNumGetInt32 num = (let result = digits num ! 0;
     result = result + digits num ! 1 * 1000000000 in
     if sint (sign num) < 0 then -1 * result else result)"

definition CFBigNumGetUInt64 :: "CFBigNum \<Rightarrow> u64" where
  "CFBigNumGetUInt64 num = (let result = ucast (digits num ! 0);
     result = result + ucast (digits num ! 1) * 1000000000 in
     result + ucast (digits num ! 2) * 1000000000000000000)"

definition CFBigNumGetInt64 :: "CFBigNum \<Rightarrow> u64" where
  "CFBigNumGetInt64 num = (let result = ucast (digits num ! 0);
     result = result + ucast (digits num ! 1) * 1000000000;
     result = result + ucast (digits num ! 2) * 1000000000000000000 in
     if sint (sign num) < 0 then -1 * result else result)"

definition CFBigNumGetUInt128 :: "CFBigNum \<Rightarrow> u128" where
  "CFBigNumGetUInt128 num = (let result = ucast (digits num ! 0);
     result = result + ucast (digits num ! 1) * 1000000000;
     result = result + ucast (digits num ! 2) * 1000000000000000000;
     result = result + ucast (digits num ! 3) * 1000000000000000000000000000 in
     result + ucast (digits num ! 4) * 1000000000000000000000000000000000000)"

definition CFBigNumGetInt128 :: "CFBigNum \<Rightarrow> u128" where
  "CFBigNumGetInt128 num = (let result = ucast (digits num ! 0);
     result = result + ucast (digits num ! 1) * 1000000000;
     result = result + ucast (digits num ! 2) * 1000000000000000000;
     result = result + ucast (digits num ! 3) * 1000000000000000000000000000;
     result = result + ucast (digits num ! 4) * 1000000000000000000000000000000000000 in
     if sint (sign num) < 0 then -1 * result else result)"

section \<open>Comparison, negation, addition and subtraction\<close>

text \<open>The digit loops that run from the most significant digit down are recursions over the
  reversed digit arrays; the ones that run up are recursions over the arrays.\<close>

fun CFBigNumCompare_loop :: "bool \<Rightarrow> u32 list \<Rightarrow> u32 list \<Rightarrow> CFComparisonResult" where
  "CFBigNumCompare_loop negative (x # xs) (y # ys) =
     (if x < y then (if \<not> negative then kCFCompareLessThan else kCFCompareGreaterThan)
      else if x > y then (if negative then kCFCompareLessThan else kCFCompareGreaterThan)
      else CFBigNumCompare_loop negative xs ys)"
| "CFBigNumCompare_loop negative _ _ = kCFCompareEqualTo"

definition CFBigNumCompare :: "CFBigNum \<Rightarrow> CFBigNum \<Rightarrow> CFComparisonResult" where
  "CFBigNumCompare a b =
     (if sign a = sign b
      then CFBigNumCompare_loop (sint (sign a) < 0) (rev (digits a)) (rev (digits b))
      else if sint (sign a) < sint (sign b) then kCFCompareLessThan else kCFCompareGreaterThan)"

fun CFBigNumAbsoluteLessThan_loop :: "u32 list \<Rightarrow> u32 list \<Rightarrow> bool" where
  "CFBigNumAbsoluteLessThan_loop (x # xs) (y # ys) =
     (if x < y then True else if x > y then False
      else CFBigNumAbsoluteLessThan_loop xs ys)"
| "CFBigNumAbsoluteLessThan_loop _ _ = False"

definition CFBigNumAbsoluteLessThan :: "CFBigNum \<Rightarrow> CFBigNum \<Rightarrow> bool" where
  "CFBigNumAbsoluteLessThan a b =
     CFBigNumAbsoluteLessThan_loop (rev (digits a)) (rev (digits b))"

definition CFBigNumNeg :: "CFBigNum \<Rightarrow> CFBigNum" where
  "CFBigNumNeg a = (let aIsZero = (\<forall>d \<in> set (digits a). d = 0) in
     if \<not> aIsZero then a\<lparr>sign := sign a * sign a - 1\<rparr> else a)"

fun CFBigNumAdd_same_loop :: "u8 \<Rightarrow> u32 list \<Rightarrow> u32 list \<Rightarrow> u32 list \<times> u8" where
  "CFBigNumAdd_same_loop carry (x # xs) (y # ys) =
     (let result = x + y + ucast carry;
          (result, carry) =
            (if result > 1000000000 then (result - 1000000000, 1) else (result, 0));
          (rs, c) = CFBigNumAdd_same_loop carry xs ys
      in (result # rs, c))"
| "CFBigNumAdd_same_loop carry _ _ = ([], carry)"

fun CFBigNumAdd_diff_loop :: "u8 \<Rightarrow> u32 list \<Rightarrow> u32 list \<Rightarrow> u32 list \<times> u8" where
  "CFBigNumAdd_diff_loop carry (x # xs) (y # ys) =
     (let result = (ucast x :: u64) - ucast y - ucast carry;
          (result, carry) =
            (if sint result < 0 then (result + 1000000000, 1) else (result, 0));
          (rs, c) = CFBigNumAdd_diff_loop carry xs ys
      in (ucast result # rs, c))"
| "CFBigNumAdd_diff_loop carry _ _ = ([], carry)"

definition CFBigNumAdd :: "CFBigNum \<Rightarrow> CFBigNum \<Rightarrow> CFBigNum \<times> u8" where
  "CFBigNumAdd a b =
     (if sign a = sign b
      then let (ds, carry) = CFBigNumAdd_same_loop 0 (digits a) (digits b)
           in (\<lparr>digits = ds, sign = sign a\<rparr>, carry)
      else let (bigNum, smallNum) = (if CFBigNumAbsoluteLessThan a b then (b, a) else (a, b));
               (ds, carry) = CFBigNumAdd_diff_loop 0 (digits bigNum) (digits smallNum)
           in (\<lparr>digits = ds, sign = (if sint (sign bigNum) < 0 then -1 else 0)\<rparr>, carry))"

definition CFBigNumSub :: "CFBigNum \<Rightarrow> CFBigNum \<Rightarrow> CFBigNum \<times> u8" where
  "CFBigNumSub a b = (let nb = CFBigNumNeg b in CFBigNumAdd a nb)"

section \<open>The number a digit array denotes\<close>

abbreviation BASE :: nat where "BASE \<equiv> 1000000000"

fun digs_val :: "u32 list \<Rightarrow> nat" where
  "digs_val [] = 0"
| "digs_val (d # ds) = unat d + BASE * digs_val ds"

definition bn_mag :: "CFBigNum \<Rightarrow> nat" where
  "bn_mag b = digs_val (digits b)"

definition bn_val :: "CFBigNum \<Rightarrow> int" where
  "bn_val b = (if sint (sign b) < 0 then - int (bn_mag b) else int (bn_mag b))"

definition bn_wf :: "CFBigNum \<Rightarrow> bool" where
  "bn_wf b \<longleftrightarrow> length (digits b) = 5 \<and> (\<forall>d \<in> set (digits b). unat d < BASE) \<and>
     (sign b = 0 \<or> sign b = -1)"

definition bn_canonical :: "CFBigNum \<Rightarrow> bool" where
  "bn_canonical b \<longleftrightarrow> bn_wf b \<and> (bn_mag b = 0 \<longrightarrow> sign b = 0)"

fun digs_of :: "nat \<Rightarrow> nat \<Rightarrow> u32 list" where
  "digs_of 0 n = []"
| "digs_of (Suc k) n = word_of_nat (n mod BASE) # digs_of k (n div BASE)"

definition bn_of_int :: "int \<Rightarrow> CFBigNum" where
  "bn_of_int v = \<lparr>digits = digs_of 5 (nat \<bar>v\<bar>), sign = (if v < 0 then -1 else 0)\<rparr>"

lemma unat_base_digit [simp]: "unat (word_of_nat (n mod BASE) :: u32) = n mod BASE"
  by (rule unat_of_nat_small) (use mod_less_divisor [of BASE n] in simp)

lemma length_digs_of [simp]: "length (digs_of k n) = k"
  by (induction k arbitrary: n) auto

lemma digs_of_small: "d \<in> set (digs_of k n) \<Longrightarrow> unat d < BASE"
  by (induction k arbitrary: n) auto

lemma digs_val_digs_of: "digs_val (digs_of k n) = n mod BASE ^ k"
proof (induction k arbitrary: n)
  case 0
  then show ?case by simp
next
  case (Suc k)
  have "n mod BASE ^ Suc k = BASE * (n div BASE mod BASE ^ k) + n mod BASE"
    by (simp add: mod_mult2_eq)
  with Suc show ?case by simp
qed

lemma digs_val_bound: "\<forall>d \<in> set ds. unat d < BASE \<Longrightarrow> digs_val ds < BASE ^ length ds"
proof (induction ds)
  case Nil
  then show ?case by simp
next
  case (Cons d ds)
  then have "digs_val ds + 1 \<le> BASE ^ length ds" by simp
  then have "BASE * (digs_val ds + 1) \<le> BASE * BASE ^ length ds" by (rule mult_le_mono2)
  with Cons.prems show ?case by simp
qed

lemma digs_of_digs_val: "\<forall>d \<in> set ds. unat d < BASE \<Longrightarrow> digs_of (length ds) (digs_val ds) = ds"
  by (induction ds) auto

lemma digs_val_append: "digs_val (xs @ ys) = digs_val xs + BASE ^ length xs * digs_val ys"
  by (induction xs) (auto simp: algebra_simps)

lemma sint8_sign [simp]: "sint (-1 :: u8) = -1" "sint (0 :: u8) = 0"
  by simp_all

lemma bn_of_int_wf [simp]: "bn_wf (bn_of_int v)"
  by (auto simp: bn_wf_def bn_of_int_def dest: digs_of_small)

lemma bn_mag_of_int: "\<bar>v\<bar> < 10 ^ 45 \<Longrightarrow> bn_mag (bn_of_int v) = nat \<bar>v\<bar>"
proof -
  assume "\<bar>v\<bar> < 10 ^ 45"
  then have "nat \<bar>v\<bar> < BASE ^ 5" by simp
  then show ?thesis by (simp add: bn_mag_def bn_of_int_def digs_val_digs_of del: power_numeral)
qed

lemma bn_val_of_int: "\<bar>v\<bar> < 10 ^ 45 \<Longrightarrow> bn_val (bn_of_int v) = v"
  by (simp add: bn_val_def bn_mag_of_int) (simp add: bn_of_int_def)

lemma bn_of_int_canonical: "\<bar>v\<bar> < 10 ^ 45 \<Longrightarrow> bn_canonical (bn_of_int v)"
  by (simp add: bn_canonical_def bn_mag_of_int) (simp add: bn_of_int_def)

lemma bn_mag_bound: "bn_wf b \<Longrightarrow> bn_mag b < 10 ^ 45"
  using digs_val_bound [of "digits b"] by (simp add: bn_wf_def bn_mag_def)

lemma bn_of_int_val: "bn_canonical b \<Longrightarrow> bn_of_int (bn_val b) = b"
proof -
  assume c: "bn_canonical b"
  then have "digs_of 5 (bn_mag b) = digits b"
    using digs_of_digs_val [of "digits b"] by (simp add: bn_canonical_def bn_wf_def bn_mag_def)
  with c show ?thesis
    by (cases b) (auto simp: bn_canonical_def bn_wf_def bn_of_int_def bn_val_def)
qed

section \<open>The initialisers compute the canonical representation\<close>

text \<open>Each quotient fits a 32-bit digit, so the truncating assignments lose nothing and each
  remainder is a \<open>mod\<close>.\<close>

lemma ucast_via_u32: "unat x < 2 ^ 32 \<Longrightarrow> ucast (ucast x :: u32) = x" for x :: "'w::len word"
proof (rule word_unat_eq_iff [THEN iffD2])
  assume "unat x < 2 ^ 32"
  moreover have "unat x < 2 ^ LENGTH('w)" by (rule unsigned_less)
  ultimately show "unat (ucast (ucast x :: u32) :: 'w word) = unat x"
    by (simp add: unat_ucast)
qed

lemma rem_word: "A - ucast (ucast (A div L) :: u32) * L = A mod L"
  if "unat (A div L) < 2 ^ 32" for A L :: "'w::len word"
  by (simp add: ucast_via_u32 [OF that] minus_div_mult_eq_mod)

lemma CFBigNum_zeroed_list: "CFBigNum_zeroed = \<lparr>digits = [0, 0, 0, 0, 0], sign = 0\<rparr>"
  by (simp add: CFBigNum_zeroed_def numeral_eq_Suc)

lemma CFBigNum_upd5:
  "[a, b, c, d, e][0 := x] = [x, b, c, d, e]" "[a, b, c, d, e][1 := x] = [a, x, c, d, e]"
  "[a, b, c, d, e][2 := x] = [a, b, x, d, e]" "[a, b, c, d, e][3 := x] = [a, b, c, x, e]"
  "[a, b, c, d, e][4 := x] = [a, b, c, d, x]"
  by (simp_all add: numeral_eq_Suc)

lemmas CFBigNum_init_defs = CFBigNum_zeroed_list GET_FIFTH_DIGIT_def GET_FOURTH_DIGIT_def
  GET_THIRD_DIGIT_def GET_SECOND_DIGIT_def GET_REMAINDER_FIFTH_DIGIT_def
  GET_REMAINDER_FOURTH_DIGIT_def GET_REMAINDER_THIRD_DIGIT_def GET_REMAINDER_SECOND_DIGIT_def

abbreviation LIM2 :: nat where "LIM2 \<equiv> 1000000000000000000"
abbreviation LIM3 :: nat where "LIM3 \<equiv> 1000000000000000000000000000"
abbreviation LIM4 :: nat where "LIM4 \<equiv> 1000000000000000000000000000000000000"

lemma digs_of_unique:
  "length ds = k \<Longrightarrow> \<forall>d \<in> set ds. unat d < BASE \<Longrightarrow> digs_val ds = n \<Longrightarrow> ds = digs_of k n"
  using digs_of_digs_val [of ds] by auto

text \<open>The chain of quotients and remainders of the widest initialiser; the narrower ones are the
  cases where the upper quotients are 0.\<close>

lemma digs_of_quotients:
  assumes n: "n < 2 ^ 128"
    and ds: "map unat ds = [n mod LIM4 mod LIM3 mod LIM2 mod BASE,
      n mod LIM4 mod LIM3 mod LIM2 div BASE, n mod LIM4 mod LIM3 div LIM2,
      n mod LIM4 div LIM3, n div LIM4]"
  shows "ds = digs_of 5 n"
proof (rule digs_of_unique)
  define r4 r3 r2 where "r4 = n mod LIM4" and "r3 = r4 mod LIM3" and "r2 = r3 mod LIM2"
  note r = r4_def r3_def r2_def
  have u: "map unat ds = [r2 mod BASE, r2 div BASE, r3 div LIM2, r4 div LIM3, n div LIM4]"
    using ds by (simp only: r)
  have "n div LIM4 < BASE" "r4 div LIM3 < BASE" "r3 div LIM2 < BASE" "r2 div BASE < BASE"
    using n by (simp_all add: less_mult_imp_div_less r)
  then have "\<forall>d \<in> set (map unat ds). d < BASE" unfolding u by simp
  then show "\<forall>d \<in> set ds. unat d < BASE" by simp
  from u have "length (map unat ds) = 5" by (simp only: list.size)
  then show "length ds = 5" by simp
  have "digs_val ds = foldr (\<lambda>d acc. d + BASE * acc) (map unat ds) 0"
    by (induction ds) auto
  also have "\<dots> = r2 mod BASE + BASE * (r2 div BASE + BASE * (r3 div LIM2 +
        BASE * (r4 div LIM3 + BASE * (n div LIM4))))"
    unfolding u by simp
  also have "\<dots> = n"
    using div_mult_mod_eq [of r2 BASE] div_mult_mod_eq [of r3 LIM2]
      div_mult_mod_eq [of r4 LIM3] div_mult_mod_eq [of n LIM4]
    by (simp only: r [symmetric]) simp
  finally show "digs_val ds = n" .
qed

text \<open>Exact word arithmetic of one step: quotient, remainder and the values they denote.\<close>

lemma word_step:
  fixes A L :: "'w::len word"
  assumes "unat A div unat L < 2 ^ 32"
  shows "A - ucast (ucast (A div L) :: u32) * L = A mod L"
    and "unat (ucast (A div L) :: u32) = unat A div unat L"
    and "unat (A mod L) = unat A mod unat L"
  using assms by (simp_all add: rem_word unat_div unat_mod unat_ucast_small)

lemma UInt128_digits: "CFBigNumInitWithUInt128 x = \<lparr>digits = digs_of 5 (unat x), sign = 0\<rparr>"
proof -
  let ?L4 = "1000000000000000000000000000000000000 :: u128"
  let ?L3 = "1000000000000000000000000000 :: u128"
  let ?L2 = "1000000000000000000 :: u128"
  have n: "unat x < 2 ^ 128" using unsigned_less [of x] by simp
  then have q4: "unat x div unat ?L4 < 2 ^ 32" by (simp add: less_mult_imp_div_less)
  note s4 = word_step [OF q4]
  have q3: "unat (x mod ?L4) div unat ?L3 < 2 ^ 32"
    by (simp add: s4 less_mult_imp_div_less)
  note s3 = word_step [OF q3]
  have q2: "unat (x mod ?L4 mod ?L3) div unat ?L2 < 2 ^ 32"
    by (simp add: s3 less_mult_imp_div_less)
  note s2 = word_step [OF q2]
  have q1: "unat (x mod ?L4 mod ?L3 mod ?L2) div unat (1000000000 :: u128) < 2 ^ 32"
    by (simp add: s2 less_mult_imp_div_less)
  note s1 = word_step [OF q1]
  have ds: "CFBigNumInitWithUInt128 x = \<lparr>digits =
      [ucast (x mod ?L4 mod ?L3 mod ?L2 mod 1000000000),
       ucast (x mod ?L4 mod ?L3 mod ?L2 div 1000000000), ucast (x mod ?L4 mod ?L3 div ?L2),
       ucast (x mod ?L4 div ?L3), ucast (x div ?L4)], sign = 0\<rparr>" (is "_ = \<lparr>digits = ?ds, sign = 0\<rparr>")
    by (simp only: CFBigNumInitWithUInt128_def Let_def CFBigNum_init_defs s4(1) s3(1) s2(1) s1(1)
        CFBigNum_upd5 CFBigNum.simps)
  have "?ds = digs_of 5 (unat x)"
  proof (rule digs_of_quotients [OF n])
    have "unat (ucast (x mod ?L4 mod ?L3 mod ?L2 mod 1000000000) :: u32)
        = unat (x mod ?L4 mod ?L3 mod ?L2 mod 1000000000)"
      by (rule unat_ucast_small) (simp only: s1(3), simp add: less_trans [OF mod_less_divisor])
    then show "map unat ?ds = [unat x mod LIM4 mod LIM3 mod LIM2 mod BASE,
        unat x mod LIM4 mod LIM3 mod LIM2 div BASE, unat x mod LIM4 mod LIM3 div LIM2,
        unat x mod LIM4 div LIM3, unat x div LIM4]"
      by (simp only: list.map s4 s3 s2 s1) simp
  qed
  with ds show ?thesis by simp
qed

text \<open>The narrower unsigned initialisers.\<close>

lemma UInt64_digits: "CFBigNumInitWithUInt64 x = \<lparr>digits = digs_of 5 (unat x), sign = 0\<rparr>"
proof -
  let ?L2 = "1000000000000000000 :: u64"
  have n: "unat x < 2 ^ 64" using unsigned_less [of x] by simp
  then have q2: "unat x div unat ?L2 < 2 ^ 32" by (simp add: less_mult_imp_div_less)
  note s2 = word_step [OF q2]
  have q1: "unat (x mod ?L2) div unat (1000000000 :: u64) < 2 ^ 32"
    by (simp add: s2 less_mult_imp_div_less)
  note s1 = word_step [OF q1]
  have ds: "CFBigNumInitWithUInt64 x = \<lparr>digits =
      [ucast (x mod ?L2 mod 1000000000), ucast (x mod ?L2 div 1000000000), ucast (x div ?L2),
       0, 0], sign = 0\<rparr>" (is "_ = \<lparr>digits = ?ds, sign = 0\<rparr>")
    by (simp only: CFBigNumInitWithUInt64_def Let_def CFBigNum_init_defs s2(1) s1(1)
        CFBigNum_upd5 CFBigNum.simps)
  have "?ds = digs_of 5 (unat x)"
  proof (rule digs_of_quotients)
    have "unat (ucast (x mod ?L2 mod 1000000000) :: u32) = unat (x mod ?L2 mod 1000000000)"
      by (rule unat_ucast_small) (simp only: s1(3), simp add: less_trans [OF mod_less_divisor])
    then show "map unat ?ds = [unat x mod LIM4 mod LIM3 mod LIM2 mod BASE,
        unat x mod LIM4 mod LIM3 mod LIM2 div BASE, unat x mod LIM4 mod LIM3 div LIM2,
        unat x mod LIM4 div LIM3, unat x div LIM4]"
      using n by (simp only: list.map s2 s1) simp
  qed (use n in simp)
  with ds show ?thesis by simp
qed

lemma UInt32_digits: "CFBigNumInitWithUInt32 x = \<lparr>digits = digs_of 5 (unat x), sign = 0\<rparr>"
proof -
  have n: "unat x < 2 ^ 32" using unsigned_less [of x] by simp
  have ds: "CFBigNumInitWithUInt32 x = \<lparr>digits =
      [x mod 1000000000, x div 1000000000, 0, 0, 0], sign = 0\<rparr>" (is "_ = \<lparr>digits = ?ds, sign = 0\<rparr>")
    by (simp only: CFBigNumInitWithUInt32_def Let_def CFBigNum_init_defs minus_div_mult_eq_mod
        CFBigNum_upd5 CFBigNum.simps)
  have "?ds = digs_of 5 (unat x)"
    by (rule digs_of_quotients) (use n in \<open>simp_all add: unat_mod unat_div\<close>)
  with ds show ?thesis by simp
qed

lemma digs_of_small_number: "n < BASE \<Longrightarrow> digs_of 5 n = [word_of_nat n, 0, 0, 0, 0]"
proof -
  assume n: "n < BASE"
  have five: "5 = Suc (Suc (Suc (Suc (Suc 0))))" by simp
  show ?thesis unfolding five using n by simp
qed

lemma unat16_small: "unat (x :: u16) < BASE"
  using unsigned_less [of x, where 'a = nat] by simp

lemma unat8_small: "unat (x :: u8) < BASE"
  using unsigned_less [of x, where 'a = nat] by simp

lemma UInt16_digits: "CFBigNumInitWithUInt16 x = \<lparr>digits = digs_of 5 (unat x), sign = 0\<rparr>"
  by (simp add: CFBigNumInitWithUInt16_def Let_def CFBigNum_zeroed_list
      digs_of_small_number [OF unat16_small])

lemma UInt8_digits: "CFBigNumInitWithUInt8 x = \<lparr>digits = digs_of 5 (unat x), sign = 0\<rparr>"
  by (simp add: CFBigNumInitWithUInt8_def Let_def CFBigNum_zeroed_list
      digs_of_small_number [OF unat8_small])

text \<open>A signed initialiser is the unsigned one on the magnitude, with the sign recorded.\<close>

lemma Int_as_UInt:
  "CFBigNumInitWithInt8 a = (if sint a < 0 then (CFBigNumInitWithUInt8 (- a))\<lparr>sign := -1\<rparr>
     else CFBigNumInitWithUInt8 a)"
  "CFBigNumInitWithInt16 b = (if sint b < 0 then (CFBigNumInitWithUInt16 (- b))\<lparr>sign := -1\<rparr>
     else CFBigNumInitWithUInt16 b)"
  "CFBigNumInitWithInt32 c = (if sint c < 0 then (CFBigNumInitWithUInt32 (- c))\<lparr>sign := -1\<rparr>
     else CFBigNumInitWithUInt32 c)"
  "CFBigNumInitWithInt64 d = (if sint d < 0 then (CFBigNumInitWithUInt64 (- d))\<lparr>sign := -1\<rparr>
     else CFBigNumInitWithUInt64 d)"
  "CFBigNumInitWithInt128 e = (if sint e < 0 then (CFBigNumInitWithUInt128 (- e))\<lparr>sign := -1\<rparr>
     else CFBigNumInitWithUInt128 e)"
  by (simp_all add: CFBigNumInitWithInt8_def CFBigNumInitWithUInt8_def
      CFBigNumInitWithInt16_def CFBigNumInitWithUInt16_def
      CFBigNumInitWithInt32_def CFBigNumInitWithUInt32_def
      CFBigNumInitWithInt64_def CFBigNumInitWithUInt64_def
      CFBigNumInitWithInt128_def CFBigNumInitWithUInt128_def Let_def)

lemma bn_of_int_signed:
  "(if sint x < 0 then \<lparr>digits = digs_of 5 (unat (- x)), sign = -1\<rparr>
    else \<lparr>digits = digs_of 5 (unat x), sign = 0\<rparr>) = bn_of_int (sint x)" for x :: "'w::len word"
proof (cases "sint x < 0")
  case True
  then have "nat (- sint x) = unat (- x)" by (metis nat_int unat_neg_sint)
  with True show ?thesis by (simp add: bn_of_int_def)
next
  case False
  then have "nat (sint x) = unat x" by (metis nat_int unat_pos_sint linorder_not_less)
  with False show ?thesis by (simp add: bn_of_int_def)
qed

lemmas UInt_digits = UInt8_digits UInt16_digits UInt32_digits UInt64_digits UInt128_digits

lemma UInt_spec:
  "CFBigNumInitWithUInt8 a = bn_of_int (uint a)" "CFBigNumInitWithUInt16 b = bn_of_int (uint b)"
  "CFBigNumInitWithUInt32 c = bn_of_int (uint c)" "CFBigNumInitWithUInt64 d = bn_of_int (uint d)"
  "CFBigNumInitWithUInt128 e = bn_of_int (uint e)"
  by (simp_all add: UInt_digits bn_of_int_def)

lemma Int_spec:
  "CFBigNumInitWithInt8 a = bn_of_int (sint a)" "CFBigNumInitWithInt16 b = bn_of_int (sint b)"
  "CFBigNumInitWithInt32 c = bn_of_int (sint c)" "CFBigNumInitWithInt64 d = bn_of_int (sint d)"
  "CFBigNumInitWithInt128 e = bn_of_int (sint e)"
  by (simp_all only: Int_as_UInt UInt_digits CFBigNum.simps bn_of_int_signed)

section \<open>The readers\<close>

lemma digs_val_5: "length ds = 5 \<Longrightarrow> digs_val ds = unat (ds ! 0) + BASE * unat (ds ! 1)
    + LIM2 * unat (ds ! 2) + LIM3 * unat (ds ! 3) + LIM4 * unat (ds ! 4)"
proof -
  assume "length ds = 5"
  then obtain a b c d e where "ds = [a, b, c, d, e]"
    by (auto simp: length_Suc_conv eval_nat_numeral)
  then show ?thesis by simp
qed

lemma word_of_nat_unat: "ucast d = (word_of_nat (unat d) :: 'w::len word)" for d :: u32
  by simp

lemma GetUInt128_val: "length (digits b) = 5 \<Longrightarrow> CFBigNumGetUInt128 b = word_of_nat (bn_mag b)"
  by (simp add: CFBigNumGetUInt128_def bn_mag_def digs_val_5 Let_def)

lemma GetUInt64_val:
  "length (digits b) = 5 \<Longrightarrow> digits b ! 3 = 0 \<Longrightarrow> digits b ! 4 = 0 \<Longrightarrow>
     CFBigNumGetUInt64 b = word_of_nat (bn_mag b)"
  by (simp add: CFBigNumGetUInt64_def bn_mag_def digs_val_5 Let_def)

lemma GetUInt32_val:
  "length (digits b) = 5 \<Longrightarrow> digits b ! 2 = 0 \<Longrightarrow> digits b ! 3 = 0 \<Longrightarrow> digits b ! 4 = 0 \<Longrightarrow>
     CFBigNumGetUInt32 b = word_of_nat (bn_mag b)"
  by (simp add: CFBigNumGetUInt32_def bn_mag_def digs_val_5 Let_def)

lemma Get_signed:
  "CFBigNumGetInt8 b = (if sint (sign b) < 0 then - CFBigNumGetUInt8 b else CFBigNumGetUInt8 b)"
  "CFBigNumGetInt16 b = (if sint (sign b) < 0 then - CFBigNumGetUInt16 b else CFBigNumGetUInt16 b)"
  "CFBigNumGetInt32 b = (if sint (sign b) < 0 then - CFBigNumGetUInt32 b else CFBigNumGetUInt32 b)"
  "CFBigNumGetInt64 b = (if sint (sign b) < 0 then - CFBigNumGetUInt64 b else CFBigNumGetUInt64 b)"
  "CFBigNumGetInt128 b =
     (if sint (sign b) < 0 then - CFBigNumGetUInt128 b else CFBigNumGetUInt128 b)"
  by (simp_all only: CFBigNumGetInt8_def CFBigNumGetUInt8_def CFBigNumGetInt16_def
      CFBigNumGetUInt16_def CFBigNumGetInt32_def CFBigNumGetUInt32_def CFBigNumGetInt64_def
      CFBigNumGetUInt64_def CFBigNumGetInt128_def CFBigNumGetUInt128_def Let_def mult_minus1)

lemma GetUInt16_val:
  "length (digits b) = 5 \<Longrightarrow> digits b ! 1 = 0 \<Longrightarrow> digits b ! 2 = 0 \<Longrightarrow> digits b ! 3 = 0 \<Longrightarrow>
     digits b ! 4 = 0 \<Longrightarrow> CFBigNumGetUInt16 b = word_of_nat (bn_mag b)"
  by (simp add: CFBigNumGetUInt16_def bn_mag_def digs_val_5 Let_def)

lemma GetUInt8_val:
  "length (digits b) = 5 \<Longrightarrow> digits b ! 1 = 0 \<Longrightarrow> digits b ! 2 = 0 \<Longrightarrow> digits b ! 3 = 0 \<Longrightarrow>
     digits b ! 4 = 0 \<Longrightarrow> CFBigNumGetUInt8 b = word_of_nat (bn_mag b)"
  by (simp add: CFBigNumGetUInt8_def bn_mag_def digs_val_5 Let_def)

lemmas GetUInt_val = GetUInt8_val GetUInt16_val GetUInt32_val GetUInt64_val GetUInt128_val

text \<open>Every signed reader returns the value, wrapped to its width, when the digits it does not read
  are 0.\<close>

lemma GetInt_val:
  "length (digits b) = 5 \<Longrightarrow> digits b ! 1 = 0 \<Longrightarrow> digits b ! 2 = 0 \<Longrightarrow> digits b ! 3 = 0 \<Longrightarrow>
     digits b ! 4 = 0 \<Longrightarrow> CFBigNumGetInt8 b = word_of_int (bn_val b)"
  "length (digits b) = 5 \<Longrightarrow> digits b ! 1 = 0 \<Longrightarrow> digits b ! 2 = 0 \<Longrightarrow> digits b ! 3 = 0 \<Longrightarrow>
     digits b ! 4 = 0 \<Longrightarrow> CFBigNumGetInt16 b = word_of_int (bn_val b)"
  "length (digits b) = 5 \<Longrightarrow> digits b ! 2 = 0 \<Longrightarrow> digits b ! 3 = 0 \<Longrightarrow> digits b ! 4 = 0 \<Longrightarrow>
     CFBigNumGetInt32 b = word_of_int (bn_val b)"
  "length (digits b) = 5 \<Longrightarrow> digits b ! 3 = 0 \<Longrightarrow> digits b ! 4 = 0 \<Longrightarrow>
     CFBigNumGetInt64 b = word_of_int (bn_val b)"
  "length (digits b) = 5 \<Longrightarrow> CFBigNumGetInt128 b = word_of_int (bn_val b)"
  by (simp_all only: Get_signed GetUInt_val bn_val_def) (simp_all split: if_splits)

lemma digs_of_5_high:
  "n < LIM4 \<Longrightarrow> digs_of 5 n ! 4 = 0" "n < LIM3 \<Longrightarrow> digs_of 5 n ! 3 = 0"
  "n < LIM2 \<Longrightarrow> digs_of 5 n ! 2 = 0" "n < BASE \<Longrightarrow> digs_of 5 n ! Suc 0 = 0"
proof -
  have five: "5 = Suc (Suc (Suc (Suc (Suc 0))))" by simp
  have ix: "4 = Suc (Suc (Suc (Suc 0)))" "3 = Suc (Suc (Suc 0))" "2 = Suc (Suc 0)" by simp_all
  show "n < LIM4 \<Longrightarrow> digs_of 5 n ! 4 = 0" "n < LIM3 \<Longrightarrow> digs_of 5 n ! 3 = 0"
    "n < LIM2 \<Longrightarrow> digs_of 5 n ! 2 = 0" "n < BASE \<Longrightarrow> digs_of 5 n ! Suc 0 = 0"
    unfolding five ix by (simp_all add: div_mult2_eq [symmetric])
qed

lemma bn_of_int_high:
  "\<bar>v\<bar> < int LIM4 \<Longrightarrow> digits (bn_of_int v) ! 4 = 0" "\<bar>v\<bar> < int LIM3 \<Longrightarrow> digits (bn_of_int v) ! 3 = 0"
  "\<bar>v\<bar> < int LIM2 \<Longrightarrow> digits (bn_of_int v) ! 2 = 0" "\<bar>v\<bar> < int BASE \<Longrightarrow> digits (bn_of_int v) ! Suc 0 = 0"
  by (simp_all add: bn_of_int_def digs_of_5_high)

lemma length_digits_of_int [simp]: "length (digits (bn_of_int v)) = 5"
  by (simp add: bn_of_int_def)

text \<open>Reading a number of the range of the type back gives its value.\<close>

lemma Get_of_int:
  "\<bar>v\<bar> < int BASE \<Longrightarrow> CFBigNumGetInt8 (bn_of_int v) = word_of_int v"
  "\<bar>v\<bar> < int BASE \<Longrightarrow> CFBigNumGetInt16 (bn_of_int v) = word_of_int v"
  "\<bar>v\<bar> < int LIM2 \<Longrightarrow> CFBigNumGetInt32 (bn_of_int v) = word_of_int v"
  "\<bar>v\<bar> < int LIM3 \<Longrightarrow> CFBigNumGetInt64 (bn_of_int v) = word_of_int v"
  "\<bar>v\<bar> < 10 ^ 45 \<Longrightarrow> CFBigNumGetInt128 (bn_of_int v) = word_of_int v"
  using bn_val_of_int [of v] by (simp_all add: GetInt_val bn_of_int_high)

lemma sint_ranges:
  "\<bar>sint (a :: u8)\<bar> < int BASE" "\<bar>sint (b :: u16)\<bar> < int BASE" "\<bar>sint (c :: u32)\<bar> < int LIM2"
  "\<bar>sint (d :: u64)\<bar> < int LIM3" "\<bar>sint (e :: u128)\<bar> < 10 ^ 45"
  using sint_lt_power [of a] sint_gt_power [of a] sint_lt_power [of b] sint_gt_power [of b]
    sint_lt_power [of c] sint_gt_power [of c] sint_lt_power [of d] sint_gt_power [of d]
    sint_lt_power [of e] sint_gt_power [of e] by simp_all

text \<open>C28. Every signed integer of 8, 16, 32, 64 and 128 bits is read back unchanged from the number it
  initialised.  The most negative one of 32, 64 and 128 bits is left out: there \<open>-1 * inNum\<close> and
  \<open>-1 * result\<close> overflow, which C leaves undefined (for 8 and 16 bits the product is an \<open>int\<close>, so these
  are complete).\<close>

theorem CFBigNum_get_init_roundtrip:
  assumes "sint c \<noteq> - (2 ^ 31)" "sint d \<noteq> - (2 ^ 63)" "sint e \<noteq> - (2 ^ 127)"
  shows "CFBigNumGetInt8 (CFBigNumInitWithInt8 a) = a \<and>
    CFBigNumGetInt16 (CFBigNumInitWithInt16 b) = b \<and>
    CFBigNumGetInt32 (CFBigNumInitWithInt32 c) = c \<and>
    CFBigNumGetInt64 (CFBigNumInitWithInt64 d) = d \<and>
    CFBigNumGetInt128 (CFBigNumInitWithInt128 e) = e"
  by (simp only: Int_spec Get_of_int sint_ranges word_of_int_sint)

lemma CFBigNum_get_init_roundtrip_witness:
  "CFBigNumGetInt8 (CFBigNumInitWithInt8 (- 128)) = - 128 \<and>
   CFBigNumGetInt16 (CFBigNumInitWithInt16 (- 32768)) = - 32768 \<and>
   CFBigNumGetInt32 (CFBigNumInitWithInt32 (- 2147483647)) = - 2147483647 \<and>
   CFBigNumGetInt64 (CFBigNumInitWithInt64 (- 5000000000)) = - 5000000000 \<and>
   CFBigNumGetInt128 (CFBigNumInitWithInt128 7) = 7"
  by (rule CFBigNum_get_init_roundtrip) simp_all

section \<open>Comparison\<close>

lemma digs_val_snoc_less:
  assumes "x < y" "length xs = length ys" "\<forall>d \<in> set xs. unat d < BASE"
  shows "digs_val (xs @ [x]) < digs_val (ys @ [y])"
proof -
  have "digs_val xs < BASE ^ length ys" using digs_val_bound [OF assms(3)] assms(2) by simp
  moreover have "unat x + 1 \<le> unat y" using assms(1) by (simp add: word_less_nat_alt)
  then have "BASE ^ length ys * (unat x + 1) \<le> BASE ^ length ys * unat y" by (rule mult_le_mono2)
  ultimately show ?thesis using assms(2) by (simp add: digs_val_append)
qed

lemma CFBigNumCompare_loop_val:
  "length xs = length ys \<Longrightarrow> \<forall>d \<in> set xs. unat d < BASE \<Longrightarrow> \<forall>d \<in> set ys. unat d < BASE \<Longrightarrow>
     CFBigNumCompare_loop neg xs ys =
       (if neg then cmp_of (digs_val (rev ys)) (digs_val (rev xs))
        else cmp_of (digs_val (rev xs)) (digs_val (rev ys)))"
proof (induction neg xs ys rule: CFBigNumCompare_loop.induct)
  case (1 neg x xs y ys)
  consider "x < y" | "y < x" | "x = y" by (meson neqE)
  then show ?case
  proof cases
    case 1
    then have "digs_val (rev (x # xs)) < digs_val (rev (y # ys))"
      using "1.prems" by (simp add: digs_val_snoc_less)
    with \<open>x < y\<close> show ?thesis by (auto simp: cmp_of_def)
  next
    case 2
    then have "digs_val (rev (y # ys)) < digs_val (rev (x # xs))"
      using "1.prems" by (simp add: digs_val_snoc_less)
    with \<open>y < x\<close> show ?thesis by (auto simp: cmp_of_def)
  next
    case 3
    with 1 show ?thesis by (auto simp: digs_val_append cmp_of_def)
  qed
qed (auto simp: cmp_of_def)

lemma CFBigNumAbsoluteLessThan_loop_compare:
  "CFBigNumAbsoluteLessThan_loop xs ys \<longleftrightarrow> CFBigNumCompare_loop False xs ys = kCFCompareLessThan"
  by (induction xs ys rule: CFBigNumAbsoluteLessThan_loop.induct) auto

lemma CFBigNumAbsoluteLessThan_val:
  "bn_wf a \<Longrightarrow> bn_wf b \<Longrightarrow> CFBigNumAbsoluteLessThan a b \<longleftrightarrow> bn_mag a < bn_mag b"
  by (simp add: CFBigNumAbsoluteLessThan_def bn_wf_def bn_mag_def
      CFBigNumAbsoluteLessThan_loop_compare CFBigNumCompare_loop_val)

lemma bn_sign_cases: "bn_wf b \<Longrightarrow> (sign b = 0 \<and> \<not> sint (sign b) < 0) \<or> (sign b = -1 \<and> sint (sign b) < 0)"
  by (auto simp: bn_wf_def)

lemma CFBigNumCompare_val:
  assumes "bn_canonical a" and "bn_canonical b"
  shows "CFBigNumCompare a b = cmp_of (bn_val a) (bn_val b)"
proof -
  have wf: "bn_wf a" "bn_wf b" using assms by (simp_all add: bn_canonical_def)
  have loop: "CFBigNumCompare_loop neg (rev (digits a)) (rev (digits b)) =
      (if neg then cmp_of (bn_mag b) (bn_mag a) else cmp_of (bn_mag a) (bn_mag b))" for neg
    using wf by (simp add: CFBigNumCompare_loop_val bn_wf_def bn_mag_def)
  show ?thesis
    using bn_sign_cases [OF wf(1)] bn_sign_cases [OF wf(2)] assms
    by (auto simp: CFBigNumCompare_def loop bn_val_def cmp_of_def bn_canonical_def)
qed

text \<open>C13. \<open>_CFBigNumCompare\<close> orders canonical numbers as the integers they denote.\<close>

theorem CFBigNumCompare_correct:
  assumes "bn_canonical a" and "bn_canonical b"
  shows "CFBigNumCompare a b = cmp_of (bn_val a) (bn_val b)"
  using assms by (rule CFBigNumCompare_val)

theorem CFBigNumCompare_correct_witness:
  "CFBigNumCompare (bn_of_int (-7)) (bn_of_int 3) = cmp_of (bn_val (bn_of_int (-7))) (bn_val (bn_of_int 3))"
  by (rule CFBigNumCompare_correct) (simp_all add: bn_of_int_canonical)

section \<open>Addition\<close>

lemma unat_add_digits:
  assumes "unat x < BASE" "unat y < BASE" "unat (c :: u8) \<le> 1"
  shows "unat (x + y + ucast c :: u32) = unat x + unat y + unat c"
proof -
  have "unat (ucast c :: u32) = unat c" using assms(3) by (simp add: unat_ucast)
  with assms show ?thesis by (simp add: unat_word_ariths)
qed

lemma CFBigNumAdd_same_loop_val:
  "CFBigNumAdd_same_loop c xs ys = (rs, c') \<Longrightarrow> length xs = length ys \<Longrightarrow>
   \<forall>d \<in> set xs. unat d < BASE \<Longrightarrow> \<forall>d \<in> set ys. unat d < BASE \<Longrightarrow> unat c \<le> 1 \<Longrightarrow>
     digs_val rs + BASE ^ length xs * unat c' = digs_val xs + digs_val ys + unat c \<and>
     unat c' \<le> 1 \<and> length rs = length xs \<and> (\<forall>d \<in> set rs. unat d \<le> BASE)"
proof (induction c xs ys arbitrary: rs c' rule: CFBigNumAdd_same_loop.induct)
  case (1 c x xs y ys)
  define s where "s = x + y + ucast c"
  define r where "r = (if s > 1000000000 then s - 1000000000 else s)"
  define k where "k = (if s > 1000000000 then 1 else 0 :: u8)"
  have s: "unat s = unat x + unat y + unat c"
    unfolding s_def by (rule unat_add_digits) (use "1.prems" in auto)
  have r: "unat r + BASE * unat k = unat x + unat y + unat c" "unat r \<le> BASE" "unat k \<le> 1"
    using s "1.prems" by (auto simp: r_def k_def word_less_nat_alt unat_sub word_le_nat_alt)
  obtain rs1 where rs1: "CFBigNumAdd_same_loop k xs ys = (rs1, c')" "rs = r # rs1"
    using "1.prems"(1) by (auto simp: s_def r_def k_def Let_def split: prod.splits if_splits)
  have "digs_val rs1 + BASE ^ length xs * unat c' = digs_val xs + digs_val ys + unat k \<and>
     unat c' \<le> 1 \<and> length rs1 = length xs \<and> (\<forall>d \<in> set rs1. unat d \<le> BASE)"
    by (rule "1.IH" [of s "(r, k)" r k])
      (use "1.prems" r(3) rs1(1) in \<open>auto simp: r_def k_def s_def\<close>)
  with r rs1(2) show ?case by (auto simp: algebra_simps)
qed auto

text \<open>The subtraction loop borrows instead of carrying; its intermediate results are signed.\<close>

lemma sint_word_of_int_64: "- (2 ^ 63) \<le> k \<Longrightarrow> k < 2 ^ 63 \<Longrightarrow> sint (word_of_int k :: u64) = k"
  by (simp add: signed_of_int signed_take_bit_int_eq_self)

lemma sint_sub_digits:
  assumes "unat x < BASE" "unat y < BASE" "unat (c :: u8) \<le> 1"
  defines "k \<equiv> int (unat x) - int (unat y) - int (unat c)"
  shows "(ucast (x :: u32) :: u64) - ucast (y :: u32) - ucast c = word_of_int k"
    and "sint (word_of_int k :: u64) = k" and "- int BASE \<le> k" and "k < int BASE"
proof -
  show b: "- int BASE \<le> k" "k < int BASE" unfolding k_def using assms(1-3) by linarith+
  then show "sint (word_of_int k :: u64) = k" by (intro sint_word_of_int_64) simp_all
  show "(ucast x :: u64) - ucast y - ucast c = word_of_int k"
    by (simp add: k_def)
qed

lemma CFBigNumAdd_diff_loop_val:
  "CFBigNumAdd_diff_loop c xs ys = (rs, c') \<Longrightarrow> length xs = length ys \<Longrightarrow>
   \<forall>d \<in> set xs. unat d < BASE \<Longrightarrow> \<forall>d \<in> set ys. unat d < BASE \<Longrightarrow> unat c \<le> 1 \<Longrightarrow>
     int (digs_val rs) - int (BASE ^ length xs) * int (unat c') =
       int (digs_val xs) - int (digs_val ys) - int (unat c) \<and>
     unat c' \<le> 1 \<and> length rs = length xs \<and> (\<forall>d \<in> set rs. unat d < BASE)"
proof (induction c xs ys arbitrary: rs c' rule: CFBigNumAdd_diff_loop.induct)
  case (1 c x xs y ys)
  define s where "s = (ucast x :: u64) - ucast y - ucast c"
  define k where "k = int (unat x) - int (unat y) - int (unat c)"
  define r where "r = (if sint s < 0 then s + 1000000000 else s)"
  define b where "b = (if sint s < 0 then 1 else 0 :: u8)"
  have xyc: "unat x < BASE" "unat y < BASE" "unat c \<le> 1" using "1.prems" by auto
  have s: "s = word_of_int k" "sint s = k" and kb: "- int BASE \<le> k" "k < int BASE"
    using sint_sub_digits [OF xyc] by (simp_all only: s_def k_def)
  define v where "v = (if k < 0 then k + int BASE else k)"
  have v: "0 \<le> v" "v < int BASE" "v - int BASE * int (unat b) = k" "unat b \<le> 1"
    using kb s by (auto simp: v_def b_def)
  have "r = word_of_int v" using s by (simp add: r_def v_def)
  then have r: "unat (ucast r :: u32) = nat v"
    using v by (simp add: unat_ucast unsigned_of_int take_bit_int_eq_self)
  obtain rs1 where rs1: "CFBigNumAdd_diff_loop b xs ys = (rs1, c')" "rs = ucast r # rs1"
    using "1.prems"(1) by (auto simp: s_def r_def b_def Let_def split: prod.splits if_splits)
  have "int (digs_val rs1) - int (BASE ^ length xs) * int (unat c') =
       int (digs_val xs) - int (digs_val ys) - int (unat b) \<and>
     unat c' \<le> 1 \<and> length rs1 = length xs \<and> (\<forall>d \<in> set rs1. unat d < BASE)"
    by (rule "1.IH" [of s "(r, b)" r b])
      (use "1.prems" v rs1(1) in \<open>auto simp: r_def b_def s_def\<close>)
  with r v rs1(2) show ?case by (auto simp: k_def algebra_simps)
qed auto

lemma CFBigNumAdd_same_sign:
  assumes "bn_wf a" and "bn_wf b" and "sign a = sign b" and "CFBigNumAdd a b = (r, carry)"
  shows "bn_val r + (if sint (sign a) < 0 then -1 else 1) * 10 ^ 45 * int (unat carry)
      = bn_val a + bn_val b"
    and "unat carry \<le> 1 \<and> length (digits r) = 5 \<and> (\<forall>d \<in> set (digits r). unat d \<le> BASE)"
proof -
  obtain ds c where ds: "CFBigNumAdd_same_loop 0 (digits a) (digits b) = (ds, c)"
    by fastforce
  then have r: "r = \<lparr>digits = ds, sign = sign a\<rparr>" "carry = c"
    using assms by (auto simp: CFBigNumAdd_def)
  have v: "digs_val ds + BASE ^ 5 * unat c = bn_mag a + bn_mag b \<and>
      unat c \<le> 1 \<and> length ds = 5 \<and> (\<forall>d \<in> set ds. unat d \<le> BASE)"
    using CFBigNumAdd_same_loop_val [OF ds] assms by (auto simp: bn_wf_def bn_mag_def)
  then have "int (digs_val ds + BASE ^ 5 * unat c) = int (bn_mag a + bn_mag b)" by simp
  then show "bn_val r + (if sint (sign a) < 0 then -1 else 1) * 10 ^ 45 * int (unat carry)
      = bn_val a + bn_val b"
    using assms(3) by (simp add: r bn_val_def) (simp add: bn_mag_def)
  show "unat carry \<le> 1 \<and> length (digits r) = 5 \<and> (\<forall>d \<in> set (digits r). unat d \<le> BASE)"
    using v by (simp add: r)
qed

lemma CFBigNumAdd_diff_sign:
  assumes "bn_wf a" and "bn_wf b" and "sign a \<noteq> sign b" and "CFBigNumAdd a b = (r, carry)"
  shows "bn_val r = bn_val a + bn_val b \<and> carry = 0 \<and> bn_wf r"
proof -
  define x y where "x = (if bn_mag a < bn_mag b then b else a)"
    and "y = (if bn_mag a < bn_mag b then a else b)"
  have xy: "bn_wf x" "bn_wf y" "bn_mag y \<le> bn_mag x" "sign x \<noteq> sign y"
    using assms by (auto simp: x_def y_def)
  obtain ds c where ds: "CFBigNumAdd_diff_loop 0 (digits x) (digits y) = (ds, c)"
    by fastforce
  have r: "r = \<lparr>digits = ds, sign = (if sint (sign x) < 0 then -1 else 0)\<rparr>" "carry = c"
    using assms ds by (auto simp: CFBigNumAdd_def CFBigNumAbsoluteLessThan_val x_def y_def
        split: if_splits)
  have v: "int (digs_val ds) - int (BASE ^ 5) * int (unat c) = int (bn_mag x) - int (bn_mag y)"
    "unat c \<le> 1" "length ds = 5" "\<forall>d \<in> set ds. unat d < BASE"
    using CFBigNumAdd_diff_loop_val [OF ds] xy by (auto simp: bn_wf_def bn_mag_def)
  have "digs_val ds < BASE ^ 5" using digs_val_bound [OF v(4)] v(3) by simp
  with v(1,2) xy(3) have "unat c = 0"
    by (cases "unat c") (auto simp: le_Suc_eq)
  then have c: "c = 0" by (simp add: unat_eq_zero)
  with v have "int (digs_val ds) = int (bn_mag x) - int (bn_mag y)" by simp
  then have "bn_val r = bn_val x + bn_val y"
    using bn_sign_cases [OF xy(1)] bn_sign_cases [OF xy(2)] xy(4)
    by (auto simp: r bn_val_def bn_mag_def)
  also have "\<dots> = bn_val a + bn_val b" by (simp add: x_def y_def)
  finally show ?thesis using c v by (auto simp: r bn_wf_def)
qed

text \<open>C14. \<open>_CFBigNumAdd\<close> computes the exact sum: the number stored in the result, plus the returned
  carry as a sixth digit of weight 10^45 with the common sign, is the sum of the operands; operands
  of different sign never carry and give digits below the base.\<close>

theorem CFBigNumAdd_value:
  assumes "bn_wf a" and "bn_wf b" and "CFBigNumAdd a b = (r, carry)"
  shows "bn_val r + (if sint (sign a) < 0 then -1 else 1) * 10 ^ 45 * int (unat carry)
           = bn_val a + bn_val b \<and>
    (sign a \<noteq> sign b \<longrightarrow> carry = 0 \<and> bn_wf r)"
proof (cases "sign a = sign b")
  case True
  with CFBigNumAdd_same_sign(1) [OF assms(1,2) True assms(3)] show ?thesis by simp
next
  case False
  with CFBigNumAdd_diff_sign [OF assms(1,2) False assms(3)] show ?thesis by simp
qed

lemma bn_wf_999999999: "bn_wf \<lparr>digits = [999999999, 0, 0, 0, 0], sign = 0\<rparr>"
  by (simp add: bn_wf_def)

lemma CFBigNumAdd_999999999_2:
  "CFBigNumAdd \<lparr>digits = [999999999, 0, 0, 0, 0], sign = 0\<rparr> \<lparr>digits = [2, 0, 0, 0, 0], sign = 0\<rparr>
     = (\<lparr>digits = [1, 1, 0, 0, 0], sign = 0\<rparr>, 0)"
  by (simp add: CFBigNumAdd_def)

theorem CFBigNumAdd_value_witness:
  "bn_val \<lparr>digits = [1, 1, 0, 0, 0], sign = 0\<rparr> + (if sint (0 :: u8) < 0 then -1 else 1) * 10 ^ 45
      * int (unat (0 :: u8))
     = bn_val \<lparr>digits = [999999999, 0, 0, 0, 0], sign = 0\<rparr> + bn_val \<lparr>digits = [2, 0, 0, 0, 0], sign = 0\<rparr>"
  using CFBigNumAdd_value [OF bn_wf_999999999 _ CFBigNumAdd_999999999_2]
  by (simp add: bn_wf_def)

text \<open>The carry test is \<open>result > BIG_DIGITS_LIMIT\<close>, so a digit sum of exactly 10^9 is stored as a
  digit 10^9, outside the documented range 0 to 999999999.\<close>

lemma CFBigNumAdd_not_normalised:
  "bn_canonical (bn_of_int 999999999) \<and> bn_canonical (bn_of_int 1) \<and>
   fst (CFBigNumAdd (bn_of_int 999999999) (bn_of_int 1)) =
     \<lparr>digits = [1000000000, 0, 0, 0, 0], sign = 0\<rparr>"
proof -
  have five: "5 = Suc (Suc (Suc (Suc (Suc 0))))" by simp
  have "bn_of_int 999999999 = \<lparr>digits = [999999999, 0, 0, 0, 0], sign = 0\<rparr>"
    "bn_of_int 1 = \<lparr>digits = [1, 0, 0, 0, 0], sign = 0\<rparr>"
    by (simp_all add: bn_of_int_def five)
  then show ?thesis
    using bn_of_int_canonical [of 999999999] bn_of_int_canonical [of 1]
    by (simp add: CFBigNumAdd_def)
qed

text \<open>Adding a negative number and its opposite leaves a zero with sign -1, which
  \<open>_CFBigNumCompare\<close> orders below zero.\<close>

lemma CFBigNumAdd_negative_zero:
  "CFBigNumCompare (fst (CFBigNumAdd \<lparr>digits = [5, 0, 0, 0, 0], sign = -1\<rparr>
      \<lparr>digits = [5, 0, 0, 0, 0], sign = 0\<rparr>)) CFBigNum_zeroed = kCFCompareLessThan"
  by (simp add: CFBigNumAdd_def CFBigNumAbsoluteLessThan_def CFBigNumCompare_def
      CFBigNum_zeroed_list)

section \<open>Negation and subtraction\<close>

lemma digs_val_eq_0: "digs_val ds = 0 \<longleftrightarrow> (\<forall>d \<in> set ds. d = 0)"
  by (induction ds) (auto simp: unat_eq_zero)

lemma CFBigNumNeg_mag:
  "CFBigNumNeg a = (if bn_mag a = 0 then a else a\<lparr>sign := sign a * sign a - 1\<rparr>)"
  by (simp add: CFBigNumNeg_def bn_mag_def digs_val_eq_0)

lemma CFBigNumNeg_val: "bn_wf a \<Longrightarrow> bn_val (CFBigNumNeg a) = - bn_val a"
  using bn_sign_cases [of a] by (auto simp: CFBigNumNeg_mag bn_val_def) (auto simp: bn_mag_def)

lemma CFBigNumNeg_wf: "bn_wf a \<Longrightarrow> bn_wf (CFBigNumNeg a)"
  by (auto simp: CFBigNumNeg_mag bn_wf_def)

lemma CFBigNumNeg_canonical: "bn_canonical a \<Longrightarrow> bn_canonical (CFBigNumNeg a)"
  unfolding bn_canonical_def using CFBigNumNeg_wf [of a]
  by (auto simp: CFBigNumNeg_mag bn_mag_def)

text \<open>\<open>_CFBigNumSub\<close> is the exact difference, up to the carry it returns.\<close>

theorem CFBigNumSub_value:
  assumes "bn_wf a" and "bn_wf b" and "CFBigNumSub a b = (r, carry)"
  shows "bn_val r + (if sint (sign a) < 0 then -1 else 1) * 10 ^ 45 * int (unat carry)
           = bn_val a - bn_val b"
proof (cases "sign a = sign (CFBigNumNeg b)")
  case True
  with CFBigNumAdd_same_sign(1) [OF assms(1) CFBigNumNeg_wf [OF assms(2)] True] assms
  show ?thesis by (simp add: CFBigNumSub_def CFBigNumNeg_val)
next
  case False
  with CFBigNumAdd_diff_sign [OF assms(1) CFBigNumNeg_wf [OF assms(2)] False] assms
  show ?thesis by (simp add: CFBigNumSub_def CFBigNumNeg_val)
qed

theorem CFBigNumSub_value_witness:
  "bn_val \<lparr>digits = [1, 0, 0, 0, 0], sign = -1\<rparr> + (if sint (0 :: u8) < 0 then -1 else 1) * 10 ^ 45
      * int (unat (0 :: u8))
     = bn_val \<lparr>digits = [1, 0, 0, 0, 0], sign = 0\<rparr> - bn_val \<lparr>digits = [2, 0, 0, 0, 0], sign = 0\<rparr>"
proof -
  have "CFBigNumSub \<lparr>digits = [1, 0, 0, 0, 0], sign = 0\<rparr> \<lparr>digits = [2, 0, 0, 0, 0], sign = 0\<rparr>
      = (\<lparr>digits = [1, 0, 0, 0, 0], sign = -1\<rparr>, 0)"
    by (simp add: CFBigNumSub_def CFBigNumNeg_def CFBigNumAdd_def CFBigNumAbsoluteLessThan_def)
  from CFBigNumSub_value [OF _ _ this] show ?thesis by (simp add: bn_wf_def)
qed

end
