(* ===== verification/DecimalDigits.thy ===== *)
theory DecimalDigits
  imports CF_Prelude
begin

text \<open>
  Decimal digits as characters, the classes of characters of the C library, and the value of a string
  of digits, for the components that read numbers from text.
\<close>

definition digit_char :: "nat \<Rightarrow> char" where
  "digit_char n = char_of (48 + n)"

definition digit_of_char :: "char \<Rightarrow> nat" where
  "digit_of_char c = of_char c - 48"

definition isdigit :: "char \<Rightarrow> bool" where
  "isdigit c \<longleftrightarrow> 48 \<le> (of_char c :: nat) \<and> (of_char c :: nat) \<le> 57"

definition isspace :: "char \<Rightarrow> bool" where
  "isspace c \<longleftrightarrow> (of_char c :: nat) = 32 \<or> 9 \<le> (of_char c :: nat) \<and> (of_char c :: nat) \<le> 13"

definition digits_value :: "string \<Rightarrow> nat" where
  "digits_value s = foldl (\<lambda>v c. 10 * v + digit_of_char c) 0 s"

lemma digits_value_foldl:
  "foldl (\<lambda>v c. 10 * v + digit_of_char c) a s
     = a * 10 ^ length s + foldl (\<lambda>v c. 10 * v + digit_of_char c) 0 s"
proof (induction s arbitrary: a)
  case Nil
  then show ?case by simp
next
  case (Cons c s)
  let ?f = "foldl (\<lambda>v c. 10 * v + digit_of_char c)"
  have "?f a (c # s) = ?f (10 * a + digit_of_char c) s" "?f 0 (c # s) = ?f (digit_of_char c) s"
    by simp_all
  moreover have "?f (10 * a + digit_of_char c) s = (10 * a + digit_of_char c) * 10 ^ length s + ?f 0 s"
    by (rule Cons)
  moreover have "?f (digit_of_char c) s = digit_of_char c * 10 ^ length s + ?f 0 s"
    by (rule Cons)
  ultimately show ?case by (simp only: list.size power_Suc power_add algebra_simps) simp
qed

lemma digits_value_append:
  "digits_value (s @ t) = digits_value s * 10 ^ length t + digits_value t"
  unfolding digits_value_def foldl_append by (rule digits_value_foldl)

lemma digits_value_Nil [simp]: "digits_value [] = 0"
  by (simp add: digits_value_def)

lemma digits_value_single [simp]: "digits_value [c] = digit_of_char c"
  by (simp add: digits_value_def)

lemma digits_value_Cons: "digits_value (c # s) = digit_of_char c * 10 ^ length s + digits_value s"
  using digits_value_append [of "[c]" s] by simp

lemma digit_char_simps [simp]:
  "n < 10 \<Longrightarrow> digit_of_char (digit_char n) = n" "n < 10 \<Longrightarrow> isdigit (digit_char n)"
  by (simp_all add: digit_char_def digit_of_char_def isdigit_def)

lemma char0 [simp]: "digit_of_char (CHR ''0'') = 0" "isdigit (CHR ''0'')"
  by (simp_all add: digit_of_char_def isdigit_def)

lemma digit_of_char_less: "isdigit c \<Longrightarrow> digit_of_char c < 10"
  unfolding digit_of_char_def isdigit_def by linarith

lemma digits_value_less: "\<forall>c \<in> set s. isdigit c \<Longrightarrow> digits_value s < 10 ^ length s"
proof (induction s)
  case Nil
  then show ?case by simp
next
  case (Cons c s)
  then have "digit_of_char c + 1 \<le> 10" using digit_of_char_less [of c] by simp
  then have "(digit_of_char c + 1) * 10 ^ length s \<le> 10 * 10 ^ length s" by (rule mult_le_mono1)
  then have "digit_of_char c * 10 ^ length s + 10 ^ length s \<le> 10 * 10 ^ length s"
    by (simp only: add_mult_distrib mult_1)
  moreover have "digits_value s < 10 ^ length s" using Cons by simp
  ultimately show ?case by (simp only: digits_value_Cons list.size add_0_right add_Suc_right power_Suc)
qed

lemma digits_value_zeros [simp]: "digits_value (replicate n (CHR ''0'')) = 0"
  by (induction n) (auto simp: digits_value_Cons)

lemma digits_value_dropWhile: "digits_value (dropWhile (\<lambda>c. c = CHR ''0'') s) = digits_value s"
  by (induction s) (auto simp: digits_value_Cons)

lemma isdigit_not_special:
  "isdigit c \<Longrightarrow> \<not> isspace c \<and> c \<noteq> CHR ''-'' \<and> c \<noteq> CHR ''+'' \<and> c \<noteq> CHR 0x00"
  by (auto simp: isdigit_def isspace_def)

end
