(* ===== verification/BigNumberString.thy ===== *)
theory BigNumberString
  imports BigNumber DecimalDigits
begin

text \<open>
  The decimal strings of \<open>CFBigNumber.c\<close>: \<open>_CFBigNumToCString\<close>, \<open>_CFBigNumFromCString\<close> and
  \<open>_CFBigNumCopyDescription\<close>, with the round trip between the first two.  Strings are \<open>char\<close> lists
  without their terminating NUL; buffers hold it.
\<close>

section \<open>Decimal strings\<close>

text \<open>What the code uses of the C library: \<open>%09u\<close> and \<open>%u\<close> of \<open>snprintf\<close>, and \<open>atol\<close> (white space,
  an optional sign, decimal digits up to the first other character, saturated to \<open>long\<close>).\<close>

fun printf_u :: "nat \<Rightarrow> string" where
  "printf_u n = (if n < 10 then [digit_char n] else printf_u (n div 10) @ [digit_char (n mod 10)])"

declare printf_u.simps [simp del]

definition printf_09u :: "u32 \<Rightarrow> string" where
  "printf_09u d = (let s = printf_u (unat d) in replicate (9 - length s) (CHR ''0'') @ s)"

definition atol :: "string \<Rightarrow> int" where
  "atol s = (let s = dropWhile isspace s;
     (neg, s) = (case s of c # cs \<Rightarrow> if c = CHR ''-'' then (True, cs)
        else if c = CHR ''+'' then (False, cs) else (False, s) | [] \<Rightarrow> (False, s));
     v = int (digits_value (takeWhile isdigit s)) in
     if neg then max (- (2 ^ 63)) (- v) else min (2 ^ 63 - 1) v)"

text \<open>\<open>_CFBigNumToCString\<close> writes into a caller's buffer (\<open>buflen = length buffer\<close>); the result is the
  buffer after the call, or \<open>None\<close> where the sign is written to a buffer of length 0.  \<open>tmp\<close> holds the
  first 45 characters of the formatted digits and a terminating NUL (\<open>CHR 0x00\<close>).\<close>

definition CFBigNum_tmp :: "CFBigNum \<Rightarrow> string" where
  "CFBigNum_tmp vp = take 45 (printf_09u (digits vp ! 4) @ printf_09u (digits vp ! 3) @
     printf_09u (digits vp ! 2) @ printf_09u (digits vp ! 1) @ printf_09u (digits vp ! 0))
     @ [CHR 0x00]"

definition strlcpy :: "string \<Rightarrow> string \<Rightarrow> string" where
  \<comment> \<open>\<open>strlcpy(buffer, s, buflen)\<close>, \<open>s\<close> without its NUL\<close>
  "strlcpy buffer s = (if buffer = [] then [] else
     let t = take (length buffer - 1) s @ [CHR 0x00] in t @ drop (length t) buffer)"

definition CFBigNumToCString_body :: "CFBigNum \<Rightarrow> bool \<Rightarrow> string \<Rightarrow> string" where
  "CFBigNumToCString_body vp leading_zeros buffer =
     (let buflen = length buffer; tmp = CFBigNum_tmp vp in
      if leading_zeros
      then let tocopy = min (length tmp) buflen
           in replicate (buflen - tocopy) (CHR ''0'') @ drop (length tmp - tocopy) tmp
      else let s = dropWhile (\<lambda>c. c = CHR ''0'') tmp;
               s = (if s = [CHR 0x00] then drop (length tmp - 2) tmp else s)
           in strlcpy buffer (takeWhile (\<lambda>c. c \<noteq> CHR 0x00) s))"

definition CFBigNumToCString :: "CFBigNum \<Rightarrow> bool \<Rightarrow> bool \<Rightarrow> string \<Rightarrow> string option" where
  "CFBigNumToCString vp leading_zeros leading_plus buffer =
     (if sint (sign vp) < 0 then
        (case buffer of [] \<Rightarrow> None
         | _ # rest \<Rightarrow> Some (CHR ''-'' # CFBigNumToCString_body vp leading_zeros rest))
      else if leading_plus then
        (case buffer of [] \<Rightarrow> None
         | _ # rest \<Rightarrow> Some (CHR ''+'' # CFBigNumToCString_body vp leading_zeros rest))
      else Some (CFBigNumToCString_body vp leading_zeros buffer))"

text \<open>The working copy of \<open>_CFBigNumFromCString\<close> is the string \<open>w\<close> (a NUL written at
  \<open>working + length - 9\<close> cuts it there).\<close>

function CFBigNumFromCString_loop :: "nat \<Rightarrow> u32 list \<Rightarrow> string \<Rightarrow> u32 list" where
  "CFBigNumFromCString_loop curDigit ds w =
     (if curDigit + 1 < 5 \<and> 9 < length w
      then CFBigNumFromCString_loop (curDigit + 1)
             (ds[curDigit := word_of_int (atol (drop (length w - 9) w))]) (take (length w - 9) w)
      else ds[curDigit := word_of_int (atol w)])"
  by pat_completeness auto
termination
  by (relation "measure (\<lambda>(i, ds, w). length w)") auto

declare CFBigNumFromCString_loop.simps [simp del]

definition CFBigNumFromCString :: "string \<Rightarrow> CFBigNum" where
  "CFBigNumFromCString string = (let r = CFBigNum_zeroed;
     (r, working) = (case string of
         c # cs \<Rightarrow> if c = CHR ''-'' then (r\<lparr>sign := -1\<rparr>, cs)
                   else if c = CHR ''+'' then (r, cs) else (r, string)
       | [] \<Rightarrow> (r, string));
     working = dropWhile (\<lambda>c. c = CHR ''0'') working in
     if working = [] then r
     else r\<lparr>digits := CFBigNumFromCString_loop 0 (digits r) working\<rparr>)"

definition CFBigNumCopyDescription :: "CFBigNum \<Rightarrow> string" where
  "CFBigNumCopyDescription num = ''sign:'' @ (if sint (sign num) < 0 then ''-'' else ''+'')
     @ '' 1st:'' @ printf_u (unat (digits num ! 0)) @ '' 2nd:'' @ printf_u (unat (digits num ! 1))
     @ '' 3rd:'' @ printf_u (unat (digits num ! 2)) @ '' 4th:'' @ printf_u (unat (digits num ! 3))
     @ '' 5th:'' @ printf_u (unat (digits num ! 4))"

section \<open>Values of formatted strings\<close>

lemma atol_digits:
  assumes "\<forall>c \<in> set s. isdigit c" and "length s \<le> 18"
  shows "atol s = int (digits_value s)"
proof -
  have "digits_value s < 10 ^ length s" using assms(1) by (rule digits_value_less)
  also have "\<dots> \<le> 10 ^ 18" using assms(2) by (intro power_increasing) simp_all
  finally have "digits_value s < 10 ^ 18" .
  moreover have "dropWhile isspace s = s" using assms(1) by (cases s) (auto simp: isdigit_not_special)
  moreover have "(case s of c # cs \<Rightarrow> if c = CHR ''-'' then (True, cs)
        else if c = CHR ''+'' then (False, cs) else (False, s) | [] \<Rightarrow> (False, s)) = (False, s)"
    using assms(1) by (auto simp: isdigit_not_special split: list.split)
  ultimately show ?thesis
    by (simp add: atol_def Let_def takeWhile_eq_all_conv [THEN iffD2, OF assms(1)])
qed

lemma printf_u_props:
  "digits_value (printf_u n) = n \<and> (\<forall>c \<in> set (printf_u n). isdigit c) \<and>
   (n < 10 ^ Suc k \<longrightarrow> length (printf_u n) \<le> Suc k)"
proof (induction n arbitrary: k rule: printf_u.induct)
  case (1 n)
  show ?case
  proof (cases "n < 10")
    case True
    then show ?thesis by (simp add: printf_u.simps [of n])
  next
    case False
    have "length (printf_u (n div 10)) \<le> k" if "n < 10 ^ Suc k"
    proof (cases k)
      case (Suc k')
      with that have "n div 10 < 10 ^ Suc k'" by (simp add: less_mult_imp_div_less)
      with 1 [OF False, of k'] Suc show ?thesis by blast
    qed (use False that in simp)
    with False 1 [OF False] show ?thesis
      by (auto simp: printf_u.simps [of n] digits_value_append)
  qed
qed

lemma printf_09u_props:
  assumes "unat d < BASE"
  shows "length (printf_09u d) = 9" and "digits_value (printf_09u d) = unat d"
    and "\<forall>c \<in> set (printf_09u d). isdigit c"
  using printf_u_props [of "unat d" 8] assms
  by (auto simp: printf_09u_def Let_def digits_value_append)

section \<open>The round trip\<close>

lemma CFBigNum_tmp_props:
  assumes "bn_wf v"
  obtains t where "CFBigNum_tmp v = t @ [CHR 0x00]" "length t = 45"
    "\<forall>c \<in> set t. isdigit c" "digits_value t = bn_mag v"
proof -
  have "length (digits v) = 5" using assms by (simp add: bn_wf_def)
  then obtain a b c d e where ds: "digits v = [a, b, c, d, e]"
    by (auto simp: length_Suc_conv eval_nat_numeral)
  let ?t = "printf_09u e @ printf_09u d @ printf_09u c @ printf_09u b @ printf_09u a"
  have lt: "unat a < BASE" "unat b < BASE" "unat c < BASE" "unat d < BASE" "unat e < BASE"
    using assms ds by (auto simp: bn_wf_def)
  note p = lt [THEN printf_09u_props(1)] lt [THEN printf_09u_props(2)]
  have ix: "digits v ! 0 = a" "digits v ! 1 = b" "digits v ! 2 = c" "digits v ! 3 = d"
    "digits v ! 4 = e"
    by (simp_all add: ds)
  show thesis
  proof
    show "CFBigNum_tmp v = ?t @ [CHR 0x00]" by (simp only: CFBigNum_tmp_def ix) (simp add: p)
    show "length ?t = 45" by (simp add: p)
    show "\<forall>c \<in> set ?t. isdigit c" using lt [THEN printf_09u_props(3)] by auto
    show "digits_value ?t = bn_mag v"
      by (simp add: digits_value_append p bn_mag_def ds)
  qed
qed

lemma digs_val_update:
  "i < length ds \<Longrightarrow> ds ! i = 0 \<Longrightarrow> digs_val (ds[i := d]) = digs_val ds + BASE ^ i * unat d"
proof (induction ds arbitrary: i)
  case Nil
  then show ?case by simp
next
  case (Cons x ds)
  then show ?case by (cases i) (auto simp: algebra_simps)
qed

text \<open>The digit stored for a group of at most 9 decimal digits.\<close>

lemma atol_group:
  assumes "\<forall>c \<in> set w. isdigit c" and "length w \<le> 9"
  shows "unat (word_of_int (atol w) :: u32) = digits_value w" and "digits_value w < BASE"
proof -
  have "digits_value w < 10 ^ length w" using assms(1) by (rule digits_value_less)
  also have "\<dots> \<le> 10 ^ 9" using assms(2) by (intro power_increasing) simp_all
  finally show b: "digits_value w < BASE" by simp
  have "atol w = int (digits_value w)" using assms by (intro atol_digits) simp_all
  then show "unat (word_of_int (atol w) :: u32) = digits_value w"
    using b by (simp add: unat_of_nat)
qed

text \<open>The parser's loop fills the digits from \<open>curDigit\<close> up with the 9-character groups.\<close>

lemma CFBigNumFromCString_loop_value:
  "\<forall>c \<in> set w. isdigit c \<Longrightarrow> length w \<le> 9 * (5 - i) \<Longrightarrow> i < 5 \<Longrightarrow> length ds = 5 \<Longrightarrow>
   \<forall>j. i \<le> j \<longrightarrow> j < 5 \<longrightarrow> ds ! j = 0 \<Longrightarrow> \<forall>d \<in> set ds. unat d < BASE \<Longrightarrow>
   length (CFBigNumFromCString_loop i ds w) = 5 \<and>
   (\<forall>d \<in> set (CFBigNumFromCString_loop i ds w). unat d < BASE) \<and>
   digs_val (CFBigNumFromCString_loop i ds w) = digs_val ds + BASE ^ i * digits_value w"
proof (induction i ds w rule: CFBigNumFromCString_loop.induct)
  case (1 i ds w)
  have upd: "\<forall>d \<in> set (ds[i := x]). unat d < BASE" if "unat x < BASE" for x
    using "1.prems" that by (auto dest: set_update_subset_insert [THEN subsetD])
  show ?case
  proof (cases "i + 1 < 5 \<and> 9 < length w")
    case True
    define u v where "u = take (length w - 9) w" and "v = drop (length w - 9) w"
    have w: "w = u @ v" "length v = 9" using True by (simp_all add: u_def v_def)
    have uv: "\<forall>c \<in> set u. isdigit c" "\<forall>c \<in> set v. isdigit c" using "1.prems"(1) w(1) by auto
    let ?d = "word_of_int (atol v) :: u32"
    have d: "unat ?d = digits_value v" "unat ?d < BASE" using atol_group [OF uv(2)] w(2) by simp_all
    have step: "CFBigNumFromCString_loop i ds w = CFBigNumFromCString_loop (i + 1) (ds[i := ?d]) u"
      using True by (subst CFBigNumFromCString_loop.simps) (simp add: u_def v_def)
    have "\<forall>j. i + 1 \<le> j \<longrightarrow> j < 5 \<longrightarrow> ds[i := ?d] ! j = 0" using "1.prems"(5) by auto
    then have "length (CFBigNumFromCString_loop (i + 1) (ds[i := ?d]) u) = 5 \<and>
        (\<forall>d \<in> set (CFBigNumFromCString_loop (i + 1) (ds[i := ?d]) u). unat d < BASE) \<and>
        digs_val (CFBigNumFromCString_loop (i + 1) (ds[i := ?d]) u)
          = digs_val (ds[i := ?d]) + BASE ^ (i + 1) * digits_value u"
      using "1.IH" [OF True] True "1.prems" uv(1) upd [OF d(2)]
      by (simp only: u_def v_def [symmetric]) auto
    moreover have "digs_val (ds[i := ?d]) = digs_val ds + BASE ^ i * digits_value v"
      using "1.prems" d(1) by (subst digs_val_update) auto
    moreover have "digits_value w = digits_value u * BASE + digits_value v"
      by (simp add: w digits_value_append)
    ultimately show ?thesis unfolding step by (simp add: algebra_simps)
  next
    case False
    then have len: "length w \<le> 9" using "1.prems" by auto
    let ?d = "word_of_int (atol w) :: u32"
    have step: "CFBigNumFromCString_loop i ds w = ds[i := ?d]"
      using False by (subst CFBigNumFromCString_loop.simps) auto
    have d: "unat ?d = digits_value w" "unat ?d < BASE"
      using atol_group [OF "1.prems"(1) len] by simp_all
    show ?thesis unfolding step
      using "1.prems" d(1) upd [OF d(2)] by (auto simp: digs_val_update)
  qed
qed

lemma CFBigNumFromCString_digits:
  assumes z: "\<forall>c \<in> set z. isdigit c" and len: "length (dropWhile (\<lambda>c. c = CHR ''0'') z) \<le> 45"
  shows "CFBigNumFromCString (CHR ''-'' # z) = \<lparr>digits = digs_of 5 (digits_value z), sign = -1\<rparr>"
    and "CFBigNumFromCString (CHR ''+'' # z) = \<lparr>digits = digs_of 5 (digits_value z), sign = 0\<rparr>"
    and "CFBigNumFromCString z = \<lparr>digits = digs_of 5 (digits_value z), sign = 0\<rparr>"
proof -
  define w where "w = dropWhile (\<lambda>c. c = CHR ''0'') z"
  have w: "\<forall>c \<in> set w. isdigit c" "length w \<le> 45" "digits_value w = digits_value z"
    using z len by (auto simp: w_def digits_value_dropWhile dest: set_dropWhileD)
  let ?zero = "[0, 0, 0, 0, 0] :: u32 list"
  have zero: "\<forall>j. 0 \<le> j \<longrightarrow> j < 5 \<longrightarrow> ?zero ! j = 0" by (simp add: nth_Cons')
  define ds where "ds = (if w = [] then ?zero else CFBigNumFromCString_loop 0 ?zero w)"
  have "length ds = 5 \<and> (\<forall>d \<in> set ds. unat d < BASE) \<and> digs_val ds = digits_value w"
  proof (cases "w = []")
    case True
    then show ?thesis by (simp add: ds_def)
  next
    case False
    with CFBigNumFromCString_loop_value [OF w(1) _ _ _ zero] w(2) show ?thesis by (simp add: ds_def)
  qed
  then have ds: "ds = digs_of 5 (digits_value z)" by (intro digs_of_unique) (auto simp: w)
  have head: "(case z of c # cs \<Rightarrow> if c = CHR ''-'' then (r\<lparr>sign := -1\<rparr>, cs)
      else if c = CHR ''+'' then (r, cs) else (r, z) | [] \<Rightarrow> (r, z)) = (r, z)" for r :: CFBigNum
    using z by (auto simp: isdigit_not_special split: list.split)
  have ne: "CHR ''+'' \<noteq> CHR ''-''" by simp
  note eval = CFBigNumFromCString_def Let_def list.case simp_thms if_True if_False prod.case
    CFBigNum_zeroed_list CFBigNum.simps ds [symmetric] ne
  show "CFBigNumFromCString (CHR ''-'' # z) = \<lparr>digits = digs_of 5 (digits_value z), sign = -1\<rparr>"
    by (simp only: eval w_def [symmetric]) (simp add: ds_def)
  show "CFBigNumFromCString (CHR ''+'' # z) = \<lparr>digits = digs_of 5 (digits_value z), sign = 0\<rparr>"
    by (simp only: eval w_def [symmetric]) (simp add: ds_def)
  show "CFBigNumFromCString z = \<lparr>digits = digs_of 5 (digits_value z), sign = 0\<rparr>"
    by (simp only: eval head w_def [symmetric]) (simp add: ds_def)
qed

lemma CFBigNumToCString_body_digits:
  assumes v: "bn_wf v" and len: "46 \<le> length buffer"
  obtains z where "takeWhile (\<lambda>c. c \<noteq> CHR 0x00) (CFBigNumToCString_body v lz buffer) = z"
    "\<forall>c \<in> set z. isdigit c" "digits_value z = bn_mag v"
    "length (dropWhile (\<lambda>c. c = CHR ''0'') z) \<le> 45"
    "length (CFBigNumToCString_body v lz buffer) = length buffer"
proof -
  obtain t where t: "CFBigNum_tmp v = t @ [CHR 0x00]" "length t = 45" "\<forall>c \<in> set t. isdigit c"
    "digits_value t = bn_mag v" by (rule CFBigNum_tmp_props [OF v])
  let ?z0 = "\<lambda>c. c = CHR ''0''"
  have nonul: "takeWhile (\<lambda>c. c \<noteq> CHR 0x00) (s @ CHR 0x00 # r) = s"
    if "\<forall>c \<in> set s. isdigit c" for s r
    using that by (subst takeWhile_append2) (auto simp: isdigit_not_special)
  have short: "length (dropWhile ?z0 t) \<le> 45" using length_dropWhile_le [of ?z0 t] t(2) by simp
  show thesis
  proof (cases lz)
    case True
    let ?p = "replicate (length buffer - 46) (CHR ''0'') @ t"
    have body: "CFBigNumToCString_body v lz buffer = ?p @ [CHR 0x00]"
      using True len by (simp add: CFBigNumToCString_body_def Let_def t)
    have p: "\<forall>c \<in> set ?p. isdigit c" using t(3) by auto
    have "length (dropWhile ?z0 ?p) \<le> 45" using short by (simp add: dropWhile_append)
    then show thesis
      using that [of ?p] nonul [OF p, of "[]"] p t(2,4) len
      by (simp add: body digits_value_append)
  next
    case False
    define s where "s = (if dropWhile ?z0 t = [] then ''0'' else dropWhile ?z0 t)"
    have s: "\<forall>c \<in> set s. isdigit c" "length s \<le> 45" "digits_value s = bn_mag v"
      "length (dropWhile ?z0 s) \<le> 45"
    proof -
      have dv: "digits_value (dropWhile ?z0 t) = bn_mag v" by (simp only: digits_value_dropWhile t(4))
      show "\<forall>c \<in> set s. isdigit c" using t(3) by (auto simp: s_def dest: set_dropWhileD)
      show "length s \<le> 45" using short by (simp add: s_def)
      then show "length (dropWhile ?z0 s) \<le> 45" using length_dropWhile_le [of ?z0 s] by linarith
      show "digits_value s = bn_mag v"
      proof (cases "dropWhile ?z0 t = []")
        case True
        with dv have "bn_mag v = 0" by (simp only: digits_value_Nil)
        with True show ?thesis by (simp only: s_def simp_thms if_True digits_value_single char0)
      next
        case False
        with dv show ?thesis by (simp only: s_def if_False)
      qed
    qed
    have cut: "dropWhile ?z0 (t @ [CHR 0x00]) = dropWhile ?z0 t @ [CHR 0x00]"
      by (simp add: dropWhile_append)
    have last: "drop 44 (t @ [CHR 0x00]) = ''0'' @ [CHR 0x00]" if "dropWhile ?z0 t = []"
    proof -
      have "t ! 44 = CHR ''0''" using that t(2) by (auto simp: dropWhile_eq_Nil_conv)
      moreover have "drop 44 t = [t ! 44]"
        using t(2) Cons_nth_drop_Suc [of 44 t] by simp
      ultimately show ?thesis using t(2) by simp
    qed
    define s' where "s' = (if dropWhile ?z0 (t @ [CHR 0x00]) = [CHR 0x00]
      then drop (length (t @ [CHR 0x00]) - 2) (t @ [CHR 0x00])
      else dropWhile ?z0 (t @ [CHR 0x00]))"
    have "s' = s @ [CHR 0x00]"
      unfolding s'_def cut using last t(2) by (auto simp: s_def)
    then have "takeWhile (\<lambda>c. c \<noteq> CHR 0x00) s' = s" using nonul [OF s(1)] by simp
    then have "CFBigNumToCString_body v lz buffer = strlcpy buffer s"
      using False by (simp add: CFBigNumToCString_body_def Let_def t(1) s'_def)
    also have "\<dots> = s @ CHR 0x00 # drop (Suc (length s)) buffer"
      using s(2) len by (auto simp: strlcpy_def Let_def)
    finally show thesis
      using that [of s] nonul [OF s(1)] s len by simp
  qed
qed

text \<open>C8. Printing and parsing back gives the number: for every number with digits in range, with or
  without leading zeros and leading plus, \<open>_CFBigNumToCString\<close> into a buffer of at least 47 bytes
  writes inside the buffer a NUL-terminated string that \<open>_CFBigNumFromCString\<close> reads back as the
  same digits and sign.\<close>

theorem CFBigNum_string_roundtrip:
  assumes "bn_wf v" and "47 \<le> length buffer"
  shows "\<exists>buffer'. CFBigNumToCString v leading_zeros leading_plus buffer = Some buffer' \<and>
    length buffer' = length buffer \<and>
    CFBigNumFromCString (takeWhile (\<lambda>c. c \<noteq> CHR 0x00) buffer') = v"
proof -
  obtain c rest where buffer: "buffer = c # rest" "46 \<le> length rest"
    using assms(2) by (cases buffer) auto
  have v: "v = \<lparr>digits = digs_of 5 (bn_mag v), sign = sign v\<rparr>"
    using digs_of_digs_val [of "digits v"] assms(1) by (simp add: bn_wf_def bn_mag_def)
  have z: "\<exists>b. CFBigNumToCString_body v leading_zeros bf = b \<and> length b = length bf \<and>
      CFBigNumFromCString (CHR ''-'' # takeWhile (\<lambda>c. c \<noteq> CHR 0x00) b)
        = \<lparr>digits = digs_of 5 (bn_mag v), sign = -1\<rparr> \<and>
      CFBigNumFromCString (CHR ''+'' # takeWhile (\<lambda>c. c \<noteq> CHR 0x00) b)
        = \<lparr>digits = digs_of 5 (bn_mag v), sign = 0\<rparr> \<and>
      CFBigNumFromCString (takeWhile (\<lambda>c. c \<noteq> CHR 0x00) b)
        = \<lparr>digits = digs_of 5 (bn_mag v), sign = 0\<rparr>" if "46 \<le> length bf" for bf
    using CFBigNumToCString_body_digits [OF assms(1) that, of leading_zeros]
      CFBigNumFromCString_digits by metis
  show ?thesis
  proof (cases "sint (sign v) < 0")
    case True
    with z [OF buffer(2)] buffer(1) bn_sign_cases [OF assms(1)] v show ?thesis
      by (simp add: CFBigNumToCString_def)
  next
    case False
    with z [OF buffer(2)] z [of buffer] buffer bn_sign_cases [OF assms(1)] v show ?thesis
      by (cases leading_plus) (simp_all add: CFBigNumToCString_def)
  qed
qed

theorem CFBigNum_string_roundtrip_witness:
  "\<exists>buffer'. CFBigNumToCString (bn_of_int (-1234567890123)) True False (replicate 50 (CHR ''x'')) = Some buffer' \<and>
    length buffer' = 50 \<and>
    CFBigNumFromCString (takeWhile (\<lambda>c. c \<noteq> CHR 0x00) buffer') = bn_of_int (-1234567890123)"
  using CFBigNum_string_roundtrip [of "bn_of_int (-1234567890123)" "replicate 50 (CHR ''x'')"] by simp

end
