(* ===== verification/BigNumberCreate.thy ===== *)
theory BigNumberCreate
  imports BigNumber
begin

text \<open>
  The conversions between \<open>_CFBigNum\<close> and \<open>CFNumber\<close> in \<open>CFBigNumber.c\<close>: reading a number from the
  bytes of a typed value, and choosing the smallest integer type that holds a number.  A \<open>CFNumber\<close>
  is represented by the type and the value passed to \<open>CFNumberCreate\<close>.
\<close>

section \<open>Typed bytes\<close>

datatype CFNumberType = kCFNumberSInt8Type | kCFNumberSInt16Type | kCFNumberSInt32Type
  | kCFNumberSInt64Type | kCFNumberFloat32Type | kCFNumberFloat64Type | kCFNumberCharType
  | kCFNumberShortType | kCFNumberIntType | kCFNumberLongType | kCFNumberLongLongType
  | kCFNumberFloatType | kCFNumberDoubleType | kCFNumberCFIndexType | kCFNumberNSIntegerType
  | kCFNumberCGFloatType | kCFNumberSInt128Type

fun le_val :: "u8 list \<Rightarrow> nat" where
  "le_val [] = 0"
| "le_val (b # bs) = unat b + 256 * le_val bs"

text \<open>A little-endian load of \<open>n\<close> bytes; \<open>None\<close> when the buffer is shorter.\<close>

definition load_le :: "nat \<Rightarrow> u8 list \<Rightarrow> 'w::len word option" where
  "load_le n bytes = (if n \<le> length bytes then Some (word_of_nat (le_val (take n bytes))) else None)"

text \<open>On the LP64 target \<open>long\<close>, \<open>CFIndex\<close> and \<open>NSInteger\<close> have 8 bytes.\<close>

fun CFBigNumInitWithBytes :: "CFBigNum \<Rightarrow> u8 list \<Rightarrow> CFNumberType \<Rightarrow> CFBigNum option" where
  "CFBigNumInitWithBytes r bytes kCFNumberSInt8Type = map_option CFBigNumInitWithInt8 (load_le 1 bytes)"
| "CFBigNumInitWithBytes r bytes kCFNumberSInt16Type = map_option CFBigNumInitWithInt16 (load_le 2 bytes)"
| "CFBigNumInitWithBytes r bytes kCFNumberSInt32Type = map_option CFBigNumInitWithInt32 (load_le 4 bytes)"
| "CFBigNumInitWithBytes r bytes kCFNumberSInt64Type = map_option CFBigNumInitWithInt64 (load_le 8 bytes)"
| "CFBigNumInitWithBytes r bytes kCFNumberCharType = map_option CFBigNumInitWithInt8 (load_le 1 bytes)"
| "CFBigNumInitWithBytes r bytes kCFNumberShortType = map_option CFBigNumInitWithInt16 (load_le 2 bytes)"
| "CFBigNumInitWithBytes r bytes kCFNumberIntType = map_option CFBigNumInitWithInt32 (load_le 4 bytes)"
| "CFBigNumInitWithBytes r bytes kCFNumberLongType = map_option CFBigNumInitWithInt64 (load_le 8 bytes)"
| "CFBigNumInitWithBytes r bytes kCFNumberLongLongType = map_option CFBigNumInitWithInt64 (load_le 8 bytes)"
| "CFBigNumInitWithBytes r bytes kCFNumberCFIndexType = map_option CFBigNumInitWithInt64 (load_le 8 bytes)"
| "CFBigNumInitWithBytes r bytes kCFNumberNSIntegerType = map_option CFBigNumInitWithInt64 (load_le 8 bytes)"
| "CFBigNumInitWithBytes r bytes kCFNumberSInt128Type =
     (case (load_le 8 bytes, load_le 8 (drop 8 bytes)) of
        (Some high, Some low) \<Rightarrow>
          Some (CFBigNumInitWithInt128 (ucast (low :: u64) + push_bit 64 (scast (high :: u64))))
      | _ \<Rightarrow> None)"
| "CFBigNumInitWithBytes r bytes _ = Some r"

text \<open>\<open>_CFBigNumInitWithCFNumber\<close> lets \<open>CFNumber.c\<close> write the value of the number into a zeroed buffer;
  the type of the number and the bytes of its value are parameters.\<close>

definition CFBigNumInitWithCFNumber ::
  "('n \<Rightarrow> CFNumberType) \<Rightarrow> ('n \<Rightarrow> CFNumberType \<Rightarrow> u8 list) \<Rightarrow> CFBigNum \<Rightarrow> 'n \<Rightarrow> CFBigNum option" where
  "CFBigNumInitWithCFNumber CFNumberGetType2 CFNumberGetValue r inNum =
     (let bytes = replicate 128 0;
          type = CFNumberGetType2 inNum;
          value = CFNumberGetValue inNum type;
          bytes = value @ drop (length value) bytes
      in CFBigNumInitWithBytes r bytes type)"

section \<open>The smallest CFNumber for a number\<close>

datatype CFNumber = SInt8Number u8 | SInt16Number u16 | SInt32Number u32 | SInt64Number u64
  | SInt128Number u128


text \<open>\<open>(LessThan == cr || EqualTo == cr) && LessThan != crn\<close>\<close>

definition CFBigNum_within :: "CFBigNum \<Rightarrow> CFBigNum \<Rightarrow> CFBigNum \<Rightarrow> bool" where
  "CFBigNum_within input maxlimit minlimit =
     (let cr = CFBigNumCompare input maxlimit; crn = CFBigNumCompare input minlimit in
      (kCFCompareLessThan = cr \<or> kCFCompareEqualTo = cr) \<and> kCFCompareLessThan \<noteq> crn)"

definition CFNumberCreateWithBigNum :: "CFBigNum \<Rightarrow> CFNumber option" where
  "CFNumberCreateWithBigNum input =
     (let d = (\<lambda>i. digits input ! i) in
      if 0 = d 4 \<and> 0 = d 3 \<and> 0 = d 2 \<and> 0 = d 1 \<and> d 0 \<le> 127
      then Some (SInt8Number (CFBigNumGetInt8 input))
      else if 0 = d 4 \<and> 0 = d 3 \<and> 0 = d 2 \<and> 0 = d 1 \<and> d 0 \<le> 32767
      then Some (SInt16Number (CFBigNumGetInt16 input))
      else if 0 = d 4 \<and> 0 = d 3 \<and> 0 = d 2 \<and>
        CFBigNum_within input (CFBigNumInitWithInt32 2147483647) (CFBigNumInitWithInt32 (-2147483648))
      then Some (SInt32Number (CFBigNumGetInt32 input))
      else if 0 = d 4 \<and> 0 = d 3 \<and>
        CFBigNum_within input (CFBigNumInitWithInt64 9223372036854775807)
          (CFBigNumInitWithInt64 (-9223372036854775808))
      then Some (SInt64Number (CFBigNumGetInt64 input))
      else if CFBigNum_within input
          (CFBigNumInitWithInt128 170141183460469231731687303715884105727)
          (CFBigNumInitWithInt128 (-170141183460469231731687303715884105728))
      then Some (SInt128Number (CFBigNumGetInt128 input))
      else None)"




lemma bn_val_one_digit:
  "length (digits b) = 5 \<Longrightarrow> digits b ! 4 = 0 \<Longrightarrow> digits b ! 3 = 0 \<Longrightarrow> digits b ! 2 = 0 \<Longrightarrow>
     digits b ! 1 = 0 \<Longrightarrow> \<bar>bn_val b\<bar> = int (unat (digits b ! 0))"
  by (simp add: bn_val_def bn_mag_def digs_val_5)




text \<open>The type chosen is the smallest of the five whose range holds the value, except that the most
  negative values -128 and -32768 take the next larger type (the code says so).\<close>

lemma CFNumberCreateWithBigNum_int8:
  assumes "bn_canonical b" and "\<bar>bn_val b\<bar> \<le> 127"
  shows "CFNumberCreateWithBigNum b = Some (SInt8Number (word_of_int (bn_val b)))"
proof -
  have b: "b = bn_of_int (bn_val b)" using bn_of_int_val [OF assms(1)] by simp
  have hi: "digits b ! 4 = 0 \<and> digits b ! 3 = 0 \<and> digits b ! 2 = 0 \<and> digits b ! Suc 0 = 0"
    by (subst (1 2 3 4) b) (use assms(2) in \<open>simp add: bn_of_int_high\<close>)
  have len: "length (digits b) = 5" using assms by (simp add: bn_canonical_def bn_wf_def)
  then have "int (unat (digits b ! 0)) = \<bar>bn_val b\<bar>" using bn_val_one_digit hi by simp
  then have "unat (digits b ! 0) \<le> 127" using assms(2) by linarith
  then have "digits b ! 0 \<le> 127" by (simp add: word_le_nat_alt)
  with hi show ?thesis using GetInt_val(1) [OF len] by (simp add: CFNumberCreateWithBigNum_def)
qed

section \<open>Loading bytes\<close>

lemma le_val_append: "le_val (xs @ ys) = le_val xs + 256 ^ length xs * le_val ys"
  by (induction xs) (auto simp: algebra_simps)

fun le_bytes :: "nat \<Rightarrow> nat \<Rightarrow> u8 list" where
  "le_bytes 0 n = []"
| "le_bytes (Suc k) n = word_of_nat (n mod 256) # le_bytes k (n div 256)"

lemma length_le_bytes [simp]: "length (le_bytes k n) = k"
  by (induction k arbitrary: n) auto

lemma le_val_le_bytes: "le_val (le_bytes k n) = n mod 256 ^ k"
proof (induction k arbitrary: n)
  case 0
  then show ?case by simp
next
  case (Suc k)
  have "n mod 256 ^ Suc k = 256 * (n div 256 mod 256 ^ k) + n mod 256"
    by (simp add: mod_mult2_eq)
  with Suc show ?case by (simp add: unat_of_nat)
qed

lemma load_le_bytes:
  assumes "256 ^ k = (2 :: nat) ^ LENGTH('w)"
  shows "load_le k (le_bytes k (unat x) @ rest) = Some (x :: 'w::len word)"
  using assms unsigned_less [of x, where 'a = nat] by (simp add: load_le_def le_val_le_bytes)

text \<open>The 128-bit case reads the high half first.\<close>

lemma split_int128:
  "(ucast (ucast x :: u64) :: u128) + push_bit 64 (scast (ucast (drop_bit 64 x) :: u64)) = x"
proof -
  have "push_bit 64 (scast (ucast (drop_bit 64 x) :: u64)) = (push_bit 64 (drop_bit 64 x) :: u128)"
    by (rule bit_word_eqI) (auto simp: bit_simps)
  moreover have "(ucast (ucast x :: u64) :: u128) = take_bit 64 x"
    by (rule bit_word_eqI) (auto simp: bit_simps)
  ultimately show ?thesis
    using bits_ident [of 64 x] by (simp add: add.commute)
qed

text \<open>Initialising from the little-endian bytes of an integer of each type gives the number of
  that value; the unsupported types leave the number unchanged.\<close>

theorem CFBigNumInitWithBytes_value:
  "CFBigNumInitWithBytes r (le_bytes 1 (unat (a :: u8)) @ rest) kCFNumberSInt8Type = Some (bn_of_int (sint a)) \<and>
   CFBigNumInitWithBytes r (le_bytes 2 (unat (b :: u16)) @ rest) kCFNumberSInt16Type = Some (bn_of_int (sint b)) \<and>
   CFBigNumInitWithBytes r (le_bytes 4 (unat (c :: u32)) @ rest) kCFNumberSInt32Type = Some (bn_of_int (sint c)) \<and>
   CFBigNumInitWithBytes r (le_bytes 8 (unat (d :: u64)) @ rest) kCFNumberSInt64Type = Some (bn_of_int (sint d)) \<and>
   CFBigNumInitWithBytes r (le_bytes 8 (unat (ucast (drop_bit 64 (e :: u128)) :: u64)) @
       le_bytes 8 (unat (ucast e :: u64)) @ rest) kCFNumberSInt128Type = Some (bn_of_int (sint e)) \<and>
   CFBigNumInitWithBytes r bytes kCFNumberDoubleType = Some r"
proof -
  have "load_le 8 (drop 8 (le_bytes 8 (unat (ucast (drop_bit 64 e) :: u64)) @ le_bytes 8 (unat (ucast e :: u64)) @ rest))
      = Some (ucast e :: u64)"
    by (simp add: load_le_bytes)
  moreover have "load_le 1 (le_bytes 1 (unat a) @ rest) = Some a" by (rule load_le_bytes) simp
  ultimately show ?thesis
    by (simp add: load_le_bytes Int_spec split_int128 del: le_bytes.simps One_nat_def)
qed

end
