(* ===== verification/BitVector.thy ===== *)
theory BitVector
  imports CF_Prelude "HOL-Library.Monad_Syntax"
begin

text \<open>
  \<open>CFBitVector.c\<close>: bit vectors stored in 8-bit buckets, bit 0 of the vector being the most
  significant bit of bucket 0.  Every access to the buckets (and to the caller's byte buffers) is
  checked: \<open>None\<close> is an access outside the array, and the theorems show where it cannot happen.
  \<open>CFIndex\<close> counts and positions are naturals; the range assertions of the debug build are
  hypotheses of the theorems.
\<close>

section \<open>Data and small accessors\<close>

type_synonym CFBit = u32

datatype CFBitVectorVariety = kCFBitVectorImmutable | kCFBitVectorMutable

record CFBitVector =
  bv_count :: nat
  bv_capacity :: nat
  bv_buckets :: "u8 list"
  bv_variety :: CFBitVectorVariety

definition CFBitVectorRoundUpCapacity :: "nat \<Rightarrow> nat" where
  "CFBitVectorRoundUpCapacity capacity =
     (let capacity = (if capacity = 0 then 1 else capacity) in ((capacity + 63) div 64) * 64)"

definition CFBitVectorNumBuckets :: "CFBitVector \<Rightarrow> nat" where
  "CFBitVectorNumBuckets bv = bv_capacity bv div 8 + 1"

definition CFBitBucketMask :: "nat \<Rightarrow> nat \<Rightarrow> u8" where
  "CFBitBucketMask bottomBit topBit =
     (let shiftL = 8 + bottomBit - topBit - 1;
          result = NOT 0;
          result = push_bit shiftL result
      in drop_bit bottomBit result)"

definition CFBitVectorBit :: "u8 list \<Rightarrow> nat \<Rightarrow> CFBit option" where
  "CFBitVectorBit buckets idx =
     (let bucketIdx = idx div 8; bitOfBucket = idx mod 8 in
      do { b \<leftarrow> rd buckets bucketIdx;
           Some (ucast (drop_bit (8 - 1 - bitOfBucket) b) AND 1) })"

definition CFSetBitVectorBit :: "u8 list \<Rightarrow> nat \<Rightarrow> CFBit \<Rightarrow> u8 list option" where
  "CFSetBitVectorBit buckets idx value =
     (let bucketIdx = idx div 8; bitOfBucket = idx mod 8 in
      do { b \<leftarrow> rd buckets bucketIdx;
           wr buckets bucketIdx
             (if value \<noteq> 0 then b OR push_bit (8 - 1 - bitOfBucket) 1
              else b AND NOT (push_bit (8 - 1 - bitOfBucket) 1)) })"

definition CFFlipBitVectorBit :: "u8 list \<Rightarrow> nat \<Rightarrow> u8 list option" where
  "CFFlipBitVectorBit buckets idx =
     (let bucketIdx = idx div 8; bitOfBucket = idx mod 8 in
      do { b \<leftarrow> rd buckets bucketIdx;
           wr buckets bucketIdx (b XOR push_bit (8 - 1 - bitOfBucket) 1) })"

fun CFBitVectorEqual_loop :: "u8 list \<Rightarrow> u8 list \<Rightarrow> nat list \<Rightarrow> bool option" where
  "CFBitVectorEqual_loop b1 b2 [] = Some True"
| "CFBitVectorEqual_loop b1 b2 (idx # idxs) =
     do { val1 \<leftarrow> rd b1 idx; val2 \<leftarrow> rd b2 idx;
          if val1 \<noteq> val2 then Some False else CFBitVectorEqual_loop b1 b2 idxs }"

definition CFBitVectorEqual :: "CFBitVector \<Rightarrow> CFBitVector \<Rightarrow> bool option" where
  "CFBitVectorEqual bv1 bv2 =
     (let cnt = bv_count bv1 in
      if cnt \<noteq> bv_count bv2 then Some False
      else if 0 = cnt then Some True
      else CFBitVectorEqual_loop (bv_buckets bv1) (bv_buckets bv2) [0..<cnt div 8 + 1])"

definition CFBitVectorHash :: "CFBitVector \<Rightarrow> nat" where
  "CFBitVectorHash bv = bv_count bv"

section \<open>Creation\<close>

text \<open>The buckets come zeroed; \<open>bytes\<close> supplies \<open>numBits / 8\<close> bytes, rounded up.  As in the code
  the capacity is that of \<open>numBits\<close>, whatever capacity the caller asked for.\<close>

definition CFBitVectorInit ::
  "CFBitVectorVariety \<Rightarrow> nat \<Rightarrow> u8 list option \<Rightarrow> nat \<Rightarrow> CFBitVector option" where
  "CFBitVectorInit flags capacity bytes numBits =
     (let memory = \<lparr>bv_count = 0, bv_capacity = CFBitVectorRoundUpCapacity numBits,
            bv_buckets = [], bv_variety = kCFBitVectorImmutable\<rparr>;
          memory = memory\<lparr>bv_buckets := replicate (CFBitVectorNumBuckets memory) 0,
            bv_count := numBits\<rparr>;
          n = numBits div 8 + (if numBits mod 8 \<noteq> 0 then 1 else 0)
      in do { buckets \<leftarrow> (case bytes of None \<Rightarrow> Some (bv_buckets memory)
                | Some bs \<Rightarrow> if n \<le> length bs \<and> n \<le> length (bv_buckets memory)
                    then Some (take n bs @ drop n (bv_buckets memory)) else None);
              Some (memory\<lparr>bv_buckets := buckets, bv_variety := flags\<rparr>) })"

definition CFBitVectorCreate :: "u8 list option \<Rightarrow> nat \<Rightarrow> CFBitVector option" where
  "CFBitVectorCreate bytes numBits = CFBitVectorInit kCFBitVectorImmutable numBits bytes numBits"

definition CFBitVectorCreateMutable :: "nat \<Rightarrow> CFBitVector option" where
  "CFBitVectorCreateMutable capacity = CFBitVectorInit kCFBitVectorMutable capacity None 0"

definition CFBitVectorCreateCopy :: "CFBitVector \<Rightarrow> CFBitVector option" where
  "CFBitVectorCreateCopy bv =
     CFBitVectorInit kCFBitVectorImmutable (bv_count bv) (Some (bv_buckets bv)) (bv_count bv)"

definition CFBitVectorCreateMutableCopy :: "nat \<Rightarrow> CFBitVector \<Rightarrow> CFBitVector option" where
  "CFBitVectorCreateMutableCopy capacity bv =
     CFBitVectorInit kCFBitVectorMutable capacity (Some (bv_buckets bv)) (bv_count bv)"

definition CFBitVectorGetCount :: "CFBitVector \<Rightarrow> nat" where
  "CFBitVectorGetCount bv = bv_count bv"

section \<open>The bucket mapper\<close>

text \<open>\<open>__CFBitVectorInternalMap\<close> applies a mapper to the buckets that a range of bits touches: the
  bucket the range starts in, the whole buckets, and the last fragment.  The mapper threads a context
  and may fail (\<open>None\<close>).\<close>

type_synonym 'c mapper = "u8 \<Rightarrow> u8 \<Rightarrow> 'c \<Rightarrow> (u8 \<times> 'c) option"

definition map_fragment ::
  "'c mapper \<Rightarrow> u8 list \<Rightarrow> nat \<Rightarrow> u8 \<Rightarrow> 'c \<Rightarrow> (u8 list \<times> 'c) option" where
  "map_fragment mapper buckets bucketIdx bucketValMask context =
     do { b \<leftarrow> rd buckets bucketIdx;
          (newBucketVal, context) \<leftarrow> mapper b bucketValMask context;
          buckets \<leftarrow> wr buckets bucketIdx
            ((b AND NOT bucketValMask) OR (newBucketVal AND bucketValMask));
          Some (buckets, context) }"

fun map_whole ::
  "'c mapper \<Rightarrow> u8 list \<Rightarrow> nat \<Rightarrow> nat \<Rightarrow> 'c \<Rightarrow> (u8 list \<times> nat \<times> 'c) option" where
  "map_whole mapper buckets bucketIdx 0 context = Some (buckets, bucketIdx, context)"
| "map_whole mapper buckets bucketIdx (Suc nBuckets) context =
     do { b \<leftarrow> rd buckets bucketIdx;
          (newBucketVal, context) \<leftarrow> mapper b (NOT 0) context;
          buckets \<leftarrow> wr buckets bucketIdx newBucketVal;
          map_whole mapper buckets (bucketIdx + 1) nBuckets context }"

definition CFBitVectorInternalMap ::
  "'c mapper \<Rightarrow> u8 list \<Rightarrow> nat \<Rightarrow> nat \<Rightarrow> 'c \<Rightarrow> (u8 list \<times> 'c) option" where
  "CFBitVectorInternalMap mapper buckets loc len context =
     (if 0 = len then Some (buckets, context) else
      let bucketIdx = loc div 8;
          bitOfBucket = loc mod 8;
          (bucketValMask, len) =
            (if bitOfBucket + len < 8
             then (CFBitBucketMask bitOfBucket (bitOfBucket + len - 1), 0)
             else (CFBitBucketMask bitOfBucket (8 - 1), len - (8 - bitOfBucket)))
      in do { (buckets, context) \<leftarrow> map_fragment mapper buckets bucketIdx bucketValMask context;
              let nBuckets = len div 8;
              let len = len - nBuckets * 8;
              (buckets, bucketIdx, context) \<leftarrow>
                map_whole mapper buckets (bucketIdx + 1) nBuckets context;
              if 0 \<noteq> len
              then map_fragment mapper buckets bucketIdx (CFBitBucketMask 0 (len - 1)) context
              else Some (buckets, context) })"

section \<open>Queries\<close>

definition CFNibbleBitCount :: "nat list" where
  "CFNibbleBitCount = [0, 1, 1, 2, 1, 2, 2, 3, 1, 2, 2, 3, 2, 3, 3, 4]"

record occursContext =
  oc_value :: CFBit
  oc_count :: nat

definition count_nibble :: "u8 \<times> occursContext \<Rightarrow> u8 \<times> occursContext" where
  "count_nibble s = (case s of (val, context) \<Rightarrow>
     (drop_bit 4 val,
      context\<lparr>oc_count := oc_count context + CFNibbleBitCount ! unat (val AND 0xF)\<rparr>))"

definition CFBitVectorCountBits :: "occursContext mapper" where
  "CFBitVectorCountBits bucketValue bucketValueMask context =
     (let val = (if oc_value context \<noteq> 0 then bucketValue AND bucketValueMask
                 else NOT bucketValue AND bucketValueMask);
          (val, context) = (count_nibble ^^ (1 * 2)) (val, context)
      in Some (bucketValue, context))"

definition CFBitVectorGetCountOfBit :: "CFBitVector \<Rightarrow> nat \<Rightarrow> nat \<Rightarrow> CFBit \<Rightarrow> nat option" where
  "CFBitVectorGetCountOfBit bv loc len value =
     (if 0 = len then Some 0 else
      do { (buckets, context) \<leftarrow> CFBitVectorInternalMap CFBitVectorCountBits (bv_buckets bv) loc len
             \<lparr>oc_value = value, oc_count = 0\<rparr>;
           Some (oc_count context) })"

definition CFBitVectorContainsBit :: "CFBitVector \<Rightarrow> nat \<Rightarrow> nat \<Rightarrow> CFBit \<Rightarrow> bool option" where
  "CFBitVectorContainsBit bv loc len value =
     do { n \<leftarrow> CFBitVectorGetCountOfBit bv loc len value; Some (if n \<noteq> 0 then True else False) }"

definition CFBitVectorGetBitAtIndex :: "CFBitVector \<Rightarrow> nat \<Rightarrow> CFBit option" where
  "CFBitVectorGetBitAtIndex bv idx = CFBitVectorBit (bv_buckets bv) idx"

text \<open>\<open>struct _getBitsContext\<close>: the caller's buffer with the position of \<open>curByte\<close> in it.\<close>

record getBitsContext =
  gb_bytes :: "u8 list"
  gb_curByte :: nat
  gb_initBits :: nat
  gb_totalBits :: int
  gb_ignoreFirstInitBits :: bool

fun getBits_whole :: "u8 \<Rightarrow> int \<Rightarrow> getBitsContext \<Rightarrow> (u8 \<times> int \<times> getBitsContext) option" where
  "getBits_whole val nBits context =
     (if 8 \<le> nBits
      then do { bytes \<leftarrow> wr (gb_bytes context) (gb_curByte context) (drop_bit (8 - 8) val);
                getBits_whole 0 (nBits - 8)
                  (context\<lparr>gb_bytes := bytes, gb_curByte := gb_curByte context + 1,
                     gb_totalBits := gb_totalBits context - int (gb_initBits context)\<rparr>) }
      else Some (val, nBits, context))"

declare getBits_whole.simps [simp del]

definition CFBitVectorGetBits_mapper :: "getBitsContext mapper" where
  "CFBitVectorGetBits_mapper bucketValue bucketValueMask context =
     (let val = bucketValue AND bucketValueMask;
          nBits = min (8 - int (gb_initBits context)) (gb_totalBits context)
      in do { (val, context) \<leftarrow>
                (if 0 < gb_initBits context
                 then do { context \<leftarrow>
                        (if \<not> gb_ignoreFirstInitBits context
                         then do { b \<leftarrow> rd (gb_bytes context) (gb_curByte context);
                                   bytes \<leftarrow> wr (gb_bytes context) (gb_curByte context)
                                     (b OR drop_bit (8 - gb_initBits context) val);
                                   Some (context\<lparr>gb_bytes := bytes,
                                     gb_curByte := gb_curByte context + 1,
                                     gb_totalBits := gb_totalBits context - int (gb_initBits context),
                                     gb_ignoreFirstInitBits := False\<rparr>) }
                         else Some context);
                        Some (push_bit (gb_initBits context) val, context) }
                 else Some (val, context));
              (val, nBits, context) \<leftarrow> getBits_whole val nBits context;
              context \<leftarrow>
                (if 0 < nBits
                 then do { bytes \<leftarrow> wr (gb_bytes context) (gb_curByte context) (drop_bit (8 - 8) val);
                           Some (context\<lparr>gb_bytes := bytes,
                             gb_totalBits := gb_totalBits context - nBits\<rparr>) }
                 else Some context);
              Some (bucketValue, context) })"

definition CFBitVectorGetBits ::
  "CFBitVector \<Rightarrow> nat \<Rightarrow> nat \<Rightarrow> u8 list \<Rightarrow> u8 list option" where
  "CFBitVectorGetBits bv loc len bytes =
     (if 0 = len then Some bytes else
      do { (buckets, context) \<leftarrow> CFBitVectorInternalMap CFBitVectorGetBits_mapper (bv_buckets bv) loc len
             \<lparr>gb_bytes = bytes, gb_curByte = 0, gb_initBits = loc mod 8,
              gb_totalBits = int len, gb_ignoreFirstInitBits = True\<rparr>;
           Some (gb_bytes context) })"

text \<open>The searches return a \<open>CFIndex\<close>; \<open>kCFNotFound\<close> is \<open>-1\<close>.\<close>

definition kCFNotFound :: int where
  "kCFNotFound = -1"

fun search_bit :: "CFBitVector \<Rightarrow> nat \<Rightarrow> nat list \<Rightarrow> CFBit \<Rightarrow> int option" where
  "search_bit bv loc [] value = Some kCFNotFound"
| "search_bit bv loc (idx # idxs) value =
     do { b \<leftarrow> CFBitVectorGetBitAtIndex bv (loc + idx);
          if value = b then Some (int (loc + idx)) else search_bit bv loc idxs value }"

definition CFBitVectorGetFirstIndexOfBit :: "CFBitVector \<Rightarrow> nat \<Rightarrow> nat \<Rightarrow> CFBit \<Rightarrow> int option" where
  "CFBitVectorGetFirstIndexOfBit bv loc len value = search_bit bv loc [0..<len] value"

definition CFBitVectorGetLastIndexOfBit :: "CFBitVector \<Rightarrow> nat \<Rightarrow> nat \<Rightarrow> CFBit \<Rightarrow> int option" where
  "CFBitVectorGetLastIndexOfBit bv loc len value = search_bit bv loc (rev [0..<len]) value"

section \<open>Mutation\<close>

text \<open>\<open>fresh\<close> gives the content of the bytes that \<open>CFAllocatorReallocate\<close> adds, which C leaves
  unspecified: the theorems hold for every \<open>fresh\<close>.\<close>

definition CFBitVectorGrow :: "(nat \<Rightarrow> u8) \<Rightarrow> CFBitVector \<Rightarrow> nat \<Rightarrow> CFBitVector" where
  "CFBitVectorGrow fresh bv numNewValues =
     (let oldCount = bv_count bv;
          capacity = CFBitVectorRoundUpCapacity (oldCount + numNewValues);
          bv = bv\<lparr>bv_capacity := capacity\<rparr>;
          n = CFBitVectorNumBuckets bv;
          old = bv_buckets bv
      in bv\<lparr>bv_buckets := take n old @ map fresh [length old..<n]\<rparr>)"

definition CFBitVectorZeroBits :: "unit mapper" where
  "CFBitVectorZeroBits bucketValue bucketValueMask context = Some (0, context)"

definition CFBitVectorOneBits :: "unit mapper" where
  "CFBitVectorOneBits bucketValue bucketValueMask context = Some (NOT 0, context)"

definition CFBitVectorFlipBits_mapper :: "unit mapper" where
  "CFBitVectorFlipBits_mapper bucketValue bucketValueMask context =
     Some (NOT 0 XOR bucketValue, context)"

text \<open>\<open>__CFBitVectorInternalMap\<close> on the vector's own buckets.\<close>

definition bv_map :: "unit mapper \<Rightarrow> CFBitVector \<Rightarrow> nat \<Rightarrow> nat \<Rightarrow> CFBitVector option" where
  "bv_map mapper bv loc len =
     do { (buckets, _) \<leftarrow> CFBitVectorInternalMap mapper (bv_buckets bv) loc len ();
          Some (bv\<lparr>bv_buckets := buckets\<rparr>) }"

definition CFBitVectorSetCount :: "(nat \<Rightarrow> u8) \<Rightarrow> CFBitVector \<Rightarrow> nat \<Rightarrow> CFBitVector option" where
  "CFBitVectorSetCount fresh bv cnt' =
     (let cnt = bv_count bv;
          bv = (case bv_variety bv of
                  kCFBitVectorMutable \<Rightarrow> if cnt < cnt' then CFBitVectorGrow fresh bv (cnt' - cnt) else bv
                | kCFBitVectorImmutable \<Rightarrow> bv)
      in do { bv \<leftarrow> (if cnt < cnt' then bv_map CFBitVectorZeroBits bv cnt (cnt' - cnt) else Some bv);
              Some (bv\<lparr>bv_count := cnt'\<rparr>) })"

definition CFBitVectorFlipBitAtIndex :: "CFBitVector \<Rightarrow> nat \<Rightarrow> CFBitVector option" where
  "CFBitVectorFlipBitAtIndex bv idx =
     do { buckets \<leftarrow> CFFlipBitVectorBit (bv_buckets bv) idx; Some (bv\<lparr>bv_buckets := buckets\<rparr>) }"

definition CFBitVectorFlipBits :: "CFBitVector \<Rightarrow> nat \<Rightarrow> nat \<Rightarrow> CFBitVector option" where
  "CFBitVectorFlipBits bv loc len =
     (if 0 = len then Some bv else bv_map CFBitVectorFlipBits_mapper bv loc len)"

definition CFBitVectorSetBitAtIndex :: "CFBitVector \<Rightarrow> nat \<Rightarrow> CFBit \<Rightarrow> CFBitVector option" where
  "CFBitVectorSetBitAtIndex bv idx value =
     do { buckets \<leftarrow> CFSetBitVectorBit (bv_buckets bv) idx value; Some (bv\<lparr>bv_buckets := buckets\<rparr>) }"

definition CFBitVectorSetBits :: "CFBitVector \<Rightarrow> nat \<Rightarrow> nat \<Rightarrow> CFBit \<Rightarrow> CFBitVector option" where
  "CFBitVectorSetBits bv loc len value =
     (if 0 = len then Some bv
      else if value \<noteq> 0 then bv_map CFBitVectorOneBits bv loc len
      else bv_map CFBitVectorZeroBits bv loc len)"

definition CFBitVectorSetAllBits :: "CFBitVector \<Rightarrow> CFBit \<Rightarrow> CFBitVector option" where
  "CFBitVectorSetAllBits bv value =
     (let nBuckets = bv_count bv div 8;
          leftover = bv_count bv - nBuckets * 8
      in do { bv \<leftarrow> (if 0 < leftover
                then (if value \<noteq> 0 then bv_map CFBitVectorOneBits bv (nBuckets * 8) leftover
                      else bv_map CFBitVectorZeroBits bv (nBuckets * 8) leftover)
                else Some bv);
              if nBuckets \<le> length (bv_buckets bv)
              then Some (bv\<lparr>bv_buckets := replicate nBuckets (if value \<noteq> 0 then NOT 0 else 0)
                     @ drop nBuckets (bv_buckets bv)\<rparr>)
              else None })"

section \<open>Bits of the vector\<close>

definition bit_at :: "u8 list \<Rightarrow> nat \<Rightarrow> bool" where
  "bit_at buckets i = bit (buckets ! (i div 8)) (7 - i mod 8)"

definition bv_bits :: "CFBitVector \<Rightarrow> bool list" where
  "bv_bits bv = map (bit_at (bv_buckets bv)) [0..<bv_count bv]"

definition bv_inv :: "CFBitVector \<Rightarrow> bool" where
  "bv_inv bv \<longleftrightarrow> bv_count bv \<le> bv_capacity bv \<and> bv_capacity bv mod 64 = 0 \<and>
     length (bv_buckets bv) = CFBitVectorNumBuckets bv"

lemma bit_mask:
  assumes "b \<le> t" "t < 8" "n < 8"
  shows "bit (CFBitBucketMask b t) n \<longleftrightarrow> 7 - t \<le> n \<and> n + b \<le> 7"
  using assms unfolding CFBitBucketMask_def Let_def
  by (auto simp: bit_simps)

lemma below_buckets: "n < 8 * Suc (n div 8)" for n :: nat
  using dividend_less_times_div [of 8 n] by simp

lemma bv_inv_room: "bv_inv bv \<Longrightarrow> bv_count bv < 8 * length (bv_buckets bv)"
  using below_buckets [of "bv_capacity bv"] unfolding bv_inv_def CFBitVectorNumBuckets_def
  by (metis Suc_eq_plus1 le_less_trans)

lemma bit_at_update:
  assumes "k < length bs"
  shows "bit_at (bs[k := w]) i = (if i div 8 = k then bit w (7 - i mod 8) else bit_at bs i)"
  using assms by (auto simp: bit_at_def nth_list_update)

lemma odd_word_bit: "(x AND 1 :: 'a::len word) = of_bool (bit x 0)"
  by (rule bit_word_eqI) (auto simp: bit_simps)

lemma CFBitVectorBit_val:
  assumes "i < 8 * length bs"
  shows "CFBitVectorBit bs i = Some (of_bool (bit_at bs i))"
proof -
  have "i div 8 < length bs" using assms by simp
  moreover have "8 - 1 - i mod 8 = 7 - i mod 8" by simp
  ultimately show ?thesis
    by (simp add: CFBitVectorBit_def odd_word_bit bit_at_def bit_simps del: One_nat_def)
qed

lemma bit_set: "bit (b OR 2 ^ k :: u8) n \<longleftrightarrow> bit b n \<or> (n = k \<and> n < 8)"
  by (auto simp: bit_simps)

lemma bit_clear: "bit (b AND NOT (2 ^ k) :: u8) n \<longleftrightarrow> bit b n \<and> n \<noteq> k"
  by (auto simp: bit_simps dest: bit_imp_le_length)

lemma bit_flip: "bit (b XOR 2 ^ k :: u8) n \<longleftrightarrow> bit b n \<noteq> (n = k \<and> n < 8)"
  by (auto simp: bit_simps)

lemma div_mod_8_inj: "i div 8 = j div 8 \<Longrightarrow> 7 - i mod 8 = 7 - j mod 8 \<longleftrightarrow> i = j" for i j :: nat
proof -
  assume d: "i div 8 = j div 8"
  have "i mod 8 < 8" "j mod 8 < 8" by simp_all
  then have "7 - i mod 8 = 7 - j mod 8 \<longleftrightarrow> i mod 8 = j mod 8" by linarith
  also have "\<dots> \<longleftrightarrow> i = j" using d by (metis div_mult_mod_eq)
  finally show ?thesis .
qed

lemma CFSetBitVectorBit_bits:
  assumes "i < 8 * length bs"
  obtains bs' where "CFSetBitVectorBit bs i v = Some bs'" "length bs' = length bs"
    "\<And>j. bit_at bs' j = (if j = i then v \<noteq> 0 else bit_at bs j)"
proof -
  have k: "i div 8 < length bs" using assms by simp
  let ?w = "if v \<noteq> 0 then bs ! (i div 8) OR 2 ^ (7 - i mod 8)
            else bs ! (i div 8) AND NOT (2 ^ (7 - i mod 8))"
  have "CFSetBitVectorBit bs i v = Some (bs[i div 8 := ?w])"
    using k by (simp add: CFSetBitVectorBit_def Let_def)
  moreover have "bit_at (bs[i div 8 := ?w]) j = (if j = i then v \<noteq> 0 else bit_at bs j)" for j
    unfolding bit_at_update [OF k] using div_mod_8_inj [of j i]
    by (cases "j div 8 = i div 8") (auto simp: bit_set bit_clear bit_at_def)
  ultimately show ?thesis using that by simp
qed

lemma CFFlipBitVectorBit_bits:
  assumes "i < 8 * length bs"
  obtains bs' where "CFFlipBitVectorBit bs i = Some bs'" "length bs' = length bs"
    "\<And>j. bit_at bs' j = (if j = i then \<not> bit_at bs j else bit_at bs j)"
proof -
  have k: "i div 8 < length bs" using assms by simp
  let ?w = "bs ! (i div 8) XOR 2 ^ (7 - i mod 8)"
  have "CFFlipBitVectorBit bs i = Some (bs[i div 8 := ?w])"
    using k by (simp add: CFFlipBitVectorBit_def Let_def)
  moreover have "bit_at (bs[i div 8 := ?w]) j = (if j = i then \<not> bit_at bs j else bit_at bs j)" for j
    unfolding bit_at_update [OF k] using div_mod_8_inj [of j i]
    by (cases "j div 8 = i div 8") (auto simp: bit_flip bit_at_def)
  ultimately show ?thesis using that by simp
qed

section \<open>The mapper visits exactly the range\<close>

text \<open>A mapper that computes \<open>g\<close> bit by bit and keeps its context.\<close>

definition bitwise :: "'c mapper \<Rightarrow> (bool \<Rightarrow> bool) \<Rightarrow> bool" where
  "bitwise mapper g \<longleftrightarrow>
     (\<forall>b m c. \<exists>b'. mapper b m c = Some (b', c) \<and> (\<forall>n<8. bit b' n = g (bit b n)))"

definition bits_mapped :: "(bool \<Rightarrow> bool) \<Rightarrow> nat set \<Rightarrow> u8 list \<Rightarrow> u8 list \<Rightarrow> bool" where
  "bits_mapped g S bs bs' \<longleftrightarrow> length bs' = length bs \<and>
     (\<forall>i<8 * length bs. bit_at bs' i = (if i \<in> S then g (bit_at bs i) else bit_at bs i))"

lemma bits_mapped_trans:
  "bits_mapped g S bs bs' \<Longrightarrow> bits_mapped g T bs' bs'' \<Longrightarrow> S \<inter> T = {} \<Longrightarrow>
   bits_mapped g (S \<union> T) bs bs''"
  unfolding bits_mapped_def by auto

lemma map_fragment_bits:
  assumes g: "bitwise mapper g" and k: "k < length bs" and bt: "b \<le> t" "t < 8"
  shows "\<exists>bs'. map_fragment mapper bs k (CFBitBucketMask b t) c = Some (bs', c) \<and>
     bits_mapped g {8 * k + b..8 * k + t} bs bs'"
proof -
  obtain b' where b': "mapper (bs ! k) (CFBitBucketMask b t) c = Some (b', c)"
    "\<forall>n<8. bit b' n = g (bit (bs ! k) n)"
    using g unfolding bitwise_def by blast
  let ?m = "CFBitBucketMask b t"
  let ?w = "(bs ! k AND NOT ?m) OR (b' AND ?m)"
  have "bit_at (bs[k := ?w]) i = (if i \<in> {8 * k + b..8 * k + t} then g (bit_at bs i) else bit_at bs i)" for i
  proof (cases "i div 8 = k")
    case True
    have n: "7 - i mod 8 < 8" by simp
    have "bit ?m (7 - i mod 8) \<longleftrightarrow> 7 - t \<le> 7 - i mod 8 \<and> 7 - i mod 8 + b \<le> 7"
      by (rule bit_mask [OF bt n])
    also have "\<dots> \<longleftrightarrow> b \<le> i mod 8 \<and> i mod 8 \<le> t" using bt mod_less_divisor [of 8 i] by arith
    also have "\<dots> \<longleftrightarrow> i \<in> {8 * k + b..8 * k + t}"
    proof -
      have "i = 8 * k + i mod 8" using mult_div_mod_eq [of 8 i] unfolding True by simp
      then show ?thesis by (metis add_le_cancel_left atLeastAtMost_iff)
    qed
    finally show ?thesis
      using True k b'(2) n by (auto simp: bit_at_update bit_at_def bit_simps)
  next
    case False
    then have "i \<notin> {8 * k + b..8 * k + t}" using bt by auto
    then have "(if i \<in> {8 * k + b..8 * k + t} then g (bit_at bs i) else bit_at bs i) = bit_at bs i"
      by (rule if_not_P)
    with False k show ?thesis by (simp only: bit_at_update if_False)
  qed
  with k b'(1) show ?thesis by (simp add: map_fragment_def bits_mapped_def)
qed

lemma map_whole_bits:
  assumes g: "bitwise mapper g"
  shows "k + n \<le> length bs \<Longrightarrow> \<exists>bs'. map_whole mapper bs k n c = Some (bs', k + n, c) \<and>
     bits_mapped g {8 * k..<8 * (k + n)} bs bs'"
proof (induction n arbitrary: k bs)
  case 0
  then show ?case by (simp add: bits_mapped_def)
next
  case (Suc n)
  obtain b' where b': "mapper (bs ! k) (NOT 0) c = Some (b', c)"
    "\<forall>n<8. bit b' n = g (bit (bs ! k) n)"
    using g unfolding bitwise_def by blast
  have k: "k < length bs" using Suc.prems by simp
  have first: "bits_mapped g {8 * k..<8 * (k + 1)} bs (bs[k := b'])"
  proof -
    have "(i \<in> {8 * k..<8 * (k + 1)}) = (i div 8 = k)" for i by auto
    with k b'(2) show ?thesis by (auto simp: bits_mapped_def bit_at_update bit_at_def)
  qed
  obtain bs' where bs': "map_whole mapper (bs[k := b']) (k + 1) n c = Some (bs', k + 1 + n, c)"
    "bits_mapped g {8 * (k + 1)..<8 * (k + 1 + n)} (bs[k := b']) bs'"
    using Suc.IH [of "k + 1" "bs[k := b']"] Suc.prems by auto
  have "bits_mapped g ({8 * k..<8 * (k + 1)} \<union> {8 * (k + 1)..<8 * (k + 1 + n)}) bs bs'"
    by (rule bits_mapped_trans [OF first bs'(2)]) auto
  moreover have "{8 * k..<8 * (k + 1)} \<union> {8 * (k + 1)..<8 * (k + 1 + n)} = {8 * k..<8 * (k + Suc n)}"
    by auto
  ultimately show ?case using k b'(1) bs'(1) by auto
qed

lemma ramp_union:
  fixes p :: nat
  assumes "p < 8" "loc = 8 * k + p" "p + len = 8 + l" "l = 8 * n + r"
  shows "r = 0 \<Longrightarrow> {8 * k + p..8 * k + (8 - 1)} \<union> {8 * (k + 1)..<8 * (k + 1 + n)} = {loc..<loc + len}"
    and "r \<noteq> 0 \<Longrightarrow> {8 * k + p..8 * k + (8 - 1)} \<union> {8 * (k + 1)..<8 * (k + 1 + n)} \<union>
      {8 * (k + 1 + n) + 0..8 * (k + 1 + n) + (r - 1)} = {loc..<loc + len}"
  using assms by auto

lemma CFBitVectorInternalMap_ramp:
  assumes "len \<noteq> 0" "\<not> loc mod 8 + len < 8" "l = len - (8 - loc mod 8)"
  shows "CFBitVectorInternalMap mapper bs loc len c =
    do { (bs, c) \<leftarrow> map_fragment mapper bs (loc div 8) (CFBitBucketMask (loc mod 8) (8 - 1)) c;
         (bs, k, c) \<leftarrow> map_whole mapper bs (loc div 8 + 1) (l div 8) c;
         if 0 \<noteq> l mod 8 then map_fragment mapper bs k (CFBitBucketMask 0 (l mod 8 - 1)) c
         else Some (bs, c) }"
  unfolding CFBitVectorInternalMap_def Let_def if_not_P [OF assms(2)] prod.case
    assms(3) [symmetric] minus_div_mult_eq_mod
  using assms(1) by simp

lemma CFBitVectorInternalMap_bits:
  assumes g: "bitwise mapper g" and fits: "loc + len < 8 * length bs"
  shows "\<exists>bs'. CFBitVectorInternalMap mapper bs loc len c = Some (bs', c) \<and>
     bits_mapped g {loc..<loc + len} bs bs'"
proof (cases "len = 0")
  case True
  then show ?thesis by (simp add: CFBitVectorInternalMap_def bits_mapped_def)
next
  case pos: False
  let ?k = "loc div 8" and ?o = "loc mod 8"
  have k: "?k < length bs" and o: "?o < 8" and loc: "loc = 8 * ?k + ?o" using fits by auto
  show ?thesis
  proof (cases "?o + len < 8")
    case True
    have bt: "?o \<le> ?o + len - 1" "?o + len - 1 < 8" using True pos by auto
    from map_fragment_bits [OF g k bt, of c] obtain bs' where
      bs': "map_fragment mapper bs ?k (CFBitBucketMask ?o (?o + len - 1)) c = Some (bs', c)"
      "bits_mapped g {8 * ?k + ?o..8 * ?k + (?o + len - 1)} bs bs'" by blast
    have "{8 * ?k + ?o..8 * ?k + (?o + len - 1)} = {loc..<loc + len}" using pos by auto
    with bs' True pos show ?thesis by (simp add: CFBitVectorInternalMap_def)
  next
    case False
    let ?l = "len - (8 - ?o)"
    let ?n = "?l div 8" and ?r = "?l mod 8"
    have l: "?o + len = 8 + ?l" and lr: "?l = 8 * ?n + ?r" and r: "?r < 8"
      using False by auto
    have bt: "?o \<le> 8 - 1" "8 - 1 < (8::nat)" using o by auto
    from map_fragment_bits [OF g k bt, of c] obtain bs1 where
      bs1: "map_fragment mapper bs ?k (CFBitBucketMask ?o (8 - 1)) c = Some (bs1, c)"
      "bits_mapped g {8 * ?k + ?o..8 * ?k + (8 - 1)} bs bs1" by blast
    have len1: "length bs1 = length bs" using bs1(2) by (simp add: bits_mapped_def)
    have "?k + 1 + ?n \<le> length bs1" using fits l lr r loc len1 by linarith
    from map_whole_bits [OF g this, of c] obtain bs2 where
      bs2: "map_whole mapper bs1 (?k + 1) ?n c = Some (bs2, ?k + 1 + ?n, c)"
      "bits_mapped g {8 * (?k + 1)..<8 * (?k + 1 + ?n)} bs1 bs2" by blast
    have len2: "length bs2 = length bs" using bs2(2) len1 by (simp add: bits_mapped_def)
    have m2: "bits_mapped g ({8 * ?k + ?o..8 * ?k + (8 - 1)} \<union> {8 * (?k + 1)..<8 * (?k + 1 + ?n)}) bs bs2"
      by (rule bits_mapped_trans [OF bs1(2) bs2(2)]) auto
    show ?thesis
    proof (cases "?r = 0")
      case True
      have "{8 * ?k + ?o..8 * ?k + (8 - 1)} \<union> {8 * (?k + 1)..<8 * (?k + 1 + ?n)} = {loc..<loc + len}"
        by (rule ramp_union(1) [OF o loc l lr True])
      with m2 have "bits_mapped g {loc..<loc + len} bs bs2" by simp
      moreover have "CFBitVectorInternalMap mapper bs loc len c = Some (bs2, c)"
        using bs1(1) bs2(1) True
        by (simp add: CFBitVectorInternalMap_ramp [OF pos False refl])
      ultimately show ?thesis by blast
    next
      case rpos: False
      have k3: "?k + 1 + ?n < length bs2" using fits l lr rpos loc len2 by linarith
      have bt3: "0 \<le> ?r - 1" "?r - 1 < 8" using r by auto
      from map_fragment_bits [OF g k3 bt3, of c] obtain bs3 where
        bs3: "map_fragment mapper bs2 (?k + 1 + ?n) (CFBitBucketMask 0 (?r - 1)) c = Some (bs3, c)"
        "bits_mapped g {8 * (?k + 1 + ?n) + 0..8 * (?k + 1 + ?n) + (?r - 1)} bs2 bs3" by blast
      have "bits_mapped g (({8 * ?k + ?o..8 * ?k + (8 - 1)} \<union> {8 * (?k + 1)..<8 * (?k + 1 + ?n)}) \<union>
          {8 * (?k + 1 + ?n) + 0..8 * (?k + 1 + ?n) + (?r - 1)}) bs bs3"
        by (rule bits_mapped_trans [OF m2 bs3(2)]) auto
      moreover have "({8 * ?k + ?o..8 * ?k + (8 - 1)} \<union> {8 * (?k + 1)..<8 * (?k + 1 + ?n)}) \<union>
          {8 * (?k + 1 + ?n) + 0..8 * (?k + 1 + ?n) + (?r - 1)} = {loc..<loc + len}"
        by (rule ramp_union(2) [OF o loc l lr rpos])
      moreover have "CFBitVectorInternalMap mapper bs loc len c = Some (bs3, c)"
        using bs1(1) bs2(1) bs3(1) rpos
        by (simp add: CFBitVectorInternalMap_ramp [OF pos False refl])
      ultimately show ?thesis by auto
    qed
  qed
qed

section \<open>Counting\<close>

lemma nibble_take: "val AND 0xF = take_bit 4 val" for val :: u8
proof -
  have m: "(0xF :: u8) = mask 4" by (simp add: mask_eq_decr_exp)
  show ?thesis unfolding m by (simp only: take_bit_eq_mask)
qed

lemma take_bit4: "take_bit 4 n = 8 * of_bool (bit n 3) +
    (4 * of_bool (bit n 2) + (2 * of_bool (bit n 1) + of_bool (bit n 0)))" for n :: nat
proof -
  have e: "4 = Suc 3" "3 = Suc 2" "2 = Suc 1" "1 = Suc 0" "(2::nat) ^ 3 = 8" "(2::nat) ^ 2 = 4"
    by simp_all
  have "take_bit 4 n = 2 ^ 3 * of_bool (bit n 3) + take_bit 3 n"
    by (subst e(1)) (rule take_bit_Suc_from_most)
  also have "take_bit 3 n = 2 ^ 2 * of_bool (bit n 2) + take_bit 2 n"
    by (subst e(2)) (rule take_bit_Suc_from_most)
  also have "take_bit 2 n = 2 ^ 1 * of_bool (bit n 1) + take_bit 1 n"
    by (subst e(3)) (rule take_bit_Suc_from_most)
  also have "take_bit 1 n = 2 ^ 0 * of_bool (bit n 0) + take_bit 0 n"
    by (subst e(4)) (rule take_bit_Suc_from_most)
  finally show ?thesis
    unfolding e(5,6) power_0 power_one_right mult_1 take_bit_0 add_0_right .
qed

lemma unat_nibble: "unat (val AND 0xF) = 8 * of_bool (bit val 3) + (4 * of_bool (bit val 2) +
    (2 * of_bool (bit val 1) + of_bool (bit val 0)))" for val :: u8
  unfolding nibble_take unsigned_take_bit_eq take_bit4 by (simp only: bit_unsigned_iff) simp

lemma nibble_table: "CFNibbleBitCount !
     (8 * of_bool p + (4 * of_bool q + (2 * of_bool r + of_bool s))) =
    of_bool p + of_bool q + of_bool r + of_bool s"
  by (cases p; cases q; cases r; cases s; simp add: CFNibbleBitCount_def)

definition popcount8 :: "u8 \<Rightarrow> nat" where
  "popcount8 b = card {j. j < 8 \<and> bit b (7 - j)}"

lemma popcount8_sum: "popcount8 b = of_bool (bit b 3) + of_bool (bit b 2) + of_bool (bit b 1) +
    of_bool (bit b 0) + (of_bool (bit b 7) + of_bool (bit b 6) + of_bool (bit b 5) + of_bool (bit b 4))"
proof -
  have "{j. j < 8 \<and> bit b (7 - j)} = {..<8} \<inter> {j. bit b (7 - j)}" by auto
  then have "popcount8 b = (\<Sum>j\<in>{..<8}. of_bool (bit b (7 - j)))"
    unfolding popcount8_def by simp
  moreover have "{..<8::nat} = {0,1,2,3,4,5,6,7}" by auto
  ultimately show ?thesis by simp
qed

definition counted :: "occursContext \<Rightarrow> nat \<Rightarrow> occursContext" where
  "counted c n = c\<lparr>oc_count := oc_count c + n\<rparr>"

lemma counted_simps [simp]:
  "oc_value (counted c n) = oc_value c" "oc_count (counted c n) = oc_count c + n"
  "counted (counted c n) m = counted c (n + m)" "counted c 0 = c"
  by (simp_all add: counted_def add.assoc)

lemma count_nibbles:
  "(count_nibble ^^ 2) (val, c) = (0, counted c (popcount8 val))"
proof -
  have z: "drop_bit 4 (drop_bit 4 val) = 0" by (rule bit_word_eqI) (auto simp: bit_simps)
  have two: "(count_nibble ^^ 2) s = count_nibble (count_nibble s)" for s
    by (simp add: numeral_2_eq_2)
  show ?thesis
    unfolding two count_nibble_def prod.case unat_nibble nibble_table z popcount8_sum
    by (simp add: bit_drop_bit_eq counted_def)
qed

lemma CFBitVectorCountBits_spec:
  "CFBitVectorCountBits b m c = Some (b, counted c
     (card {j. j < 8 \<and> bit m (7 - j) \<and> bit b (7 - j) = (oc_value c \<noteq> 0)}))"
proof -
  have "popcount8 (if oc_value c \<noteq> 0 then b AND m else NOT b AND m) =
      card {j. j < 8 \<and> bit m (7 - j) \<and> bit b (7 - j) = (oc_value c \<noteq> 0)}"
    unfolding popcount8_def by (rule arg_cong [where f = card]) (auto simp: bit_simps)
  then show ?thesis
    unfolding CFBitVectorCountBits_def Let_def by (simp only: mult_1 count_nibbles prod.case)
qed

text \<open>The positions of a range that hold a given bit.\<close>

definition hits :: "u8 list \<Rightarrow> bool \<Rightarrow> nat set \<Rightarrow> nat" where
  "hits bs v S = card {i \<in> S. bit_at bs i = v}"

lemma hits_Un: "finite S \<Longrightarrow> finite T \<Longrightarrow> S \<inter> T = {} \<Longrightarrow> hits bs v (S \<union> T) = hits bs v S + hits bs v T"
proof -
  assume a: "finite S" "finite T" "S \<inter> T = {}"
  have "{i \<in> S \<union> T. bit_at bs i = v} = {i \<in> S. bit_at bs i = v} \<union> {i \<in> T. bit_at bs i = v}" by auto
  then show ?thesis using a unfolding hits_def by (auto intro!: card_Un_disjoint)
qed

lemma hits_bucket:
  assumes "\<And>j. j < 8 \<Longrightarrow> bit m (7 - j) \<longleftrightarrow> 8 * k + j \<in> S" "S \<subseteq> {8 * k..<8 * (k + 1)}"
  shows "card {j. j < 8 \<and> bit m (7 - j) \<and> bit (bs ! k) (7 - j) = v} = hits bs v S"
  unfolding hits_def
proof (rule bij_betw_same_card [of "\<lambda>j. 8 * k + j"], rule bij_betw_imageI)
  show "(\<lambda>j. 8 * k + j) ` {j. j < 8 \<and> bit m (7 - j) \<and> bit (bs ! k) (7 - j) = v} =
      {i \<in> S. bit_at bs i = v}"
  proof (intro equalityI subsetI)
    fix i assume i: "i \<in> {i \<in> S. bit_at bs i = v}"
    then have ik: "8 * k \<le> i" "i < 8 * k + 8" using assms(2) by auto
    then have d: "i div 8 = k" by auto
    then have "i mod 8 = i - 8 * k" by (simp add: minus_mult_div_eq_mod [symmetric])
    with d ik have "i = 8 * k + (i - 8 * k)" "i - 8 * k < 8" "i div 8 = k" "i mod 8 = i - 8 * k"
      by auto
    with i assms(1) [of "i - 8 * k"]
    show "i \<in> (\<lambda>j. 8 * k + j) ` {j. j < 8 \<and> bit m (7 - j) \<and> bit (bs ! k) (7 - j) = v}"
      by (auto simp: bit_at_def intro!: image_eqI [of _ _ "i - 8 * k"])
  qed (use assms(1) in \<open>auto simp: bit_at_def\<close>)
qed (simp add: inj_on_def)

lemma same_bits: "(b AND NOT m) OR (b AND m) = b" for b :: u8
  by (rule bit_word_eqI) (auto simp: bit_simps)

lemma count_fragment:
  assumes k: "k < length bs" and bt: "b \<le> t" "t < 8"
  shows "map_fragment CFBitVectorCountBits bs k (CFBitBucketMask b t) c =
    Some (bs, counted c (hits bs (oc_value c \<noteq> 0) {8 * k + b..8 * k + t}))"
proof -
  have "bit (CFBitBucketMask b t) (7 - j) \<longleftrightarrow> 8 * k + j \<in> {8 * k + b..8 * k + t}" if "j < 8" for j
    using bit_mask [OF bt, of "7 - j"] that by auto
  then have "card {j. j < 8 \<and> bit (CFBitBucketMask b t) (7 - j) \<and> bit (bs ! k) (7 - j) = (oc_value c \<noteq> 0)}
      = hits bs (oc_value c \<noteq> 0) {8 * k + b..8 * k + t}"
    by (rule hits_bucket) (use bt in auto)
  with k show ?thesis
    by (simp add: map_fragment_def CFBitVectorCountBits_spec same_bits)
qed

lemma count_whole:
  "k + n \<le> length bs \<Longrightarrow> map_whole CFBitVectorCountBits bs k n c =
    Some (bs, k + n, counted c (hits bs (oc_value c \<noteq> 0) {8 * k..<8 * (k + n)}))"
proof (induction n arbitrary: k c)
  case 0
  then show ?case by (simp add: hits_def)
next
  case (Suc n)
  have "card {j. j < 8 \<and> bit (NOT 0 :: u8) (7 - j) \<and> bit (bs ! k) (7 - j) = (oc_value c \<noteq> 0)}
      = hits bs (oc_value c \<noteq> 0) {8 * k..<8 * (k + 1)}"
    by (rule hits_bucket) (auto simp: bit_simps)
  moreover have "hits bs v {8 * k..<8 * (k + Suc n)} =
      hits bs v {8 * k..<8 * (k + 1)} + hits bs v {8 * (k + 1)..<8 * (k + 1 + n)}" for v
    using hits_Un [of "{8 * k..<8 * (k + 1)}" "{8 * (k + 1)..<8 * (k + 1 + n)}" bs v]
    by (simp add: ivl_disj_un)
  ultimately show ?case using Suc.IH [of "k + 1"] Suc.prems
    by (simp add: CFBitVectorCountBits_spec)
qed

lemma CFBitVectorInternalMap_count:
  assumes fits: "loc + len < 8 * length bs"
  shows "CFBitVectorInternalMap CFBitVectorCountBits bs loc len c =
    Some (bs, counted c (hits bs (oc_value c \<noteq> 0) {loc..<loc + len}))"
proof (cases "len = 0")
  case True
  then show ?thesis by (simp add: CFBitVectorInternalMap_def hits_def)
next
  case pos: False
  let ?k = "loc div 8" and ?o = "loc mod 8" and ?v = "oc_value c \<noteq> 0"
  have k: "?k < length bs" and o: "?o < 8" and loc: "loc = 8 * ?k + ?o" using fits by auto
  show ?thesis
  proof (cases "?o + len < 8")
    case True
    have bt: "?o \<le> ?o + len - 1" "?o + len - 1 < 8" using True pos by auto
    have "{8 * ?k + ?o..8 * ?k + (?o + len - 1)} = {loc..<loc + len}" using pos by auto
    with count_fragment [OF k bt, of c] True pos show ?thesis
      by (simp add: CFBitVectorInternalMap_def)
  next
    case False
    let ?l = "len - (8 - ?o)"
    let ?n = "?l div 8" and ?r = "?l mod 8"
    let ?A = "{8 * ?k + ?o..8 * ?k + (8 - 1)}" and ?B = "{8 * (?k + 1)..<8 * (?k + 1 + ?n)}"
    have l: "?o + len = 8 + ?l" and lr: "?l = 8 * ?n + ?r" and r: "?r < 8" using False by auto
    have bt: "?o \<le> 8 - 1" "8 - 1 < (8::nat)" using o by auto
    have n: "?k + 1 + ?n \<le> length bs" using fits l lr r loc by linarith
    have AB: "hits bs ?v (?A \<union> ?B) = hits bs ?v ?A + hits bs ?v ?B" by (rule hits_Un) auto
    show ?thesis
    proof (cases "?r = 0")
      case True
      with AB have "hits bs ?v {loc..<loc + len} = hits bs ?v ?A + hits bs ?v ?B"
        by (simp only: ramp_union(1) [OF o loc l lr True])
      then show ?thesis
        unfolding CFBitVectorInternalMap_ramp [OF pos False refl] count_fragment [OF k bt]
          Option.bind_lunit prod.case count_whole [OF n] True
        by (simp only: counted_simps if_False simp_thms)
    next
      case rpos: False
      let ?C = "{8 * (?k + 1 + ?n) + 0..8 * (?k + 1 + ?n) + (?r - 1)}"
      have k3: "?k + 1 + ?n < length bs" using fits l lr rpos loc by linarith
      have bt3: "0 \<le> ?r - 1" "?r - 1 < 8" using r by auto
      have "hits bs ?v (?A \<union> ?B \<union> ?C) = hits bs ?v (?A \<union> ?B) + hits bs ?v ?C"
        by (rule hits_Un) auto
      with AB have "hits bs ?v {loc..<loc + len} = hits bs ?v ?A + hits bs ?v ?B + hits bs ?v ?C"
        by (simp only: ramp_union(2) [OF o loc l lr rpos])
      moreover from rpos have "(0 \<noteq> ?r) = True" by simp
      ultimately show ?thesis
        unfolding CFBitVectorInternalMap_ramp [OF pos False refl] count_fragment [OF k bt]
          Option.bind_lunit prod.case count_whole [OF n] count_fragment [OF k3 bt3]
        by (simp only: if_True counted_simps)
    qed
  qed
qed

section \<open>Copying out\<close>

lemma getBits_full:
  assumes "gb_initBits c = 0" "8 \<le> gb_totalBits c" "gb_curByte c < length (gb_bytes c)"
  shows "CFBitVectorGetBits_mapper b m c = Some (b, c\<lparr>gb_bytes := (gb_bytes c)[gb_curByte c := b AND m],
     gb_curByte := gb_curByte c + 1\<rparr>)"
  using assms by (simp add: CFBitVectorGetBits_mapper_def getBits_whole.simps)

lemma getBits_last:
  assumes "gb_initBits c = 0" "0 < gb_totalBits c" "gb_totalBits c < 8"
    "gb_curByte c < length (gb_bytes c)"
  shows "CFBitVectorGetBits_mapper b m c = Some (b, c\<lparr>gb_bytes := (gb_bytes c)[gb_curByte c := b AND m],
     gb_totalBits := 0\<rparr>)"
  using assms by (simp add: CFBitVectorGetBits_mapper_def getBits_whole.simps)

lemma getBits_whole_run:
  assumes "k + n \<le> length bs" "gb_initBits c = 0" "8 \<le> gb_totalBits c"
    "gb_bytes c = pre @ rest" "gb_curByte c = length pre" "n \<le> length rest"
  shows "map_whole CFBitVectorGetBits_mapper bs k n c = Some (bs, k + n,
    c\<lparr>gb_bytes := pre @ take n (drop k bs) @ drop n rest, gb_curByte := length pre + n\<rparr>)"
  using assms
proof (induction n arbitrary: k c pre rest)
  case 0
  then show ?case by (cases c) simp
next
  case (Suc n)
  then obtain x rest' where rest: "rest = x # rest'" by (cases rest) auto
  let ?c = "c\<lparr>gb_bytes := (pre @ [bs ! k]) @ rest', gb_curByte := length pre + 1\<rparr>"
  have k: "k < length bs" using Suc.prems by simp
  have "CFBitVectorGetBits_mapper (bs ! k) (NOT 0) c = Some (bs ! k, ?c)"
    using Suc.prems by (subst getBits_full) (auto simp: rest)
  moreover have "map_whole CFBitVectorGetBits_mapper bs (k + 1) n ?c = Some (bs, k + 1 + n,
      ?c\<lparr>gb_bytes := (pre @ [bs ! k]) @ take n (drop (k + 1) bs) @ drop n rest',
        gb_curByte := length (pre @ [bs ! k]) + n\<rparr>)"
    by (rule Suc.IH) (use Suc.prems rest in auto)
  moreover have "take (Suc n) (drop k bs) = bs ! k # take n (drop (Suc k) bs)"
    using k by (simp add: Cons_nth_drop_Suc [symmetric])
  ultimately show ?case using k rest by simp
qed

text \<open>What an aligned \<open>CFBitVectorGetBits\<close> leaves in the buffer.\<close>

definition copied :: "u8 list \<Rightarrow> nat \<Rightarrow> nat \<Rightarrow> u8 list \<Rightarrow> u8 list" where
  "copied bs k len bytes = take (len div 8) (drop k bs) @
     (if len mod 8 = 0 then drop (len div 8) bytes
      else (bs ! (k + len div 8) AND CFBitBucketMask 0 (len mod 8 - 1)) # drop (len div 8 + 1) bytes)"

lemma fragment_getBits:
  assumes "k < length bs" "CFBitVectorGetBits_mapper (bs ! k) m c = Some (bs ! k, c')"
  shows "map_fragment CFBitVectorGetBits_mapper bs k m c = Some (bs, c')"
  using assms by (simp add: map_fragment_def same_bits)

lemma full_mask: "CFBitBucketMask 0 (8 - 1) = NOT 0"
  by (simp add: CFBitBucketMask_def)

lemma CFBitVectorInternalMap_getBits_short:
  assumes "0 < len" "len < 8" "k < length bs" "bytes \<noteq> []"
  shows "\<exists>c'. CFBitVectorInternalMap CFBitVectorGetBits_mapper bs (8 * k) len
      \<lparr>gb_bytes = bytes, gb_curByte = 0, gb_initBits = 0, gb_totalBits = int len,
       gb_ignoreFirstInitBits = True\<rparr> = Some (bs, c') \<and> gb_bytes c' = copied bs k len bytes"
proof -
  obtain x rest where bytes: "bytes = x # rest" using assms(4) by (cases bytes) auto
  show ?thesis
    using assms(1,2,3) unfolding CFBitVectorInternalMap_def
    by (simp add: bytes fragment_getBits [OF assms(3) getBits_last] copied_def)
qed

lemma CFBitVectorInternalMap_getBits:
  assumes len: "8 \<le> len" and fits: "8 * k + len < 8 * length bs" and room: "(len + 7) div 8 \<le> length bytes"
  shows "\<exists>c'. CFBitVectorInternalMap CFBitVectorGetBits_mapper bs (8 * k) len
      \<lparr>gb_bytes = bytes, gb_curByte = 0, gb_initBits = 0, gb_totalBits = int len,
       gb_ignoreFirstInitBits = True\<rparr> = Some (bs, c') \<and> gb_bytes c' = copied bs k len bytes"
proof -
  obtain x rest where bytes: "bytes = x # rest" using room len by (cases bytes) auto
  let ?n = "(len - 8) div 8" and ?r = "(len - 8) mod 8"
  let ?c = "\<lambda>bytes cur. \<lparr>gb_bytes = bytes, gb_curByte = cur, gb_initBits = 0, gb_totalBits = int len,
       gb_ignoreFirstInitBits = True\<rparr>"
  have k: "k < length bs" and n: "k + 1 + ?n \<le> length bs" and rest: "?n \<le> length rest"
    using fits len room bytes by auto
  have d: "len div 8 = Suc ?n" and m: "len mod 8 = ?r" using len by (auto simp: le_div_geq le_mod_geq)
  have 1: "map_fragment CFBitVectorGetBits_mapper bs k (CFBitBucketMask 0 (8 - 1)) (?c bytes 0) =
      Some (bs, ?c ([bs ! k] @ rest) 1)"
    unfolding full_mask by (rule fragment_getBits [OF k], subst getBits_full) (use len bytes in auto)
  have 2: "map_whole CFBitVectorGetBits_mapper bs (k + 1) ?n (?c ([bs ! k] @ rest) 1) =
      Some (bs, k + 1 + ?n, ?c ([bs ! k] @ take ?n (drop (k + 1) bs) @ drop ?n rest) (1 + ?n))"
    by (subst getBits_whole_run [OF n, where pre = "[bs ! k]" and rest = rest]) (use len rest in auto)
  have t: "take (Suc ?n) (drop k bs) = bs ! k # take ?n (drop (Suc k) bs)"
    using k by (simp add: Cons_nth_drop_Suc [symmetric])
  have eq: "8 * k div 8 = k" "8 * k mod 8 = 0" by simp_all
  note ramp = CFBitVectorInternalMap_ramp [of len "8 * k" "len - 8", unfolded eq]
  show ?thesis
  proof (cases "?r = 0")
    case True
    then show ?thesis using len 1 2 bytes
      by (simp add: ramp copied_def d m t)
  next
    case False
    have k3: "k + 1 + ?n < length bs" using fits len False by arith
    have "len = 8 + (8 * ?n + ?r)" using len by simp
    moreover have "len \<le> 8 * ((len + 7) div 8)" by presburger
    moreover have "(len + 7) div 8 \<le> 1 + length rest" using room bytes by simp
    ultimately have "?n < length rest" using False by linarith
    then obtain y rest' where y: "drop ?n rest = y # rest'"
      by (cases "drop ?n rest") auto
    then have rest': "rest' = drop (Suc ?n) rest" by (metis drop_Suc list.sel(3) tl_drop)
    let ?b = "bs ! (k + 1 + ?n) AND CFBitBucketMask 0 (?r - 1)"
    have 3: "map_fragment CFBitVectorGetBits_mapper bs (k + 1 + ?n) (CFBitBucketMask 0 (?r - 1))
        (?c ([bs ! k] @ take ?n (drop (k + 1) bs) @ y # rest') (1 + ?n)) =
      Some (bs, ?c ([bs ! k] @ take ?n (drop (k + 1) bs) @ ?b # rest') (2 + ?n))"
      by (rule fragment_getBits [OF k3], subst getBits_full) (use len n in \<open>auto simp: list_update_append\<close>)
    show ?thesis using len 1 2 [unfolded y] 3 False bytes
      by (simp add: ramp copied_def d m t rest' drop_Suc)
  qed
qed

lemma bit_at_copied:
  assumes i: "i < 8 * length bytes" and fits: "8 * k + len < 8 * length bs"
    and room: "(len + 7) div 8 \<le> length bytes"
  shows "bit_at (copied bs k len bytes) i =
    (if i < len then bit_at bs (8 * k + i)
     else if i < 8 * ((len + 7) div 8) then False else bit_at bytes i)"
proof -
  let ?q = "len div 8" and ?r = "len mod 8" and ?j = "i div 8"
  have lenq: "len = 8 * ?q + ?r" "?r < 8" by simp_all
  have kb: "k + ?q < length bs" using fits lenq by linarith
  then have take: "length (take ?q (drop k bs)) = ?q" by simp
  have idx: "(8 * k + i) div 8 = k + ?j" "(8 * k + i) mod 8 = i mod 8" by simp_all
  have ceil: "(len + 7) div 8 = (if ?r = 0 then ?q else Suc ?q)" by presburger
  have less8: "i < 8 * x \<longleftrightarrow> ?j < x" for x by (simp add: div_less_iff_less_mult mult.commute)
  have ij: "i = 8 * ?j + i mod 8" "i mod 8 < 8" by simp_all
  consider (lo) "?j < ?q" | (mid) "?j = ?q" "?r \<noteq> 0" | (hi) "?q \<le> ?j" "?j = ?q \<longrightarrow> ?r = 0"
    by linarith
  then show ?thesis
  proof cases
    case lo
    then have "i < len" using lenq ij by linarith
    moreover have "copied bs k len bytes ! ?j = bs ! (k + ?j)"
      using lo take by (simp add: copied_def nth_append)
    ultimately show ?thesis by (simp add: bit_at_def idx)
  next
    case mid
    have up: "i < 8 * ((len + 7) div 8)" unfolding less8 ceil using mid by simp
    have n: "7 - i mod 8 < 8" by simp
    have bt: "0 \<le> ?r - 1" "?r - 1 < 8" using lenq by auto
    have "i < len \<longleftrightarrow> i mod 8 \<le> ?r - 1" using mid lenq ij by linarith
    then have m: "bit (CFBitBucketMask 0 (?r - 1)) (7 - i mod 8) \<longleftrightarrow> i < len"
      using bit_mask [OF bt n] ij(2) by auto
    have c: "copied bs k len bytes ! ?j = bs ! (k + ?q) AND CFBitBucketMask 0 (?r - 1)"
      using mid take by (simp add: copied_def nth_append)
    have b: "bit_at bs (8 * k + i) = bit (bs ! (k + ?q)) (7 - i mod 8)"
      using mid(1) by (simp only: bit_at_def idx)
    have "bit_at (copied bs k len bytes) i = (bit_at bs (8 * k + i) \<and> i < len)"
      unfolding b unfolding bit_at_def c bit_and_iff m ..
    then show ?thesis using up by (cases "i < len") (simp_all only: if_True if_False simp_thms)
  next
    case hi
    have "q \<le> j \<Longrightarrow> (j = q \<longrightarrow> r = 0) \<Longrightarrow> r < 8 \<Longrightarrow> 8 * q + r \<le> 8 * j + m" for q j r m :: nat
      by (cases "j = q") auto
    from this [OF hi lenq(2), of "i mod 8"] have "len \<le> i" by simp
    moreover have "\<not> i < 8 * ((len + 7) div 8)"
      using hi unfolding less8 ceil by (cases "?r = 0") auto
    moreover have "copied bs k len bytes ! ?j = bytes ! ?j"
    proof (cases "?r = 0")
      case True
      then show ?thesis using hi take i by (simp add: copied_def nth_append)
    next
      case False
      then have "?q < ?j" using hi by simp
      then obtain d where "?j = ?q + Suc d" using less_imp_Suc_add by fastforce
      then show ?thesis using False take i by (simp add: copied_def nth_append)
    qed
    ultimately show ?thesis by (simp add: bit_at_def)
  qed
qed

lemma length_copied:
  assumes "8 * k + len < 8 * length bs" "(len + 7) div 8 \<le> length bytes"
  shows "length (copied bs k len bytes) = length bytes"
proof -
  have "8 * (len div 8) \<le> len" by simp
  then have "k + len div 8 < length bs" using assms(1) by linarith
  moreover have "len div 8 \<le> length bytes" "len mod 8 \<noteq> 0 \<Longrightarrow> len div 8 < length bytes"
    using assms(2) by presburger+
  ultimately show ?thesis by (auto simp: copied_def)
qed

section \<open>Ranges of a bit store\<close>

text \<open>Any indexed bit store whose single-bit update is right has a right range update: the
  reference that the bucket-wise routines are compared with.\<close>

locale bit_store =
  fixes inv :: "'s \<Rightarrow> bool" and size :: "'s \<Rightarrow> nat" and get :: "'s \<Rightarrow> nat \<Rightarrow> bool"
    and set :: "'s \<Rightarrow> nat \<Rightarrow> bool \<Rightarrow> 's option"
  assumes set_law: "inv s \<Longrightarrow> i < size s \<Longrightarrow> \<exists>s'. set s i v = Some s' \<and> inv s' \<and> size s' = size s \<and>
    (\<forall>j < size s. get s' j = (if j = i then v else get s j))"
begin

fun set_each :: "'s \<Rightarrow> nat list \<Rightarrow> bool \<Rightarrow> 's option" where
  "set_each s [] v = Some s"
| "set_each s (i # is) v = do { s \<leftarrow> set s i v; set_each s is v }"

lemma set_each_law:
  "inv s \<Longrightarrow> \<forall>i\<in>List.set is. i < size s \<Longrightarrow> \<exists>s'. set_each s is v = Some s' \<and> inv s' \<and>
    size s' = size s \<and> (\<forall>j < size s. get s' j = (if j \<in> List.set is then v else get s j))"
proof (induction "is" arbitrary: s)
  case (Cons i "is")
  obtain s1 where s1: "set s i v = Some s1" "inv s1" "size s1 = size s"
    "\<forall>j < size s. get s1 j = (if j = i then v else get s j)"
    using set_law [of s i v] Cons.prems by auto
  with Cons.IH [of s1] Cons.prems show ?case by auto
qed simp

end

lemma CFBitVectorSetBitAtIndex_law:
  assumes "bv_inv bv" "i < bv_count bv"
  shows "\<exists>bv'. CFBitVectorSetBitAtIndex bv i v = Some bv' \<and> bv_inv bv' \<and>
    bv_count bv' = bv_count bv \<and>
    (\<forall>j. bit_at (bv_buckets bv') j = (if j = i then v \<noteq> 0 else bit_at (bv_buckets bv) j))"
proof -
  have "i < 8 * length (bv_buckets bv)" using bv_inv_room [OF assms(1)] assms(2) by simp
  then obtain bs' where "CFSetBitVectorBit (bv_buckets bv) i v = Some bs'"
    "length bs' = length (bv_buckets bv)"
    "\<And>j. bit_at bs' j = (if j = i then v \<noteq> 0 else bit_at (bv_buckets bv) j)"
    by (rule CFSetBitVectorBit_bits) blast
  then show ?thesis using assms
    by (simp add: CFBitVectorSetBitAtIndex_def bv_inv_def CFBitVectorNumBuckets_def)
qed

interpretation bv: bit_store bv_inv bv_count "\<lambda>bv. bit_at (bv_buckets bv)"
    "\<lambda>bv i v. CFBitVectorSetBitAtIndex bv i (of_bool v)"
proof
  fix bv i v assume "bv_inv bv" "i < bv_count bv"
  from CFBitVectorSetBitAtIndex_law [OF this, of "of_bool v"]
  show "\<exists>s'. CFBitVectorSetBitAtIndex bv i (of_bool v) = Some s' \<and> bv_inv s' \<and>
      bv_count s' = bv_count bv \<and>
      (\<forall>j<bv_count bv. bit_at (bv_buckets s') j = (if j = i then v else bit_at (bv_buckets bv) j))"
    by auto
qed

section \<open>Range operations\<close>

lemma bitwise_mappers:
  "bitwise CFBitVectorZeroBits (\<lambda>_. False)" "bitwise CFBitVectorOneBits (\<lambda>_. True)"
  "bitwise CFBitVectorFlipBits_mapper Not"
  by (auto simp: bitwise_def CFBitVectorZeroBits_def CFBitVectorOneBits_def
      CFBitVectorFlipBits_mapper_def bit_simps)

lemma bv_map_law:
  assumes g: "bitwise mapper g" and fits: "loc + len < 8 * length (bv_buckets bv)"
  shows "\<exists>bs'. bv_map mapper bv loc len = Some (bv\<lparr>bv_buckets := bs'\<rparr>) \<and>
    bits_mapped g {loc..<loc + len} (bv_buckets bv) bs'"
  using CFBitVectorInternalMap_bits [OF g fits, of "()"] by (auto simp: bv_map_def)

lemma bv_map_bits:
  assumes g: "bitwise mapper g" and inv: "bv_inv bv" and range: "loc + len \<le> bv_count bv"
  shows "\<exists>bv'. bv_map mapper bv loc len = Some bv' \<and> bv_inv bv' \<and> bv_count bv' = bv_count bv \<and>
    bv_variety bv' = bv_variety bv \<and>
    (\<forall>j<bv_count bv. bit_at (bv_buckets bv') j =
      (if loc \<le> j \<and> j < loc + len then g (bit_at (bv_buckets bv) j) else bit_at (bv_buckets bv) j))"
proof -
  have "bv_count bv < 8 * length (bv_buckets bv)" by (rule bv_inv_room [OF inv])
  then have "loc + len < 8 * length (bv_buckets bv)" using range by linarith
  from bv_map_law [OF g this] show ?thesis
    using inv bv_inv_room [OF inv]
    by (auto simp: bits_mapped_def bv_inv_def CFBitVectorNumBuckets_def)
qed

lemma bv_bits_eq_iff: "bv_bits bv = xs \<longleftrightarrow>
    length xs = bv_count bv \<and> (\<forall>i<bv_count bv. bit_at (bv_buckets bv) i = xs ! i)"
  by (auto simp: bv_bits_def list_eq_iff_nth_eq)

lemma length_bv_bits [simp]: "length (bv_bits bv) = bv_count bv"
  by (simp add: bv_bits_def)

lemma nth_bv_bits [simp]: "i < bv_count bv \<Longrightarrow> bv_bits bv ! i = bit_at (bv_buckets bv) i"
  by (simp add: bv_bits_def)

lemma SetBits_law:
  assumes inv: "bv_inv bv" and range: "loc + len \<le> bv_count bv"
  shows "\<exists>bv'. CFBitVectorSetBits bv loc len value = Some bv' \<and> bv_inv bv' \<and>
    bv_bits bv' = take loc (bv_bits bv) @ replicate len (value \<noteq> 0) @ drop (loc + len) (bv_bits bv)"
proof (cases "len = 0")
  case True
  then show ?thesis using inv range by (simp add: CFBitVectorSetBits_def)
next
  case False
  have "bv_map (if value \<noteq> 0 then CFBitVectorOneBits else CFBitVectorZeroBits) bv loc len =
      CFBitVectorSetBits bv loc len value" using False by (simp add: CFBitVectorSetBits_def)
  moreover have g: "bitwise (if value \<noteq> 0 then CFBitVectorOneBits else CFBitVectorZeroBits) (\<lambda>_. value \<noteq> 0)"
    using bitwise_mappers by simp
  ultimately obtain bv' where bv': "CFBitVectorSetBits bv loc len value = Some bv'" "bv_inv bv'"
    "bv_count bv' = bv_count bv" "\<forall>j<bv_count bv. bit_at (bv_buckets bv') j =
      (if loc \<le> j \<and> j < loc + len then value \<noteq> 0 else bit_at (bv_buckets bv) j)"
    using bv_map_bits [OF g inv range] by auto
  moreover have "bv_bits bv' = take loc (bv_bits bv) @ replicate len (value \<noteq> 0) @ drop (loc + len) (bv_bits bv)"
    unfolding bv_bits_eq_iff using bv'(3,4) range by (auto simp: nth_append not_less)
  ultimately show ?thesis by blast
qed

section \<open>Creation and growth\<close>

lemma roundup: "n \<le> CFBitVectorRoundUpCapacity n" "CFBitVectorRoundUpCapacity n mod 64 = 0"
proof -
  have "m \<le> (m + 63) div 64 * 64" for m :: nat using dividend_less_times_div [of 64 "m + 63"] by simp
  from this [of "if n = 0 then 1 else n"] show "n \<le> CFBitVectorRoundUpCapacity n"
    unfolding CFBitVectorRoundUpCapacity_def Let_def by (cases "n = 0") simp_all
qed (simp add: CFBitVectorRoundUpCapacity_def Let_def)

lemma bytes_for: "n div 8 + (if n mod 8 \<noteq> 0 then 1 else 0) = (n + 7) div 8" for n :: nat
  by presburger

lemma CFBitVectorInit_Some:
  "CFBitVectorInit flags capacity (Some bs) n =
    (let cap = CFBitVectorRoundUpCapacity n; m = (n + 7) div 8; zeros = replicate (cap div 8 + 1) 0 in
     if m \<le> length bs \<and> m \<le> cap div 8 + 1
     then Some \<lparr>bv_count = n, bv_capacity = cap, bv_buckets = take m bs @ drop m zeros,
       bv_variety = flags\<rparr> else None)"
  unfolding CFBitVectorInit_def Let_def bytes_for by (simp add: CFBitVectorNumBuckets_def)

lemma CFBitVectorInit_law:
  assumes "case bytes of None \<Rightarrow> True | Some bs \<Rightarrow> (n + 7) div 8 \<le> length bs"
  shows "\<exists>bv. CFBitVectorInit flags capacity bytes n = Some bv \<and> bv_inv bv \<and> bv_count bv = n \<and>
    bv_variety bv = flags \<and>
    bv_bits bv = (case bytes of None \<Rightarrow> replicate n False | Some bs \<Rightarrow> map (bit_at bs) [0..<n])"
proof -
  let ?cap = "CFBitVectorRoundUpCapacity n"
  have cap: "(n + 7) div 8 \<le> ?cap div 8 + 1" using roundup(1) [of n] by (simp add: div_le_mono)
  have small: "i div 8 < (n + 7) div 8" "i div 8 \<le> ?cap div 8" if "i < n" for i
    using that roundup(1) [of n] by (simp_all add: div_less_iff_less_mult div_le_mono) 
  show ?thesis
  proof (cases bytes)
    case None
    have "bit_at (replicate (Suc (?cap div 8)) 0) i = False" if "i < n" for i
      unfolding bit_at_def using small(2) [OF that]
      by (simp only: nth_replicate less_Suc_eq_le) simp
    then show ?thesis using None roundup [of n]
      by (simp add: CFBitVectorInit_def CFBitVectorNumBuckets_def bv_inv_def bv_bits_def
          list_eq_iff_nth_eq del: replicate_Suc)
  next
    case (Some bs)
    let ?b = "take ((n + 7) div 8) bs @ drop ((n + 7) div 8) (replicate (Suc (?cap div 8)) 0)"
    have bits: "bit_at ?b i = bit_at bs i" if "i < n" for i
      using small(1) [OF that] assms Some by (simp add: bit_at_def nth_append)
    have "length ?b = Suc (?cap div 8)" using cap assms Some by simp
    then show ?thesis using Some assms cap roundup [of n] bits
      by (simp add: CFBitVectorInit_Some CFBitVectorNumBuckets_def bv_inv_def bv_bits_def Let_def
          del: replicate_Suc)
  qed
qed

lemma SetCount_law:
  assumes inv: "bv_inv bv" and var: "bv_variety bv = kCFBitVectorMutable"
  shows "\<exists>bv'. CFBitVectorSetCount fresh bv n = Some bv' \<and> bv_inv bv' \<and> bv_count bv' = n \<and>
    bv_bits bv' = take n (bv_bits bv) @ replicate (n - bv_count bv) False"
proof (cases "bv_count bv < n")
  case False
  then show ?thesis using inv var
    by (simp add: CFBitVectorSetCount_def bv_inv_def CFBitVectorNumBuckets_def bv_bits_def take_map)
next
  case True
  let ?cnt = "bv_count bv" and ?g = "CFBitVectorGrow fresh bv (n - bv_count bv)"
  let ?cap = "CFBitVectorRoundUpCapacity n" and ?old = "bv_buckets bv"
  have g: "bv_capacity ?g = ?cap" "bv_count ?g = ?cnt" "bv_variety ?g = bv_variety bv"
    "bv_buckets ?g = take (Suc (?cap div 8)) ?old @ map fresh [length ?old..<Suc (?cap div 8)]"
    using True by (simp_all add: CFBitVectorGrow_def CFBitVectorNumBuckets_def Let_def del: upt_Suc)
  then have len: "length (bv_buckets ?g) = Suc (?cap div 8)" by (simp del: upt_Suc)
  have room: "?cnt < 8 * length ?old" by (rule bv_inv_room [OF inv])
  have keep: "bit_at (bv_buckets ?g) i = bit_at ?old i" if "i < ?cnt" for i
  proof -
    have "i div 8 < length ?old" using that room by simp
    moreover have "i div 8 \<le> ?cap div 8" using that True roundup(1) [of n] by (simp add: div_le_mono)
    ultimately show ?thesis by (simp add: bit_at_def g nth_append del: upt_Suc)
  qed
  have "?cnt + (n - ?cnt) < 8 * length (bv_buckets ?g)" using True roundup(1) [of n] below_buckets [of ?cap] unfolding len by simp
  from bv_map_law [OF bitwise_mappers(1) this] obtain bs' where
    m: "bv_map CFBitVectorZeroBits ?g ?cnt (n - ?cnt) = Some (?g\<lparr>bv_buckets := bs'\<rparr>)"
    and b: "bits_mapped (\<lambda>_. False) {?cnt..<n} (bv_buckets ?g) bs'" using True by auto
  have "CFBitVectorSetCount fresh bv n = Some (?g\<lparr>bv_buckets := bs', bv_count := n\<rparr>)"
    using True var m by (simp add: CFBitVectorSetCount_def)
  moreover have "bv_inv (?g\<lparr>bv_buckets := bs', bv_count := n\<rparr>)"
    using b roundup [of n] len by (simp add: bv_inv_def bits_mapped_def CFBitVectorNumBuckets_def g)
  moreover have "bit_at bs' i = (if i < ?cnt then bit_at ?old i else False)" if "i < n" for i
  proof -
    have "i < 8 * length (bv_buckets ?g)" using that roundup(1) [of n] below_buckets [of ?cap] unfolding len by linarith
    then show ?thesis using b keep that by (auto simp: bits_mapped_def)
  qed
  then have "bv_bits (?g\<lparr>bv_buckets := bs', bv_count := n\<rparr>) = take n (bv_bits bv) @ replicate (n - ?cnt) False"
    unfolding bv_bits_eq_iff using True by (auto simp: nth_append)
  ultimately show ?thesis by simp
qed

lemma SetAllBits_law:
  assumes inv: "bv_inv bv"
  shows "\<exists>bv'. CFBitVectorSetAllBits bv value = Some bv' \<and> bv_inv bv' \<and>
    bv_bits bv' = replicate (bv_count bv) (value \<noteq> 0)"
proof -
  let ?n = "bv_count bv div 8" and ?r = "bv_count bv mod 8"
  have sub: "bv_count bv - ?n * 8 = ?r" by (simp only: minus_div_mult_eq_mod)
  have nr: "bv_count bv = ?n * 8 + ?r" by simp
  let ?step = "if 0 < ?r then CFBitVectorSetBits bv (?n * 8) ?r value else Some bv"
  have step: "CFBitVectorSetAllBits bv value = do { bv \<leftarrow> ?step;
      if ?n \<le> length (bv_buckets bv)
      then Some (bv\<lparr>bv_buckets := replicate ?n (if value \<noteq> 0 then NOT 0 else 0) @ drop ?n (bv_buckets bv)\<rparr>)
      else None }"
    unfolding CFBitVectorSetAllBits_def Let_def sub by (simp add: CFBitVectorSetBits_def)
  obtain bv1 where bv1: "?step = Some bv1" "bv_inv bv1" "bv_count bv1 = bv_count bv"
    "\<forall>j. ?n * 8 \<le> j \<and> j < bv_count bv \<longrightarrow> bit_at (bv_buckets bv1) j = (value \<noteq> 0)"
  proof (cases "?r = 0")
    case True
    then show ?thesis using inv nr by (intro that) auto
  next
    case False
    have "?n * 8 + ?r \<le> bv_count bv" using nr by simp
    from SetBits_law [OF inv this, of "value"] obtain bv1 where
      1: "CFBitVectorSetBits bv (?n * 8) ?r value = Some bv1" "bv_inv bv1"
      "bv_bits bv1 = take (?n * 8) (bv_bits bv) @ replicate ?r (value \<noteq> 0) @ drop (?n * 8 + ?r) (bv_bits bv)"
      by blast
    have c: "bv_count bv1 = bv_count bv" using arg_cong [OF 1(3), of length] by simp
    have "bit_at (bv_buckets bv1) j = (value \<noteq> 0)" if "?n * 8 \<le> j" "j < bv_count bv" for j
    proof -
      have "j - ?n * 8 < ?r" "j < ?n * 8 + ?r" using that nr by linarith+
      then have "bv_bits bv1 ! j = (value \<noteq> 0)" using that nr unfolding 1(3) by (simp add: nth_append)
      then show ?thesis using that c by simp
    qed
    then show ?thesis using that [of bv1] 1 c False by simp
  qed
  let ?b = "replicate ?n (if value \<noteq> 0 then NOT 0 else 0) @ drop ?n (bv_buckets bv1)"
  have n: "?n \<le> length (bv_buckets bv1)"
    using bv_inv_room [OF bv1(2)] bv1(3) by (simp add: div_le_mono)
  have "bit_at ?b i = (value \<noteq> 0)" if "i < bv_count bv" for i
  proof (cases "i div 8 < ?n")
    case True
    have "7 - i mod 8 < 8" by linarith
    with True show ?thesis by (simp add: bit_at_def nth_append bit_simps)
  next
    case False
    then have "?n * 8 \<le> i" by (simp add: div_less_iff_less_mult)
    moreover have "bit_at ?b i = bit_at (bv_buckets bv1) i"
      using False n by (simp add: bit_at_def nth_append)
    ultimately show ?thesis using bv1(4) that by simp
  qed
  then have "bv_bits (bv1\<lparr>bv_buckets := ?b\<rparr>) = replicate (bv_count bv) (value \<noteq> 0)"
    unfolding bv_bits_eq_iff using bv1(3) by simp
  moreover have "bv_inv (bv1\<lparr>bv_buckets := ?b\<rparr>)"
    using bv1(2) n by (simp add: bv_inv_def CFBitVectorNumBuckets_def)
  moreover have "CFBitVectorSetAllBits bv value = Some (bv1\<lparr>bv_buckets := ?b\<rparr>)"
    unfolding step using bv1(1) n by simp
  ultimately show ?thesis by blast
qed

section \<open>What the operations do\<close>

lemma count_law:
  assumes "bv_inv bv" "loc + len \<le> bv_count bv"
  shows "CFBitVectorGetCountOfBit bv loc len value =
    Some (length (filter (\<lambda>b. b = (value \<noteq> 0)) (take len (drop loc (bv_bits bv)))))"
proof -
  have fits: "loc + len < 8 * length (bv_buckets bv)" using bv_inv_room [OF assms(1)] assms(2) by simp
  have "take len (drop loc (bv_bits bv)) = map (bit_at (bv_buckets bv)) [loc..<loc + len]"
    using assms(2) by (simp add: bv_bits_def drop_map take_map)
  then have "length (filter (\<lambda>b. b = (value \<noteq> 0)) (take len (drop loc (bv_bits bv)))) =
      length (filter (\<lambda>i. bit_at (bv_buckets bv) i = (value \<noteq> 0)) [loc..<loc + len])"
    by (simp add: filter_map comp_def)
  also have "\<dots> = hits (bv_buckets bv) (value \<noteq> 0) {loc..<loc + len}"
    unfolding hits_def by (simp only: distinct_length_filter [OF distinct_upt] set_upt)
      (rule arg_cong [where f = card], auto)
  finally show ?thesis
    by (simp add: CFBitVectorGetCountOfBit_def CFBitVectorInternalMap_count [OF fits] hits_def)
qed

lemma of_bool_word_eq: "(of_bool v = (of_bool b :: u32)) \<longleftrightarrow> (b = v)"
  by (cases v; cases b) simp_all

lemma search_law:
  assumes "bv_inv bv" "\<forall>i\<in>set is. loc + i < bv_count bv"
  shows "search_bit bv loc is value = Some
    (case find (\<lambda>i. value = of_bool (bv_bits bv ! (loc + i))) is of
       None \<Rightarrow> kCFNotFound | Some i \<Rightarrow> int (loc + i))"
  using assms(2)
proof (induction "is")
  case (Cons i "is")
  have "loc + i < 8 * length (bv_buckets bv)" using Cons.prems bv_inv_room [OF assms(1)] by simp
  with Cons show ?case by (simp add: CFBitVectorGetBitAtIndex_def CFBitVectorBit_val)
qed simp

lemma find_append: "find P (xs @ ys) = (case find P xs of None \<Rightarrow> find P ys | Some x \<Rightarrow> Some x)"
  by (induction xs) auto

lemma find_upt: "find P [0..<n] = (if \<exists>i<n. P i then Some (LEAST i. P i) else None)"
proof (induction n)
  case (Suc n)
  show ?case
  proof (cases "\<exists>i<n. P i")
    case True
    then show ?thesis using Suc less_Suc_eq by (auto simp: find_append)
  next
    case False
    then have "P n \<Longrightarrow> (LEAST i. P i) = n" by (auto intro!: Least_equality simp: not_less)
    with False Suc show ?thesis by (auto simp: find_append less_Suc_eq)
  qed
qed simp

text \<open>C6. Over a range inside the vector, \<open>CFBitVectorSetBits\<close> never touches memory outside the
  buckets, keeps the invariant, and replaces exactly the bits of the range.\<close>

theorem CFBitVectorSetBits_range:
  assumes "bv_inv bv" "loc + len \<le> bv_count bv"
  shows "\<exists>bv'. CFBitVectorSetBits bv loc len value = Some bv' \<and> bv_inv bv' \<and>
    bv_bits bv' = take loc (bv_bits bv) @ replicate len (value \<noteq> 0) @ drop (loc + len) (bv_bits bv)"
  by (rule SetBits_law [OF assms])

text \<open>C30. The bucket-wise \<open>CFBitVectorSetBits\<close> gives the same bits as the bit-by-bit loop of
  \<open>CFBitVectorSetBitAtIndex\<close> over the range.\<close>

theorem CFBitVectorSetBits_loop:
  assumes "bv_inv bv" "loc + len \<le> bv_count bv"
  shows "\<exists>bv1 bv2. CFBitVectorSetBits bv loc len (of_bool v) = Some bv1 \<and>
    bv.set_each bv [loc..<loc + len] v = Some bv2 \<and> bv_bits bv1 = bv_bits bv2"
proof -
  obtain bv1 where 1: "CFBitVectorSetBits bv loc len (of_bool v) = Some bv1"
    "bv_bits bv1 = take loc (bv_bits bv) @ replicate len (of_bool v \<noteq> (0::u32)) @ drop (loc + len) (bv_bits bv)"
    using SetBits_law [OF assms, of "of_bool v"] by blast
  have "\<forall>i\<in>set [loc..<loc + len]. i < bv_count bv" using assms(2) by auto
  from bv.set_each_law [OF assms(1) this, of v] obtain bv2 where
    2: "bv.set_each bv [loc..<loc + len] v = Some bv2" "bv_count bv2 = bv_count bv"
    "\<forall>j<bv_count bv. bit_at (bv_buckets bv2) j =
      (if j \<in> set [loc..<loc + len] then v else bit_at (bv_buckets bv) j)" by blast
  have "bv_bits bv2 = bv_bits bv1"
    unfolding bv_bits_eq_iff 1(2) using 2(2,3) assms(2) by (auto simp: nth_append not_less)
  with 1(1) 2(1) show ?thesis by auto
qed

text \<open>\<open>CFBitVectorFlipBits\<close> negates exactly the bits of the range.\<close>

theorem CFBitVectorFlipBits_range:
  assumes "bv_inv bv" "loc + len \<le> bv_count bv"
  shows "\<exists>bv'. CFBitVectorFlipBits bv loc len = Some bv' \<and> bv_inv bv' \<and>
    bv_bits bv' = take loc (bv_bits bv) @ map Not (take len (drop loc (bv_bits bv))) @
      drop (loc + len) (bv_bits bv)"
proof (cases "len = 0")
  case True
  then show ?thesis using assms by (simp add: CFBitVectorFlipBits_def)
next
  case False
  from bv_map_bits [OF bitwise_mappers(3) assms] obtain bv' where
    m: "bv_map CFBitVectorFlipBits_mapper bv loc len = Some bv'" "bv_inv bv'" "bv_count bv' = bv_count bv"
    "\<forall>j<bv_count bv. bit_at (bv_buckets bv') j = (if loc \<le> j \<and> j < loc + len
       then \<not> bit_at (bv_buckets bv) j else bit_at (bv_buckets bv) j)" by blast
  have "bv_bits bv' = take loc (bv_bits bv) @ map Not (take len (drop loc (bv_bits bv))) @
      drop (loc + len) (bv_bits bv)"
    unfolding bv_bits_eq_iff using m(3,4) assms(2) by (auto simp: nth_append not_less)
  with m False show ?thesis by (simp add: CFBitVectorFlipBits_def)
qed

text \<open>\<open>CFBitVectorGetCountOfBit\<close>, which counts nibble by nibble through a table, returns the
  number of positions of the range that hold the bit, and \<open>CFBitVectorContainsBit\<close> says whether there
  is one.\<close>

theorem CFBitVectorGetCountOfBit_count:
  assumes "bv_inv bv" "loc + len \<le> bv_count bv"
  shows "CFBitVectorGetCountOfBit bv loc len value =
      Some (length (filter (\<lambda>b. b = (value \<noteq> 0)) (take len (drop loc (bv_bits bv))))) \<and>
    CFBitVectorContainsBit bv loc len value =
      Some ((value \<noteq> 0) \<in> set (take len (drop loc (bv_bits bv))))"
proof -
  have "(\<exists>b\<in>set xs. b = v) \<longleftrightarrow> v \<in> set xs" for v :: bool and xs by blast
  then show ?thesis unfolding count_law [OF assms] CFBitVectorContainsBit_def
    by (simp add: filter_empty_conv)
qed

text \<open>C17. \<open>CFBitVectorSetCount\<close> on a mutable vector keeps the first bits, appends zeros when it
  grows, whatever the allocator leaves in the memory it adds, and keeps the invariant.\<close>

theorem CFBitVectorSetCount_bits:
  assumes "bv_inv bv" "bv_variety bv = kCFBitVectorMutable"
  shows "\<exists>bv'. CFBitVectorSetCount fresh bv n = Some bv' \<and> bv_inv bv' \<and> bv_count bv' = n \<and>
    bv_bits bv' = take n (bv_bits bv) @ replicate (n - bv_count bv) False"
  by (rule SetCount_law [OF assms])

text \<open>The searches return the least and the greatest position of the range that holds the bit,
  and \<open>kCFNotFound\<close> when there is none.\<close>

theorem CFBitVectorGetFirstIndexOfBit_first:
  assumes "bv_inv bv" "loc + len \<le> bv_count bv"
  shows "CFBitVectorGetFirstIndexOfBit bv loc len (of_bool v) = Some
      (if \<exists>i<len. bv_bits bv ! (loc + i) = v
       then int (loc + (LEAST i. bv_bits bv ! (loc + i) = v)) else kCFNotFound)"
proof -
  have "\<forall>i\<in>set [0..<len]. loc + i < bv_count bv" using assms(2) by auto
  from search_law [OF assms(1) this, of "of_bool v"] show ?thesis
    by (cases "\<exists>i<len. bv_bits bv ! (loc + i) = v")
      (simp_all only: CFBitVectorGetFirstIndexOfBit_def find_upt of_bool_word_eq if_True if_False option.case)
qed

text \<open>\<open>CFBitVectorSetAllBits\<close>, which fills the last fragment by the mapper and the rest with
  \<open>memset\<close>, makes every bit of the vector the given one.\<close>

theorem CFBitVectorSetAllBits_all:
  assumes "bv_inv bv"
  shows "\<exists>bv'. CFBitVectorSetAllBits bv value = Some bv' \<and> bv_inv bv' \<and>
    bv_bits bv' = replicate (bv_count bv) (value \<noteq> 0)"
  by (rule SetAllBits_law [OF assms])

text \<open>C31. Round trip: a vector created from a byte buffer and read back with \<open>CFBitVectorGetBits\<close>
  over any range that starts on a byte gives the range's bits, zero bits up to the end of its last
  byte, and leaves the rest of the caller's buffer alone.\<close>

theorem CFBitVectorCreate_GetBits:
  assumes "(n + 7) div 8 \<le> length bytes" "8 * k + len \<le> n" "(len + 7) div 8 \<le> length out"
  shows "\<exists>bv out'. CFBitVectorCreate (Some bytes) n = Some bv \<and> bv_inv bv \<and>
    CFBitVectorGetBits bv (8 * k) len out = Some out' \<and> length out' = length out \<and>
    (\<forall>i<8 * length out. bit_at out' i =
      (if i < len then bit_at bytes (8 * k + i)
       else if i < 8 * ((len + 7) div 8) then False else bit_at out i))"
proof -
  obtain bv where bv: "CFBitVectorCreate (Some bytes) n = Some bv" "bv_inv bv" "bv_count bv = n"
    "bv_bits bv = map (bit_at bytes) [0..<n]"
    using CFBitVectorInit_law [where bytes = "Some bytes" and n = n] assms(1)
    unfolding CFBitVectorCreate_def option.case by blast
  let ?bs = "bv_buckets bv"
  have fits: "8 * k + len < 8 * length ?bs" using bv_inv_room [OF bv(2)] bv(3) assms(2) by simp
  have same: "bit_at ?bs i = bit_at bytes i" if "i < n" for i
    using arg_cong [OF bv(4), of "\<lambda>xs. xs ! i"] that bv(3) by simp
  show ?thesis
  proof (cases "len = 0")
    case True
    then show ?thesis using bv by (auto simp: CFBitVectorGetBits_def)
  next
    case False
    have out: "out \<noteq> []" using False assms(3) by auto
    have k: "k < length ?bs" using fits by simp
    have "CFBitVectorGetBits bv (8 * k) len out = Some (copied ?bs k len out)"
    proof (cases "len < 8")
      case True
      then show ?thesis using CFBitVectorInternalMap_getBits_short [OF _ True k out] False
        by (auto simp: CFBitVectorGetBits_def)
    next
      case ge: False
      then show ?thesis using CFBitVectorInternalMap_getBits [OF _ fits assms(3)] False
        by (auto simp: CFBitVectorGetBits_def)
    qed
    then show ?thesis using bv bit_at_copied [OF _ fits assms(3)] length_copied [OF fits assms(3)]
      same assms(2) by (intro exI [of _ bv] exI [of _ "copied ?bs k len out"]) auto
  qed
qed

text \<open>A mutable vector of twelve bits, 1010 0101 1100.\<close>

definition bv_example :: CFBitVector where
  "bv_example = \<lparr>bv_count = 12, bv_capacity = 64, bv_buckets = [0xA5, 0xC0, 0, 0, 0, 0, 0, 0, 0],
     bv_variety = kCFBitVectorMutable\<rparr>"

lemma bv_example_inv: "bv_inv bv_example" "bv_count bv_example = 12"
    "bv_variety bv_example = kCFBitVectorMutable"
  by (simp_all add: bv_example_def bv_inv_def CFBitVectorNumBuckets_def)

lemma CFBitVectorSetBits_range_witness:
  "\<exists>bv'. CFBitVectorSetBits bv_example 3 7 1 = Some bv' \<and> bv_inv bv' \<and>
    bv_bits bv' = take 3 (bv_bits bv_example) @ replicate 7 ((1::u32) \<noteq> 0) @ drop (3 + 7) (bv_bits bv_example)"
  by (rule CFBitVectorSetBits_range) (simp_all add: bv_example_inv)

lemma CFBitVectorSetBits_loop_witness:
  "\<exists>bv1 bv2. CFBitVectorSetBits bv_example 3 7 (of_bool True) = Some bv1 \<and>
    bv.set_each bv_example [3..<3 + 7] True = Some bv2 \<and> bv_bits bv1 = bv_bits bv2"
  by (rule CFBitVectorSetBits_loop) (simp_all add: bv_example_inv)

lemma CFBitVectorFlipBits_range_witness:
  "\<exists>bv'. CFBitVectorFlipBits bv_example 3 7 = Some bv' \<and> bv_inv bv' \<and>
    bv_bits bv' = take 3 (bv_bits bv_example) @ map Not (take 7 (drop 3 (bv_bits bv_example))) @
      drop (3 + 7) (bv_bits bv_example)"
  by (rule CFBitVectorFlipBits_range) (simp_all add: bv_example_inv)

lemma CFBitVectorGetCountOfBit_count_witness:
  "CFBitVectorGetCountOfBit bv_example 2 9 1 =
      Some (length (filter (\<lambda>b. b = ((1::u32) \<noteq> 0)) (take 9 (drop 2 (bv_bits bv_example))))) \<and>
    CFBitVectorContainsBit bv_example 2 9 1 =
      Some (((1::u32) \<noteq> 0) \<in> set (take 9 (drop 2 (bv_bits bv_example))))"
  by (rule CFBitVectorGetCountOfBit_count) (simp_all add: bv_example_inv)

lemma CFBitVectorSetCount_bits_witness:
  "\<exists>bv'. CFBitVectorSetCount (\<lambda>_. 0xFF) bv_example 100 = Some bv' \<and> bv_inv bv' \<and> bv_count bv' = 100 \<and>
    bv_bits bv' = take 100 (bv_bits bv_example) @ replicate (100 - bv_count bv_example) False"
  by (rule CFBitVectorSetCount_bits) (simp_all add: bv_example_inv)

lemma CFBitVectorGetFirstIndexOfBit_first_witness:
  "CFBitVectorGetFirstIndexOfBit bv_example 3 7 (of_bool True) = Some
      (if \<exists>i<7. bv_bits bv_example ! (3 + i) = True
       then int (3 + (LEAST i. bv_bits bv_example ! (3 + i) = True)) else kCFNotFound)"
  by (rule CFBitVectorGetFirstIndexOfBit_first) (simp_all add: bv_example_inv)

lemma CFBitVectorSetAllBits_all_witness:
  "\<exists>bv'. CFBitVectorSetAllBits bv_example 1 = Some bv' \<and> bv_inv bv' \<and>
    bv_bits bv' = replicate (bv_count bv_example) ((1::u32) \<noteq> 0)"
  by (rule CFBitVectorSetAllBits_all) (simp add: bv_example_inv)

lemma CFBitVectorCreate_GetBits_witness:
  "\<exists>bv out'. CFBitVectorCreate (Some [0xA5, 0xC3]) 14 = Some bv \<and> bv_inv bv \<and>
    CFBitVectorGetBits bv (8 * 1) 5 [0xFF, 0xFF] = Some out' \<and> length out' = length [0xFF, 0xFF :: u8] \<and>
    (\<forall>i<8 * length [0xFF, 0xFF :: u8]. bit_at out' i =
      (if i < 5 then bit_at [0xA5, 0xC3] (8 * 1 + i)
       else if i < 8 * ((5 + 7) div 8) then False else bit_at [0xFF, 0xFF] i))"
  by (rule CFBitVectorCreate_GetBits) simp_all

text \<open>Two defects of the code that the model shows.  A range that does not start on a byte and
  spans buckets is copied wrongly: of the eleven bits from 3 on, all 1 here, the buffer gets
  \<open>1110 0000 0000 0000\<close>.  And \<open>__CFBitVectorEqual\<close> compares whole buckets, bits past the count
  included: shrinking 1111 1111 1 to eight bits makes it differ from 1111 1111.\<close>

lemma CFBitVectorGetBits_unaligned:
  "CFBitVectorGetBits \<lparr>bv_count = 16, bv_capacity = 64, bv_buckets = replicate 9 0xFF,
     bv_variety = kCFBitVectorImmutable\<rparr> 3 11 [0, 0] = Some [0xE0, 0]"
  by code_simp

lemma CFBitVectorEqual_beyond_count:
  "bv_bits \<lparr>bv_count = 8, bv_capacity = 64, bv_buckets = 0xFF # 0x80 # replicate 7 0,
     bv_variety = kCFBitVectorMutable\<rparr> = replicate 8 True"
  "CFBitVectorEqual \<lparr>bv_count = 8, bv_capacity = 64, bv_buckets = 0xFF # 0x80 # replicate 7 0,
     bv_variety = kCFBitVectorMutable\<rparr> \<lparr>bv_count = 8, bv_capacity = 64, bv_buckets = 0xFF # replicate 8 0,
     bv_variety = kCFBitVectorMutable\<rparr> = Some False"
  by code_simp+

end
