(* ===== verification/BinaryHeap.thy ===== *)
theory BinaryHeap
  imports CF_Prelude "HOL-Library.Monad_Syntax"
begin

text \<open>
  \<open>CFBinaryHeap.c\<close>: the priority queue over an array of pointers.  The comparison, retain and
  release callbacks are the client's: the comparison is a function with the address that identifies
  it, retain gives the pointer that is stored, and the calls of retain and release are kept in a log
  so that ownership can be stated.  Bucket accesses are checked (\<open>None\<close> outside the array), and so
  is \<open>1 << flsl(capacity)\<close>, a shift of an \<open>int\<close> that C leaves undefined from bit 31 on.
\<close>

section \<open>State\<close>

type_synonym pointer = u64

type_synonym heap_compare = "pointer \<Rightarrow> pointer \<Rightarrow> u64 \<Rightarrow> CFComparisonResult"

record CFBinaryHeapCallBacks =
  hc_retain :: "(pointer \<Rightarrow> pointer) option"
  hc_release :: bool
  hc_compare :: "(u64 \<times> heap_compare) option"

datatype heap_call = Retained pointer | Released pointer

record CFBinaryHeap =
  bh_count :: nat
  bh_capacity :: nat
  bh_callbacks :: CFBinaryHeapCallBacks
  bh_context :: u64
  bh_buckets :: "pointer list"
  bh_mutable :: bool
  bh_calls :: "heap_call list"

definition CFBinaryHeapRoundUpCapacity :: "nat \<Rightarrow> nat option" where
  "CFBinaryHeapRoundUpCapacity capacity =
     (if capacity < 4 then Some 4
      else if flsl capacity < 31 then Some (2 ^ flsl capacity) else None)"

section \<open>Adding and removing\<close>

text \<open>The two tests of the code, on pointers when there is no comparison callback.\<close>

definition heap_gt :: "CFBinaryHeap \<Rightarrow> pointer \<Rightarrow> pointer \<Rightarrow> bool" where
  "heap_gt heap item value = (case hc_compare (bh_callbacks heap) of
     None \<Rightarrow> item > value
   | Some (_, compare) \<Rightarrow> kCFCompareGreaterThan = compare item value (bh_context heap))"

definition heap_call_retain :: "CFBinaryHeap \<Rightarrow> pointer \<Rightarrow> pointer \<times> heap_call list" where
  "heap_call_retain heap value = (case hc_retain (bh_callbacks heap) of
     Some retain \<Rightarrow> (retain value, [Retained (retain value)]) | None \<Rightarrow> (value, []))"

definition heap_call_release :: "CFBinaryHeap \<Rightarrow> pointer list \<Rightarrow> heap_call list" where
  "heap_call_release heap items =
     (if hc_release (bh_callbacks heap) then map Released items else [])"

definition CFBinaryHeapGrow :: "(nat \<Rightarrow> pointer) \<Rightarrow> CFBinaryHeap \<Rightarrow> nat \<Rightarrow> CFBinaryHeap option" where
  "CFBinaryHeapGrow fresh heap numNewValues =
     (let oldCount = bh_count heap in
      do { capacity \<leftarrow> CFBinaryHeapRoundUpCapacity (oldCount + numNewValues);
           let old = bh_buckets heap;
           Some (heap\<lparr>bh_capacity := capacity,
             bh_buckets := take capacity old @ map fresh [length old..<capacity]\<rparr>) })"

function sift_up :: "(pointer \<Rightarrow> pointer \<Rightarrow> bool) \<Rightarrow> pointer list \<Rightarrow> nat \<Rightarrow> pointer
    \<Rightarrow> (pointer list \<times> nat) option" where
  "sift_up gt buckets idx value =
     (if 0 < idx
      then let pidx = (idx - 1) div 2 in
        do { item \<leftarrow> rd buckets pidx;
             if \<not> gt item value then Some (buckets, idx)
             else do { buckets \<leftarrow> wr buckets idx item; sift_up gt buckets pidx value } }
      else Some (buckets, idx))"
  by auto
termination by (relation "measure (\<lambda>(gt, buckets, idx, value). idx)") auto

declare sift_up.simps [simp del]

definition CFBinaryHeapAddValue ::
  "(nat \<Rightarrow> pointer) \<Rightarrow> CFBinaryHeap \<Rightarrow> pointer \<Rightarrow> CFBinaryHeap option" where
  "CFBinaryHeapAddValue fresh heap value =
     do { heap \<leftarrow> (if bh_mutable heap \<and> bh_count heap = bh_capacity heap
            then CFBinaryHeapGrow fresh heap 1 else Some heap);
          let cnt = bh_count heap;
          let heap = heap\<lparr>bh_count := cnt + 1\<rparr>;
          (buckets, idx) \<leftarrow> sift_up (heap_gt heap) (bh_buckets heap) cnt value;
          let (item, calls) = heap_call_retain heap value;
          buckets \<leftarrow> wr buckets idx item;
          Some (heap\<lparr>bh_buckets := buckets, bh_calls := bh_calls heap @ calls\<rparr>) }"

function sift_down :: "(pointer \<Rightarrow> pointer \<Rightarrow> bool) \<Rightarrow> nat \<Rightarrow> pointer list \<Rightarrow> nat \<Rightarrow> pointer
    \<Rightarrow> (pointer list \<times> nat) option" where
  "sift_down gt cnt buckets idx val =
     (let cidx = idx * 2 + 1 in
      if cidx < cnt
      then do { item \<leftarrow> rd buckets cidx;
                (cidx, item) \<leftarrow>
                  (if cidx + 1 < cnt
                   then do { item2 \<leftarrow> rd buckets (cidx + 1);
                             Some (if gt item item2 then (cidx + 1, item2) else (cidx, item)) }
                   else Some (cidx, item));
                if gt item val then Some (buckets, idx)
                else do { buckets \<leftarrow> wr buckets idx item;
                          sift_down gt cnt buckets cidx val } }
      else Some (buckets, idx))"
  by auto
termination
  by (relation "measure (\<lambda>(gt, cnt, buckets, idx, val). cnt - idx)")
    (auto simp: Option.bind_eq_Some_conv split: if_splits)

declare sift_down.simps [simp del]

definition CFBinaryHeapRemoveMinimumValue :: "CFBinaryHeap \<Rightarrow> CFBinaryHeap option" where
  "CFBinaryHeapRemoveMinimumValue heap =
     (let cnt = bh_count heap in
      if 0 = cnt then Some heap else
      let heap = heap\<lparr>bh_count := cnt - 1\<rparr> in
      do { root \<leftarrow> rd (bh_buckets heap) 0;
           let heap = heap\<lparr>bh_calls := bh_calls heap @ heap_call_release heap [root]\<rparr>;
           val \<leftarrow> rd (bh_buckets heap) (cnt - 1);
           (buckets, idx) \<leftarrow> sift_down (heap_gt heap) (bh_count heap) (bh_buckets heap) 0 val;
           buckets \<leftarrow> wr buckets idx val;
           Some (heap\<lparr>bh_buckets := buckets\<rparr>) })"

definition CFBinaryHeapRemoveAllValues :: "CFBinaryHeap \<Rightarrow> CFBinaryHeap" where
  "CFBinaryHeapRemoveAllValues heap =
     (let cnt = bh_count heap in
      heap\<lparr>bh_calls := bh_calls heap @ heap_call_release heap (take cnt (bh_buckets heap)),
        bh_count := 0\<rparr>)"

section \<open>Creation\<close>

text \<open>\<open>fresh\<close> stands for the content of newly allocated memory; \<open>callBacks\<close> may be NULL.\<close>

fun add_values :: "(nat \<Rightarrow> pointer) \<Rightarrow> CFBinaryHeap \<Rightarrow> pointer list \<Rightarrow> CFBinaryHeap option" where
  "add_values fresh heap [] = Some heap"
| "add_values fresh heap (v # vs) =
     do { heap \<leftarrow> CFBinaryHeapAddValue fresh heap v; add_values fresh heap vs }"

definition CFBinaryHeapInit :: "(nat \<Rightarrow> pointer) \<Rightarrow> bool \<Rightarrow> pointer list \<Rightarrow>
    CFBinaryHeapCallBacks option \<Rightarrow> u64 option \<Rightarrow> CFBinaryHeap option" where
  "CFBinaryHeapInit fresh flags values callBacks compareContext =
     do { capacity \<leftarrow> CFBinaryHeapRoundUpCapacity 1;
          let memory = \<lparr>bh_count = 0, bh_capacity = capacity,
            bh_callbacks = (case callBacks of Some c \<Rightarrow> c
              | None \<Rightarrow> \<lparr>hc_retain = None, hc_release = False, hc_compare = None\<rparr>),
            bh_context = (case compareContext of Some c \<Rightarrow> c | None \<Rightarrow> 0),
            bh_buckets = map fresh [0..<capacity], bh_mutable = True, bh_calls = []\<rparr>;
          memory \<leftarrow> add_values fresh memory values;
          Some (memory\<lparr>bh_mutable := flags\<rparr>) }"

definition CFBinaryHeapCreate :: "(nat \<Rightarrow> pointer) \<Rightarrow> CFBinaryHeapCallBacks option \<Rightarrow> u64 option \<Rightarrow>
    CFBinaryHeap option" where
  "CFBinaryHeapCreate fresh callBacks compareContext =
     CFBinaryHeapInit fresh True [] callBacks compareContext"

definition CFBinaryHeapCreateCopy :: "(nat \<Rightarrow> pointer) \<Rightarrow> CFBinaryHeap \<Rightarrow> CFBinaryHeap option" where
  "CFBinaryHeapCreateCopy fresh heap =
     CFBinaryHeapInit fresh True (take (bh_count heap) (bh_buckets heap))
       (Some (bh_callbacks heap)) (Some (bh_context heap))"

section \<open>Queries\<close>

definition CFBinaryHeapGetCount :: "CFBinaryHeap \<Rightarrow> nat" where
  "CFBinaryHeapGetCount heap = bh_count heap"

definition heap_same :: "CFBinaryHeap \<Rightarrow> pointer \<Rightarrow> pointer \<Rightarrow> bool" where
  "heap_same heap value item = (value = item \<or> (case hc_compare (bh_callbacks heap) of
     None \<Rightarrow> False
   | Some (_, compare) \<Rightarrow> kCFCompareEqualTo = compare value item (bh_context heap)))"

fun count_value_loop :: "CFBinaryHeap \<Rightarrow> pointer \<Rightarrow> nat list \<Rightarrow> nat \<Rightarrow> nat option" where
  "count_value_loop heap value [] cnt = Some cnt"
| "count_value_loop heap value (idx # idxs) cnt =
     do { item \<leftarrow> rd (bh_buckets heap) idx;
          count_value_loop heap value idxs (if heap_same heap value item then cnt + 1 else cnt) }"

definition CFBinaryHeapGetCountOfValue :: "CFBinaryHeap \<Rightarrow> pointer \<Rightarrow> nat option" where
  "CFBinaryHeapGetCountOfValue heap value = count_value_loop heap value [0..<bh_count heap] 0"

fun contains_value_loop :: "CFBinaryHeap \<Rightarrow> pointer \<Rightarrow> nat list \<Rightarrow> bool option" where
  "contains_value_loop heap value [] = Some False"
| "contains_value_loop heap value (idx # idxs) =
     do { item \<leftarrow> rd (bh_buckets heap) idx;
          if heap_same heap value item then Some True else contains_value_loop heap value idxs }"

definition CFBinaryHeapContainsValue :: "CFBinaryHeap \<Rightarrow> pointer \<Rightarrow> bool option" where
  "CFBinaryHeapContainsValue heap value = contains_value_loop heap value [0..<bh_count heap]"

definition CFBinaryHeapGetMinimum :: "CFBinaryHeap \<Rightarrow> pointer option" where
  "CFBinaryHeapGetMinimum heap = (if 0 < bh_count heap then rd (bh_buckets heap) 0 else Some 0)"

text \<open>The value is stored through the caller's pointer only when the heap is not empty: \<open>old\<close> is
  what that place holds before.\<close>

definition CFBinaryHeapGetMinimumIfPresent :: "CFBinaryHeap \<Rightarrow> pointer \<Rightarrow> (bool \<times> pointer) option" where
  "CFBinaryHeapGetMinimumIfPresent heap old =
     (if 0 = bh_count heap then Some (False, old)
      else do { v \<leftarrow> rd (bh_buckets heap) 0; Some (True, v) })"

lemma RemoveMinimum_count:
  "CFBinaryHeapRemoveMinimumValue heap = Some heap' \<Longrightarrow> bh_count heap' = bh_count heap - 1"
  by (auto simp: CFBinaryHeapRemoveMinimumValue_def Let_def Option.bind_eq_Some_conv split: if_splits)

text \<open>\<open>CFBinaryHeapGetValues\<close> empties a copy; the result lists what it stores in \<open>values\<close>.\<close>

function get_values_loop :: "CFBinaryHeap \<Rightarrow> pointer list option" where
  "get_values_loop heapCopy =
     (if 0 < bh_count heapCopy
      then do { value \<leftarrow> CFBinaryHeapGetMinimum heapCopy;
                heapCopy \<leftarrow> CFBinaryHeapRemoveMinimumValue heapCopy;
                values \<leftarrow> get_values_loop heapCopy;
                Some (value # values) }
      else Some [])"
  by auto
termination by (relation "measure bh_count") (auto dest: RemoveMinimum_count)

declare get_values_loop.simps [simp del]

definition CFBinaryHeapGetValues :: "(nat \<Rightarrow> pointer) \<Rightarrow> CFBinaryHeap \<Rightarrow> pointer list option" where
  "CFBinaryHeapGetValues fresh heap =
     (let cnt = bh_count heap in
      if 0 = cnt then Some [] else
      do { heapCopy \<leftarrow> CFBinaryHeapCreateCopy fresh heap; get_values_loop heapCopy })"

function apply_loop :: "(pointer \<Rightarrow> 'c \<Rightarrow> 'c) \<Rightarrow> CFBinaryHeap \<Rightarrow> 'c \<Rightarrow> 'c option" where
  "apply_loop applier heapCopy context =
     (if 0 < bh_count heapCopy
      then do { value \<leftarrow> CFBinaryHeapGetMinimum heapCopy;
                heapCopy \<leftarrow> CFBinaryHeapRemoveMinimumValue heapCopy;
                apply_loop applier heapCopy (applier value context) }
      else Some context)"
  by auto
termination
  by (relation "measure (\<lambda>(applier, heapCopy, context). bh_count heapCopy)")
    (auto dest: RemoveMinimum_count)

declare apply_loop.simps [simp del]

definition CFBinaryHeapApplyFunction ::
  "(nat \<Rightarrow> pointer) \<Rightarrow> CFBinaryHeap \<Rightarrow> (pointer \<Rightarrow> 'c \<Rightarrow> 'c) \<Rightarrow> 'c \<Rightarrow> 'c option" where
  "CFBinaryHeapApplyFunction fresh heap applier context =
     (let cnt = bh_count heap in
      if 0 = cnt then Some context else
      do { heapCopy \<leftarrow> CFBinaryHeapCreateCopy fresh heap; apply_loop applier heapCopy context })"

text \<open>The comparison of \<open>__CFBinaryHeapEqual\<close>, as written: a pair of distinct pointers is rejected
  when the comparison returns 0, that is \<open>kCFCompareEqualTo\<close>.\<close>

fun equal_values_loop :: "CFBinaryHeap \<Rightarrow> pointer list \<Rightarrow> pointer list \<Rightarrow> bool" where
  "equal_values_loop heap1 (val1 # list1) (val2 # list2) =
     (if val1 \<noteq> val2
      then (case hc_compare (bh_callbacks heap1) of
              None \<Rightarrow> False
            | Some (_, compare) \<Rightarrow>
                if cmp_int (compare val1 val2 (bh_context heap1)) = 0 then False
                else equal_values_loop heap1 list1 list2)
      else equal_values_loop heap1 list1 list2)"
| "equal_values_loop heap1 _ _ = True"

definition CFBinaryHeapEqual ::
  "(nat \<Rightarrow> pointer) \<Rightarrow> CFBinaryHeap \<Rightarrow> CFBinaryHeap \<Rightarrow> bool option" where
  "CFBinaryHeapEqual fresh heap1 heap2 =
     (let cnt = bh_count heap1 in
      if cnt \<noteq> bh_count heap2 then Some False
      else if map_option fst (hc_compare (bh_callbacks heap1)) \<noteq>
              map_option fst (hc_compare (bh_callbacks heap2)) then Some False
      else if 0 = cnt then Some True
      else do { list1 \<leftarrow> CFBinaryHeapGetValues fresh heap1;
                list2 \<leftarrow> CFBinaryHeapGetValues fresh heap2;
                Some (equal_values_loop heap1 list1 list2) })"

definition CFBinaryHeapHash :: "CFBinaryHeap \<Rightarrow> nat" where
  "CFBinaryHeapHash heap = bh_count heap"

definition CFBinaryHeapDeallocate :: "CFBinaryHeap \<Rightarrow> CFBinaryHeap" where
  "CFBinaryHeapDeallocate heap =
     (let heap = CFBinaryHeapRemoveAllValues heap in
      if bh_mutable heap then heap\<lparr>bh_buckets := []\<rparr> else heap)"

section \<open>Order\<close>

lemma parent_less: "0 < m \<Longrightarrow> (m - 1) div 2 < m" for m :: nat
  by auto

text \<open>The contract of the comparison: "not greater" is total and transitive.  What follows about
  the array is proved once for every such order.\<close>

locale heap_order =
  fixes gt :: "pointer \<Rightarrow> pointer \<Rightarrow> bool"
  assumes asym: "gt x y \<Longrightarrow> \<not> gt y x"
    and trans: "\<not> gt x y \<Longrightarrow> \<not> gt y z \<Longrightarrow> \<not> gt x z"
begin

text \<open>Every element but the root is not smaller than its parent.\<close>

definition edge :: "pointer list \<Rightarrow> nat \<Rightarrow> bool" where
  "edge xs i \<longleftrightarrow> \<not> gt (xs ! ((i - 1) div 2)) (xs ! i)"

definition ordered :: "pointer list \<Rightarrow> bool" where
  "ordered xs \<longleftrightarrow> (\<forall>i<length xs. 0 < i \<longrightarrow> edge xs i)"

lemma refl: "\<not> gt x x"
  using asym by blast

lemma ordered_root: "ordered xs \<Longrightarrow> i < length xs \<Longrightarrow> \<not> gt (xs ! 0) (xs ! i)"
proof (induction i rule: less_induct)
  case (less i)
  show ?case
  proof (cases "i = 0")
    case True
    then show ?thesis by (simp add: refl)
  next
    case False
    then have "\<not> gt (xs ! 0) (xs ! ((i - 1) div 2))" using less by simp
    moreover have "\<not> gt (xs ! ((i - 1) div 2)) (xs ! i)"
      using less.prems False by (simp add: ordered_def edge_def)
    ultimately show ?thesis by (rule trans)
  qed
qed

lemma ordered_take: "ordered xs \<Longrightarrow> ordered (take n xs)"
  by (auto simp: ordered_def edge_def)

text \<open>An order except at the edge above \<open>k\<close>, with the parent of \<open>k\<close> not above the children of \<open>k\<close>.\<close>

definition up_ok :: "pointer list \<Rightarrow> nat \<Rightarrow> bool" where
  "up_ok xs k \<longleftrightarrow> (\<forall>i<length xs. 0 < i \<longrightarrow> (i \<noteq> k \<longrightarrow> edge xs i) \<and>
     ((i - 1) div 2 = k \<longrightarrow> 0 < k \<longrightarrow> \<not> gt (xs ! ((k - 1) div 2)) (xs ! i)))"

text \<open>An order except at the edges below \<open>k\<close>, with the parent of \<open>k\<close> not above its children.\<close>

definition down_ok :: "pointer list \<Rightarrow> nat \<Rightarrow> bool" where
  "down_ok xs k \<longleftrightarrow> (\<forall>i<length xs. 0 < i \<longrightarrow> ((i - 1) div 2 \<noteq> k \<longrightarrow> edge xs i) \<and>
     ((i - 1) div 2 = k \<longrightarrow> 0 < k \<longrightarrow> \<not> gt (xs ! ((k - 1) div 2)) (xs ! i)))"

lemma up_ok_done: "up_ok xs k \<Longrightarrow> k = 0 \<or> edge xs k \<Longrightarrow> ordered xs"
  unfolding up_ok_def ordered_def by (metis less_numeral_extra(3))

lemma down_ok_done:
  "down_ok xs k \<Longrightarrow> \<forall>i<length xs. 0 < i \<longrightarrow> (i - 1) div 2 = k \<longrightarrow> edge xs i \<Longrightarrow> ordered xs"
  unfolding down_ok_def ordered_def by blast

lemma up_ok_swap:
  assumes ok: "up_ok xs k" and k: "0 < k" "k < length xs" and gt: "gt (xs ! ((k - 1) div 2)) (xs ! k)"
  shows "up_ok (xs[k := xs ! ((k - 1) div 2), (k - 1) div 2 := xs ! k]) ((k - 1) div 2)"
    (is "up_ok ?ys ?p")
  unfolding up_ok_def
proof (intro allI impI)
  fix i assume i: "i < length ?ys" "0 < i"
  have p: "?p < k" "?p < length xs" using k by auto
  have nth: "?ys ! j = (if j = ?p then xs ! k else if j = k then xs ! ?p else xs ! j)"
    if "j < length xs" for j
    using that k p by (simp add: nth_list_update)
  have q: "(i - 1) div 2 < length xs" "i < length xs" using i by auto
  have e: "edge xs i" if "i \<noteq> k" using ok i that by (simp add: up_ok_def)
  have gk: "\<not> gt (xs ! ?p) (xs ! i)" if "(i - 1) div 2 = k" using ok i that k by (simp add: up_ok_def)
  have lek: "\<not> gt (xs ! k) (xs ! ?p)" using gt by (rule asym)
  show "(i \<noteq> ?p \<longrightarrow> edge ?ys i) \<and>
     ((i - 1) div 2 = ?p \<longrightarrow> 0 < ?p \<longrightarrow> \<not> gt (?ys ! ((?p - 1) div 2)) (?ys ! i))"
  proof (intro conjI impI)
    assume ne: "i \<noteq> ?p"
    show "edge ?ys i"
    proof (cases "i = k")
      case True
      then show ?thesis using lek nth q p k by (simp add: edge_def)
    next
      case False
      consider "(i - 1) div 2 = ?p" | "(i - 1) div 2 = k" | "(i - 1) div 2 \<noteq> ?p" "(i - 1) div 2 \<noteq> k" by blast
      then show ?thesis
      proof cases
        case 1
        then have "\<not> gt (xs ! ?p) (xs ! i)" using e [OF False] by (simp add: edge_def)
        with lek have "\<not> gt (xs ! k) (xs ! i)" by (rule trans)
        then show ?thesis using 1 nth q p ne False by (simp add: edge_def)
      next
        case 2
        then show ?thesis using gk nth q p ne False by (simp add: edge_def)
      next
        case 3
        then show ?thesis using e [OF False] nth q ne False by (simp add: edge_def)
      qed
    qed
  next
    assume par: "(i - 1) div 2 = ?p" and pp: "0 < ?p"
    let ?g = "(?p - 1) div 2"
    have g: "?g < ?p" "?g < length xs" using parent_less [OF pp] p by linarith+
    have gp: "\<not> gt (xs ! ?g) (xs ! ?p)" using ok pp p by (simp add: up_ok_def edge_def)
    show "\<not> gt (?ys ! ?g) (?ys ! i)"
    proof (cases "i = k")
      case True
      then show ?thesis using gp nth g p q by simp
    next
      case False
      then have "\<not> gt (xs ! ?p) (xs ! i)" using e par by (simp add: edge_def)
      with gp have "\<not> gt (xs ! ?g) (xs ! i)" by (rule trans)
      moreover have "i \<noteq> ?p" using par pp by auto
      ultimately show ?thesis using nth g p q False by simp
    qed
  qed
qed

lemma down_ok_swap:
  assumes ok: "down_ok xs k" and c: "c < length xs" "0 < c" "(c - 1) div 2 = k"
    and least: "\<forall>i<length xs. 0 < i \<longrightarrow> (i - 1) div 2 = k \<longrightarrow> \<not> gt (xs ! c) (xs ! i)"
    and le: "\<not> gt (xs ! c) (xs ! k)"
  shows "down_ok (xs[k := xs ! c, c := xs ! k]) c" (is "down_ok ?ys c")
  unfolding down_ok_def
proof (intro allI impI)
  fix i assume i: "i < length ?ys" "0 < i"
  have k: "k < c" "k < length xs" using c by auto
  have nth: "?ys ! j = (if j = c then xs ! k else if j = k then xs ! c else xs ! j)"
    if "j < length xs" for j
    using that k c by (simp add: nth_list_update)
  have q: "(i - 1) div 2 < length xs" "i < length xs" using i by auto
  have e: "edge xs i" if "(i - 1) div 2 \<noteq> k" using ok i that by (simp add: down_ok_def)
  show "((i - 1) div 2 \<noteq> c \<longrightarrow> edge ?ys i) \<and>
     ((i - 1) div 2 = c \<longrightarrow> 0 < c \<longrightarrow> \<not> gt (?ys ! ((c - 1) div 2)) (?ys ! i))"
  proof (intro conjI impI)
    assume ne: "(i - 1) div 2 \<noteq> c"
    consider "i = c" | "i = k" | "(i - 1) div 2 = k" "i \<noteq> c" "i \<noteq> k"
      | "(i - 1) div 2 \<noteq> k" "i \<noteq> c" "i \<noteq> k" by blast
    then show "edge ?ys i"
    proof cases
      case 1
      then show ?thesis using le nth q c k by (simp add: edge_def)
    next
      case 2
      then have "(i - 1) div 2 \<noteq> k" using i by auto
      moreover have "\<not> gt (xs ! ((k - 1) div 2)) (xs ! c)"
        using ok c i 2 by (simp add: down_ok_def)
      ultimately show ?thesis using 2 nth q ne k by (simp add: edge_def)
    next
      case 3
      then show ?thesis using least i nth q ne c k by (simp add: edge_def)
    next
      case 4
      then show ?thesis using e nth q ne by (simp add: edge_def)
    qed
  next
    assume par: "(i - 1) div 2 = c"
    then have ci: "i \<noteq> c" "i \<noteq> k" using k by auto
    have "(i - 1) div 2 \<noteq> k" using par k by simp
    from e [OF this] show "\<not> gt (?ys ! ((c - 1) div 2)) (?ys ! i)"
      using par ci nth q k c by (simp add: edge_def)
  qed
qed

lemma sift_up_step:
  "0 < idx \<Longrightarrow> idx < length b \<Longrightarrow> sift_up gt b idx v = (if gt (b ! ((idx - 1) div 2)) v
     then sift_up gt (b[idx := b ! ((idx - 1) div 2)]) ((idx - 1) div 2) v else Some (b, idx))"
  using parent_less [of idx] by (subst sift_up.simps) (auto simp: Let_def)

lemma sift_up_append:
  "idx < length xs \<Longrightarrow> sift_up gt (xs @ ys) idx v =
     map_option (\<lambda>(xs', j). (xs' @ ys, j)) (sift_up gt xs idx v)"
proof (induction idx arbitrary: xs rule: less_induct)
  case (less idx)
  let ?p = "(idx - 1) div 2"
  show ?case
  proof (cases "idx = 0")
    case True
    then show ?thesis by (simp add: sift_up.simps [of _ _ 0])
  next
    case False
    then have p: "?p < idx" by (simp add: parent_less)
    with less.IH [OF p, of "xs[idx := xs ! ?p]"] less.prems False show ?thesis
      by (simp add: sift_up_step nth_append list_update_append)
  qed
qed

lemma sift_up_ok:
  "idx < length xs \<Longrightarrow> \<exists>xs' j. sift_up gt xs idx v = Some (xs', j) \<and> j < length xs' \<and>
     length xs' = length xs \<and> mset (xs'[j := v]) = mset (xs[idx := v]) \<and>
     (up_ok (xs[idx := v]) idx \<longrightarrow> ordered (xs'[j := v]))"
proof (induction idx arbitrary: xs rule: less_induct)
  case (less idx)
  let ?p = "(idx - 1) div 2"
  show ?case
  proof (cases "0 < idx \<and> gt (xs ! ?p) v")
    case False
    have "sift_up gt xs idx v = Some (xs, idx)"
      using False less.prems by (cases "idx = 0") (auto simp: sift_up_step sift_up.simps [of _ _ 0])
    moreover have "ordered (xs[idx := v])" if "up_ok (xs[idx := v]) idx"
      by (rule up_ok_done [OF that]) (use False less.prems parent_less [of idx] in \<open>auto simp: edge_def\<close>)
    ultimately show ?thesis using less.prems by simp
  next
    case True
    then have p: "?p < idx" "?p < length xs" using less.prems parent_less [of idx] by auto
    let ?xs = "xs[idx := xs ! ?p]"
    have step: "sift_up gt xs idx v = sift_up gt ?xs ?p v"
      using True less.prems by (simp add: sift_up_step)
    have swap: "?xs[?p := v] = (xs[idx := v])[idx := xs[idx := v] ! ?p, ?p := xs[idx := v] ! idx]"
      using p less.prems by simp
    have "mset (?xs[?p := v]) = mset (xs[idx := v])"
      unfolding swap using p less.prems by (subst mset_swap) auto
    moreover have "up_ok (?xs[?p := v]) ?p" if "up_ok (xs[idx := v]) idx"
      unfolding swap by (rule up_ok_swap [OF that]) (use True p less.prems in auto)
    ultimately show ?thesis using less.IH [OF p(1), of ?xs] p unfolding step by auto
  qed
qed

definition min_child :: "pointer list \<Rightarrow> nat \<Rightarrow> nat \<Rightarrow> nat" where
  "min_child b cnt idx = (if idx * 2 + 2 < cnt \<and> gt (b ! (idx * 2 + 1)) (b ! (idx * 2 + 2))
     then idx * 2 + 2 else idx * 2 + 1)"

lemma sift_down_step:
  assumes "idx * 2 + 1 < cnt" "cnt \<le> length b"
  shows "sift_down gt cnt b idx v = (let c = min_child b cnt idx in
     if gt (b ! c) v then Some (b, idx) else sift_down gt cnt (b[idx := b ! c]) c v)"
  using assms by (subst sift_down.simps) (simp add: min_child_def Let_def)

lemma sift_down_end: "\<not> idx * 2 + 1 < cnt \<Longrightarrow> sift_down gt cnt b idx v = Some (b, idx)"
  by (subst sift_down.simps) simp

lemma min_child_props:
  assumes "idx * 2 + 1 < cnt"
  shows "min_child b cnt idx < cnt" "idx < min_child b cnt idx" "(min_child b cnt idx - 1) div 2 = idx"
  using assms by (auto simp: min_child_def)

lemma min_child_least:
  assumes "idx * 2 + 1 < cnt" "i < cnt" "0 < i" "(i - 1) div 2 = idx"
  shows "\<not> gt (b ! min_child b cnt idx) (b ! i)"
proof -
  have "i = idx * 2 + 1 \<or> i = idx * 2 + 2" using assms(3,4) by auto
  then show ?thesis using assms(1,2) asym refl by (auto simp: min_child_def)
qed

lemma sift_down_append:
  "idx < length xs \<Longrightarrow> sift_down gt (length xs) (xs @ ys) idx v =
     map_option (\<lambda>(xs', j). (xs' @ ys, j)) (sift_down gt (length xs) xs idx v)"
proof (induction "length xs - idx" arbitrary: xs idx rule: less_induct)
  case less
  show ?case
  proof (cases "idx * 2 + 1 < length xs")
    case False
    then show ?thesis by (simp add: sift_down_end)
  next
    case True
    let ?c = "min_child xs (length xs) idx"
    note c = min_child_props [OF True, of xs]
    have "min_child (xs @ ys) (length xs) idx = ?c" using True by (simp add: min_child_def nth_append)
    moreover have "length xs - ?c < length xs - idx" using c by linarith
    ultimately show ?thesis
      using True c less.prems less.hyps [of "xs[idx := xs ! ?c]" ?c]
      by (simp add: sift_down_step nth_append list_update_append Let_def)
  qed
qed

lemma sift_down_ok:
  "idx < length xs \<Longrightarrow> \<exists>xs' j. sift_down gt (length xs) xs idx v = Some (xs', j) \<and> j < length xs' \<and>
     length xs' = length xs \<and> mset (xs'[j := v]) = mset (xs[idx := v]) \<and>
     (down_ok (xs[idx := v]) idx \<longrightarrow> ordered (xs'[j := v]))"
proof (induction "length xs - idx" arbitrary: xs idx rule: less_induct)
  case less
  let ?ys = "xs[idx := v]"
  show ?case
  proof (cases "idx * 2 + 1 < length xs \<and> \<not> gt (xs ! min_child xs (length xs) idx) v")
    case True
    let ?c = "min_child xs (length xs) idx"
    note c = min_child_props [OF conjunct1 [OF True], of xs]
    let ?xs = "xs[idx := xs ! ?c]"
    have step: "sift_down gt (length xs) xs idx v = sift_down gt (length ?xs) ?xs ?c v"
      using True by (simp add: sift_down_step Let_def)
    have swap: "?xs[?c := v] = ?ys[idx := ?ys ! ?c, ?c := ?ys ! idx]"
      using c less.prems by simp
    have "mset (?xs[?c := v]) = mset ?ys"
      unfolding swap using c less.prems by (subst mset_swap) auto
    moreover have "down_ok (?xs[?c := v]) ?c" if ok: "down_ok ?ys idx"
      unfolding swap
    proof (rule down_ok_swap [OF ok])
      show "\<forall>i<length ?ys. 0 < i \<longrightarrow> (i - 1) div 2 = idx \<longrightarrow> \<not> gt (?ys ! ?c) (?ys ! i)"
      proof (intro allI impI)
        fix i assume i: "i < length ?ys" "0 < i" "(i - 1) div 2 = idx"
        then have "i \<noteq> idx" using parent_less [of i] by auto
        then show "\<not> gt (?ys ! ?c) (?ys ! i)"
          using min_child_least [OF conjunct1 [OF True], of i xs] i c by simp
      qed
    qed (use True c less.prems in auto)
    moreover have "length ?xs - ?c < length xs - idx" using c by simp
    ultimately show ?thesis using less.hyps [of ?xs ?c] c unfolding step by auto
  next
    case False
    then have "sift_down gt (length xs) xs idx v = Some (xs, idx)"
      by (cases "idx * 2 + 1 < length xs") (auto simp: sift_down_end sift_down_step Let_def)
    moreover have "ordered ?ys" if ok: "down_ok ?ys idx"
    proof (rule down_ok_done [OF ok], intro allI impI)
      fix i assume i: "i < length ?ys" "0 < i" "(i - 1) div 2 = idx"
      then have ne: "i \<noteq> idx" and r: "idx * 2 + 1 < length xs" using parent_less [of i] by auto
      let ?c = "min_child xs (length xs) idx"
      have "\<not> gt v (xs ! ?c)" using False r asym by auto
      moreover have "\<not> gt (xs ! ?c) (xs ! i)" using min_child_least [OF r] i by simp
      ultimately have "\<not> gt v (xs ! i)" by (rule trans)
      then show "edge ?ys i" using i ne by (simp add: edge_def)
    qed
    ultimately show ?thesis using less.prems by simp
  qed
qed

lemma up_ok_snoc: "ordered xs \<Longrightarrow> up_ok (xs @ [v]) (length xs)"
  unfolding up_ok_def
proof (intro allI impI conjI)
  fix i assume o: "ordered xs" and i: "i < length (xs @ [v])" "0 < i"
  have p: "(i - 1) div 2 < length xs" using parent_less [of i] i by simp
  show "edge (xs @ [v]) i" if "i \<noteq> length xs"
    using o i p that by (simp add: ordered_def edge_def nth_append)
  show "\<not> gt ((xs @ [v]) ! ((length xs - 1) div 2)) ((xs @ [v]) ! i)" if "(i - 1) div 2 = length xs"
    using p that by simp
qed

lemma down_ok_root: "ordered xs \<Longrightarrow> down_ok (xs[0 := v]) 0"
  by (simp add: down_ok_def ordered_def edge_def)

end

section \<open>The operations\<close>

lemma roundup_capacity:
  assumes "n < 2 ^ 30"
  shows "\<exists>c. CFBinaryHeapRoundUpCapacity n = Some c \<and> n < c \<or> CFBinaryHeapRoundUpCapacity n = Some c \<and> n \<le> c \<and> 4 \<le> c"
  using assms flsl_bound [of n] flsl_le [OF assms]
  by (cases "n < 4") (auto simp: CFBinaryHeapRoundUpCapacity_def)

definition heap_elems :: "CFBinaryHeap \<Rightarrow> pointer list" where
  "heap_elems heap = take (bh_count heap) (bh_buckets heap)"

definition heap_inv :: "CFBinaryHeap \<Rightarrow> bool" where
  "heap_inv heap \<longleftrightarrow> bh_mutable heap \<and> bh_count heap \<le> bh_capacity heap \<and>
     length (bh_buckets heap) = bh_capacity heap"

definition heap_stored :: "CFBinaryHeap \<Rightarrow> pointer \<Rightarrow> pointer" where
  "heap_stored heap value = fst (heap_call_retain heap value)"

text \<open>The comparison of the heap is an order, and its elements respect it.\<close>

definition heap_ok :: "CFBinaryHeap \<Rightarrow> bool" where
  "heap_ok heap \<longleftrightarrow> heap_order (heap_gt heap) \<and> heap_order.ordered (heap_gt heap) (heap_elems heap)"

lemma length_heap_elems: "heap_inv heap \<Longrightarrow> length (heap_elems heap) = bh_count heap"
  by (simp add: heap_inv_def heap_elems_def)

lemma heap_gt_cong [simp]:
  "heap_gt (heap\<lparr>bh_count := n\<rparr>) = heap_gt heap" "heap_gt (heap\<lparr>bh_buckets := b\<rparr>) = heap_gt heap"
  "heap_gt (heap\<lparr>bh_calls := l\<rparr>) = heap_gt heap" "heap_gt (heap\<lparr>bh_capacity := c\<rparr>) = heap_gt heap"
  by (intro ext; simp add: heap_gt_def cong: option.case_cong)+

lemma heap_call_retain_cong [simp]:
  "heap_call_retain (heap\<lparr>bh_count := n\<rparr>) = heap_call_retain heap"
  "heap_call_retain (heap\<lparr>bh_buckets := b\<rparr>) = heap_call_retain heap"
  "heap_call_retain (heap\<lparr>bh_capacity := c\<rparr>) = heap_call_retain heap"
  by (intro ext; simp add: heap_call_retain_def)+

lemma grown:
  assumes inv: "heap_inv heap" and small: "bh_count heap < 2 ^ 30 - 1"
  shows "\<exists>cap b. (if bh_mutable heap \<and> bh_count heap = bh_capacity heap
      then CFBinaryHeapGrow fresh heap 1 else Some heap) =
      Some (heap\<lparr>bh_capacity := cap, bh_buckets := b\<rparr>) \<and> bh_count heap < cap \<and> length b = cap \<and>
      take (bh_count heap) b = heap_elems heap"
proof (cases "bh_count heap = bh_capacity heap")
  case False
  then show ?thesis using inv
    by (intro exI [of _ "bh_capacity heap"] exI [of _ "bh_buckets heap"])
      (auto simp: heap_inv_def heap_elems_def)
next
  case True
  have "bh_count heap + 1 < 2 ^ 30" using small by simp
  from roundup_capacity [OF this] obtain cap where
    cap: "CFBinaryHeapRoundUpCapacity (bh_count heap + 1) = Some cap" "bh_count heap < cap" by auto
  then show ?thesis using True inv
    by (intro exI [of _ cap] exI [of _ "take cap (bh_buckets heap) @ map fresh [length (bh_buckets heap)..<cap]"])
      (simp add: CFBinaryHeapGrow_def heap_inv_def heap_elems_def Let_def)
qed

text \<open>What holds of the calls the heap has made: everything retained and not released is an element.\<close>

fun retained_of :: "heap_call list \<Rightarrow> pointer multiset" where
  "retained_of [] = {#}"
| "retained_of (Retained p # l) = add_mset p (retained_of l)"
| "retained_of (Released p # l) = retained_of l"

fun released_of :: "heap_call list \<Rightarrow> pointer multiset" where
  "released_of [] = {#}"
| "released_of (Retained p # l) = released_of l"
| "released_of (Released p # l) = add_mset p (released_of l)"

lemma calls_append [simp]:
  "retained_of (l @ l') = retained_of l + retained_of l'"
  "released_of (l @ l') = released_of l + released_of l'"
  by (induction l rule: retained_of.induct; simp)+

lemma calls_released [simp]:
  "retained_of (map Released ps) = {#}" "released_of (map Released ps) = mset ps"
  by (induction ps) auto

definition heap_balanced :: "CFBinaryHeap \<Rightarrow> bool" where
  "heap_balanced heap \<longleftrightarrow> hc_retain (bh_callbacks heap) \<noteq> None \<and> hc_release (bh_callbacks heap) \<and>
     retained_of (bh_calls heap) = released_of (bh_calls heap) + mset (heap_elems heap)"


lemma AddValue_law:
  assumes inv: "heap_inv heap" and small: "bh_count heap < 2 ^ 30 - 1" and ok: "heap_ok heap"
    and same: "heap_stored heap value = value"
  shows "\<exists>heap'. CFBinaryHeapAddValue fresh heap value = Some heap' \<and> heap_inv heap' \<and> heap_ok heap' \<and>
    bh_callbacks heap' = bh_callbacks heap \<and> bh_context heap' = bh_context heap \<and>
    bh_count heap' = bh_count heap + 1 \<and>
    bh_calls heap' = bh_calls heap @ snd (heap_call_retain heap value) \<and>
    mset (heap_elems heap') = add_mset value (mset (heap_elems heap))"
proof -
  let ?n = "bh_count heap" and ?gt = "heap_gt heap"
  have ord: "heap_order ?gt" and sorted: "heap_order.ordered ?gt (heap_elems heap)"
    using ok by (simp_all add: heap_ok_def)
  from grown [OF inv small] obtain cap b where
    g: "(if bh_mutable heap \<and> bh_count heap = bh_capacity heap
      then CFBinaryHeapGrow fresh heap 1 else Some heap) =
      Some (heap\<lparr>bh_capacity := cap, bh_buckets := b\<rparr>)"
    and n: "?n < cap" "length b = cap" and e: "take ?n b = heap_elems heap" by blast
  let ?xs = "take (?n + 1) b" and ?ys = "drop (?n + 1) b"
  have idx: "?n < length ?xs" using n by simp
  have xs: "?xs[?n := value] = heap_elems heap @ [value]"
    unfolding e [symmetric] using n by (simp add: take_Suc_conv_app_nth list_update_append)
  from heap_order.sift_up_ok [OF ord idx, of "value"] obtain xs' j where
    s: "sift_up ?gt ?xs ?n value = Some (xs', j)" "j < length xs'" "length xs' = length ?xs"
    "mset (xs'[j := value]) = mset (heap_elems heap @ [value])"
    "heap_order.up_ok ?gt (heap_elems heap @ [value]) ?n \<longrightarrow> heap_order.ordered ?gt (xs'[j := value])"
    unfolding xs by blast
  have sift: "sift_up ?gt b ?n value = Some (xs' @ ?ys, j)"
    using heap_order.sift_up_append [OF ord idx, of ?ys "value"] s(1) by simp
  let ?heap' = "heap\<lparr>bh_capacity := cap, bh_count := ?n + 1, bh_buckets := xs'[j := value] @ ?ys,
     bh_calls := bh_calls heap @ snd (heap_call_retain heap value)\<rparr>"
  have add: "CFBinaryHeapAddValue fresh heap value = Some ?heap'"
    unfolding CFBinaryHeapAddValue_def g using sift s(2) same
    by (auto simp: Let_def heap_stored_def list_update_append split: prod.split)
  have el: "heap_elems ?heap' = xs'[j := value]" using s(3) n by (simp add: heap_elems_def)
  have "heap_order.ordered ?gt (xs'[j := value])"
    using s(5) heap_order.up_ok_snoc [OF ord sorted] length_heap_elems [OF inv] by simp
  then have "heap_ok ?heap'" unfolding heap_ok_def el using ord by simp
  moreover have "heap_inv ?heap'" using inv n s(3) by (simp add: heap_inv_def)
  moreover have "mset (heap_elems ?heap') = add_mset value (mset (heap_elems heap))"
    unfolding el using s(4) by simp
  ultimately show ?thesis using add by (intro exI [of _ ?heap']) simp
qed

lemma mset_hd_update: "0 < length xs \<Longrightarrow> add_mset (xs ! 0) (mset (xs[0 := v])) = add_mset v (mset xs)"
  by (cases xs) auto

lemma RemoveMinimum_law:
  assumes inv: "heap_inv heap" and ne: "0 < bh_count heap" and ok: "heap_ok heap"
  shows "\<exists>heap' root. CFBinaryHeapRemoveMinimumValue heap = Some heap' \<and> heap_inv heap' \<and> heap_ok heap' \<and>
    CFBinaryHeapGetMinimum heap = Some root \<and> root \<in> set (heap_elems heap) \<and>
    (\<forall>x\<in>set (heap_elems heap). \<not> heap_gt heap root x) \<and> heap_gt heap' = heap_gt heap \<and>
    bh_callbacks heap' = bh_callbacks heap \<and> bh_count heap' = bh_count heap - 1 \<and>
    bh_calls heap' = bh_calls heap @ heap_call_release heap [root] \<and>
    mset (heap_elems heap) = add_mset root (mset (heap_elems heap'))"
proof -
  let ?n = "bh_count heap - 1" and ?gt = "heap_gt heap" and ?b = "bh_buckets heap"
  let ?root = "?b ! 0" and ?val = "?b ! ?n" and ?xs = "take ?n ?b" and ?ys = "drop ?n ?b"
  have ord: "heap_order ?gt" and sorted: "heap_order.ordered ?gt (heap_elems heap)"
    using ok by (simp_all add: heap_ok_def)
  have len: "?n < length ?b" "bh_count heap = Suc ?n" "?b \<noteq> []" using inv ne by (auto simp: heap_inv_def)
  have el: "heap_elems heap = ?xs @ [?val]" unfolding heap_elems_def using len
    by (metis take_Suc_conv_app_nth)
  have root: "CFBinaryHeapGetMinimum heap = Some ?root" "heap_elems heap ! 0 = ?root"
    "length (heap_elems heap) = bh_count heap"
    using ne len by (simp_all add: CFBinaryHeapGetMinimum_def heap_elems_def)
  have least: "\<forall>x\<in>set (heap_elems heap). \<not> ?gt ?root x"
    using heap_order.ordered_root [OF ord sorted] root(2) by (auto simp: in_set_conv_nth)
  have inr: "?root \<in> set (heap_elems heap)" using root ne by (metis nth_mem)
  let ?heap1 = "heap\<lparr>bh_count := ?n, bh_calls := bh_calls heap @ heap_call_release heap [?root]\<rparr>"
  have step: "CFBinaryHeapRemoveMinimumValue heap =
     do { (buckets, idx) \<leftarrow> sift_down ?gt ?n ?b 0 ?val; buckets \<leftarrow> wr buckets idx ?val;
          Some (?heap1\<lparr>bh_buckets := buckets\<rparr>) }"
    using ne len by (auto simp: CFBinaryHeapRemoveMinimumValue_def Let_def heap_call_release_def)
  show ?thesis
  proof (cases "?n = 0")
    case True
    have "CFBinaryHeapRemoveMinimumValue heap = Some (?heap1\<lparr>bh_buckets := ?b[0 := ?val]\<rparr>)"
      unfolding step using True len by (simp add: heap_order.sift_down_end [OF ord])
    moreover have "heap_order.ordered ?gt []" by (simp add: heap_order.ordered_def [OF ord])
    ultimately show ?thesis using True root least inr inv el ord
      by (intro exI [of _ "?heap1\<lparr>bh_buckets := ?b[0 := ?val]\<rparr>"] exI [of _ ?root])
        (simp add: heap_inv_def heap_ok_def heap_elems_def)
  next
    case False
    have idx: "0 < length ?xs" and lxs: "length ?xs = ?n" using False len by simp_all
    from heap_order.sift_down_ok [OF ord idx, of ?val] obtain xs' j where
      s: "sift_down ?gt ?n ?xs 0 ?val = Some (xs', j)" "j < length xs'" "length xs' = ?n"
      "mset (xs'[j := ?val]) = mset (?xs[0 := ?val])"
      "heap_order.down_ok ?gt (?xs[0 := ?val]) 0 \<longrightarrow> heap_order.ordered ?gt (xs'[j := ?val])"
      unfolding lxs by blast
    have sift: "sift_down ?gt ?n ?b 0 ?val = Some (xs' @ ?ys, j)"
      using heap_order.sift_down_append [OF ord idx, of ?ys ?val] s(1) unfolding lxs by simp
    let ?heap' = "?heap1\<lparr>bh_buckets := xs'[j := ?val] @ ?ys\<rparr>"
    have rem: "CFBinaryHeapRemoveMinimumValue heap = Some ?heap'"
      unfolding step sift using s(2) by (simp add: list_update_append)
    have el': "heap_elems ?heap' = xs'[j := ?val]" using s(3) by (simp add: heap_elems_def)
    have "heap_order.ordered ?gt ?xs"
      using heap_order.ordered_take [OF ord sorted, of ?n] lxs unfolding el by simp
    then have "heap_order.ordered ?gt (xs'[j := ?val])"
      using s(5) heap_order.down_ok_root [OF ord] by blast
    then have "heap_ok ?heap'" unfolding heap_ok_def el' using ord by simp
    moreover have "mset (heap_elems heap) = add_mset ?root (mset (heap_elems ?heap'))"
    proof -
      have "?xs ! 0 = ?root" using False by simp
      then have "add_mset ?root (mset (?xs[0 := ?val])) = add_mset ?val (mset ?xs)"
        using mset_hd_update [OF idx, of ?val] by simp
      then show ?thesis unfolding el el' s(4) by simp
    qed
    moreover have "heap_inv ?heap'" using inv s(3) len by (simp add: heap_inv_def)
    ultimately show ?thesis using rem root least inr by (intro exI [of _ ?heap'] exI [of _ ?root]) simp
  qed
qed

section \<open>Draining a queue\<close>

text \<open>The interface a drain relies on: the minimum is an element that is not greater than any other,
  and removing it removes it from the content and nothing else.\<close>

locale min_queue =
  fixes inv :: "'q \<Rightarrow> bool" and content :: "'q \<Rightarrow> 'a multiset" and gt :: "'q \<Rightarrow> 'a \<Rightarrow> 'a \<Rightarrow> bool"
    and get_min :: "'q \<Rightarrow> 'a option" and del_min :: "'q \<Rightarrow> 'q option"
  assumes del_law: "inv q \<Longrightarrow> content q \<noteq> {#} \<Longrightarrow> \<exists>q' v. get_min q = Some v \<and> del_min q = Some q' \<and>
    inv q' \<and> gt q' = gt q \<and> content q = add_mset v (content q') \<and> (\<forall>x\<in>#content q. \<not> gt q v x)"
begin

inductive drains :: "'q \<Rightarrow> 'a list \<Rightarrow> bool" where
  empty: "content q = {#} \<Longrightarrow> drains q []"
| step: "content q \<noteq> {#} \<Longrightarrow> get_min q = Some v \<Longrightarrow> del_min q = Some q' \<Longrightarrow> drains q' vs \<Longrightarrow>
    drains q (v # vs)"

lemma drains_total: "inv q \<Longrightarrow> \<exists>vs. drains q vs"
proof (induction "size (content q)" arbitrary: q)
  case 0
  then show ?case by (auto intro: drains.empty)
next
  case (Suc n)
  then have ne: "content q \<noteq> {#}" by auto
  from del_law [OF Suc.prems ne] obtain q' v where
    q': "get_min q = Some v" "del_min q = Some q'" "inv q'" "content q = add_mset v (content q')" by blast
  moreover have "n = size (content q')" using Suc.hyps(2) q'(4) by simp
  ultimately obtain vs where "drains q' vs" using Suc.hyps(1) by blast
  with q' ne show ?case by (blast intro: drains.step)
qed

lemma drains_sorted:
  "drains q vs \<Longrightarrow> inv q \<Longrightarrow> mset vs = content q \<and> sorted_wrt (\<lambda>x y. \<not> gt q x y) vs"
proof (induction rule: drains.induct)
  case (step q v q' vs)
  from del_law [OF step.prems step.hyps(1)] step.hyps(2,3) have
    q': "inv q'" "gt q' = gt q" "content q = add_mset v (content q')" "\<forall>x\<in>#content q. \<not> gt q v x" by auto
  with step.IH have vs: "mset vs = content q'" "sorted_wrt (\<lambda>x y. \<not> gt q x y) vs" by auto
  moreover have "\<forall>x\<in>set vs. \<not> gt q v x"
    using q' vs(1) by (metis insert_iff set_mset_add_mset_insert set_mset_mset)
  ultimately show ?case using q' by simp
qed simp

end

definition heap_good :: "CFBinaryHeap \<Rightarrow> bool" where
  "heap_good heap \<longleftrightarrow> heap_inv heap \<and> heap_ok heap"

interpretation hq: min_queue heap_good "\<lambda>h. mset (heap_elems h)" heap_gt
    CFBinaryHeapGetMinimum CFBinaryHeapRemoveMinimumValue
proof
  fix h assume good: "heap_good h" and ne: "mset (heap_elems h) \<noteq> {#}"
  then have "heap_inv h" "heap_ok h" "0 < bh_count h"
    by (auto simp: heap_good_def heap_elems_def)
  from RemoveMinimum_law [OF this(1,3,2)] obtain h' root where
    l: "CFBinaryHeapRemoveMinimumValue h = Some h'" "heap_inv h'" "heap_ok h'"
    "CFBinaryHeapGetMinimum h = Some root" "\<forall>x\<in>set (heap_elems h). \<not> heap_gt h root x"
    "heap_gt h' = heap_gt h" "mset (heap_elems h) = add_mset root (mset (heap_elems h'))" by blast
  then show "\<exists>q' v. CFBinaryHeapGetMinimum h = Some v \<and> CFBinaryHeapRemoveMinimumValue h = Some q' \<and>
     heap_good q' \<and> heap_gt q' = heap_gt h \<and> mset (heap_elems h) = add_mset v (mset (heap_elems q')) \<and>
     (\<forall>x\<in>#mset (heap_elems h). \<not> heap_gt h v x)"
    unfolding heap_good_def set_mset_mset by blast
qed

lemma get_values_drains: "hq.drains h vs \<Longrightarrow> heap_inv h \<Longrightarrow> heap_ok h \<Longrightarrow> get_values_loop h = Some vs"
proof (induction rule: hq.drains.induct)
  case (empty q)
  then have "bh_count q = 0" using length_heap_elems [of q] by simp
  then show ?case by (simp add: get_values_loop.simps)
next
  case (step q v q' vs)
  have "heap_good q" using step.prems by (simp add: heap_good_def)
  from hq.del_law [OF this step.hyps(1)] step.hyps(3) have "heap_good q'" by auto
  moreover have "0 < bh_count q" using step.hyps(1) by (auto simp: heap_elems_def)
  ultimately show ?case using step by (subst get_values_loop.simps) (simp add: heap_good_def)
qed

lemma get_values_law:
  assumes "heap_inv h" "heap_ok h"
  shows "\<exists>vs. get_values_loop h = Some vs \<and> mset vs = mset (heap_elems h) \<and>
    sorted_wrt (\<lambda>x y. \<not> heap_gt h x y) vs"
proof -
  have g: "heap_good h" using assms by (simp add: heap_good_def)
  obtain vs where "hq.drains h vs" using hq.drains_total [OF g] by blast
  then show ?thesis using hq.drains_sorted [OF _ g] get_values_drains assms by blast
qed

lemma apply_loop_values:
  "get_values_loop h = Some vs \<Longrightarrow> apply_loop f h c = Some (fold f vs c)"
proof (induction h arbitrary: vs c rule: get_values_loop.induct)
  case (1 h)
  show ?case
  proof (cases "0 < bh_count h")
    case True
    then obtain v h' vs' where "CFBinaryHeapGetMinimum h = Some v"
      "CFBinaryHeapRemoveMinimumValue h = Some h'" "get_values_loop h' = Some vs'" "vs = v # vs'"
      using 1(2) by (subst (asm) get_values_loop.simps) (auto simp: Option.bind_eq_Some_conv)
    with 1(1) [OF True] True show ?thesis by (subst apply_loop.simps) simp
  next
    case False
    then show ?thesis using 1(2) by (simp add: get_values_loop.simps apply_loop.simps)
  qed
qed

section \<open>Copies\<close>

lemma heap_gt_same: "bh_callbacks h' = bh_callbacks h \<Longrightarrow> bh_context h' = bh_context h \<Longrightarrow> heap_gt h' = heap_gt h"
  by (intro ext) (simp add: heap_gt_def cong: option.case_cong)

lemma heap_stored_same: "bh_callbacks h' = bh_callbacks h \<Longrightarrow> heap_stored h' = heap_stored h"
  by (intro ext) (simp add: heap_stored_def heap_call_retain_def)

lemma add_values_law:
  "heap_inv h \<Longrightarrow> heap_ok h \<Longrightarrow> bh_count h + length vs < 2 ^ 30 \<Longrightarrow> \<forall>v\<in>set vs. heap_stored h v = v \<Longrightarrow>
   \<exists>h'. add_values fresh h vs = Some h' \<and> heap_inv h' \<and> heap_ok h' \<and> heap_gt h' = heap_gt h \<and>
     mset (heap_elems h') = mset vs + mset (heap_elems h)"
proof (induction vs arbitrary: h)
  case (Cons v vs)
  have "bh_count h < 2 ^ 30 - 1" "heap_stored h v = v" using Cons.prems by auto
  from AddValue_law [OF Cons.prems(1) this(1) Cons.prems(2) this(2), of fresh] obtain h1 where
    1: "CFBinaryHeapAddValue fresh h v = Some h1" "heap_inv h1" "heap_ok h1" "bh_count h1 = bh_count h + 1"
    "bh_callbacks h1 = bh_callbacks h" "bh_context h1 = bh_context h"
    "mset (heap_elems h1) = add_mset v (mset (heap_elems h))" by blast
  have gt: "heap_gt h1 = heap_gt h" by (rule heap_gt_same [OF 1(5,6)])
  have st: "heap_stored h1 = heap_stored h" by (rule heap_stored_same [OF 1(5)])
  have "bh_count h1 + length vs < 2 ^ 30" using Cons.prems(3) 1(4) by simp
  moreover have "\<forall>v\<in>set vs. heap_stored h1 v = v" unfolding st using Cons.prems(4) by simp
  ultimately obtain h' where "add_values fresh h1 vs = Some h'" "heap_inv h'" "heap_ok h'"
    "heap_gt h' = heap_gt h1" "mset (heap_elems h') = mset vs + mset (heap_elems h1)"
    using Cons.IH [OF 1(2,3)] by blast
  then show ?case unfolding gt 1(7) using 1(1) by simp
qed simp

lemma Init_law:
  assumes ord: "heap_order (heap_gt h)" and small: "length vs < 2 ^ 30"
    and same: "\<forall>v\<in>set vs. heap_stored h v = v"
  shows "\<exists>h'. CFBinaryHeapInit fresh True vs (Some (bh_callbacks h)) (Some (bh_context h)) = Some h' \<and>
    heap_inv h' \<and> heap_ok h' \<and> heap_gt h' = heap_gt h \<and> mset (heap_elems h') = mset vs"
proof -
  let ?m = "\<lparr>bh_count = 0, bh_capacity = 4, bh_callbacks = bh_callbacks h, bh_context = bh_context h,
    bh_buckets = map fresh [0..<4], bh_mutable = True, bh_calls = []\<rparr>"
  have gt: "heap_gt ?m = heap_gt h" and st: "heap_stored ?m = heap_stored h"
    by (rule heap_gt_same heap_stored_same; simp)+
  have "heap_inv ?m" by (simp add: heap_inv_def)
  moreover have "heap_ok ?m"
    using ord by (simp add: heap_ok_def gt heap_elems_def heap_order.ordered_def)
  moreover have "bh_count ?m + length vs < 2 ^ 30" using small by simp
  moreover have "\<forall>v\<in>set vs. heap_stored ?m v = v" unfolding st by (rule same)
  ultimately obtain h' where h': "add_values fresh ?m vs = Some h'" "heap_inv h'" "heap_ok h'"
    "heap_gt h' = heap_gt ?m" "mset (heap_elems h') = mset vs + mset (heap_elems ?m)"
    using add_values_law [of ?m vs fresh] by blast
  have "CFBinaryHeapRoundUpCapacity 1 = Some 4" by (simp add: CFBinaryHeapRoundUpCapacity_def)
  then have "CFBinaryHeapInit fresh True vs (Some (bh_callbacks h)) (Some (bh_context h)) = Some h'"
    using h'(1,2) unfolding CFBinaryHeapInit_def Let_def heap_inv_def by simp
  moreover have "heap_elems ?m = []" by (simp add: heap_elems_def)
  ultimately show ?thesis using h' gt by simp
qed

lemma CreateCopy_law:
  assumes "heap_inv h" "heap_ok h" "bh_count h < 2 ^ 30" "\<forall>v\<in>set (heap_elems h). heap_stored h v = v"
  shows "\<exists>h'. CFBinaryHeapCreateCopy fresh h = Some h' \<and> heap_inv h' \<and> heap_ok h' \<and>
    heap_gt h' = heap_gt h \<and> mset (heap_elems h') = mset (heap_elems h)"
  unfolding CFBinaryHeapCreateCopy_def heap_elems_def [symmetric]
  by (rule Init_law) (use assms length_heap_elems [OF assms(1)] in \<open>auto simp: heap_ok_def\<close>)

lemma GetValues_law:
  assumes "heap_inv h" "heap_ok h" "bh_count h < 2 ^ 30" "\<forall>v\<in>set (heap_elems h). heap_stored h v = v"
  shows "\<exists>vs. CFBinaryHeapGetValues fresh h = Some vs \<and> mset vs = mset (heap_elems h) \<and>
    sorted_wrt (\<lambda>x y. \<not> heap_gt h x y) vs \<and>
    CFBinaryHeapApplyFunction fresh h f c = Some (fold f vs c)"
proof (cases "bh_count h = 0")
  case True
  then show ?thesis
    by (simp add: CFBinaryHeapGetValues_def CFBinaryHeapApplyFunction_def heap_elems_def)
next
  case False
  from CreateCopy_law [OF assms, of fresh] obtain h' where
    h': "CFBinaryHeapCreateCopy fresh h = Some h'" "heap_inv h'" "heap_ok h'"
    "heap_gt h' = heap_gt h" "mset (heap_elems h') = mset (heap_elems h)" by blast
  from get_values_law [OF h'(2,3)] obtain vs where
    "get_values_loop h' = Some vs" "mset vs = mset (heap_elems h')"
    "sorted_wrt (\<lambda>x y. \<not> heap_gt h' x y) vs" by blast
  then show ?thesis using h' False apply_loop_values [of h' vs f c]
    by (auto simp: CFBinaryHeapGetValues_def CFBinaryHeapApplyFunction_def)
qed

section \<open>What the operations do\<close>

lemma count_value_loop_val:
  "\<forall>i\<in>set is. i < length (bh_buckets h) \<Longrightarrow>
   count_value_loop h v is n = Some (n + length (filter (heap_same h v) (map (\<lambda>i. bh_buckets h ! i) is)))"
  by (induction "is" arbitrary: n) auto

lemma contains_value_loop_val:
  "\<forall>i\<in>set is. i < length (bh_buckets h) \<Longrightarrow>
   contains_value_loop h v is = Some (\<exists>x\<in>set (map (\<lambda>i. bh_buckets h ! i) is). heap_same h v x)"
  by (induction "is") auto

lemma heap_elems_nth: "heap_inv h \<Longrightarrow> map (\<lambda>i. bh_buckets h ! i) [0..<bh_count h] = heap_elems h"
  by (auto simp: heap_elems_def heap_inv_def list_eq_iff_nth_eq)

text \<open>C15. \<open>CFBinaryHeapAddValue\<close>, with a comparison that is an order and a retain that gives back
  its argument, adds the value and nothing else, keeps the heap order and never leaves the buckets.
  Up to \<open>2 ^ 30 - 2\<close> elements growing is defined.\<close>

theorem CFBinaryHeapAddValue_correct:
  assumes "heap_inv heap" "bh_count heap < 2 ^ 30 - 1" "heap_ok heap" "heap_stored heap value = value"
  shows "\<exists>heap'. CFBinaryHeapAddValue fresh heap value = Some heap' \<and> heap_inv heap' \<and> heap_ok heap' \<and>
    mset (heap_elems heap') = add_mset value (mset (heap_elems heap))"
  using AddValue_law [OF assms] by blast

text \<open>C4. \<open>CFBinaryHeapGetMinimum\<close> gives an element that is not greater than any other, and
  \<open>CFBinaryHeapRemoveMinimumValue\<close> removes exactly that element and keeps the heap order.\<close>

theorem CFBinaryHeapRemoveMinimum_correct:
  assumes "heap_inv heap" "0 < bh_count heap" "heap_ok heap"
  shows "\<exists>heap' root. CFBinaryHeapGetMinimum heap = Some root \<and>
    (\<forall>x\<in>set (heap_elems heap). \<not> heap_gt heap root x) \<and>
    CFBinaryHeapRemoveMinimumValue heap = Some heap' \<and> heap_inv heap' \<and> heap_ok heap' \<and>
    mset (heap_elems heap) = add_mset root (mset (heap_elems heap'))"
  using RemoveMinimum_law [OF assms] by blast

text \<open>C25. \<open>CFBinaryHeapGetValues\<close> and \<open>CFBinaryHeapApplyFunction\<close> terminate, present every
  element of the heap once, and present them in ascending order.\<close>

theorem CFBinaryHeapGetValues_sorted:
  assumes "heap_inv h" "heap_ok h" "bh_count h < 2 ^ 30" "\<forall>v\<in>set (heap_elems h). heap_stored h v = v"
  shows "\<exists>vs. CFBinaryHeapGetValues fresh h = Some vs \<and> mset vs = mset (heap_elems h) \<and>
    sorted_wrt (\<lambda>x y. \<not> heap_gt h x y) vs \<and> CFBinaryHeapApplyFunction fresh h f c = Some (fold f vs c)"
  by (rule GetValues_law [OF assms])

text \<open>C24. Ownership: with retain and release callbacks, the values retained and not yet released are
  always exactly the elements; adding and removing keep it so, and after
  \<open>CFBinaryHeapRemoveAllValues\<close> every value that was retained has been released.\<close>

theorem CFBinaryHeap_ownership:
  assumes "heap_inv heap" "heap_ok heap" "heap_balanced heap" "bh_count heap < 2 ^ 30 - 1"
    "heap_stored heap value = value"
  shows "(\<exists>heap'. CFBinaryHeapAddValue fresh heap value = Some heap' \<and> heap_balanced heap') \<and>
    (\<exists>heap'. CFBinaryHeapRemoveMinimumValue heap = Some heap' \<and> heap_balanced heap') \<and>
    retained_of (bh_calls (CFBinaryHeapRemoveAllValues heap)) =
      released_of (bh_calls (CFBinaryHeapRemoveAllValues heap))"
proof (intro conjI)
  obtain retain where r: "hc_retain (bh_callbacks heap) = Some retain" "hc_release (bh_callbacks heap)"
    "retained_of (bh_calls heap) = released_of (bh_calls heap) + mset (heap_elems heap)"
    using assms(3) by (auto simp: heap_balanced_def)
  have "snd (heap_call_retain heap value) = [Retained value]"
    using r(1) assms(5) by (simp add: heap_call_retain_def heap_stored_def)
  then show "\<exists>heap'. CFBinaryHeapAddValue fresh heap value = Some heap' \<and> heap_balanced heap'"
    using AddValue_law [OF assms(1,4,2,5), of fresh] r by (auto simp: heap_balanced_def)
  show "\<exists>heap'. CFBinaryHeapRemoveMinimumValue heap = Some heap' \<and> heap_balanced heap'"
  proof (cases "bh_count heap = 0")
    case True
    then show ?thesis using assms(3) by (simp add: CFBinaryHeapRemoveMinimumValue_def)
  next
    case False
    then show ?thesis using RemoveMinimum_law [OF assms(1) _ assms(2)] assms(3)
      by (auto simp: heap_balanced_def heap_call_release_def)
  qed
next
  show "retained_of (bh_calls (CFBinaryHeapRemoveAllValues heap)) =
      released_of (bh_calls (CFBinaryHeapRemoveAllValues heap))"
    using assms(3) by (auto simp: CFBinaryHeapRemoveAllValues_def heap_balanced_def Let_def
        heap_call_release_def heap_elems_def)
qed

text \<open>\<open>CFBinaryHeapGetCountOfValue\<close> counts the elements that are the value or compare equal to
  it, and \<open>CFBinaryHeapContainsValue\<close> says whether there is one.\<close>

theorem CFBinaryHeapGetCountOfValue_count:
  assumes "heap_inv h"
  shows "CFBinaryHeapGetCountOfValue h v = Some (length (filter (heap_same h v) (heap_elems h))) \<and>
    CFBinaryHeapContainsValue h v = Some (\<exists>x\<in>set (heap_elems h). heap_same h v x)"
proof -
  have "\<forall>i\<in>set [0..<bh_count h]. i < length (bh_buckets h)" using assms by (simp add: heap_inv_def)
  from count_value_loop_val [OF this, of v 0] contains_value_loop_val [OF this, of v] show ?thesis
    unfolding heap_elems_nth [OF assms]
    by (simp add: CFBinaryHeapGetCountOfValue_def CFBinaryHeapContainsValue_def)
qed

section \<open>Instances\<close>

text \<open>Pointer order, the order of a heap without a comparison callback.\<close>

interpretation ptr: heap_order "\<lambda>x y. y < x"
  by unfold_locales auto

definition heap_example :: CFBinaryHeap where
  "heap_example = \<lparr>bh_count = 4, bh_capacity = 4,
     bh_callbacks = \<lparr>hc_retain = Some (\<lambda>p. p), hc_release = True, hc_compare = None\<rparr>, bh_context = 0,
     bh_buckets = [16, 32, 24, 48], bh_mutable = True,
     bh_calls = [Retained 48, Retained 16, Retained 24, Retained 32]\<rparr>"

lemma heap_example_gt: "heap_gt heap_example = (\<lambda>x y. y < x)"
  by (simp add: heap_gt_def heap_example_def fun_eq_iff)

lemma heap_example_facts: "heap_inv heap_example" "bh_count heap_example = 4"
    "heap_elems heap_example = [16, 32, 24, 48]" "heap_stored heap_example = (\<lambda>p. p)"
    "heap_balanced heap_example" "heap_ok heap_example"
proof -
  show "heap_inv heap_example" "bh_count heap_example = 4"
    "heap_elems heap_example = [16, 32, 24, 48]" "heap_stored heap_example = (\<lambda>p. p)"
    by (simp_all add: heap_example_def heap_inv_def heap_elems_def heap_stored_def
        heap_call_retain_def fun_eq_iff numeral_eq_Suc)
  then show "heap_balanced heap_example" by (simp add: heap_balanced_def) (simp add: heap_example_def)
  have "i = 1 \<or> i = 2 \<or> i = 3" if "i < length [16, 32, 24, 48 :: u64]" "0 < i" for i using that by auto
  then have "ptr.ordered [16, 32, 24, 48]" by (fastforce simp: ptr.ordered_def ptr.edge_def)
  then show "heap_ok heap_example"
    using ptr.heap_order_axioms \<open>heap_elems heap_example = _\<close> by (simp add: heap_ok_def heap_example_gt)
qed

lemma CFBinaryHeapAddValue_correct_witness:
  "\<exists>heap'. CFBinaryHeapAddValue (\<lambda>_. 0) heap_example 8 = Some heap' \<and> heap_inv heap' \<and> heap_ok heap' \<and>
    mset (heap_elems heap') = add_mset 8 (mset (heap_elems heap_example))"
  by (rule CFBinaryHeapAddValue_correct) (simp_all add: heap_example_facts)

lemma CFBinaryHeapRemoveMinimum_correct_witness:
  "\<exists>heap' root. CFBinaryHeapGetMinimum heap_example = Some root \<and>
    (\<forall>x\<in>set (heap_elems heap_example). \<not> heap_gt heap_example root x) \<and>
    CFBinaryHeapRemoveMinimumValue heap_example = Some heap' \<and> heap_inv heap' \<and> heap_ok heap' \<and>
    mset (heap_elems heap_example) = add_mset root (mset (heap_elems heap'))"
  by (rule CFBinaryHeapRemoveMinimum_correct) (simp_all add: heap_example_facts)

lemma CFBinaryHeapGetValues_sorted_witness:
  "\<exists>vs. CFBinaryHeapGetValues (\<lambda>_. 0) heap_example = Some vs \<and> mset vs = mset (heap_elems heap_example) \<and>
    sorted_wrt (\<lambda>x y. \<not> heap_gt heap_example x y) vs \<and>
    CFBinaryHeapApplyFunction (\<lambda>_. 0) heap_example (\<lambda>v n. n + 1) (0::nat) = Some (fold (\<lambda>v n. n + 1) vs 0)"
  by (rule CFBinaryHeapGetValues_sorted) (simp_all add: heap_example_facts)

lemma CFBinaryHeap_ownership_witness:
  "(\<exists>heap'. CFBinaryHeapAddValue (\<lambda>_. 0) heap_example 8 = Some heap' \<and> heap_balanced heap') \<and>
    (\<exists>heap'. CFBinaryHeapRemoveMinimumValue heap_example = Some heap' \<and> heap_balanced heap') \<and>
    retained_of (bh_calls (CFBinaryHeapRemoveAllValues heap_example)) =
      released_of (bh_calls (CFBinaryHeapRemoveAllValues heap_example))"
  by (rule CFBinaryHeap_ownership) (simp_all add: heap_example_facts)

lemma CFBinaryHeapGetCountOfValue_count_witness:
  "CFBinaryHeapGetCountOfValue heap_example 24 =
      Some (length (filter (heap_same heap_example 24) (heap_elems heap_example))) \<and>
    CFBinaryHeapContainsValue heap_example 24 =
      Some (\<exists>x\<in>set (heap_elems heap_example). heap_same heap_example 24 x)"
  by (rule CFBinaryHeapGetCountOfValue_count) (simp add: heap_example_facts)

text \<open>\<open>__CFBinaryHeapEqual\<close> takes a comparison result of zero, \<open>kCFCompareEqualTo\<close>, for a
  difference: with the pointer order as the comparison, heaps of 1 and of 2 are equal, and with a
  comparison that finds all pointers equal, they are not.\<close>

definition one_value :: "heap_compare \<Rightarrow> pointer \<Rightarrow> CFBinaryHeap" where
  "one_value compare p = \<lparr>bh_count = 1, bh_capacity = 4,
     bh_callbacks = \<lparr>hc_retain = None, hc_release = False, hc_compare = Some (1, compare)\<rparr>,
     bh_context = 0, bh_buckets = [p, 0, 0, 0], bh_mutable = True, bh_calls = []\<rparr>"

lemma CFBinaryHeapEqual_inverted:
  "CFBinaryHeapEqual (\<lambda>_. 0) (one_value (\<lambda>x y _. cmp_of x y) 1) (one_value (\<lambda>x y _. cmp_of x y) 2) = Some True"
  "CFBinaryHeapEqual (\<lambda>_. 0) (one_value (\<lambda>_ _ _. kCFCompareEqualTo) 1)
     (one_value (\<lambda>_ _ _. kCFCompareEqualTo) 2) = Some False"
  by code_simp+

end
