(* ===== verification/SortFunctions.thy ===== *)
theory SortFunctions
  imports CF_Prelude "HOL-Library.Monad_Syntax"
begin

text \<open>
  \<open>CFSortFunctions.c\<close>: the stable merge sort of index lists, the parallel odd-even merge of chunks,
  and the sorts of arrays of fixed-size elements built on them.  An array passed as a pointer into
  a larger one is the array with the offset of the pointer; every access is checked.  The number of
  cores and the initial content of allocated memory are parameters.  \<open>dispatch_apply\<close> runs its block
  once for every index and waits for all of them; the blocks given to it here write disjoint parts,
  so they are run in order.
\<close>

section \<open>Merging and sorting a list of indexes\<close>

type_synonym comparator = "nat \<Rightarrow> nat \<Rightarrow> CFComparisonResult"

text \<open>\<open>while (idx--) listp[idx] = tmp[idx]\<close>.\<close>

fun copy_back :: "nat list \<Rightarrow> nat \<Rightarrow> nat list \<Rightarrow> nat \<Rightarrow> nat list option" where
  "copy_back listp base tmp 0 = Some listp"
| "copy_back listp base tmp (Suc idx) =
     do { v \<leftarrow> rd tmp idx; listp \<leftarrow> wr listp (base + idx) v; copy_back listp base tmp idx }"

text \<open>\<open>for (t = cnt1 + cnt2 - 1; idx <= t; t--) listp[t] = listp[t - cnt2]\<close>, \<open>n\<close> being \<open>t + 1\<close>.\<close>

function move_up :: "nat list \<Rightarrow> nat \<Rightarrow> nat \<Rightarrow> nat \<Rightarrow> nat \<Rightarrow> nat list option" where
  "move_up listp base cnt2 idx n =
     (if idx < n
      then do { v \<leftarrow> rd listp (base + (n - 1 - cnt2)); listp \<leftarrow> wr listp (base + (n - 1)) v;
                move_up listp base cnt2 idx (n - 1) }
      else Some listp)"
  by auto
termination by (relation "measure (\<lambda>(listp, base, cnt2, idx, n). n)") auto

declare move_up.simps [simp del]

function merge_loop :: "comparator \<Rightarrow> nat list \<Rightarrow> nat \<Rightarrow> nat \<Rightarrow> nat \<Rightarrow> nat list \<Rightarrow> nat \<Rightarrow> nat \<Rightarrow> nat
    \<Rightarrow> (nat list \<times> nat list) option" where
  "merge_loop cmp listp base cnt1 cnt2 tmp idx idx1 idx2 =
     (if cnt1 \<le> idx1
      then do { listp \<leftarrow> copy_back listp base tmp idx; Some (listp, tmp) }
      else if cnt1 + cnt2 \<le> idx2
      then do { listp \<leftarrow> move_up listp base cnt2 idx (cnt1 + cnt2);
                listp \<leftarrow> copy_back listp base tmp idx; Some (listp, tmp) }
      else do { v1 \<leftarrow> rd listp (base + idx1); v2 \<leftarrow> rd listp (base + idx2);
                if cmp_int (cmp v1 v2) \<le> 0
                then do { tmp \<leftarrow> wr tmp idx v1;
                          merge_loop cmp listp base cnt1 cnt2 tmp (idx + 1) (idx1 + 1) idx2 }
                else do { tmp \<leftarrow> wr tmp idx v2;
                          merge_loop cmp listp base cnt1 cnt2 tmp (idx + 1) idx1 (idx2 + 1) } })"
  by auto
termination
  by (relation "measure (\<lambda>(cmp, listp, base, cnt1, cnt2, tmp, idx, idx1, idx2).
    (cnt1 - idx1) + (cnt1 + cnt2 - idx2))") auto

declare merge_loop.simps [simp del]

definition CFSimpleMerge :: "comparator \<Rightarrow> nat list \<Rightarrow> nat \<Rightarrow> nat \<Rightarrow> nat \<Rightarrow> nat list
    \<Rightarrow> (nat list \<times> nat list) option" where
  "CFSimpleMerge cmp listp base cnt1 cnt2 tmp =
     (if cnt1 \<le> 0 \<or> cnt2 \<le> 0 then Some (listp, tmp) else
      do { ordered \<leftarrow> (if 16 < cnt1 + cnt2
             then do { v1 \<leftarrow> rd listp (base + (cnt1 - 1)); v2 \<leftarrow> rd listp (base + cnt1);
                       Some (cmp_int (cmp v1 v2) \<le> 0) }
             else Some False);
           if ordered then Some (listp, tmp)
           else merge_loop cmp listp base cnt1 cnt2 tmp 0 0 cnt1 })"

function CFSimpleMergeSort :: "comparator \<Rightarrow> nat list \<Rightarrow> nat \<Rightarrow> nat \<Rightarrow> nat list
    \<Rightarrow> (nat list \<times> nat list) option" where
  "CFSimpleMergeSort cmp listp base cnt tmp =
     (if cnt < 2 then Some (listp, tmp)
      else if cnt = 2
      then do { v0 \<leftarrow> rd listp base; v1 \<leftarrow> rd listp (base + 1);
                if 0 < cmp_int (cmp v0 v1)
                then do { listp \<leftarrow> wr listp base v1; listp \<leftarrow> wr listp (base + 1) v0; Some (listp, tmp) }
                else Some (listp, tmp) }
      else if cnt = 3
      then do { v0 \<leftarrow> rd listp base; v1 \<leftarrow> rd listp (base + 1); v2 \<leftarrow> rd listp (base + 2);
                let (v0, v1) = (if 0 < cmp_int (cmp v0 v1) then (v1, v0) else (v0, v1));
                let (v0, v1, v2) =
                  (if 0 < cmp_int (cmp v1 v2)
                   then let (v1, v2) = (v2, v1) in
                     (if 0 < cmp_int (cmp v0 v1) then (v1, v0, v2) else (v0, v1, v2))
                   else (v0, v1, v2));
                listp \<leftarrow> wr listp base v0; listp \<leftarrow> wr listp (base + 1) v1;
                listp \<leftarrow> wr listp (base + 2) v2; Some (listp, tmp) }
      else let half_cnt = cnt div 2 in
           do { (listp, tmp) \<leftarrow> CFSimpleMergeSort cmp listp base half_cnt tmp;
                (listp, tmp) \<leftarrow> CFSimpleMergeSort cmp listp (base + half_cnt) (cnt - half_cnt) tmp;
                CFSimpleMerge cmp listp base half_cnt (cnt - half_cnt) tmp })"
  by auto
termination by (relation "measure (\<lambda>(cmp, listp, base, cnt, tmp). cnt)") auto

declare CFSimpleMergeSort.simps [simp del]

section \<open>The parallel sort\<close>

text \<open>\<open>__CFSortIndexesNMerge\<close> writes a block of \<open>cnt2\<close> (right) or \<open>cnt1\<close> (left) values to \<open>tmp\<close>; the
  model returns the block.  Positions may run one below the start of their array, so they are
  integers.\<close>

fun nmerge_right :: "comparator \<Rightarrow> nat list \<Rightarrow> nat list \<Rightarrow> nat \<Rightarrow> int \<Rightarrow> int \<Rightarrow> nat list
    \<Rightarrow> nat list option" where
  "nmerge_right cmp l1 l2 0 p1 p2 out = Some out"
| "nmerge_right cmp l1 l2 (Suc n) p1 p2 out =
     (if p2 < 0
      then do { v \<leftarrow> rd_at l1 (p1 - 1); nmerge_right cmp l1 l2 n (p1 - 1) p2 (v # out) }
      else if p1 < 0
      then do { v \<leftarrow> rd_at l2 (p2 - 1); nmerge_right cmp l1 l2 n p1 (p2 - 1) (v # out) }
      else do { v1 \<leftarrow> rd_at l1 p1; v2 \<leftarrow> rd_at l2 p2;
                if cmp_int (cmp v1 v2) \<le> 0 then nmerge_right cmp l1 l2 n p1 (p2 - 1) (v2 # out)
                else nmerge_right cmp l1 l2 n (p1 - 1) p2 (v1 # out) })"

fun nmerge_left :: "comparator \<Rightarrow> nat list \<Rightarrow> nat list \<Rightarrow> nat \<Rightarrow> nat \<Rightarrow> nat \<Rightarrow> nat list option" where
  "nmerge_left cmp l1 l2 0 p1 p2 = Some []"
| "nmerge_left cmp l1 l2 (Suc n) p1 p2 =
     (if length l2 \<le> p2
      then do { v \<leftarrow> rd l1 p1; out \<leftarrow> nmerge_left cmp l1 l2 n (p1 + 1) p2; Some (v # out) }
      else if length l1 \<le> p1
      then do { v \<leftarrow> rd l2 p2; out \<leftarrow> nmerge_left cmp l1 l2 n p1 (p2 + 1); Some (v # out) }
      else do { v1 \<leftarrow> rd l1 p1; v2 \<leftarrow> rd l2 p2;
                if cmp_int (cmp v1 v2) \<le> 0
                then do { out \<leftarrow> nmerge_left cmp l1 l2 n (p1 + 1) p2; Some (v1 # out) }
                else do { out \<leftarrow> nmerge_left cmp l1 l2 n p1 (p2 + 1); Some (v2 # out) } })"

definition CFSortIndexesNMerge ::
  "comparator \<Rightarrow> nat list \<Rightarrow> nat \<Rightarrow> nat list \<Rightarrow> nat \<Rightarrow> nat \<Rightarrow> nat list option" where
  "CFSortIndexesNMerge cmp listp1 cnt1 listp2 cnt2 right =
     do { ordered \<leftarrow> (if 16 < cnt1 + cnt2
            then do { v1 \<leftarrow> rd listp1 (cnt1 - 1); v2 \<leftarrow> rd listp2 0; Some (cmp_int (cmp v1 v2) \<le> 0) }
            else Some False);
          if ordered then Some (if right \<noteq> 0 then listp2 else listp1)
          else if right \<noteq> 0
          then nmerge_right cmp listp1 listp2 cnt2 (int cnt1 - 1) (int cnt2 - 1) []
          else nmerge_left cmp listp1 listp2 cnt1 0 0 }"

text \<open>The blocks of the four \<open>dispatch_apply\<close> and \<open>memmove\<close> steps: \<open>listp\<close> and the temporaries of
  the sections are the state.\<close>

definition sort_section :: "comparator \<Rightarrow> nat \<Rightarrow> nat \<Rightarrow> nat \<Rightarrow> nat \<Rightarrow> nat list \<times> nat list list
    \<Rightarrow> (nat list \<times> nat list list) option" where
  "sort_section cmp sz num_sect last_sect_len sect state = (case state of (listp, tmps) \<Rightarrow>
     let sect_len = (if sect < num_sect - 1 then sz else last_sect_len) in
     do { tmp \<leftarrow> rd tmps sect;
          (listp, tmp) \<leftarrow> CFSimpleMergeSort cmp listp (sect * sz) sect_len tmp;
          tmps \<leftarrow> wr tmps sect tmp; Some (listp, tmps) })"

definition merge_even :: "comparator \<Rightarrow> nat \<Rightarrow> nat \<Rightarrow> nat \<Rightarrow> nat \<Rightarrow> nat list \<times> nat list list
    \<Rightarrow> (nat list \<times> nat list list) option" where
  "merge_even cmp sz num_sect last_sect_len sect state = (case state of (listp, tmps) \<Rightarrow>
     let right = sect mod 2;
         left_base = sect * sz - (if right \<noteq> 0 then sz else 0);
         right_base = sect * sz + (if right \<noteq> 0 then 0 else sz);
         sect2_len = (if sect + 1 + (if right \<noteq> 0 then 0 else 1) = num_sect then last_sect_len else sz)
     in do { l1 \<leftarrow> rd_block listp left_base sz; l2 \<leftarrow> rd_block listp right_base sect2_len;
             out \<leftarrow> CFSortIndexesNMerge cmp l1 sz l2 sect2_len right;
             tmp \<leftarrow> rd tmps sect; tmp \<leftarrow> wr_block tmp 0 out;
             tmps \<leftarrow> wr tmps sect tmp; Some (listp, tmps) })"

definition merge_odd :: "comparator \<Rightarrow> nat \<Rightarrow> nat \<Rightarrow> nat \<Rightarrow> nat \<Rightarrow> nat list \<times> nat list list
    \<Rightarrow> (nat list \<times> nat list list) option" where
  "merge_odd cmp sz num_sect last_sect_len sect state = (case state of (listp, tmps) \<Rightarrow>
     let right = sect mod 2;
         sect2_len = (if sect + 1 + (if right \<noteq> 0 then 1 else 2) = num_sect then last_sect_len else sz)
     in do { left \<leftarrow> rd tmps (sect + (if right \<noteq> 0 then 0 else 1));
             right_tmp \<leftarrow> rd tmps (sect + (if right \<noteq> 0 then 1 else 2));
             l1 \<leftarrow> rd_block left 0 sz; l2 \<leftarrow> rd_block right_tmp 0 sect2_len;
             out \<leftarrow> CFSortIndexesNMerge cmp l1 sz l2 sect2_len right;
             listp \<leftarrow> wr_block listp (sect * sz + sz) out; Some (listp, tmps) })"

fun dispatch_apply :: "(nat \<Rightarrow> 's \<Rightarrow> 's option) \<Rightarrow> nat list \<Rightarrow> 's \<Rightarrow> 's option" where
  "dispatch_apply f [] s = Some s"
| "dispatch_apply f (i # is) s = do { s \<leftarrow> f i s; dispatch_apply f is s }"

definition merge_round :: "comparator \<Rightarrow> nat \<Rightarrow> nat \<Rightarrow> nat \<Rightarrow> nat list \<times> nat list list
    \<Rightarrow> (nat list \<times> nat list list) option" where
  "merge_round cmp sz num_sect last_sect_len state =
     (let even_phase_cnt = (num_sect div 2) * 2;
          odd_phase_cnt = ((num_sect - 1) div 2) * 2
      in do { (listp, tmps) \<leftarrow>
                dispatch_apply (merge_even cmp sz num_sect last_sect_len) [0..<even_phase_cnt] state;
              tmps \<leftarrow> (if num_sect mod 2 \<noteq> 0
                then do { last \<leftarrow> rd_block listp ((num_sect - 1) * sz) last_sect_len;
                          tmp \<leftarrow> rd tmps (num_sect - 1); tmp \<leftarrow> wr_block tmp 0 last;
                          wr tmps (num_sect - 1) tmp }
                else Some tmps);
              (listp, tmps) \<leftarrow>
                dispatch_apply (merge_odd cmp sz num_sect last_sect_len) [0..<odd_phase_cnt] (listp, tmps);
              tmp \<leftarrow> rd tmps 0; tmp \<leftarrow> rd_block tmp 0 sz; listp \<leftarrow> wr_block listp (0 * sz) tmp;
              listp \<leftarrow> (if num_sect mod 2 = 0
                then do { tmp \<leftarrow> rd tmps (num_sect - 1); tmp \<leftarrow> rd_block tmp 0 last_sect_len;
                          wr_block listp ((num_sect - 1) * sz) tmp }
                else Some listp);
              Some (listp, tmps) })"

definition CFSortIndexesN ::
  "(nat \<Rightarrow> nat) \<Rightarrow> comparator \<Rightarrow> nat list \<Rightarrow> nat \<Rightarrow> nat \<Rightarrow> nat list option" where
  "CFSortIndexesN fresh cmp listp cnt ncores =
     (let sz = ((((cnt + ncores - 1) div ncores) + 15) div 16) * 16;
          num_sect = (cnt + sz - 1) div sz;
          last_sect_len = cnt + sz - sz * num_sect;
          tmps = replicate num_sect (map fresh [0..<sz])
      in do { state \<leftarrow> dispatch_apply (sort_section cmp sz num_sect last_sect_len) [0..<num_sect] (listp, tmps);
              (listp, tmps) \<leftarrow> dispatch_apply (\<lambda>_. merge_round cmp sz num_sect last_sect_len)
                [0..<(num_sect + 1) div 2] state;
              Some listp })"

section \<open>The entry points\<close>

definition kCFSortConcurrent :: nat where "kCFSortConcurrent = 1"
definition kCFSortStable :: nat where "kCFSortStable = 16"

text \<open>\<open>indexBuffer[idx] = idx\<close> for the indexes of a range; from 65537 elements on, in eight ranges
  of \<open>sz\<close>.\<close>

fun fill_range :: "nat list \<Rightarrow> nat list \<Rightarrow> nat list option" where
  "fill_range indexBuffer [] = Some indexBuffer"
| "fill_range indexBuffer (idx # idxs) =
     do { indexBuffer \<leftarrow> wr indexBuffer idx idx; fill_range indexBuffer idxs }"

definition fill_indexes :: "nat list \<Rightarrow> nat \<Rightarrow> nat list option" where
  "fill_indexes indexBuffer cnt =
     (if cnt \<le> 65536 then fill_range indexBuffer [0..<cnt]
      else let sz = (((cnt + 15) div 16) * 16) div 8 in
           dispatch_apply (\<lambda>n buf. fill_range buf [n * sz..<min (n * sz + sz) cnt]) [0..<8] indexBuffer)"

definition sort_cores :: "nat \<Rightarrow> nat \<Rightarrow> bool \<Rightarrow> bool \<times> nat" where
  "sort_cores active cnt concurrent =
     (if concurrent
      then let ncores = active;
               (concurrent, ncores) =
                 (if cnt < 160 \<or> ncores < 2 then (False, ncores)
                  else if cnt < 640 \<and> 2 < ncores then (True, 2)
                  else if cnt < 3200 \<and> 4 < ncores then (True, 4)
                  else if cnt < 16000 \<and> 8 < ncores then (True, 8) else (True, ncores));
               ncores = (if 16 < ncores then 16 else ncores)
           in (concurrent, ncores)
      else (False, 0))"

definition CFSortIndexes :: "(nat \<Rightarrow> nat) \<Rightarrow> nat \<Rightarrow> nat list \<Rightarrow> nat \<Rightarrow> nat \<Rightarrow> comparator
    \<Rightarrow> nat list option" where
  "CFSortIndexes fresh active indexBuffer cnt opts cmp =
     (if cnt < 1 then Some indexBuffer
      else if (2 ^ 63 - 1) div 8 < cnt then Some indexBuffer
      else let (concurrent, ncores) = sort_cores active cnt (opts mod 2 = 1) in
           do { indexBuffer \<leftarrow> fill_indexes indexBuffer cnt;
                if concurrent then CFSortIndexesN fresh cmp indexBuffer cnt ncores
                else do { (listp, tmp) \<leftarrow> CFSimpleMergeSort cmp indexBuffer 0 cnt (map fresh [0..<cnt]);
                          Some listp } })"

text \<open>The elements of the array: \<open>elementSize\<close> bytes each.  The comparison sees the two elements.\<close>

definition element :: "u8 list \<Rightarrow> nat \<Rightarrow> nat \<Rightarrow> u8 list" where
  "element bytes elementSize idx = take elementSize (drop (idx * elementSize) bytes)"

fun copy_elements :: "u8 list \<Rightarrow> nat \<Rightarrow> u8 list \<Rightarrow> nat list \<Rightarrow> nat list \<Rightarrow> u8 list option" where
  "copy_elements bytes elementSize store indexes [] = Some store"
| "copy_elements bytes elementSize store indexes (idx # idxs) =
     do { i \<leftarrow> rd indexes idx;
          e \<leftarrow> rd_block bytes (i * elementSize) elementSize;
          store \<leftarrow> wr_block store (idx * elementSize) e;
          copy_elements bytes elementSize store indexes idxs }"

definition sort_array :: "(nat \<Rightarrow> nat) \<Rightarrow> nat \<Rightarrow> nat \<Rightarrow> u8 list \<Rightarrow> nat \<Rightarrow> nat
    \<Rightarrow> (u8 list \<Rightarrow> u8 list \<Rightarrow> CFComparisonResult) \<Rightarrow> u8 list option" where
  "sort_array fresh active opts list cnt elementSize comparator =
     (if cnt < 2 \<or> elementSize < 1 then Some list else
      do { indexes \<leftarrow> CFSortIndexes fresh active (map fresh [0..<cnt]) cnt opts
             (\<lambda>a b. comparator (element list elementSize a) (element list elementSize b));
           store \<leftarrow> copy_elements list elementSize (replicate (cnt * elementSize) 0) indexes [0..<cnt];
           wr_block list 0 store })"

definition CFQSortArray :: "(nat \<Rightarrow> nat) \<Rightarrow> nat \<Rightarrow> u8 list \<Rightarrow> nat \<Rightarrow> nat
    \<Rightarrow> (u8 list \<Rightarrow> u8 list \<Rightarrow> CFComparisonResult) \<Rightarrow> u8 list option" where
  "CFQSortArray fresh active list cnt elementSize comparator =
     sort_array fresh active 0 list cnt elementSize comparator"

definition CFMergeSortArray :: "(nat \<Rightarrow> nat) \<Rightarrow> nat \<Rightarrow> u8 list \<Rightarrow> nat \<Rightarrow> nat
    \<Rightarrow> (u8 list \<Rightarrow> u8 list \<Rightarrow> CFComparisonResult) \<Rightarrow> u8 list option" where
  "CFMergeSortArray fresh active list cnt elementSize comparator =
     sort_array fresh active kCFSortStable list cnt elementSize comparator"

section \<open>The merge\<close>

text \<open>The contract of the comparison: "not greater" is total and transitive.  Two indexes are in
  order when the first is not greater, and comes first if they are equal: what a stable sort of
  ascending indexes gives.\<close>

locale sort_order =
  fixes cmp :: comparator
  assumes total: "cmp_int (cmp x y) \<le> 0 \<or> cmp_int (cmp y x) \<le> 0"
    and trans: "cmp_int (cmp x y) \<le> 0 \<Longrightarrow> cmp_int (cmp y z) \<le> 0 \<Longrightarrow> cmp_int (cmp x z) \<le> 0"
begin

definition le :: "nat \<Rightarrow> nat \<Rightarrow> bool" where
  "le x y \<longleftrightarrow> cmp_int (cmp x y) \<le> 0"

definition before :: "nat \<Rightarrow> nat \<Rightarrow> bool" where
  "before x y \<longleftrightarrow> le x y \<and> (le y x \<longrightarrow> x < y)"

lemma before_cases: "le x y \<longrightarrow> le y x \<longrightarrow> x < y \<Longrightarrow> (if le x y then before x y else before y x)"
  using total [of x y] by (auto simp: before_def le_def)

lemma before_trans: "before x y \<Longrightarrow> before y z \<Longrightarrow> before x z"
  unfolding before_def le_def by (metis trans order.strict_trans)

fun smerge :: "nat list \<Rightarrow> nat list \<Rightarrow> nat list" where
  "smerge [] ys = ys"
| "smerge xs [] = xs"
| "smerge (x # xs) (y # ys) = (if le x y then x # smerge xs (y # ys) else y # smerge (x # xs) ys)"

lemma smerge_Nil [simp]: "smerge xs [] = xs"
  by (cases xs) auto

lemma mset_smerge [simp]: "mset (smerge xs ys) = mset xs + mset ys"
  by (induction xs ys rule: smerge.induct) auto

lemma set_smerge [simp]: "set (smerge xs ys) = set xs \<union> set ys"
  by (induction xs ys rule: smerge.induct) auto

lemma length_smerge [simp]: "length (smerge xs ys) = length xs + length ys"
  by (induction xs ys rule: smerge.induct) auto

lemma smerge_sorted:
  "sorted_wrt before xs \<Longrightarrow> sorted_wrt before ys \<Longrightarrow> \<forall>x\<in>set xs. \<forall>y\<in>set ys. le x y \<longrightarrow> le y x \<longrightarrow> x < y \<Longrightarrow>
   sorted_wrt before (smerge xs ys)"
proof (induction xs ys rule: smerge.induct)
  case (3 x xs y ys)
  have xy: "le x y \<longrightarrow> le y x \<longrightarrow> x < y" using 3 by simp
  show ?case
  proof (cases "le x y")
    case True
    then have "before x y" using before_cases [OF xy] by simp
    then have "\<forall>z\<in>set (y # ys). before x z" using 3 before_trans by auto
    then show ?thesis using 3 True by auto
  next
    case False
    then have "before y x" using before_cases [OF xy] by simp
    then have "\<forall>z\<in>set (x # xs). before y z" using 3 before_trans by auto
    then show ?thesis using 3 False by auto
  qed
qed auto

lemma append_sorted:
  assumes "sorted_wrt before xs" "sorted_wrt before ys" "\<forall>x\<in>set xs. \<forall>y\<in>set ys. le x y \<longrightarrow> le y x \<longrightarrow> x < y"
    "xs \<noteq> []" "ys \<noteq> []" "le (last xs) (hd ys)"
  shows "sorted_wrt before (xs @ ys)"
proof -
  have "before (last xs) (hd ys)" using before_cases [of "last xs" "hd ys"] assms by simp
  moreover have "before x (last xs)" if "x \<in> set xs" "x \<noteq> last xs" for x
    using assms(1,4) that by (cases xs rule: rev_cases) (auto simp: sorted_wrt_append)
  moreover have "before (hd ys) y" if "y \<in> set ys" "y \<noteq> hd ys" for y
    using assms(2,5) that by (cases ys) auto
  ultimately have "before x y" if "x \<in> set xs" "y \<in> set ys" for x y
    using that by (metis before_trans)
  then show ?thesis using assms(1,2) by (simp add: sorted_wrt_append)
qed

end

lemma copy_back_eq:
  "idx \<le> length tmp \<Longrightarrow> base + idx \<le> length listp \<Longrightarrow> copy_back listp base tmp idx =
     Some (take base listp @ take idx tmp @ drop (base + idx) listp)"
proof (induction idx arbitrary: listp)
  case (Suc idx)
  then have "copy_back (listp[base + idx := tmp ! idx]) base tmp idx =
    Some (take base listp @ take idx tmp @ drop (base + idx) (listp[base + idx := tmp ! idx]))"
    by simp
  moreover have "drop (base + idx) (listp[base + idx := tmp ! idx]) = tmp ! idx # drop (Suc (base + idx)) listp"
    using Suc.prems by (simp add: drop_update_swap Cons_nth_drop_Suc [symmetric])
  ultimately show ?case using Suc.prems by (simp add: take_Suc_conv_app_nth)
qed simp

lemma move_up_nth:
  "idx \<le> n \<Longrightarrow> cnt2 \<le> idx \<Longrightarrow> base + n \<le> length listp \<Longrightarrow> \<exists>l. move_up listp base cnt2 idx n = Some l \<and>
     length l = length listp \<and> (\<forall>i<length listp. l ! i =
       (if base + idx \<le> i \<and> i < base + n then listp ! (i - cnt2) else listp ! i))"
proof (induction n arbitrary: listp)
  case 0
  then show ?case by (simp add: move_up.simps)
next
  case (Suc n)
  show ?case
  proof (cases "idx < Suc n")
    case False
    then show ?thesis using Suc.prems by (simp add: move_up.simps)
  next
    case True
    let ?v = "listp ! (base + (n - cnt2))"
    let ?l = "listp[base + n := ?v]"
    have "move_up listp base cnt2 idx (Suc n) = move_up ?l base cnt2 idx n"
      using True Suc.prems by (subst move_up.simps) simp
    moreover obtain l where l: "move_up ?l base cnt2 idx n = Some l" "length l = length ?l"
      "\<forall>i<length ?l. l ! i = (if base + idx \<le> i \<and> i < base + n then ?l ! (i - cnt2) else ?l ! i)"
      using Suc.IH [of ?l] True Suc.prems by auto
    moreover have "l ! i = (if base + idx \<le> i \<and> i < base + Suc n then listp ! (i - cnt2) else listp ! i)"
      if "i < length listp" for i
      using l(3) that Suc.prems True by (auto simp: nth_list_update)
    ultimately show ?thesis by auto
  qed
qed

lemma move_up_eq:
  assumes "idx \<le> n" "cnt2 \<le> idx" "base + n \<le> length listp"
  shows "move_up listp base cnt2 idx n =
    Some (take (base + idx) listp @ take (n - idx) (drop (base + idx - cnt2) listp) @ drop (base + n) listp)"
proof -
  obtain l where l: "move_up listp base cnt2 idx n = Some l" "length l = length listp"
    "\<forall>i<length listp. l ! i = (if base + idx \<le> i \<and> i < base + n then listp ! (i - cnt2) else listp ! i)"
    using move_up_nth [OF assms] by blast
  have "l = take (base + idx) listp @ take (n - idx) (drop (base + idx - cnt2) listp) @ drop (base + n) listp"
    by (rule nth_equalityI) (use l assms in \<open>auto simp: nth_append\<close>)
  then show ?thesis using l(1) by simp
qed

text \<open>The block \<open>[base, base + n)\<close> of an array replaced.\<close>

definition block_set :: "nat list \<Rightarrow> nat \<Rightarrow> nat list \<Rightarrow> nat list" where
  "block_set listp base xs = take base listp @ xs @ drop (base + length xs) listp"

lemma drop_take_drop:
  assumes "j \<le> n" "n \<le> length xs"
  shows "drop j (take n xs) @ drop n xs = drop j xs"
proof -
  have "drop j xs = drop j (take n xs @ drop n xs)" by simp
  also have "\<dots> = drop j (take n xs) @ drop n xs" unfolding drop_append using assms by simp
  finally show ?thesis by simp
qed

lemma merge_finish1:
  assumes "base + cnt1 + cnt2 \<le> length listp" "idx = cnt1 + j" "j \<le> cnt2" "idx \<le> length tmp"
  shows "copy_back listp base tmp idx =
    Some (block_set listp base (take idx tmp @ drop j (take cnt2 (drop (base + cnt1) listp))))"
proof -
  have "drop (base + idx) listp = drop j (take cnt2 (drop (base + cnt1) listp)) @ drop (base + cnt1 + cnt2) listp"
    using drop_take_drop [of j cnt2 "drop (base + cnt1) listp"] assms by (simp add: ac_simps)
  moreover have "base + idx \<le> length listp" using assms by simp
  ultimately show ?thesis using assms by (simp add: copy_back_eq block_set_def add.assoc)
qed

lemma merge_finish2:
  assumes "base + cnt1 + cnt2 \<le> length listp" "idx = cnt2 + i" "i \<le> cnt1" "idx \<le> length tmp"
  shows "do { l \<leftarrow> move_up listp base cnt2 idx (cnt1 + cnt2); copy_back l base tmp idx } =
    Some (block_set listp base (take idx tmp @ drop i (take cnt1 (drop base listp))))"
proof -
  let ?l = "take (base + idx) listp @ take (cnt1 + cnt2 - idx) (drop (base + idx - cnt2) listp) @
    drop (base + (cnt1 + cnt2)) listp"
  have m: "move_up listp base cnt2 idx (cnt1 + cnt2) = Some ?l"
    by (rule move_up_eq) (use assms in auto)
  have "length (take (base + idx) listp) = base + idx" using assms by simp
  then have "drop (base + idx) ?l = take (cnt1 + cnt2 - idx) (drop (base + idx - cnt2) listp) @
    drop (base + (cnt1 + cnt2)) listp" "take base ?l = take base listp" by simp_all
  moreover have "take (cnt1 + cnt2 - idx) (drop (base + idx - cnt2) listp) = drop i (take cnt1 (drop base listp))"
    using assms by (simp add: drop_take add.commute)
  moreover have "base + idx \<le> length ?l" using assms by simp
  ultimately show ?thesis using assms m by (simp add: copy_back_eq block_set_def ac_simps)
qed

context sort_order
begin

lemma merge_loop_eq:
  assumes "base + cnt1 + cnt2 \<le> length listp" "cnt1 + cnt2 \<le> length tmp"
    and "xs = take cnt1 (drop base listp)" "ys = take cnt2 (drop (base + cnt1) listp)"
    and "i \<le> cnt1" "j \<le> cnt2" "idx = i + j" "take idx tmp @ smerge (drop i xs) (drop j ys) = smerge xs ys"
  shows "\<exists>tmp'. merge_loop cmp listp base cnt1 cnt2 tmp idx i (cnt1 + j) =
    Some (block_set listp base (smerge xs ys), tmp') \<and> length tmp' = length tmp"
  using assms
proof (induction "(cnt1 - i) + (cnt2 - j)" arbitrary: tmp idx i j rule: less_induct)
  case less
  have lx: "length xs = cnt1" "length ys = cnt2" using less.prems by simp_all
  consider (a) "i = cnt1" | (b) "i < cnt1" "j = cnt2" | (c) "i < cnt1" "j < cnt2"
    using less.prems by linarith
  then show ?case
  proof cases
    case a
    then have "smerge xs ys = take idx tmp @ drop j ys" using less.prems lx by simp
    moreover have "copy_back listp base tmp idx = Some (block_set listp base (take idx tmp @ drop j ys))"
      unfolding less.prems(4) by (rule merge_finish1) (use a less.prems in auto)
    ultimately show ?thesis using a by (subst merge_loop.simps) simp
  next
    case b
    then have "smerge xs ys = take idx tmp @ drop i xs" using less.prems lx by simp
    moreover have "do { l \<leftarrow> move_up listp base cnt2 idx (cnt1 + cnt2); copy_back l base tmp idx } =
        Some (block_set listp base (take idx tmp @ drop i xs))"
      unfolding less.prems(3) by (rule merge_finish2) (use b less.prems in auto)
    ultimately have "do { l \<leftarrow> move_up listp base cnt2 idx (cnt1 + cnt2);
        l \<leftarrow> copy_back l base tmp idx; Some (l, tmp) } = Some (block_set listp base (smerge xs ys), tmp)"
      by (auto simp: Option.bind_eq_Some_conv)
    then show ?thesis using b by (subst merge_loop.simps) simp
  next
    case c
    let ?v1 = "xs ! i" and ?v2 = "ys ! j"
    have rd: "rd listp (base + i) = Some ?v1" "rd listp (base + (cnt1 + j)) = Some ?v2"
      using c less.prems by (simp_all add: add.assoc)
    have dx: "drop i xs = ?v1 # drop (i + 1) xs" "drop j ys = ?v2 # drop (j + 1) ys"
      using c lx by (simp_all add: Cons_nth_drop_Suc)
    have room: "idx < length tmp" using c less.prems by simp
    have snoc: "take (idx + 1) (tmp[idx := v]) = take idx tmp @ [v]" for v
      using room by (simp add: take_Suc_conv_app_nth)
    show ?thesis
    proof (cases "le ?v1 ?v2")
      case True
      have "take (idx + 1) (tmp[idx := ?v1]) @ smerge (drop (i + 1) xs) (drop j ys) = smerge xs ys"
        using less.prems(8) True unfolding snoc dx by simp
      moreover have "(cnt1 - (i + 1)) + (cnt2 - j) < (cnt1 - i) + (cnt2 - j)" using c by linarith
      ultimately obtain tmp' where
        "merge_loop cmp listp base cnt1 cnt2 (tmp[idx := ?v1]) (idx + 1) (i + 1) (cnt1 + j) =
          Some (block_set listp base (smerge xs ys), tmp')" "length tmp' = length tmp"
        using less.hyps [of "i + 1" j "tmp[idx := ?v1]" "idx + 1"] less.prems c by auto
      then show ?thesis using c rd room True by (subst merge_loop.simps) (simp add: le_def)
    next
      case False
      have "take (idx + 1) (tmp[idx := ?v2]) @ smerge (drop i xs) (drop (j + 1) ys) = smerge xs ys"
        using less.prems(8) False unfolding snoc dx by simp
      moreover have "(cnt1 - i) + (cnt2 - (j + 1)) < (cnt1 - i) + (cnt2 - j)" using c by linarith
      ultimately obtain tmp' where
        "merge_loop cmp listp base cnt1 cnt2 (tmp[idx := ?v2]) (idx + 1) i (cnt1 + (j + 1)) =
          Some (block_set listp base (smerge xs ys), tmp')" "length tmp' = length tmp"
        using less.hyps [of i "j + 1" "tmp[idx := ?v2]" "idx + 1"] less.prems c by auto
      then show ?thesis using c rd room False by (subst merge_loop.simps) (simp add: le_def)
    qed
  qed
qed

lemma CFSimpleMerge_law:
  assumes "base + cnt1 + cnt2 \<le> length listp" "cnt1 + cnt2 \<le> length tmp"
    and "xs = take cnt1 (drop base listp)" "ys = take cnt2 (drop (base + cnt1) listp)"
    and "sorted_wrt before xs" "sorted_wrt before ys"
    and "\<forall>x\<in>set xs. \<forall>y\<in>set ys. le x y \<longrightarrow> le y x \<longrightarrow> x < y"
  shows "\<exists>tmp' zs. CFSimpleMerge cmp listp base cnt1 cnt2 tmp = Some (block_set listp base zs, tmp') \<and>
    length tmp' = length tmp \<and> mset zs = mset xs + mset ys \<and> sorted_wrt before zs"
proof -
  have lx: "length xs = cnt1" "length ys = cnt2" using assms(1,3,4) by simp_all
  have same: "block_set listp base (xs @ ys) = listp"
  proof -
    have "drop base listp = xs @ ys @ drop (base + cnt1 + cnt2) listp"
      using assms(1,3,4) by (metis add.assoc append_take_drop_id drop_drop add.commute)
    then show ?thesis using lx by (metis add.assoc append_take_drop_id append.assoc block_set_def length_append)
  qed
  show ?thesis
  proof (cases "cnt1 = 0 \<or> cnt2 = 0")
    case True
    then have "CFSimpleMerge cmp listp base cnt1 cnt2 tmp = Some (listp, tmp)" by (auto simp: CFSimpleMerge_def)
    moreover have "sorted_wrt before (xs @ ys)" using True lx assms(5,6) by auto
    ultimately show ?thesis using same by (intro exI [of _ tmp] exI [of _ "xs @ ys"]) simp
  next
    case False
    let ?o = "16 < cnt1 + cnt2 \<and> le (last xs) (hd ys)"
    have ends: "listp ! (base + (cnt1 - 1)) = last xs" "listp ! (base + cnt1) = hd ys"
      using False lx assms(1,3,4) by (auto simp: last_conv_nth hd_conv_nth)
    have step: "CFSimpleMerge cmp listp base cnt1 cnt2 tmp = (if ?o then Some (listp, tmp)
        else merge_loop cmp listp base cnt1 cnt2 tmp 0 0 cnt1)"
      using False assms(1) ends by (auto simp: CFSimpleMerge_def le_def)
    show ?thesis
    proof (cases ?o)
      case True
      have "sorted_wrt before (xs @ ys)" by (rule append_sorted) (use assms True False lx in auto)
      then show ?thesis unfolding step using True same
        by (intro exI [of _ tmp] exI [of _ "xs @ ys"]) simp
    next
      case no: False
      from merge_loop_eq [OF assms(1-4), of 0 0 0] obtain tmp' where
        "merge_loop cmp listp base cnt1 cnt2 tmp 0 0 cnt1 = Some (block_set listp base (smerge xs ys), tmp')"
        "length tmp' = length tmp" by auto
      then show ?thesis unfolding step if_not_P [OF no] using smerge_sorted [OF assms(5-7)] by auto
    qed
  qed
qed

end

lemma block_set_nth:
  "base + length xs \<le> length listp \<Longrightarrow> i < length listp \<Longrightarrow> block_set listp base xs ! i =
     (if base \<le> i \<and> i < base + length xs then xs ! (i - base) else listp ! i)"
  by (auto simp: block_set_def nth_append)

lemma length_block_set [simp]:
  "base + length xs \<le> length listp \<Longrightarrow> length (block_set listp base xs) = length listp"
  by (simp add: block_set_def)

lemma block_set_slices:
  assumes "base + length xs \<le> length listp"
  shows "take (length xs) (drop base (block_set listp base xs)) = xs"
    and "take n (drop (base + length xs) (block_set listp base xs)) = take n (drop (base + length xs) listp)"
    and "block_set (block_set listp base xs) (base + length xs) ys = block_set listp base (xs @ ys)"
  using assms by (simp_all add: block_set_def ac_simps)

lemma block_set_same_length:
  "length xs = length ys \<Longrightarrow> base + length xs \<le> length listp \<Longrightarrow>
   block_set (block_set listp base xs) base ys = block_set listp base ys"
  by (simp add: block_set_def)

lemma block_set_id: "base + n \<le> length listp \<Longrightarrow> block_set listp base (take n (drop base listp)) = listp"
  by (metis add.commute append_take_drop_id block_set_def drop_drop length_drop length_take
      le_diff_conv2 min.absorb2 add_leD1)

lemma block_set_2: "base + 1 < length listp \<Longrightarrow> listp[base := a, base + 1 := b] = block_set listp base [a, b]"
  by (rule nth_equalityI) (auto simp: block_set_nth nth_list_update less_Suc_eq)

lemma block_set_3: "base + 2 < length listp \<Longrightarrow>
    listp[base := a, base + 1 := b, base + 2 := c] = block_set listp base [a, b, c]"
  by (rule nth_equalityI) (auto simp: block_set_nth nth_list_update less_Suc_eq nth_Cons')

context sort_order
begin

lemma sort2:
  "x < y \<Longrightarrow> sorted_wrt before (if 0 < cmp_int (cmp x y) then [y, x] else [x, y])"
  using before_cases [of x y] by (auto simp: le_def not_le split: if_splits)

lemma sort3:
  assumes "a < b" "b < c"
  defines "p \<equiv> (if 0 < cmp_int (cmp a b) then (b, a) else (a, b))"
  defines "r \<equiv> (case p of (v0, v1) \<Rightarrow> if 0 < cmp_int (cmp v1 c)
      then (if 0 < cmp_int (cmp v0 c) then (c, v0, v1) else (v0, c, v1)) else (v0, v1, c))"
  shows "case r of (v0, v1, v2) \<Rightarrow> sorted_wrt before [v0, v1, v2] \<and> mset [v0, v1, v2] = mset [a, b, c]"
  using before_cases [of a b] before_cases [of b c] before_cases [of a c] assms(1,2)
    before_trans [of a b c] before_trans [of b a c] before_trans [of c a b] before_trans [of c b a]
    before_trans [of a c b] before_trans [of b c a]
  by (auto simp: p_def r_def le_def not_le split: if_splits)

lemma small_list: "length xs = 2 \<Longrightarrow> \<exists>a b. xs = [a, b]" "length xs = 3 \<Longrightarrow> \<exists>a b c. xs = [a, b, c]"
  by (auto simp: numeral_2_eq_2 numeral_3_eq_3 length_Suc_conv)

lemma CFSimpleMergeSort_law:
  assumes "base + cnt \<le> length listp" "cnt \<le> length tmp" "sorted_wrt (<) (take cnt (drop base listp))"
  shows "\<exists>tmp' zs. CFSimpleMergeSort cmp listp base cnt tmp = Some (block_set listp base zs, tmp') \<and>
    length tmp' = length tmp \<and> mset zs = mset (take cnt (drop base listp)) \<and> sorted_wrt before zs"
  using assms
proof (induction cnt arbitrary: listp base tmp rule: less_induct)
  case (less cnt)
  let ?xs = "take cnt (drop base listp)"
  have len: "length ?xs = cnt" using less.prems by simp
  have rdx: "rd listp (base + i) = Some (?xs ! i)" if "i < cnt" for i using that less.prems by simp
  consider "cnt < 2" | "cnt = 2" | "cnt = 3" | "4 \<le> cnt" by linarith
  then show ?case
  proof cases
    case 1
    have "CFSimpleMergeSort cmp listp base cnt tmp = Some (listp, tmp)"
      using 1 by (simp add: CFSimpleMergeSort.simps)
    moreover have "sorted_wrt before ?xs" using 1 len
      by (cases ?xs rule: list.exhaust; cases "tl ?xs") auto
    ultimately show ?thesis using block_set_id [OF less.prems(1)]
      by (intro exI [of _ tmp] exI [of _ ?xs]) simp
  next
    case 2
    then obtain a b where xs: "?xs = [a, b]" using small_list(1) [of ?xs] len by auto
    have v: "rd listp base = Some a" "rd listp (base + 1) = Some b"
      using rdx [of 0, unfolded xs] rdx [of 1, unfolded xs] 2 by simp_all
    let ?zs = "if 0 < cmp_int (cmp a b) then [b, a] else [a, b]"
    have "CFSimpleMergeSort cmp listp base cnt tmp = Some (block_set listp base ?zs, tmp)"
      using 2 v less.prems(1) block_set_2 [of base listp b a] block_set_id [OF less.prems(1)] xs
      by (subst CFSimpleMergeSort.simps) simp
    moreover have "a < b" using less.prems(3) unfolding xs by simp
    ultimately show ?thesis using sort2 [of a b] unfolding xs by (intro exI [of _ tmp] exI [of _ ?zs]) simp
  next
    case 3
    then obtain a b c where xs: "?xs = [a, b, c]" using small_list(2) [of ?xs] len by auto
    have v: "rd listp base = Some a" "rd listp (base + 1) = Some b" "rd listp (base + 2) = Some c"
      using rdx [of 0, unfolded xs] rdx [of 1, unfolded xs] rdx [of 2, unfolded xs] 3 by simp_all
    let ?p = "if 0 < cmp_int (cmp a b) then (b, a) else (a, b)"
    obtain v0 v1 v2 where r: "(case ?p of (v0, v1) \<Rightarrow> if 0 < cmp_int (cmp v1 c)
      then (if 0 < cmp_int (cmp v0 c) then (c, v0, v1) else (v0, c, v1)) else (v0, v1, c)) = (v0, v1, v2)"
      by (cases "case ?p of (v0, v1) \<Rightarrow> if 0 < cmp_int (cmp v1 c)
      then (if 0 < cmp_int (cmp v0 c) then (c, v0, v1) else (v0, c, v1)) else (v0, v1, c)")
    have "a < b" "b < c" using less.prems(3) unfolding xs by simp_all
    from sort3 [OF this, unfolded r] have
      z: "sorted_wrt before [v0, v1, v2]" "mset [v0, v1, v2] = mset [a, b, c]" by auto
    have "CFSimpleMergeSort cmp listp base cnt tmp = Some (block_set listp base [v0, v1, v2], tmp)"
    proof -
      have w: "do { l \<leftarrow> wr listp base x; l \<leftarrow> wr l (base + 1) y; l \<leftarrow> wr l (base + 2) z; Some (l, tmp) } =
          Some (block_set listp base [x, y, z], tmp)" for x y z
        using 3 less.prems(1) block_set_3 [of base listp x y z] by simp
      show ?thesis
        using r unfolding 3 CFSimpleMergeSort.simps [of cmp listp base 3] v Option.bind_lunit
        by (cases "0 < cmp_int (cmp a b)"; cases "0 < cmp_int (cmp b c)"; cases "0 < cmp_int (cmp a c)")
          (simp_all add: w [simplified])
    qed
    then show ?thesis using z unfolding xs by (intro exI [of _ tmp] exI [of _ "[v0, v1, v2]"]) simp
  next
    case 4
    define h where "h = cnt div 2"
    have h: "h < cnt" "cnt - h < cnt" "0 < h" using 4 by (auto simp: h_def)
    let ?as = "take h (drop base listp)" and ?bs = "take (cnt - h) (drop (base + h) listp)"
    have split: "?xs = ?as @ ?bs"
      using take_add [of h "cnt - h" "drop base listp"] h by (simp add: add.commute)
    have sab: "sorted_wrt (<) ?as" "sorted_wrt (<) ?bs" "\<forall>x\<in>set ?as. \<forall>y\<in>set ?bs. x < y"
      using less.prems(3) unfolding split sorted_wrt_append by blast+
    have la: "length ?as = h" "length ?bs = cnt - h" using less.prems(1) h by auto
    from less.IH [OF h(1), of base listp tmp] obtain t1 za where
      1: "CFSimpleMergeSort cmp listp base h tmp = Some (block_set listp base za, t1)" "length t1 = length tmp"
      "mset za = mset ?as" "sorted_wrt before za" using less.prems sab h by auto
    have lza: "length za = h" using 1(3) la by (metis size_mset)
    let ?l1 = "block_set listp base za"
    have l1: "length ?l1 = length listp" "take (cnt - h) (drop (base + h) ?l1) = ?bs"
      "take h (drop base ?l1) = za"
      using block_set_slices(1,2) [of base za listp] lza less.prems(1) h by auto
    from less.IH [OF h(2), of "base + h" ?l1 t1] obtain t2 zb where
      2: "CFSimpleMergeSort cmp ?l1 (base + h) (cnt - h) t1 = Some (block_set ?l1 (base + h) zb, t2)"
      "length t2 = length t1" "mset zb = mset ?bs" "sorted_wrt before zb"
      using less.prems sab h l1 1(2) by auto
    have lzb: "length zb = cnt - h" using 2(3) la by (metis size_mset)
    let ?l2 = "block_set listp base (za @ zb)"
    have l2: "block_set ?l1 (base + h) zb = ?l2"
      using block_set_slices(3) [of base za listp zb] lza less.prems(1) h by simp
    have s2: "take h (drop base ?l2) = za" "take (cnt - h) (drop (base + h) ?l2) = zb" "length ?l2 = length listp"
      using lza lzb less.prems(1) h by (simp_all add: block_set_def)
    have "\<forall>x\<in>set za. \<forall>y\<in>set zb. x < y"
      using sab(3) 1(3) 2(3) by (metis set_mset_mset)
    then obtain t3 zs where
      3: "CFSimpleMerge cmp ?l2 base h (cnt - h) t2 = Some (block_set ?l2 base zs, t3)"
      "length t3 = length t2" "mset zs = mset za + mset zb" "sorted_wrt before zs"
      using CFSimpleMerge_law [of base h "cnt - h" ?l2 t2 za zb] s2 1 2 less.prems h by auto
    have lzs: "length zs = length (za @ zb)" using 3(3) by (metis mset_append size_mset)
    have "CFSimpleMergeSort cmp listp base cnt tmp = Some (block_set ?l2 base zs, t3)"
      using 4 1(1) 2(1) 3(1) l2 unfolding CFSimpleMergeSort.simps [of cmp listp base cnt] h_def by simp
    moreover have "block_set ?l2 base zs = block_set listp base zs"
      using lzs lza lzb less.prems(1) h by (simp add: block_set_same_length)
    ultimately show ?thesis using 1(2,3) 2(2,3) 3(2-4) split
      by (intro exI [of _ t3] exI [of _ zs]) simp
  qed
qed

end

section \<open>Halves of a merge\<close>

context sort_order
begin

lemma before_irrefl: "\<not> before x x"
  by (simp add: before_def)

lemma before_asym: "before x y \<Longrightarrow> \<not> before y x"
  using before_trans before_irrefl by blast

lemma sorted_unique:
  "sorted_wrt before xs \<Longrightarrow> sorted_wrt before ys \<Longrightarrow> mset xs = mset ys \<Longrightarrow> xs = ys"
proof (induction xs arbitrary: ys)
  case (Cons x xs)
  then obtain y ys' where ys: "ys = y # ys'" by (cases ys) auto
  have "x = y"
  proof (rule ccontr)
    assume ne: "x \<noteq> y"
    have "x \<in> set ys" "y \<in> set (x # xs)" using Cons.prems(3) ys by (metis list.set_intros(1) set_mset_mset)+
    then have "before y x" "before x y" using ne ys Cons.prems(1,2) by auto
    then show False using before_asym by blast
  qed
  then show ?case using Cons ys by simp
qed simp

text \<open>No two equal elements are out of place between the lists.\<close>

definition apart :: "nat list \<Rightarrow> nat list \<Rightarrow> bool" where
  "apart xs ys \<longleftrightarrow> (\<forall>x\<in>set xs. \<forall>y\<in>set ys. le x y \<longrightarrow> le y x \<longrightarrow> x < y)"

lemma apart_subset: "apart xs ys \<Longrightarrow> set xs' \<subseteq> set xs \<Longrightarrow> set ys' \<subseteq> set ys \<Longrightarrow> apart xs' ys'"
  by (auto simp: apart_def)

lemma smerge_snoc:
  assumes "sorted_wrt before (xs @ [a])" "sorted_wrt before (ys @ [b])" "apart (xs @ [a]) (ys @ [b])"
  shows "smerge (xs @ [a]) (ys @ [b]) =
    (if le a b then smerge (xs @ [a]) ys @ [b] else smerge xs (ys @ [b]) @ [a])"
proof (rule sorted_unique)
  show "sorted_wrt before (smerge (xs @ [a]) (ys @ [b]))"
    by (rule smerge_sorted) (use assms in \<open>auto simp: apart_def\<close>)
  have ab: "if le a b then before a b else before b a"
    by (rule before_cases) (use assms(3) in \<open>auto simp: apart_def\<close>)
  have sxs: "sorted_wrt before xs" "\<forall>x\<in>set xs. before x a" and sys: "sorted_wrt before ys" "\<forall>y\<in>set ys. before y b"
    using assms(1,2) by (auto simp: sorted_wrt_append)
  show "sorted_wrt before (if le a b then smerge (xs @ [a]) ys @ [b] else smerge xs (ys @ [b]) @ [a])"
  proof (cases "le a b")
    case True
    have "sorted_wrt before (smerge (xs @ [a]) ys)"
      by (rule smerge_sorted) (use assms sys in \<open>auto simp: apart_def\<close>)
    moreover have "\<forall>x\<in>set xs. before x b" using sxs(2) ab True before_trans by auto
    ultimately show ?thesis using True ab sys by (auto simp: sorted_wrt_append)
  next
    case False
    have "sorted_wrt before (smerge xs (ys @ [b]))"
      by (rule smerge_sorted) (use assms sxs in \<open>auto simp: apart_def\<close>)
    moreover have "\<forall>y\<in>set ys. before y a" using sys(2) ab False before_trans by auto
    ultimately show ?thesis using False ab sxs by (auto simp: sorted_wrt_append)
  qed
qed simp

lemma nmerge_left_eq:
  "n + p1 \<le> length l1 \<Longrightarrow> p1 \<le> length l1 \<Longrightarrow> p2 \<le> length l2 \<Longrightarrow>
   nmerge_left cmp l1 l2 n p1 p2 = Some (take n (smerge (drop p1 l1) (drop p2 l2)))"
proof (induction n arbitrary: p1 p2)
  case (Suc n)
  have p1: "p1 < length l1" using Suc.prems by simp
  have d1: "drop p1 l1 = l1 ! p1 # drop (p1 + 1) l1" using p1 by (simp add: Cons_nth_drop_Suc)
  show ?case
  proof (cases "p2 < length l2")
    case False
    then show ?thesis using Suc.IH [of "p1 + 1" p2] Suc.prems d1 by simp
  next
    case True
    have d2: "drop p2 l2 = l2 ! p2 # drop (p2 + 1) l2" using True by (simp add: Cons_nth_drop_Suc)
    show ?thesis
    proof (cases "le (l1 ! p1) (l2 ! p2)")
      case le: True
      have "smerge (drop p1 l1) (drop p2 l2) = l1 ! p1 # smerge (drop (p1 + 1) l1) (drop p2 l2)"
        unfolding d1 d2 using le by simp
      then show ?thesis using Suc.IH [of "p1 + 1" p2] Suc.prems True p1 le by (simp add: le_def)
    next
      case gt: False
      have "smerge (drop p1 l1) (drop p2 l2) = l2 ! p2 # smerge (drop p1 l1) (drop (p2 + 1) l2)"
        unfolding d1 d2 using gt by simp
      moreover have "nmerge_left cmp l1 l2 n p1 (p2 + 1) = Some (take n (smerge (drop p1 l1) (drop (p2 + 1) l2)))"
        by (rule Suc.IH) (use Suc.prems True in auto)
      ultimately show ?thesis using True p1 gt by (simp add: le_def)
    qed
  qed
qed simp

lemma nmerge_right_eq:
  assumes "sorted_wrt before l1" "sorted_wrt before l2" "apart l1 l2"
  shows "n \<le> k1 \<Longrightarrow> n \<le> k2 \<Longrightarrow> k1 \<le> length l1 \<Longrightarrow> k2 \<le> length l2 \<Longrightarrow>
    nmerge_right cmp l1 l2 n (int k1 - 1) (int k2 - 1) out =
      Some (drop (k1 + k2 - n) (smerge (take k1 l1) (take k2 l2)) @ out)"
proof (induction n arbitrary: k1 k2 out)
  case (Suc n)
  obtain i j where k: "k1 = Suc i" "k2 = Suc j" using Suc.prems by (cases k1; cases k2) auto
  have i: "i < length l1" and j: "j < length l2" using Suc.prems k by auto
  have t: "take k1 l1 = take i l1 @ [l1 ! i]" "take k2 l2 = take j l2 @ [l2 ! j]"
    using i j k by (simp_all add: take_Suc_conv_app_nth)
  have "sorted_wrt before (take k1 l1)" "sorted_wrt before (take k2 l2)"
    using assms(1,2) by (simp_all add: sorted_wrt_take)
  moreover have "apart (take k1 l1) (take k2 l2)"
    by (rule apart_subset [OF assms(3)]) (auto dest: in_set_takeD)
  ultimately have m: "smerge (take k1 l1) (take k2 l2) = (if le (l1 ! i) (l2 ! j)
      then smerge (take k1 l1) (take j l2) @ [l2 ! j] else smerge (take i l1) (take k2 l2) @ [l1 ! i])"
    unfolding t by (rule smerge_snoc)
  have rd: "rd_at l1 (int i) = Some (l1 ! i)" "rd_at l2 (int j) = Some (l2 ! j)"
    using i j by (simp_all add: rd_at_def)
  show ?case
  proof (cases "le (l1 ! i) (l2 ! j)")
    case True
    have "nmerge_right cmp l1 l2 n (int k1 - 1) (int j - 1) (l2 ! j # out) =
        Some (drop (k1 + j - n) (smerge (take k1 l1) (take j l2)) @ l2 ! j # out)"
      by (rule Suc.IH) (use Suc.prems k in auto)
    then show ?thesis unfolding m using True rd k Suc.prems by (simp add: le_def)
  next
    case False
    have "nmerge_right cmp l1 l2 n (int i - 1) (int k2 - 1) (l1 ! i # out) =
        Some (drop (i + k2 - n) (smerge (take i l1) (take k2 l2)) @ l1 ! i # out)"
      by (rule Suc.IH) (use Suc.prems k in auto)
    then show ?thesis unfolding m using False rd k Suc.prems by (simp add: le_def)
  qed
qed simp

lemma smerge_ordered:
  assumes "sorted_wrt before xs" "sorted_wrt before ys" "apart xs ys" "xs \<noteq> []" "ys \<noteq> []" "le (last xs) (hd ys)"
  shows "smerge xs ys = xs @ ys"
proof (rule sorted_unique)
  show "sorted_wrt before (smerge xs ys)" by (rule smerge_sorted) (use assms in \<open>auto simp: apart_def\<close>)
  show "sorted_wrt before (xs @ ys)" by (rule append_sorted) (use assms in \<open>auto simp: apart_def\<close>)
qed simp

lemma CFSortIndexesNMerge_law:
  assumes "sorted_wrt before l1" "sorted_wrt before l2" "apart l1 l2" "l2 \<noteq> []" "length l2 \<le> length l1"
  shows "CFSortIndexesNMerge cmp l1 (length l1) l2 (length l2) right =
    Some (if right \<noteq> 0 then drop (length l1) (smerge l1 l2) else take (length l1) (smerge l1 l2))"
proof -
  let ?o = "16 < length l1 + length l2 \<and> le (last l1) (hd l2)"
  have l1: "l1 \<noteq> []" using assms(4,5) by auto
  have ends: "rd l1 (length l1 - 1) = Some (last l1)" "rd l2 0 = Some (hd l2)"
    using l1 assms(4) by (simp_all add: last_conv_nth hd_conv_nth)
  have step: "CFSortIndexesNMerge cmp l1 (length l1) l2 (length l2) right =
      (if ?o then Some (if right \<noteq> 0 then l2 else l1)
       else if right \<noteq> 0 then nmerge_right cmp l1 l2 (length l2) (int (length l1) - 1) (int (length l2) - 1) []
       else nmerge_left cmp l1 l2 (length l1) 0 0)"
    using ends by (auto simp: CFSortIndexesNMerge_def le_def simp del: rd_eq_Some)
  show ?thesis
  proof (cases ?o)
    case True
    then show ?thesis unfolding step using smerge_ordered [OF assms(1-3) l1 assms(4)] by simp
  next
    case False
    then show ?thesis unfolding step if_not_P [OF False]
      using nmerge_right_eq [OF assms(1-3), of "length l2" "length l1" "length l2" "[]"] assms(5)
        nmerge_left_eq [of "length l1" 0 l1 0 l2] by simp
  qed
qed

end

section \<open>The entry points\<close>

lemma fill_range_nth:
  "\<forall>i\<in>set is. i < length buf \<Longrightarrow> \<exists>buf'. fill_range buf is = Some buf' \<and> length buf' = length buf \<and>
     (\<forall>i<length buf. buf' ! i = (if i \<in> set is then i else buf ! i))"
proof (induction "is" arbitrary: buf)
  case (Cons k "is")
  then obtain buf' where "fill_range (buf[k := k]) is = Some buf'" "length buf' = length buf"
    "\<forall>i<length buf. buf' ! i = (if i \<in> set is then i else buf[k := k] ! i)"
    using Cons.IH [of "buf[k := k]"] by auto
  with Cons.prems show ?case by auto
qed simp

lemma fill_ranges_nth:
  "\<forall>n\<in>set ns. \<forall>i\<in>set (S n). i < length buf \<Longrightarrow>
   \<exists>buf'. dispatch_apply (\<lambda>n buf. fill_range buf (S n)) ns buf = Some buf' \<and> length buf' = length buf \<and>
     (\<forall>i<length buf. buf' ! i = (if \<exists>n\<in>set ns. i \<in> set (S n) then i else buf ! i))"
proof (induction ns arbitrary: buf)
  case (Cons n ns)
  then obtain b1 where 1: "fill_range buf (S n) = Some b1" "length b1 = length buf"
    "\<forall>i<length buf. b1 ! i = (if i \<in> set (S n) then i else buf ! i)"
    using fill_range_nth [of "S n" buf] by auto
  then obtain b2 where "dispatch_apply (\<lambda>n buf. fill_range buf (S n)) ns b1 = Some b2" "length b2 = length b1"
    "\<forall>i<length b1. b2 ! i = (if \<exists>n\<in>set ns. i \<in> set (S n) then i else b1 ! i)"
    using Cons.IH [of b1] Cons.prems by auto
  with 1 show ?case by auto
qed simp

lemma fill_indexes_law:
  assumes "cnt \<le> length buf"
  shows "fill_indexes buf cnt = Some ([0..<cnt] @ drop cnt buf)"
proof -
  have "\<exists>buf'. fill_indexes buf cnt = Some buf' \<and> length buf' = length buf \<and>
     (\<forall>i<length buf. buf' ! i = (if i < cnt then i else buf ! i))"
  proof (cases "cnt \<le> 65536")
    case True
    then show ?thesis using fill_range_nth [of "[0..<cnt]" buf] assms by (auto simp: fill_indexes_def)
  next
    case False
    define sz where "sz = (((cnt + 15) div 16) * 16) div 8"
    have sz: "cnt \<le> 8 * sz" "0 < sz" using False dividend_less_times_div [of 16 "cnt + 15"]
      by (simp_all add: sz_def div_mult_swap [symmetric] div_greater_zero_iff)
    let ?S = "\<lambda>n. [n * sz..<min (n * sz + sz) cnt]"
    have "\<forall>n\<in>set [0..<8]. \<forall>i\<in>set (?S n). i < length buf" using assms by auto
    from fill_ranges_nth [OF this] obtain b where
      b: "dispatch_apply (\<lambda>n buf. fill_range buf (?S n)) [0..<8] buf = Some b" "length b = length buf"
      "\<forall>i<length buf. b ! i = (if \<exists>n\<in>set [0..<8]. i \<in> set (?S n) then i else buf ! i)" by blast
    have "(\<exists>n\<in>set [0..<8]. i \<in> set (?S n)) \<longleftrightarrow> i < cnt" for i
    proof
      assume i: "i < cnt"
      then have "i div sz < 8" using sz by (simp add: div_less_iff_less_mult)
      moreover have "i div sz * sz \<le> i" "i < i div sz * sz + sz"
        using dividend_less_div_times [OF sz(2), of i] by (simp_all add: add.commute)
      ultimately show "\<exists>n\<in>set [0..<8]. i \<in> set (?S n)" using i by (intro bexI [of _ "i div sz"]) auto
    qed auto
    with b False show ?thesis unfolding fill_indexes_def sz_def Let_def by auto
  qed
  then obtain b where b: "fill_indexes buf cnt = Some b" "length b = length buf"
    "\<forall>i<length buf. b ! i = (if i < cnt then i else buf ! i)" by blast
  have "b = [0..<cnt] @ drop cnt buf"
    by (rule nth_equalityI) (use b assms in \<open>auto simp: nth_append\<close>)
  with b show ?thesis by simp
qed

lemma CFSortIndexes_law:
  assumes ord: "sort_order cmp" and room: "cnt \<le> length buf" and size: "1 \<le> cnt" "cnt \<le> (2 ^ 63 - 1) div 8"
    and seq: "\<not> fst (sort_cores active cnt (opts mod 2 = 1))"
  shows "\<exists>idxs. CFSortIndexes fresh active buf cnt opts cmp = Some (idxs @ drop cnt buf) \<and>
    mset idxs = mset [0..<cnt] \<and> sorted_wrt (sort_order.before cmp) idxs"
proof -
  let ?b = "[0..<cnt] @ drop cnt buf" and ?tmp = "map fresh [0..<cnt]"
  have t: "take cnt (drop 0 ?b) = [0..<cnt]" by simp
  have s: "sorted_wrt (<) (take cnt (drop 0 ?b))" unfolding t by (rule sorted_wrt_upt)
  have l: "0 + cnt \<le> length ?b" "cnt \<le> length ?tmp" by simp_all
  from sort_order.CFSimpleMergeSort_law [OF ord l s] obtain tmp' zs where
    m: "CFSimpleMergeSort cmp ?b 0 cnt ?tmp = Some (block_set ?b 0 zs, tmp')"
    "mset zs = mset [0..<cnt]" "sorted_wrt (sort_order.before cmp) zs" unfolding t by blast
  have "length zs = cnt" using m(2) by (metis diff_zero length_upt size_mset)
  then have "block_set ?b 0 zs = zs @ drop cnt buf" by (simp add: block_set_def)
  moreover obtain n where "sort_cores active cnt (opts mod 2 = 1) = (False, n)"
    using seq by (cases "sort_cores active cnt (opts mod 2 = 1)") auto
  ultimately have "CFSortIndexes fresh active buf cnt opts cmp = Some (zs @ drop cnt buf)"
    using size m(1) by (simp add: CFSortIndexes_def fill_indexes_law [OF room] not_less)
  with m show ?thesis by blast
qed

lemma length_element:
  "length list = n * es \<Longrightarrow> i < n \<Longrightarrow> i * es + es \<le> length list \<and> length (element list es i) = es"
proof -
  assume l: "length list = n * es" and i: "i < n"
  from i have "(i + 1) * es \<le> n * es" by (intro mult_le_mono1) simp
  with l show ?thesis by (simp add: element_def)
qed

lemma copy_elements_law:
  assumes len: "length list = n * es" and idx: "length idxs = n" "\<forall>i\<in>set idxs. i < n"
  shows "k \<le> n \<Longrightarrow> length done = k * es \<Longrightarrow> length rest = (n - k) * es \<Longrightarrow>
    copy_elements list es (done @ rest) (idxs @ more) [k..<n] =
      Some (done @ concat (map (element list es) (drop k idxs)))"
proof (induction "n - k" arbitrary: k "done" rest)
  case 0
  then show ?case using idx by simp
next
  case (Suc m)
  then have k: "k < n" by simp
  let ?e = "element list es (idxs ! k)"
  have "idxs ! k < n" using idx k by simp
  from length_element [OF len this] have e: "idxs ! k * es + es \<le> length list" "length ?e = es" by simp_all
  have r: "length rest = es + (n - (k + 1)) * es"
    using Suc.prems(3) k by (metis Suc_diff_Suc Suc_eq_plus1 mult_Suc)
  have "copy_elements list es ((done @ ?e) @ drop es rest) (idxs @ more) [k + 1..<n] =
      Some ((done @ ?e) @ concat (map (element list es) (drop (k + 1) idxs)))"
    by (rule Suc.hyps(1)) (use Suc e r k in \<open>auto\<close>)
  moreover have "wr_block (done @ rest) (k * es) ?e = Some ((done @ ?e) @ drop es rest)"
    using Suc.prems(2) e(2) r by simp
  moreover have "rd_block list (idxs ! k * es) es = Some ?e" using e(1) by (simp add: element_def)
  moreover have "[k..<n] = k # [k + 1..<n]" using k by (simp add: upt_conv_Cons)
  moreover have "drop k idxs = idxs ! k # drop (k + 1) idxs" using k idx by (simp add: Cons_nth_drop_Suc)
  ultimately show ?case using k idx by (simp add: nth_append del: upt_Suc)
qed

lemma sort_array_law:
  assumes ord: "sort_order (\<lambda>a b. comparator (element list es a) (element list es b))"
    and len: "length list = n * es" and size: "n \<le> (2 ^ 63 - 1) div 8"
    and seq: "\<not> fst (sort_cores active n (opts mod 2 = 1))"
  shows "\<exists>idxs. sort_array fresh active opts list n es comparator =
      Some (concat (map (element list es) idxs)) \<and> mset idxs = mset [0..<n] \<and>
    sorted_wrt (sort_order.before (\<lambda>a b. comparator (element list es a) (element list es b))) idxs"
proof (cases "n < 2 \<or> es < 1")
  case True
  then consider "n = 0" | "n = 1" | "es = 0" by linarith
  then show ?thesis
  proof cases
    case 1
    then show ?thesis using len by (simp add: sort_array_def)
  next
    case 2
    then show ?thesis using len
      by (intro exI [of _ "[0]"]) (simp add: sort_array_def element_def)
  next
    case 3
    let ?cmp = "\<lambda>a b. comparator (element list es a) (element list es b)"
    have "n = 0 \<or> (\<exists>idxs. mset idxs = mset [0..<n] \<and> sorted_wrt (sort_order.before ?cmp) idxs)"
    proof (cases "n = 0")
      case False
      then show ?thesis using CFSortIndexes_law [OF ord, of n "[0..<n]" active opts] size seq by fastforce
    qed simp
    then have "\<exists>idxs. mset idxs = mset [0..<n] \<and> sorted_wrt (sort_order.before ?cmp) idxs" by auto
    then show ?thesis using 3 len by (auto simp: sort_array_def element_def)
  qed
next
  case False
  let ?cmp = "\<lambda>a b. comparator (element list es a) (element list es b)"
  let ?buf = "map fresh [0..<n]"
  have "n \<le> length ?buf" "1 \<le> n" using False by simp_all
  from CFSortIndexes_law [OF ord this size seq, of fresh] obtain idxs where
    i: "CFSortIndexes fresh active ?buf n opts ?cmp = Some idxs" "mset idxs = mset [0..<n]"
    "sorted_wrt (sort_order.before ?cmp) idxs" by auto
  have idx: "length idxs = n" "\<forall>i\<in>set idxs. i < n"
    using i(2) by (metis diff_zero length_upt size_mset, metis atLeastLessThan_iff set_mset_mset set_upt)
  have "copy_elements list es (replicate (n * es) 0) idxs [0..<n] =
      Some (concat (map (element list es) idxs))"
    using copy_elements_law [OF len idx, of 0 "[]" "replicate (n * es) 0" "[]"] by simp
  moreover have "length (concat (map (element list es) idxs)) = n * es"
  proof -
    have "map (length \<circ> element list es) idxs = replicate n es"
      by (rule nth_equalityI) (use idx length_element [OF len] in auto)
    then show ?thesis by (simp add: length_concat sum_list_replicate comp_def)
  qed
  ultimately have "sort_array fresh active opts list n es comparator =
      Some (concat (map (element list es) idxs))"
    using False i(1) len by (simp add: sort_array_def)
  with i show ?thesis by blast
qed

section \<open>What the sorts give\<close>

text \<open>The order of the result: not greater, and equal elements in their original order.\<close>

definition index_before :: "comparator \<Rightarrow> nat \<Rightarrow> nat \<Rightarrow> bool" where
  "index_before cmp x y \<longleftrightarrow> cmp_int (cmp x y) \<le> 0 \<and> (cmp_int (cmp y x) \<le> 0 \<longrightarrow> x < y)"

lemma before_eq: "sort_order cmp \<Longrightarrow> sort_order.before cmp = index_before cmp"
  by (intro ext) (simp add: sort_order.before_def sort_order.le_def index_before_def)

text \<open>A comparison of keys is an order.\<close>

lemma cmp_of_le: "cmp_int (cmp_of x y) \<le> 0 \<longleftrightarrow> x \<le> y"
  by (auto simp: cmp_of_def cmp_int_def)

lemma key_order: "sort_order (\<lambda>a b. cmp_of (f a) (f b))"
  by unfold_locales (auto simp: cmp_of_le)

interpretation idx: sort_order "\<lambda>a b. cmp_of a b"
  by (rule key_order)

text \<open>\<open>CFMergeSortArray\<close> and \<open>CFQSortArray\<close> rearrange the elements of the array, each of
  \<open>es\<close> bytes, in the order of the comparison and stably, without touching memory outside it.\<close>

theorem CFMergeSortArray_stable:
  assumes "sort_order (\<lambda>a b. comparator (element list es a) (element list es b))"
    "length list = n * es" "n \<le> (2 ^ 63 - 1) div 8"
  shows "\<exists>idxs. mset idxs = mset [0..<n] \<and>
    sorted_wrt (index_before (\<lambda>a b. comparator (element list es a) (element list es b))) idxs \<and>
    CFMergeSortArray fresh active list n es comparator = Some (concat (map (element list es) idxs)) \<and>
    (\<exists>idxs'. mset idxs' = mset [0..<n] \<and>
      sorted_wrt (index_before (\<lambda>a b. comparator (element list es a) (element list es b))) idxs' \<and>
      CFQSortArray fresh active list n es comparator = Some (concat (map (element list es) idxs')))"
proof -
  have seq: "\<not> fst (sort_cores active n (kCFSortStable mod 2 = 1))" "\<not> fst (sort_cores active n (0 mod 2 = (1::nat)))"
    by (simp_all add: sort_cores_def kCFSortStable_def)
  from sort_array_law [OF assms seq(1), of fresh] sort_array_law [OF assms seq(2), of fresh] show ?thesis
    unfolding before_eq [OF assms(1)] CFMergeSortArray_def CFQSortArray_def by blast
qed

text \<open>C32. One step of the concurrent sort: \<open>__CFSortIndexesNMerge\<close> on two sorted runs, the second
  not longer, gives the left call the smallest \<open>cnt1\<close> elements of their stable merge and the right
  call the \<open>cnt2\<close> largest, in order.\<close>

theorem CFSortIndexesNMerge_halves:
  assumes "sort_order cmp" "sorted_wrt (index_before cmp) l1" "sorted_wrt (index_before cmp) l2"
    "\<forall>x\<in>set l1. \<forall>y\<in>set l2. cmp_int (cmp x y) \<le> 0 \<longrightarrow> cmp_int (cmp y x) \<le> 0 \<longrightarrow> x < y"
    "l2 \<noteq> []" "length l2 \<le> length l1"
  shows "\<exists>left right. CFSortIndexesNMerge cmp l1 (length l1) l2 (length l2) 0 = Some left \<and>
    CFSortIndexesNMerge cmp l1 (length l1) l2 (length l2) 1 = Some right \<and>
    length left = length l1 \<and> length right = length l2 \<and>
    mset (left @ right) = mset (l1 @ l2) \<and> sorted_wrt (index_before cmp) (left @ right)"
proof -
  note s = assms(2,3) [folded before_eq [OF assms(1)]]
  have apart: "sort_order.apart cmp l1 l2"
    using assms(4) by (simp add: sort_order.apart_def [OF assms(1)] sort_order.le_def [OF assms(1)])
  let ?m = "sort_order.smerge cmp l1 l2"
  have "sorted_wrt (index_before cmp) ?m"
    unfolding before_eq [OF assms(1), symmetric]
    by (rule sort_order.smerge_sorted [OF assms(1) s]) (use assms(4) in \<open>simp add: sort_order.le_def [OF assms(1)]\<close>)
  moreover have "mset ?m = mset (l1 @ l2)" "length ?m = length l1 + length l2"
    by (simp_all add: sort_order.mset_smerge [OF assms(1)] sort_order.length_smerge [OF assms(1)])
  ultimately show ?thesis
    using sort_order.CFSortIndexesNMerge_law [OF assms(1) s apart assms(5,6)]
    by (intro exI [of _ "take (length l1) ?m"] exI [of _ "drop (length l1) ?m"]) simp
qed

lemma CFMergeSortArray_stable_witness:
  "\<exists>idxs. mset idxs = mset [0..<3] \<and>
    sorted_wrt (index_before (\<lambda>a b. cmp_of (hd (element [3, 0, 1, 1, 3, 2] 2 a)) (hd (element [3, 0, 1, 1, 3, 2] 2 b)))) idxs \<and>
    CFMergeSortArray (\<lambda>_. 0) 4 [3, 0, 1, 1, 3, 2] 3 2 (\<lambda>x y. cmp_of (hd x) (hd y)) =
      Some (concat (map (element [3, 0, 1, 1, 3, 2] 2) idxs)) \<and>
    (\<exists>idxs'. mset idxs' = mset [0..<3] \<and>
      sorted_wrt (index_before (\<lambda>a b. cmp_of (hd (element [3, 0, 1, 1, 3, 2] 2 a)) (hd (element [3, 0, 1, 1, 3, 2] 2 b)))) idxs' \<and>
      CFQSortArray (\<lambda>_. 0) 4 [3, 0, 1, 1, 3, 2] 3 2 (\<lambda>x y. cmp_of (hd x) (hd y)) =
        Some (concat (map (element [3, 0, 1, 1, 3, 2] 2) idxs')))"
  by (rule CFMergeSortArray_stable) (simp_all add: key_order)

lemma CFSortIndexesNMerge_halves_witness:
  "\<exists>left right. CFSortIndexesNMerge cmp_of [2, 5, 9] (length [2, 5, 9 :: nat]) [1, 6] (length [1, 6 :: nat]) 0 = Some left \<and>
    CFSortIndexesNMerge cmp_of [2, 5, 9] (length [2, 5, 9 :: nat]) [1, 6] (length [1, 6 :: nat]) 1 = Some right \<and>
    length left = length [2, 5, 9 :: nat] \<and> length right = length [1, 6 :: nat] \<and>
    mset (left @ right) = mset ([2, 5, 9] @ [1, 6]) \<and> sorted_wrt (index_before cmp_of) (left @ right)"
  by (rule CFSortIndexesNMerge_halves)
    (simp_all add: idx.sort_order_axioms index_before_def cmp_of_le)

text \<open>The branches of the right merge for an exhausted list step back before they read and so skip an
  element; they cannot be reached while the second list is not longer than the first, the only way
  \<open>__CFSortIndexesN\<close> calls it.  With a longer second list the largest of its remaining
  values, 3 here, is lost.\<close>

lemma CFSortIndexesNMerge_long_right:
  "CFSortIndexesNMerge cmp_of [9] 1 [1, 2, 3] 3 1 = Some [1, 2, 9]"
  "CFSortIndexesNMerge cmp_of [8, 9] 2 [1, 2, 3] 3 1 = Some [2, 8, 9]"
  by code_simp+

end
