(* ===== verification/OddEvenMerge.thy ===== *)
theory OddEvenMerge
  imports SortFunctions
begin

text \<open>
  The odd-even transposition sort of blocks, on lists of sections: the algorithm of \<open>__CFSortIndexesN\<close>
  (\<open>CFSortFunctions.c\<close>) apart from its arrays.  Neighbouring sections are merged in rounds, the pairs from
  the first section and then the pairs from the second.  The proof counts, for every threshold, the
  elements above it from a section on: a merge of the sections \<open>i - 1\<close> and \<open>i\<close> makes this number at
  \<open>i\<close> the minimum of its neighbours' (plus the section's length for the right one), and after as many
  merges as there are sections it has its final value.
\<close>

section \<open>The rise of the elements above a threshold\<close>

text \<open>How far the ones of a threshold have moved to the end: \<open>S i\<close> counts them from section \<open>i\<close> on,
  \<open>C i\<close> is the room there, \<open>N\<close> their number, \<open>L\<close> the length of a section, \<open>k\<close> the merges done.\<close>

definition reached :: "int \<Rightarrow> (nat \<Rightarrow> int) \<Rightarrow> int \<Rightarrow> int \<Rightarrow> nat \<Rightarrow> (nat \<Rightarrow> int) \<Rightarrow> nat \<Rightarrow> bool" where
  "reached N C L d k S i \<longleftrightarrow> N \<le> S i \<or> C i \<le> S i \<or> (int k - int i) * L + N + d \<le> 2 * S i"

lemma reached_right:
  fixes N s c c' x d l L :: int
  assumes "N \<le> s \<or> c \<le> s \<or> x + N + d \<le> 2 * s" "c' = c + l" "0 \<le> l" "l = L \<or> c \<le> s"
  shows "N \<le> s + l \<or> c' \<le> s + l \<or> x + 2 * L + N + d \<le> 2 * (s + l)"
  using assms by auto

lemma reached_step:
  assumes "reached N C L d k S (i - 1)" "reached N C L d k S (i + 1)" "0 < i"
    and room: "C i \<le> C (i - 1)" "C i = C (i + 1) + l" "0 \<le> l" "l = L \<or> C (i + 1) \<le> S (i + 1)"
    and S': "S' i = min (S (i - 1)) (S (i + 1) + l)"
  shows "reached N C L d (Suc k) S' i"
proof -
  have e: "(int k - int (i - 1)) * L = (int (Suc k) - int i) * L"
    "(int k - int (i + 1)) * L + 2 * L = (int (Suc k) - int i) * L"
    using assms(3) by (simp_all add: of_nat_diff algebra_simps)
  have "N \<le> S (i - 1) \<or> C i \<le> S (i - 1) \<or> (int (Suc k) - int i) * L + N + d \<le> 2 * S (i - 1)"
    using assms(1) room(1) unfolding reached_def e by linarith
  moreover have "N \<le> S (i + 1) + l \<or> C i \<le> S (i + 1) + l \<or> (int (Suc k) - int i) * L + N + d \<le> 2 * (S (i + 1) + l)"
    using assms(2) room(2-4) unfolding reached_def e(2) [symmetric] by (rule reached_right)
  ultimately show ?thesis unfolding reached_def S' by (simp only: min_def split: if_splits) simp
qed

text \<open>The start, for a bound \<open>d\<close> on the distance to the ends of every second section, and the end.\<close>

lemma reached_start:
  assumes "0 \<le> S i" "N \<le> S i + int i * L" "d \<le> \<bar>N - int i * L\<bar>"
  shows "reached N C L d 0 S i"
  using assms unfolding reached_def by (simp add: abs_if split: if_splits)

lemma reached_full:
  assumes "reached N C L 0 k S i" "m \<le> k" "C i \<le> (int m - int i) * L" "0 \<le> L"
  shows "min N (C i) \<le> S i"
proof -
  have "(int m - int i) * L \<le> (int k - int i) * L" using assms(2,4) by (intro mult_right_mono) simp_all
  then show ?thesis using assms(1,3) unfolding reached_def by (auto simp: min_def)
qed

lemma even_gap:
  fixes a L L' :: int
  assumes "0 \<le> L'" "L' \<le> L"
  shows "L' \<le> \<bar>2 * a * L + L'\<bar>"
proof -
  consider "a = 0" | "1 \<le> a" | "a \<le> -1" by linarith
  then show ?thesis
  proof cases
    case 2
    then have "0 \<le> a * L" using assms by simp
    then show ?thesis by simp
  next
    case 3
    then have "a * L \<le> -1 * L" using assms by (intro mult_right_mono) simp_all
    then show ?thesis using assms by (simp add: mult.commute)
  qed (use assms in simp)
qed

text \<open>The room from a section on, and sections of one length but for the last.\<close>

definition room :: "nat list list \<Rightarrow> nat \<Rightarrow> int" where
  "room secs i = int (length (concat (drop i secs)))"

definition even_sections :: "int \<Rightarrow> nat list list \<Rightarrow> bool" where
  "even_sections L secs \<longleftrightarrow> 0 \<le> L \<and> (\<forall>i. i + 1 < length secs \<longrightarrow> int (length (secs ! i)) = L)"

lemma room_lengths: "map length xs = map length ys \<Longrightarrow> room xs = room ys"
  by (simp add: room_def length_concat drop_map [symmetric] fun_eq_iff)

lemma even_sections_lengths: "map length xs = map length ys \<Longrightarrow> even_sections L xs = even_sections L ys"
  unfolding even_sections_def by (metis length_map nth_map add_lessD1)

lemma room_step: "i < length secs \<Longrightarrow> room secs i = room secs (i + 1) + int (length (secs ! i))"
  by (simp add: room_def Cons_nth_drop_Suc [symmetric])

context sort_order
begin

text \<open>One merge of two sections, as \<open>__CFSortIndexesNMerge\<close> does it from both sides, for the pairs of
  sections from the first or from the second on.\<close>

fun merge_pairs :: "nat list list \<Rightarrow> nat list list" where
  "merge_pairs (a # b # secs) =
     take (length a) (smerge a b) # drop (length a) (smerge a b) # merge_pairs secs"
| "merge_pairs secs = secs"

fun merge_odds :: "nat list list \<Rightarrow> nat list list" where
  "merge_odds (a # secs) = a # merge_pairs secs"
| "merge_odds [] = []"

definition tidy :: "nat list list \<Rightarrow> bool" where
  "tidy secs \<longleftrightarrow> (\<forall>s\<in>set secs. sorted_wrt before s) \<and> sorted_wrt apart secs"

lemma tidy_Cons: "tidy (a # secs) \<longleftrightarrow> sorted_wrt before a \<and> (\<forall>s\<in>set secs. apart a s) \<and> tidy secs"
  by (auto simp: tidy_def)

lemma apart_concat: "(\<forall>s\<in>set secs. apart a s) \<longleftrightarrow> apart a (concat secs)"
  by (auto simp: apart_def)

lemma apart_set_cong: "set x = set x' \<Longrightarrow> set y = set y' \<Longrightarrow> apart x y \<longleftrightarrow> apart x' y'"
  by (simp add: apart_def)

lemma mset_merge_pairs [simp]: "mset (concat (merge_pairs secs)) = mset (concat secs)"
proof (induction secs rule: merge_pairs.induct)
  case (1 a b secs)
  have "mset (take (length a) (smerge a b)) + mset (drop (length a) (smerge a b)) = mset a + mset b"
    by (simp flip: mset_append)
  with 1 show ?case by (simp add: add.assoc [symmetric])
qed simp_all

lemma set_merge_pairs [simp]: "set (concat (merge_pairs secs)) = set (concat secs)"
  by (rule mset_eq_setD) (rule mset_merge_pairs)

lemma mset_merge_odds [simp]: "mset (concat (merge_odds secs)) = mset (concat secs)"
  by (cases secs) auto

lemma lengths_merge_pairs [simp]: "map length (merge_pairs secs) = map length secs"
  by (induction secs rule: merge_pairs.induct) auto

lemma lengths_merge_odds [simp]: "map length (merge_odds secs) = map length secs"
  by (cases secs) auto

lemma length_merges [simp]: "length (merge_pairs secs) = length secs" "length (merge_odds secs) = length secs"
  by (metis length_map lengths_merge_pairs, metis length_map lengths_merge_odds)

lemma smerge_halves:
  assumes "sorted_wrt before a" "sorted_wrt before b" "apart a b"
  defines "l \<equiv> take (length a) (smerge a b)" and "r \<equiv> drop (length a) (smerge a b)"
  shows "sorted_wrt before l" "sorted_wrt before r" "apart l r" "set l \<union> set r = set a \<union> set b"
proof -
  have "sorted_wrt before (smerge a b)" by (rule smerge_sorted) (use assms in \<open>auto simp: apart_def\<close>)
  moreover have lr: "smerge a b = l @ r" by (simp add: l_def r_def)
  ultimately have s: "sorted_wrt before (l @ r)" by simp
  then show "sorted_wrt before l" "sorted_wrt before r" by (simp_all add: sorted_wrt_append)
  show "apart l r" using s by (auto simp: apart_def sorted_wrt_append before_def)
  show "set l \<union> set r = set a \<union> set b" using set_smerge [of a b] unfolding lr by simp
qed

lemma tidy_merge_pairs: "tidy secs \<Longrightarrow> tidy (merge_pairs secs)"
proof (induction secs rule: merge_pairs.induct)
  case (1 a b secs)
  let ?l = "take (length a) (smerge a b)" and ?r = "drop (length a) (smerge a b)"
  have s: "sorted_wrt before a" "sorted_wrt before b" "apart a b" "apart a (concat secs)" "apart b (concat secs)" "tidy secs"
    using "1.prems" by (simp_all add: tidy_Cons apart_concat)
  note h = smerge_halves [OF s(1-3)]
  have "apart ?l (concat secs)" "apart ?r (concat secs)"
    using s(4,5) h(4) unfolding apart_def by blast+
  then have "apart ?l (concat (merge_pairs secs))" "apart ?r (concat (merge_pairs secs))"
    using apart_set_cong [OF refl set_merge_pairs] by simp_all
  with h "1.IH" s(6) show ?case by (simp add: tidy_Cons apart_concat)
qed (simp_all add: tidy_def)

lemma tidy_merge_odds: "tidy secs \<Longrightarrow> tidy (merge_odds secs)"
proof (cases secs)
  case (Cons a ss)
  assume "tidy secs"
  then have "sorted_wrt before a" "apart a (concat ss)" "tidy ss" using Cons by (simp_all add: tidy_Cons apart_concat)
  moreover have "apart a (concat (merge_pairs ss))" using apart_set_cong [OF refl set_merge_pairs] calculation(2) by simp
  ultimately show ?thesis using Cons tidy_merge_pairs by (simp add: tidy_Cons apart_concat)
qed simp

section \<open>Counting above a threshold\<close>

definition above :: "nat \<Rightarrow> nat \<Rightarrow> bool" where
  "above v x \<longleftrightarrow> x = v \<or> before v x"

definition ones :: "nat \<Rightarrow> nat list list \<Rightarrow> nat \<Rightarrow> int" where
  "ones v secs i = int (length (filter (above v) (concat (drop i secs))))"

lemma above_up: "above v x \<Longrightarrow> before x y \<Longrightarrow> above v y"
  using before_trans by (auto simp: above_def)

lemma above_drop:
  "sorted_wrt before xs \<Longrightarrow> length (filter (above v) (drop n xs)) = min (length (filter (above v) xs)) (length xs - n)"
proof (induction xs arbitrary: n)
  case (Cons x xs)
  show ?case
  proof (cases n)
    case 0
    then show ?thesis using length_filter_le [of "above v" "x # xs"] by simp
  next
    case (Suc k)
    show ?thesis
    proof (cases "above v x")
      case True
      then have "\<forall>y\<in>set xs. above v y" using above_up Cons.prems by auto
      then have "filter (above v) xs = xs" by simp
      then show ?thesis using Cons Suc True by simp
    next
      case False
      then show ?thesis using Cons Suc by simp
    qed
  qed
qed simp

lemma length_filter_mset: "mset xs = mset ys \<Longrightarrow> length (filter P xs) = length (filter P ys)"
  by (metis mset_filter size_mset)

lemma ones_merge_pairs:
  "tidy secs \<Longrightarrow> ones v (merge_pairs secs) i =
    (if odd i \<and> i < length secs then min (ones v secs (i - 1)) (ones v secs (i + 1) + int (length (secs ! i)))
     else ones v secs i)"
proof (induction secs arbitrary: i rule: merge_pairs.induct)
  case (1 a b secs)
  let ?m = "smerge a b" and ?f = "\<lambda>xs. int (length (filter (above v) xs))"
  have s: "sorted_wrt before a" "sorted_wrt before b" "apart a b" "tidy secs"
    using "1.prems" by (simp_all add: tidy_Cons)
  have m: "sorted_wrt before ?m" by (rule smerge_sorted) (use s in \<open>auto simp: apart_def\<close>)
  have c: "?f ?m = ?f a + ?f b" using length_filter_mset [of ?m "a @ b" "above v"] by simp
  have r: "?f (concat (merge_pairs secs)) = ?f (concat secs)"
    using length_filter_mset [OF mset_merge_pairs, of "above v" secs] by simp
  consider "i = 0" | "i = 1" | j where "i = Suc (Suc j)" by (metis One_nat_def not0_implies_Suc)
  then show ?case
  proof cases
    case 1
    have "?f (take (length a) ?m) + ?f (drop (length a) ?m) = ?f ?m"
      by (simp flip: of_nat_add length_append filter_append)
    with 1 r c show ?thesis by (simp add: ones_def)
  next
    case 2
    have "?f (drop (length a) ?m) = min (?f ?m) (int (length b))" using above_drop [OF m, of v "length a"] by simp
    with 2 r c show ?thesis by (simp add: ones_def min_def)
  next
    case 3
    have "ones v (merge_pairs (a # b # secs)) i = ones v (merge_pairs secs) j" using 3 by (simp add: ones_def)
    with "1.IH" [OF s(4), of j] 3 show ?thesis by (cases j) (auto simp: ones_def)
  qed
qed (auto simp: less_Suc_eq)

lemma ones_merge_odds:
  assumes "tidy secs"
  shows "ones v (merge_odds secs) i =
    (if even i \<and> 0 < i \<and> i < length secs then min (ones v secs (i - 1)) (ones v secs (i + 1) + int (length (secs ! i)))
     else ones v secs i)"
proof (cases secs)
  case (Cons a ss)
  show ?thesis
  proof (cases i)
    case 0
    then show ?thesis using length_filter_mset [OF mset_merge_odds, of "above v" secs] by (simp add: ones_def)
  next
    case (Suc j)
    have "tidy ss" using assms Cons by (simp add: tidy_Cons)
    from ones_merge_pairs [OF this, of v j] Suc Cons show ?thesis by (cases j) (auto simp: ones_def)
  qed
qed simp


section \<open>The rounds\<close>

definition advanced :: "nat \<Rightarrow> int \<Rightarrow> int \<Rightarrow> nat \<Rightarrow> nat list list \<Rightarrow> bool" where
  "advanced v L d r secs \<longleftrightarrow> tidy secs \<and> even_sections L secs \<and>
     (\<forall>i\<le>length secs. even i \<longrightarrow> reached (ones v secs 0) (room secs) L d (2 * r) (ones v secs) i) \<and>
     (0 < r \<longrightarrow> (\<forall>i\<le>length secs. odd i \<longrightarrow>
        reached (ones v secs 0) (room secs) L d (2 * r - 1) (ones v secs) i))"

lemma room_end [simp]: "room secs (length secs) = 0" "ones v secs (length secs) = 0"
  by (simp_all add: room_def ones_def)

lemma ones_nonneg [simp]: "0 \<le> ones v secs i"
  by (simp add: ones_def)

lemma ones_start:
  assumes "even_sections L secs" "i < length secs"
  shows "ones v secs 0 \<le> ones v secs i + int i * L"
proof -
  have "concat secs = concat (take i secs) @ concat (drop i secs)" by (simp flip: concat_append)
  then have "ones v secs 0 = int (length (filter (above v) (concat (take i secs)))) + ones v secs i"
    by (simp add: ones_def)
  moreover have "int (length (filter (above v) (concat (take i secs)))) \<le> int (length (concat (take i secs)))"
    by (simp only: of_nat_le_iff length_filter_le)
  moreover have "int (length (concat (take i secs))) = int i * L"
  proof -
    have "length (secs ! j) = nat L" if "j < i" for j
    proof -
      have "int (length (secs ! j)) = L" using assms that by (simp add: even_sections_def)
      then show ?thesis by simp
    qed
    then have "map length (take i secs) = replicate i (nat L)"
      by (intro nth_equalityI) (use assms in auto)
    then show ?thesis using assms by (simp add: length_concat sum_list_replicate even_sections_def)
  qed
  ultimately show ?thesis by linarith
qed

lemma reached_last: "reached N (room secs) L d k (ones v secs) (length secs)"
  by (simp add: reached_def)

lemma reached_merge:
  assumes "even_sections L secs" "0 < i" "i < length secs"
    and "reached N (room secs) L d k (ones v secs) (i - 1)" "reached N (room secs) L d k (ones v secs) (i + 1)"
    and "S' i = min (ones v secs (i - 1)) (ones v secs (i + 1) + int (length (secs ! i)))"
  shows "reached N (room secs) L d (Suc k) S' i"
proof (rule reached_step [where S = "ones v secs" and S' = S' and l = "int (length (secs ! i))", OF assms(4,5,2)])
  show "room secs i \<le> room secs (i - 1)" using room_step [of "i - 1" secs] assms(2,3) by simp
  show "room secs i = room secs (i + 1) + int (length (secs ! i))" by (rule room_step) (rule assms(3))
  show "int (length (secs ! i)) = L \<or> room secs (i + 1) \<le> ones v secs (i + 1)"
  proof (cases "i + 1 < length secs")
    case False
    then have "i + 1 = length secs" using assms(3) by simp
    then show ?thesis by simp
  qed (use assms(1) in \<open>simp add: even_sections_def\<close>)
qed (simp_all add: assms(6))

lemma reached_cong: "S i = S' i \<Longrightarrow> reached N C L d k S i = reached N C L d k S' i"
  by (simp add: reached_def)

lemma reached_first: "reached (ones v secs 0) C L d k (ones v secs) 0"
  by (simp add: reached_def)

lemma advanced_round:
  assumes "advanced v L d r secs"
  shows "advanced v L d (Suc r) (merge_odds (merge_pairs secs))"
proof -
  let ?m = "length secs" and ?P = "merge_pairs secs"
  let ?Q = "merge_odds ?P"
  have a: "tidy secs" "even_sections L secs" using assms by (simp_all add: advanced_def)
  have p: "tidy ?P" "length ?P = ?m" "room ?P = room secs" "even_sections L ?P"
    using tidy_merge_pairs [OF a(1)] room_lengths [OF lengths_merge_pairs] even_sections_lengths [OF lengths_merge_pairs] a(2) by simp_all
  have q: "tidy ?Q" "length ?Q = ?m" "room ?Q = room secs" "even_sections L ?Q"
    using tidy_merge_odds [OF p(1)] p(2-4)
      room_lengths [OF lengths_merge_odds] even_sections_lengths [OF lengths_merge_odds] by simp_all
  have N: "ones v ?P 0 = ones v secs 0" "ones v ?Q 0 = ones v secs 0"
    by (simp_all add: ones_merge_pairs [OF a(1)] ones_merge_odds [OF p(1)])
  let ?R = "reached (ones v secs 0) (room secs) L d"
  have ev: "?R (2 * r) (ones v secs) i" if "even i" "i \<le> ?m" for i using assms that by (simp add: advanced_def)
  have odd: "?R (2 * r + 1) (ones v ?P) i" if "odd i" "i \<le> ?m" for i
  proof (cases "i = ?m")
    case True
    then show ?thesis using reached_last [of _ ?P] p by metis
  next
    case False
    have "?R (Suc (2 * r)) (ones v ?P) i"
      by (rule reached_merge [OF a(2)]) (use that False ev odd_pos in \<open>auto simp: ones_merge_pairs [OF a(1)]\<close>)
    then show ?thesis by simp
  qed
  have even: "?R (2 * r + 2) (ones v ?Q) i" if "even i" "i \<le> ?m" for i
  proof -
    consider "i = 0" | "i = ?m" | "0 < i" "i < ?m" using \<open>i \<le> ?m\<close> by linarith
    then show ?thesis
    proof cases
      case 1
      then show ?thesis using reached_first [of v ?Q] N by metis
    next
      case 2
      then show ?thesis using reached_last [of _ ?Q] q by metis
    next
      case 3
      have "reached (ones v secs 0) (room ?P) L d (Suc (2 * r + 1)) (ones v ?Q) i"
        by (rule reached_merge [OF p(4)])
          (use that 3 odd p(2,3) in \<open>auto simp: ones_merge_odds [OF p(1)]\<close>)
      then show ?thesis using p(3) by simp
    qed
  qed
  have "?R (2 * r + 1) (ones v ?Q) i" if "odd i" "i \<le> ?m" for i
    using odd [OF that] that reached_cong [of "ones v ?Q" i "ones v ?P"]
    by (simp add: ones_merge_odds [OF p(1)])
  with even q N show ?thesis by (simp add: advanced_def)
qed


lemma advanced_rounds:
  "advanced v L d r secs \<Longrightarrow> advanced v L d (r + n) (((merge_odds \<circ> merge_pairs) ^^ n) secs)"
proof (induction n)
  case (Suc n)
  from advanced_round [OF Suc.IH [OF Suc.prems]] show ?case by simp
qed simp

lemma advanced_start:
  assumes "tidy secs" "even_sections L secs"
    and "\<And>i. even i \<Longrightarrow> i < length secs \<Longrightarrow> d \<le> \<bar>ones v secs 0 - int i * L\<bar>"
  shows "advanced v L d 0 secs"
proof -
  have "reached (ones v secs 0) (room secs) L d 0 (ones v secs) i" if "even i" "i \<le> length secs" for i
  proof (cases "i = length secs")
    case True
    then show ?thesis using reached_last by metis
  next
    case False
    then have i: "i < length secs" using that by simp
    show ?thesis
    proof (rule reached_start)
      show "ones v secs 0 \<le> ones v secs i + int i * L" by (rule ones_start [OF assms(2) i])
      show "d \<le> \<bar>ones v secs 0 - int i * L\<bar>" using that(1) i by (rule assms(3))
    qed simp
  qed
  with assms(1,2) show ?thesis by (simp add: advanced_def)
qed

lemma room_val:
  assumes "even_sections L secs" "i < length secs"
  shows "room secs i = (int (length secs) - 1 - int i) * L + int (length (last secs))"
  using assms(2)
proof (induction "length secs - 1 - i" arbitrary: i)
  case 0
  then have i: "i = length secs - 1" "i + 1 = length secs" by simp_all
  then have "secs ! i = last secs" using 0 by (subst last_conv_nth) auto
  then show ?case using room_step [OF 0(2)] i by (simp add: of_nat_diff)
next
  case (Suc k)
  then have "room secs (i + 1) = (int (length secs) - 1 - int (i + 1)) * L + int (length (last secs))" by simp
  moreover have "int (length (secs ! i)) = L" using assms(1) Suc by (simp add: even_sections_def)
  ultimately show ?case using room_step [of i secs] Suc.prems by (simp add: algebra_simps)
qed

lemma rounds_keep:
  "map length (((merge_odds \<circ> merge_pairs) ^^ n) secs) = map length secs"
  "mset (concat (((merge_odds \<circ> merge_pairs) ^^ n) secs)) = mset (concat secs)"
  "tidy secs \<Longrightarrow> tidy (((merge_odds \<circ> merge_pairs) ^^ n) secs)"
  by (induction n) (auto simp: tidy_merge_odds tidy_merge_pairs)

text \<open>After as many merges as there are sections, the elements above any threshold fill the end.\<close>

lemma rounds_reach:
  fixes v n :: nat
  assumes t: "tidy secs" and L: "even_sections L secs" and last: "int (length (last secs)) \<le> L"
    and n: "n = (length secs + 1) div 2" and i: "i < length secs"
  defines "res \<equiv> ((merge_odds \<circ> merge_pairs) ^^ n) secs"
  shows "min (ones v res 0) (room res i) \<le> ones v res i"
proof -
  let ?m = "length secs" and ?N = "ones v secs 0"
  have L0: "0 \<le> L" using L by (simp add: even_sections_def)
  have r: "room res = room secs" "length res = ?m" "ones v res 0 = ?N"
    using rounds_keep [where n = n and secs = secs] room_lengths [of res secs] length_filter_mset [of "concat res" "concat secs" "above v"]
    unfolding res_def by (simp_all add: ones_def) (metis length_map)
  have full: "min ?N (room secs i) \<le> ones v res i" if "reached ?N (room secs) L 0 k (ones v res) i" "?m \<le> k" for k
  proof (rule reached_full [OF that])
    show "room secs i \<le> (int ?m - int i) * L" using room_val [OF L i] last by (simp add: algebra_simps)
  qed (rule L0)
  have adv: "advanced v L d n res" if "\<And>i. even i \<Longrightarrow> i < ?m \<Longrightarrow> d \<le> \<bar>?N - int i * L\<bar>" for d
    using advanced_rounds [OF advanced_start [OF t L that], of n] by (simp add: res_def)
  have "even i \<or> odd ?m \<or> odd i \<and> even ?m" by blast
  then show ?thesis
  proof (elim disjE conjE)
    assume "even i"
    then have "reached ?N (room secs) L 0 (2 * n) (ones v res) i"
      using adv [of 0] i r by (auto simp: advanced_def)
    then show ?thesis using full [of "2 * n"] n r by simp
  next
    assume "odd ?m"
    then have "2 * n = ?m + 1" using n by simp
    then have "reached ?N (room secs) L 0 ?m (ones v res) i \<or> reached ?N (room secs) L 0 (?m + 1) (ones v res) i"
      using adv [of 0] i r by (cases "even i") (auto simp: advanced_def)
    then show ?thesis using full r by auto
  next
    assume odd: "odd i" "even ?m"
    let ?C = "room secs i" and ?l = "int (length (last secs))"
    define d where "d = ?l - \<bar>?N - ?C\<bar>"
    have C: "?C = (int ?m - 1 - int i) * L + ?l" by (rule room_val [OF L i])
    have "d \<le> \<bar>?N - int j * L\<bar>" if "even j" for j
    proof -
      have "even (int ?m - 1 - int i - int j)" using odd that by simp
      then obtain a where a: "int ?m - 1 - int i - int j = 2 * a" by (elim evenE)
      have "?C - int j * L = (int ?m - 1 - int i - int j) * L + ?l" unfolding C by (simp add: algebra_simps)
      then have "?l \<le> \<bar>?C - int j * L\<bar>" unfolding a using even_gap [OF _ last, of a] by simp
      then show ?thesis unfolding d_def by linarith
    qed
    from adv [OF this] have "reached ?N (room secs) L d (2 * n - 1) (ones v res) i"
      using odd i r n by (auto simp: advanced_def)
    moreover have "int (2 * n - 1) = int ?m - 1" using odd n i by auto
    ultimately have "reached ?N (room secs) L d (?m - 1) (ones v res) i" using odd n by simp
    then have "?N \<le> ones v res i \<or> ?C \<le> ones v res i \<or> ?C - ?l + ?N + d \<le> 2 * ones v res i"
      unfolding reached_def C using i by (simp add: of_nat_diff)
    then show ?thesis unfolding r d_def by linarith
  qed
qed

lemma sorted_sections:
  "(\<forall>s\<in>set secs. sorted_wrt before s) \<Longrightarrow> sorted_wrt (\<lambda>a b. \<forall>x\<in>set a. \<forall>y\<in>set b. before x y) secs \<Longrightarrow>
   sorted_wrt before (concat secs)"
  by (induction secs) (auto simp: sorted_wrt_append)

lemma full_sorted:
  assumes t: "tidy secs" and full: "\<And>v i. i < length secs \<Longrightarrow> min (ones v secs 0) (room secs i) \<le> ones v secs i"
  shows "sorted_wrt before (concat secs)"
proof (rule sorted_sections)
  show "\<forall>s\<in>set secs. sorted_wrt before s" using t by (simp add: tidy_def)
  have "before x y" if pq: "p < q" "q < length secs" and xy: "x \<in> set (secs ! p)" "y \<in> set (secs ! q)" for p q x y
  proof (rule ccontr)
    assume no: "\<not> before x y"
    have "apart (secs ! p) (secs ! q)" using t pq by (auto simp: tidy_def sorted_wrt_iff_nth_less)
    then have "le x y \<longrightarrow> le y x \<longrightarrow> x < y" using xy by (simp add: apart_def)
    from before_cases [OF this] no have "before y x" by (simp split: if_splits)
    then have yx: "\<not> above x y" using before_asym before_irrefl by (auto simp: above_def)
    have "y \<in> set (concat (drop q secs))" using xy(2) pq by (auto simp: Cons_nth_drop_Suc [symmetric])
    then have "length (filter (above x) (concat (drop q secs))) < length (concat (drop q secs))"
      using yx by (rule length_filter_less)
    then have "ones x secs q < room secs q" by (simp add: ones_def room_def)
    moreover have "ones x secs q < ones x secs 0"
    proof -
      have "concat secs = concat (take q secs) @ concat (drop q secs)" by (simp flip: concat_append)
      then have "ones x secs 0 = int (length (filter (above x) (concat (take q secs)))) + ones x secs q"
        by (simp add: ones_def)
      moreover have "x \<in> set (concat (take q secs))" 
      proof -
        have "secs ! p \<in> set (take q secs)" using pq by (metis in_set_conv_nth length_take min.absorb4 nth_take)
        then show ?thesis using xy(1) by auto
      qed
      then have "x \<in> set (filter (above x) (concat (take q secs)))" by (simp add: above_def)
      then have "0 < length (filter (above x) (concat (take q secs)))" by (metis length_pos_if_in_set)
      ultimately show ?thesis by simp
    qed
    ultimately show False using full [OF pq(2), of x] by simp
  qed
  then show "sorted_wrt (\<lambda>a b. \<forall>x\<in>set a. \<forall>y\<in>set b. before x y) secs"
    by (auto simp: sorted_wrt_iff_nth_less)
qed

lemma odd_even_sorts:
  assumes "tidy secs" "even_sections L secs" "int (length (last secs)) \<le> L"
  defines "res \<equiv> ((merge_odds \<circ> merge_pairs) ^^ ((length secs + 1) div 2)) secs"
  shows "sorted_wrt before (concat res)" "mset (concat res) = mset (concat secs)" "map length res = map length secs"
proof -
  have "length res = length secs" using rounds_keep(1) unfolding res_def by (metis length_map)
  then show "sorted_wrt before (concat res)"
    using rounds_keep(3) [OF assms(1)] rounds_reach [OF assms(1-3) refl] unfolding res_def
    by (intro full_sorted) simp_all
qed (simp_all add: res_def rounds_keep)

end

end
