(* ===== verification/SortConcurrent.thy ===== *)
theory SortConcurrent
  imports OddEvenMerge
begin

text \<open>
  The concurrent path of \<open>CFSortIndexes\<close>: \<open>__CFSortIndexesN\<close> cuts the indexes into sections of one
  length (the last may be shorter), sorts each, and merges neighbours back and forth between the array
  and the temporaries.  Its array, read as sections, goes through the rounds of OddEvenMerge.
\<close>

section \<open>Running blocks\<close>

lemma dispatch_apply_append:
  "dispatch_apply f (xs @ ys) s = Option.bind (dispatch_apply f xs s) (dispatch_apply f ys)"
  by (induction xs arbitrary: s) (auto simp: Option.bind_assoc split: bind_splits)

lemma dispatch_apply_inv:
  assumes "I 0 s" "\<And>k s. k < n \<Longrightarrow> I k s \<Longrightarrow> \<exists>s'. f k s = Some s' \<and> I (Suc k) s'"
  shows "\<exists>s'. dispatch_apply f [0..<n] s = Some s' \<and> I n s'"
proof -
  have "k \<le> n \<Longrightarrow> \<exists>s'. dispatch_apply f [0..<k] s = Some s' \<and> I k s'" for k
  proof (induction k)
    case (Suc k)
    then obtain s1 where "dispatch_apply f [0..<k] s = Some s1" "I k s1" by auto
    moreover from this(2) assms(2) [of k] Suc.prems obtain s2 where "f k s1 = Some s2" "I (Suc k) s2" by auto
    ultimately show ?case by (simp add: dispatch_apply_append)
  qed (use assms(1) in simp)
  then show ?thesis by simp
qed

section \<open>The array as sections\<close>

definition sect_len :: "nat \<Rightarrow> nat \<Rightarrow> nat \<Rightarrow> nat \<Rightarrow> nat" where
  "sect_len sz m ll j = (if j < m - 1 then sz else ll)"

definition section_at :: "nat \<Rightarrow> nat \<Rightarrow> nat \<Rightarrow> nat list \<Rightarrow> nat \<Rightarrow> nat list" where
  "section_at sz m ll listp j = take (sect_len sz m ll j) (drop (j * sz) listp)"

definition sections :: "nat \<Rightarrow> nat \<Rightarrow> nat \<Rightarrow> nat list \<Rightarrow> nat list list" where
  "sections sz m ll listp = map (section_at sz m ll listp) [0..<m]"

text \<open>The shape that \<open>CFSortIndexesN\<close> chooses: full sections and a last one that is not empty.\<close>

definition shape :: "nat \<Rightarrow> nat \<Rightarrow> nat \<Rightarrow> nat \<Rightarrow> bool" where
  "shape sz m ll cnt \<longleftrightarrow> 2 \<le> m \<and> 0 < ll \<and> ll \<le> sz \<and> cnt = (m - 1) * sz + ll"

lemma shape_end: "shape sz m ll cnt \<Longrightarrow> j < m \<Longrightarrow> j * sz + sect_len sz m ll j \<le> cnt"
proof -
  assume s: "shape sz m ll cnt" and j: "j < m"
  show ?thesis
  proof (cases "j < m - 1")
    case True
    then have "(j + 1) * sz \<le> (m - 1) * sz" by (intro mult_le_mono1) simp
    then show ?thesis using s True by (simp add: shape_def sect_len_def)
  next
    case False
    then have "j = m - 1" using j by simp
    then show ?thesis using s by (simp add: shape_def sect_len_def)
  qed
qed

lemma shape_len: "shape sz m ll cnt \<Longrightarrow> 0 < sect_len sz m ll j \<and> sect_len sz m ll j \<le> sz"
  by (simp add: shape_def sect_len_def)

lemma length_section_at:
  "shape sz m ll cnt \<Longrightarrow> cnt \<le> length listp \<Longrightarrow> j < m \<Longrightarrow> length (section_at sz m ll listp j) = sect_len sz m ll j"
  using shape_end [of sz m ll cnt j] by (simp add: section_at_def)

lemma sections_simps [simp]:
  "length (sections sz m ll listp) = m"
  "j < m \<Longrightarrow> sections sz m ll listp ! j = section_at sz m ll listp j"
  by (simp_all add: sections_def)

lemma block_apart:
  fixes i j k sz :: nat
  assumes "k < n" "n \<le> sz" "n' \<le> sz" "i \<noteq> j"
  shows "\<not> (j * sz \<le> i * sz + k \<and> i * sz + k < j * sz + n')"
proof (cases "i < j")
  case True
  then have "(i + 1) * sz \<le> j * sz" by (intro mult_le_mono1) simp
  then show ?thesis using assms by simp
next
  case False
  then have "(j + 1) * sz \<le> i * sz" using assms(4) by (intro mult_le_mono1) simp
  then show ?thesis using assms by simp
qed

lemma section_block_set:
  assumes s: "shape sz m ll cnt" "cnt \<le> length listp" and j: "j < m" and out: "length out = sect_len sz m ll j"
  shows "length (block_set listp (j * sz) out) = length listp"
    "drop cnt (block_set listp (j * sz) out) = drop cnt listp"
    "i < m \<Longrightarrow> section_at sz m ll (block_set listp (j * sz) out) i = (if i = j then out else section_at sz m ll listp i)"
proof -
  let ?l = "block_set listp (j * sz) out"
  have e: "j * sz + length out \<le> cnt" using shape_end [OF s(1) j] out by simp
  then have fit: "j * sz + length out \<le> length listp" using s(2) by simp
  show len: "length ?l = length listp" using fit by simp
  show "drop cnt ?l = drop cnt listp"
    by (rule nth_equalityI) (use e fit s(2) in \<open>auto simp: block_set_nth\<close>)
  assume i: "i < m"
  show "section_at sz m ll ?l i = (if i = j then out else section_at sz m ll listp i)"
  proof (cases "i = j")
    case True
    then show ?thesis using block_set_slices(1) [OF fit] out by (simp add: section_at_def)
  next
    case False
    have "section_at sz m ll ?l i = section_at sz m ll listp i"
    proof (rule nth_equalityI)
      show "length (section_at sz m ll ?l i) = length (section_at sz m ll listp i)" by (simp add: section_at_def len)
      fix k
      assume "k < length (section_at sz m ll ?l i)"
      then have k: "k < sect_len sz m ll i" "i * sz + k < length listp" by (simp_all add: section_at_def len less_diff_conv add.commute)
      then show "section_at sz m ll ?l i ! k = section_at sz m ll listp i ! k"
        using block_apart [OF k(1), of sz "length out" i j] shape_len [OF s(1)] out False fit
        by (auto simp: section_at_def block_set_nth len)
    qed
    with False show ?thesis by simp
  qed
qed

lemma section_wr:
  assumes s: "shape sz m ll cnt" "cnt \<le> length listp" and j: "j < m" and out: "length out = sect_len sz m ll j"
  shows "wr_block listp (j * sz) out = Some (block_set listp (j * sz) out)"
  using shape_end [OF s(1) j] s(2) out by (simp add: block_set_def)

lemma section_rd:
  "shape sz m ll cnt \<Longrightarrow> cnt \<le> length listp \<Longrightarrow> j < m \<Longrightarrow>
   rd_block listp (j * sz) (sect_len sz m ll j) = Some (section_at sz m ll listp j)"
  using shape_end [of sz m ll cnt j] by (simp add: section_at_def)

lemma concat_sections:
  assumes s: "shape sz m ll cnt" "cnt \<le> length listp"
  shows "concat (sections sz m ll listp) = take cnt listp"
proof -
  have "concat (map (section_at sz m ll listp) [0..<n]) = take (n * sz) listp" if "n \<le> m - 1" for n
    using that
  proof (induction n)
    case (Suc n)
    have "take (Suc n * sz) listp = take (n * sz) listp @ take sz (drop (n * sz) listp)"
      using take_add [of "n * sz" sz listp] by (simp add: add.commute)
    then show ?case using Suc by (simp add: section_at_def sect_len_def)
  qed simp
  moreover have "[0..<m] = [0..<m - 1] @ [m - 1]" using s(1) by (simp add: shape_def upt_Suc_append [symmetric] del: upt_Suc_append)
  ultimately show ?thesis using s(1) by (simp add: sections_def section_at_def sect_len_def take_add shape_def)
qed


section \<open>The code as rounds\<close>

context sort_order
begin

lemma nth_merge_pairs:
  "i < length secs \<Longrightarrow> merge_pairs secs ! i =
    (if even i
     then if i + 1 < length secs then take (length (secs ! i)) (smerge (secs ! i) (secs ! (i + 1))) else secs ! i
     else drop (length (secs ! (i - 1))) (smerge (secs ! (i - 1)) (secs ! i)))"
proof (induction secs arbitrary: i rule: merge_pairs.induct)
  case (1 a b secs)
  consider "i = 0" | "i = 1" | j where "i = Suc (Suc j)" by (metis One_nat_def not0_implies_Suc)
  then show ?case
  proof cases
    case 3
    then show ?thesis using 1 by (cases j) auto
  qed simp_all
qed (auto simp: less_Suc_eq)

lemma nth_merge_odds:
  "0 < i \<Longrightarrow> i < length secs \<Longrightarrow> merge_odds secs ! i =
    (if odd i
     then if i + 1 < length secs then take (length (secs ! i)) (smerge (secs ! i) (secs ! (i + 1))) else secs ! i
     else drop (length (secs ! (i - 1))) (smerge (secs ! (i - 1)) (secs ! i)))"
proof -
  assume i: "0 < i" "i < length secs"
  then obtain a ss j where c: "secs = a # ss" "i = Suc j" by (cases secs; cases i) auto
  have "merge_odds secs ! i = merge_pairs ss ! j" by (simp add: c)
  also have "\<dots> = (if even j
     then if j + 1 < length ss then take (length (ss ! j)) (smerge (ss ! j) (ss ! (j + 1))) else ss ! j
     else drop (length (ss ! (j - 1))) (smerge (ss ! (j - 1)) (ss ! j)))"
    by (rule nth_merge_pairs) (use i c in simp)
  finally show ?thesis using c by (cases j) auto
qed

text \<open>The temporaries: one for every section, each of the length of a full section.\<close>

definition scratch :: "nat \<Rightarrow> nat \<Rightarrow> nat list list \<Rightarrow> bool" where
  "scratch sz m tmps \<longleftrightarrow> length tmps = m \<and> (\<forall>t\<in>set tmps. length t = sz)"

lemma scratch_update: "scratch sz m tmps \<Longrightarrow> length t = sz \<Longrightarrow> scratch sz m (tmps[j := t])"
  by (auto simp: scratch_def dest!: set_update_subset_insert [THEN subsetD])

lemma merge_pair:
  assumes "tidy secs" "p + 1 < length secs" "length (secs ! (p + 1)) \<le> length (secs ! p)" "secs ! (p + 1) \<noteq> []"
  shows "CFSortIndexesNMerge cmp (secs ! p) (length (secs ! p)) (secs ! (p + 1)) (length (secs ! (p + 1))) right =
    Some (if right \<noteq> 0 then drop (length (secs ! p)) (smerge (secs ! p) (secs ! (p + 1)))
      else take (length (secs ! p)) (smerge (secs ! p) (secs ! (p + 1))))"
proof (rule CFSortIndexesNMerge_law)
  show "sorted_wrt before (secs ! p)" "sorted_wrt before (secs ! (p + 1))" using assms by (auto simp: tidy_def)
  show "apart (secs ! p) (secs ! (p + 1))" using assms by (auto simp: tidy_def sorted_wrt_iff_nth_less)
qed (rule assms)+

lemma merge_even_law:
  assumes s: "shape sz m ll cnt" "cnt \<le> length listp" and t: "tidy (sections sz m ll listp)"
    and k: "k < m div 2 * 2" and tmps: "scratch sz m tmps"
  defines "M \<equiv> merge_pairs (sections sz m ll listp)"
  shows "merge_even cmp sz m ll k (listp, tmps) =
    Some (listp, tmps[k := take 0 (tmps ! k) @ M ! k @ drop (length (M ! k)) (tmps ! k)])" "length (M ! k) \<le> sz"
proof -
  let ?r = "k mod 2" and ?p = "k - k mod 2"
  let ?secs = "sections sz m ll listp"
  have p: "?p + 1 < m" using k by (cases "even k") (auto elim!: oddE evenE)
  have km: "k < m" using k by linarith
  have l: "length (?secs ! ?p) = sz" "length (?secs ! (?p + 1)) = sect_len sz m ll (?p + 1)"
    using p length_section_at [OF s, of ?p] length_section_at [OF s, of "?p + 1"] by (auto simp: sect_len_def)
  have sl: "sect_len sz m ll ?p = sz" using p by (auto simp: sect_len_def)
  have rds: "rd_block listp (?p * sz) sz = Some (?secs ! ?p)"
    "rd_block listp ((?p + 1) * sz) (sect_len sz m ll (?p + 1)) = Some (?secs ! (?p + 1))"
    using section_rd [OF s, of ?p, unfolded sl] section_rd [OF s, of "?p + 1"] p by simp_all
  have base: "k * sz - (if ?r \<noteq> 0 then sz else 0) = ?p * sz" "k * sz + (if ?r \<noteq> 0 then 0 else sz) = (?p + 1) * sz"
    by (cases "even k"; auto simp: diff_mult_distrib elim!: oddE)+
  have len2: "(if k + 1 + (if ?r \<noteq> 0 then 0 else 1) = m then ll else sz) = sect_len sz m ll (?p + 1)"
    using p by (cases "even k") (auto simp: sect_len_def elim!: oddE)
  have out: "CFSortIndexesNMerge cmp (?secs ! ?p) sz (?secs ! (?p + 1)) (sect_len sz m ll (?p + 1)) ?r = Some (M ! k)"
  proof -
    have "length (?secs ! (?p + 1)) \<le> length (?secs ! ?p)" "?secs ! (?p + 1) \<noteq> []"
      using l shape_len [OF s(1), of "?p + 1"] by auto
    from merge_pair [OF t _ this, of ?r, unfolded l] p
    have "CFSortIndexesNMerge cmp (?secs ! ?p) sz (?secs ! (?p + 1)) (sect_len sz m ll (?p + 1)) ?r =
      Some (if ?r \<noteq> 0 then drop sz (smerge (?secs ! ?p) (?secs ! (?p + 1)))
        else take sz (smerge (?secs ! ?p) (?secs ! (?p + 1))))" by simp
    moreover have "M ! k = (if ?r \<noteq> 0 then drop sz (smerge (?secs ! ?p) (?secs ! (?p + 1)))
        else take sz (smerge (?secs ! ?p) (?secs ! (?p + 1))))"
      using nth_merge_pairs [of k ?secs] km p l(1) unfolding M_def by (cases "even k") (auto elim!: oddE)
    ultimately show ?thesis by simp
  qed
  have "map length M = map length ?secs" by (simp add: M_def)
  then have "length (M ! k) = length (?secs ! k)" using km by (metis length_map nth_map sections_simps(1))
  then show lM: "length (M ! k) \<le> sz" using length_section_at [OF s km] shape_len [OF s(1), of k] km by simp
  have tk: "k < length tmps" "length (tmps ! k) = sz" using tmps km by (auto simp: scratch_def)
  show "merge_even cmp sz m ll k (listp, tmps) =
    Some (listp, tmps[k := take 0 (tmps ! k) @ M ! k @ drop (length (M ! k)) (tmps ! k)])"
    unfolding merge_even_def prod.case Let_def base len2 rds Option.bind_lunit out
    using tk lM by simp
qed


lemma even_phase_law:
  assumes s: "shape sz m ll cnt" "cnt \<le> length listp" and t: "tidy (sections sz m ll listp)"
    and tmps: "scratch sz m tmps"
  defines "M \<equiv> merge_pairs (sections sz m ll listp)"
  shows "\<exists>tmps'. dispatch_apply (merge_even cmp sz m ll) [0..<m div 2 * 2] (listp, tmps) = Some (listp, tmps') \<and>
    scratch sz m tmps' \<and> (\<forall>j<m div 2 * 2. take (length (M ! j)) (tmps' ! j) = M ! j)"
proof -
  let ?I = "\<lambda>k st. fst st = listp \<and> scratch sz m (snd st) \<and> (\<forall>j<k. take (length (M ! j)) (snd st ! j) = M ! j)"
  have "\<exists>st'. dispatch_apply (merge_even cmp sz m ll) [0..<m div 2 * 2] (listp, tmps) = Some st' \<and> ?I (m div 2 * 2) st'"
  proof (rule dispatch_apply_inv)
    show "?I 0 (listp, tmps)" using tmps by simp
    fix k st
    assume k: "k < m div 2 * 2" and I: "?I k st"
    obtain tm where st: "st = (listp, tm)" using I by (cases st) auto
    then have tm: "scratch sz m tm" using I by simp
    have km: "k < m" "k < length tm" using k tm by (auto simp: scratch_def)
    note law = merge_even_law [OF s t k tm, folded M_def]
    let ?t = "take 0 (tm ! k) @ M ! k @ drop (length (M ! k)) (tm ! k)"
    have "length (tm ! k) = sz" using km tm by (auto simp: scratch_def)
    then have "scratch sz m (tm[k := ?t])" using law(2) by (intro scratch_update tm) simp
    moreover have "take (length (M ! j)) (tm[k := ?t] ! j) = M ! j" if "j < Suc k" for j
      using that I st km by (cases "j = k") auto
    ultimately show "\<exists>st'. merge_even cmp sz m ll k st = Some st' \<and> ?I (Suc k) st'"
      unfolding st law(1) by (intro exI conjI) (rule refl, auto)
  qed
  then show ?thesis by (metis prod.collapse)
qed

lemma merge_odd_law:
  assumes s: "shape sz m ll cnt" "cnt \<le> length listp" and t: "tidy M" and M: "map length M = map (sect_len sz m ll) [0..<m]"
    and k: "k < (m - 1) div 2 * 2" and tmps: "scratch sz m tmps"
    and T: "\<forall>j<m. take (length (M ! j)) (tmps ! j) = M ! j"
  shows "merge_odd cmp sz m ll k (listp, tmps) =
    Some (block_set listp ((k + 1) * sz) (merge_odds M ! (k + 1)), tmps)"
    "length (merge_odds M ! (k + 1)) = sect_len sz m ll (k + 1)"
proof -
  let ?r = "k mod 2" and ?p = "k + 1 - k mod 2"
  have lM: "length M = m" using M by (metis diff_zero length_map length_upt)
  have p: "?p + 1 < m" using k by (cases "even k") (auto elim!: oddE evenE)
  have km: "k + 1 < m" using k by linarith
  have l: "length (M ! j) = sect_len sz m ll j" if "j < m" for j
    using arg_cong [OF M, of "\<lambda>xs. xs ! j"] that lM by simp
  have lp: "length (M ! ?p) = sz" "length (M ! (?p + 1)) = sect_len sz m ll (?p + 1)"
    using l [of ?p] l [of "?p + 1"] p by (auto simp: sect_len_def)
  have tl: "length (tmps ! j) = sz" "j < length tmps" if "j < m" for j using tmps that by (auto simp: scratch_def)
  have ix: "k + (if ?r \<noteq> 0 then 0 else 1) = ?p" "k + (if ?r \<noteq> 0 then 1 else 2) = ?p + 1"
    by (cases "even k"; auto elim!: oddE)+
  have len2: "(if k + 1 + (if ?r \<noteq> 0 then 1 else 2) = m then ll else sz) = sect_len sz m ll (?p + 1)"
    using p by (cases "even k") (auto simp: sect_len_def elim!: oddE)
  have rds: "rd tmps ?p = Some (tmps ! ?p)" "rd tmps (?p + 1) = Some (tmps ! (?p + 1))"
    using tl(2) [of ?p] tl(2) [of "?p + 1"] p by simp_all
  have blocks: "rd_block (tmps ! ?p) 0 sz = Some (M ! ?p)"
    "rd_block (tmps ! (?p + 1)) 0 (sect_len sz m ll (?p + 1)) = Some (M ! (?p + 1))"
    using T [rule_format, of ?p] T [rule_format, of "?p + 1"] tl(1) [of ?p] tl(1) [of "?p + 1"] p lp
      shape_len [OF s(1), of "?p + 1"] by simp_all
  have lens: "length (M ! (?p + 1)) \<le> length (M ! ?p)" "M ! (?p + 1) \<noteq> []"
    using lp shape_len [OF s(1), of "?p + 1"] by auto
  have "CFSortIndexesNMerge cmp (M ! ?p) sz (M ! (?p + 1)) (sect_len sz m ll (?p + 1)) ?r =
      Some (if ?r \<noteq> 0 then drop sz (smerge (M ! ?p) (M ! (?p + 1)))
        else take sz (smerge (M ! ?p) (M ! (?p + 1))))"
    by (rule merge_pair [OF t _ lens, of ?r, unfolded lp]) (use p lM in simp)
  moreover have "merge_odds M ! (k + 1) = (if ?r \<noteq> 0 then drop sz (smerge (M ! ?p) (M ! (?p + 1)))
        else take sz (smerge (M ! ?p) (M ! (?p + 1))))"
    using nth_merge_odds [of "k + 1" M] km p lp(1) lM by (cases "even k") (auto elim!: oddE)
  ultimately have out: "CFSortIndexesNMerge cmp (M ! ?p) sz (M ! (?p + 1)) (sect_len sz m ll (?p + 1)) ?r =
    Some (merge_odds M ! (k + 1))" by simp
  have "length (merge_odds M ! (k + 1)) = length (M ! (k + 1))"
    using km lM lengths_merge_odds [of M] length_merges(2) [of M] by (metis nth_map)
  then show lo: "length (merge_odds M ! (k + 1)) = sect_len sz m ll (k + 1)" using l km by simp
  have base: "k * sz + sz = (k + 1) * sz" by simp
  show "merge_odd cmp sz m ll k (listp, tmps) =
    Some (block_set listp ((k + 1) * sz) (merge_odds M ! (k + 1)), tmps)"
    unfolding merge_odd_def prod.case Let_def ix len2 rds Option.bind_lunit blocks out base
      section_wr [OF s km lo] by (rule refl)
qed

lemma odd_phase_law:
  assumes s: "shape sz m ll cnt" "cnt \<le> length listp" and t: "tidy M" and M: "map length M = map (sect_len sz m ll) [0..<m]"
    and tmps: "scratch sz m tmps" and T: "\<forall>j<m. take (length (M ! j)) (tmps ! j) = M ! j"
  shows "\<exists>l'. dispatch_apply (merge_odd cmp sz m ll) [0..<(m - 1) div 2 * 2] (listp, tmps) = Some (l', tmps) \<and>
    length l' = length listp \<and> drop cnt l' = drop cnt listp \<and>
    (\<forall>j<(m - 1) div 2 * 2. section_at sz m ll l' (j + 1) = merge_odds M ! (j + 1))"
proof -
  let ?I = "\<lambda>k st. snd st = tmps \<and> length (fst st) = length listp \<and> drop cnt (fst st) = drop cnt listp \<and>
    (\<forall>j<k. section_at sz m ll (fst st) (j + 1) = merge_odds M ! (j + 1))"
  have "\<exists>st'. dispatch_apply (merge_odd cmp sz m ll) [0..<(m - 1) div 2 * 2] (listp, tmps) = Some st' \<and>
    ?I ((m - 1) div 2 * 2) st'"
  proof (rule dispatch_apply_inv)
    show "?I 0 (listp, tmps)" by simp
    fix k st
    assume k: "k < (m - 1) div 2 * 2" and I: "?I k st"
    obtain l where st: "st = (l, tmps)" using I by (cases st) auto
    then have l: "cnt \<le> length l" using I s(2) by simp
    have km: "k + 1 < m" using k by linarith
    note law = merge_odd_law [OF s(1) l t M k tmps T]
    note w = section_block_set [OF s(1) l km law(2)]
    have "section_at sz m ll (block_set l ((k + 1) * sz) (merge_odds M ! (k + 1))) (j + 1) = merge_odds M ! (j + 1)"
      if "j < Suc k" for j
      using that w(3) [of "j + 1"] km I st by (cases "j = k") simp_all
    then show "\<exists>st'. merge_odd cmp sz m ll k st = Some st' \<and> ?I (Suc k) st'"
      unfolding st law(1) using I st w(1,2) by (intro exI conjI) (rule refl, simp_all)
  qed
  then show ?thesis by (metis prod.collapse)
qed

lemma length_sections: "shape sz m ll cnt \<Longrightarrow> cnt \<le> length listp \<Longrightarrow>
    map length (sections sz m ll listp) = map (sect_len sz m ll) [0..<m]"
  by (simp add: sections_def length_section_at)

text \<open>The last section of an odd number of sections is copied to its temporary as it is.\<close>

lemma copy_last_law:
  assumes s: "shape sz m ll cnt" "cnt \<le> length listp" and tmps: "scratch sz m tmps"
    and M: "M = merge_pairs (sections sz m ll listp)"
    and T: "\<forall>j<m div 2 * 2. take (length (M ! j)) (tmps ! j) = M ! j"
  shows "\<exists>tmps'. (if m mod 2 \<noteq> 0
      then do { last \<leftarrow> rd_block listp ((m - 1) * sz) ll; tmp \<leftarrow> rd tmps (m - 1); tmp \<leftarrow> wr_block tmp 0 last;
                wr tmps (m - 1) tmp }
      else Some tmps) = Some tmps' \<and> scratch sz m tmps' \<and> (\<forall>j<m. take (length (M ! j)) (tmps' ! j) = M ! j)"
proof (cases "m mod 2 = 0")
  case True
  then have "m div 2 * 2 = m" by auto
  with T tmps True show ?thesis by auto
next
  case False
  then have odd: "odd m" by (simp add: odd_iff_mod_2_eq_one)
  let ?last = "sections sz m ll listp ! (m - 1)" and ?t = "tmps ! (m - 1)"
  have m: "2 \<le> m" "m - 1 < m" "m div 2 * 2 = m - 1" "even (m - 1)" "m - 1 + 1 = m"
    using s(1) False odd by (auto simp: shape_def elim!: oddE)
  have l: "length ?last = ll" using length_section_at [OF s m(2)] m(2) by (simp add: sect_len_def)
  have rd: "rd_block listp ((m - 1) * sz) ll = Some ?last" using section_rd [OF s m(2)] m(2) by (simp add: sect_len_def)
  have t: "length ?t = sz" "m - 1 < length tmps" using tmps m(2) by (auto simp: scratch_def)
  have ll: "ll \<le> sz" using s(1) by (simp add: shape_def)
  have Mlast: "M ! (m - 1) = ?last"
    using nth_merge_pairs [of "m - 1" "sections sz m ll listp"] m unfolding M by simp
  let ?tmps = "tmps[m - 1 := ?last @ drop ll ?t]"
  have "scratch sz m ?tmps" by (rule scratch_update [OF tmps]) (use l t ll in simp)
  moreover have "take (length (M ! j)) (?tmps ! j) = M ! j" if "j < m" for j
  proof (cases "j = m - 1")
    case True
    then show ?thesis using Mlast l t by simp
  next
    case False
    then have "j < m div 2 * 2" using that m(3) by linarith
    then show ?thesis using T False by simp
  qed
  moreover have "wr_block ?t 0 ?last = Some (?last @ drop ll ?t)" using l t ll by simp
  ultimately show ?thesis using False rd t by simp
qed

lemma merge_round_law:
  assumes s: "shape sz m ll cnt" "cnt \<le> length listp" and t: "tidy (sections sz m ll listp)" and tmps: "scratch sz m tmps"
  shows "\<exists>l' tmps'. merge_round cmp sz m ll (listp, tmps) = Some (l', tmps') \<and> scratch sz m tmps' \<and>
    length l' = length listp \<and> drop cnt l' = drop cnt listp \<and>
    sections sz m ll l' = (merge_odds \<circ> merge_pairs) (sections sz m ll listp)"
proof -
  let ?secs = "sections sz m ll listp"
  define M where "M = merge_pairs ?secs"
  from even_phase_law [OF s t tmps, folded M_def] obtain t1 where
    1: "dispatch_apply (merge_even cmp sz m ll) [0..<m div 2 * 2] (listp, tmps) = Some (listp, t1)" "scratch sz m t1"
      "\<forall>j<m div 2 * 2. take (length (M ! j)) (t1 ! j) = M ! j" by blast
  from copy_last_law [OF s 1(2) M_def 1(3)] obtain t2 where
    2: "(if m mod 2 \<noteq> 0
      then do { last \<leftarrow> rd_block listp ((m - 1) * sz) ll; tmp \<leftarrow> rd t1 (m - 1); tmp \<leftarrow> wr_block tmp 0 last;
                wr t1 (m - 1) tmp }
      else Some t1) = Some t2" "scratch sz m t2" "\<forall>j<m. take (length (M ! j)) (t2 ! j) = M ! j" by blast
  have tM: "tidy M" "map length M = map (sect_len sz m ll) [0..<m]"
    unfolding M_def using tidy_merge_pairs [OF t] length_sections [OF s] by simp_all
  have lM: "length M = m" unfolding M_def by simp
  have lj: "length (M ! j) = sect_len sz m ll j" if "j < m" for j
    using arg_cong [OF tM(2), of "\<lambda>xs. xs ! j"] that lM by simp
  from odd_phase_law [OF s tM 2(2,3)] obtain l3 where
    3: "dispatch_apply (merge_odd cmp sz m ll) [0..<(m - 1) div 2 * 2] (listp, t2) = Some (l3, t2)"
      "length l3 = length listp" "drop cnt l3 = drop cnt listp"
      "\<forall>j<(m - 1) div 2 * 2. section_at sz m ll l3 (j + 1) = merge_odds M ! (j + 1)" by blast
  note odd = 3(4)
  have m: "0 < m" "m - 1 < m" "0 < m - 1" using s(1) by (auto simp: shape_def)
  have tm: "length (t2 ! j) = sz" "j < length t2" if "j < m" for j using 2(2) that by (auto simp: scratch_def)
  have blk: "rd t2 j = Some (t2 ! j)" "rd_block (t2 ! j) 0 (sect_len sz m ll j) = Some (M ! j)" if "j < m" for j
    using tm [OF that] 2(3) [rule_format, OF that] lj [OF that] shape_len [OF s(1), of j] by simp_all
  have c3: "cnt \<le> length l3" using s(2) 3(2) by simp
  define l4 where "l4 = block_set l3 (0 * sz) (M ! 0)"
  have sl: "sect_len sz m ll 0 = sz" "sect_len sz m ll (m - 1) = ll" using m by (simp_all add: sect_len_def)
  note w4 = section_block_set [OF s(1) c3 m(1) lj [OF m(1)], folded l4_def]
  have c4: "cnt \<le> length l4" using c3 w4(1) by simp
  define l5 where "l5 = (if m mod 2 = 0 then block_set l4 ((m - 1) * sz) (M ! (m - 1)) else l4)"
  note w5 = section_block_set [OF s(1) c4 m(2) lj [OF m(2)]]
  have l5: "length l5 = length listp" "drop cnt l5 = drop cnt listp"
    "i < m \<Longrightarrow> section_at sz m ll l5 i = (if i = m - 1 \<and> even m then M ! i else if i = 0 then M ! i else section_at sz m ll l3 i)" for i
    using w4 w5 3(2,3) unfolding l5_def by (auto simp: even_iff_mod_2_eq_zero)
  have "merge_round cmp sz m ll (listp, tmps) = Some (l5, t2)"
    unfolding merge_round_def Let_def 1(1) Option.bind_lunit prod.case 2(1) 3(1) blk(1) [OF m(1)] blk(2) [OF m(1), unfolded sl(1)]
      section_wr [OF s(1) c3 m(1) lj [OF m(1)]] l4_def [symmetric] blk(1) [OF m(2)] blk(2) [OF m(2), unfolded sl(2)]
      section_wr [OF s(1) c4 m(2) lj [OF m(2)]] l5_def
    by (cases "m mod 2 = 0") simp_all
  moreover have "sections sz m ll l5 = merge_odds M"
  proof (rule nth_equalityI)
    fix i
    assume "i < length (sections sz m ll l5)"
    then have i: "i < m" by simp
    consider "i = 0" | "i = m - 1" "even m" "0 < i" | "0 < i" "\<not> (i = m - 1 \<and> even m)" by blast
    then have "section_at sz m ll l5 i = merge_odds M ! i"
    proof cases
      case 1
      then show ?thesis using l5(3) [OF i] lM m by (cases M) auto
    next
      case 2
      then show ?thesis using l5(3) [OF i] nth_merge_odds [of i M] i lM by simp
    next
      case 3
      then have "i - 1 < (m - 1) div 2 * 2" using i by (cases "even m") (auto elim!: evenE oddE)
      with odd have "section_at sz m ll l3 (i - 1 + 1) = merge_odds M ! (i - 1 + 1)" by blast
      then show ?thesis using l5(3) [OF i] 3 by auto
    qed
    then show "sections sz m ll l5 ! i = merge_odds M ! i" using i by simp
  qed (simp add: lM)
  ultimately show ?thesis using 2(2) l5(1,2) unfolding M_def by (intro exI conjI) simp_all
qed

lemma merge_rounds_law:
  assumes s: "shape sz m ll cnt" "cnt \<le> length listp" and t: "tidy (sections sz m ll listp)" and tmps: "scratch sz m tmps"
  shows "\<exists>l' tmps'. dispatch_apply (\<lambda>_. merge_round cmp sz m ll) [0..<n] (listp, tmps) = Some (l', tmps') \<and>
    length l' = length listp \<and> drop cnt l' = drop cnt listp \<and>
    sections sz m ll l' = ((merge_odds \<circ> merge_pairs) ^^ n) (sections sz m ll listp)"
proof -
  let ?I = "\<lambda>k st. scratch sz m (snd st) \<and> length (fst st) = length listp \<and> drop cnt (fst st) = drop cnt listp \<and>
    sections sz m ll (fst st) = ((merge_odds \<circ> merge_pairs) ^^ k) (sections sz m ll listp)"
  have "\<exists>st'. dispatch_apply (\<lambda>_. merge_round cmp sz m ll) [0..<n] (listp, tmps) = Some st' \<and> ?I n st'"
  proof (rule dispatch_apply_inv [where I = ?I])
    show "?I 0 (listp, tmps)" using tmps by simp
    fix k st
    assume I: "?I k st"
    obtain l tm where st: "st = (l, tm)" by (cases st) auto
    have l: "cnt \<le> length l" "scratch sz m tm" "tidy (sections sz m ll l)"
      using I s(2) rounds_keep(3) [OF t] unfolding st by simp_all
    from merge_round_law [OF s(1) l(1,3,2)] obtain l' tm' where
      "merge_round cmp sz m ll (l, tm) = Some (l', tm')" "scratch sz m tm'" "length l' = length l"
      "drop cnt l' = drop cnt l" "sections sz m ll l' = (merge_odds \<circ> merge_pairs) (sections sz m ll l)" by blast
    then show "\<exists>st'. merge_round cmp sz m ll st = Some st' \<and> ?I (Suc k) st'"
      using I unfolding st by simp
  qed
  then show ?thesis by (metis prod.collapse)
qed

lemma sort_sections_law:
  assumes s: "shape sz m ll cnt" and tmps: "scratch sz m tmps"
  shows "\<exists>l' tmps'. dispatch_apply (sort_section cmp sz m ll) [0..<m] ([0..<cnt] @ rest, tmps) = Some (l', tmps') \<and>
    scratch sz m tmps' \<and> length l' = cnt + length rest \<and> drop cnt l' = rest \<and>
    (\<forall>j<m. sorted_wrt before (section_at sz m ll l' j) \<and>
      mset (section_at sz m ll l' j) = mset [j * sz..<j * sz + sect_len sz m ll j])"
proof -
  let ?range = "\<lambda>j. [j * sz..<j * sz + sect_len sz m ll j]" and ?l0 = "[0..<cnt] @ rest"
  let ?I = "\<lambda>k st. scratch sz m (snd st) \<and> length (fst st) = cnt + length rest \<and> drop cnt (fst st) = rest \<and>
    (\<forall>j<m. if j < k then sorted_wrt before (section_at sz m ll (fst st) j) \<and>
        mset (section_at sz m ll (fst st) j) = mset (?range j)
      else section_at sz m ll (fst st) j = ?range j)"
  have "\<exists>st'. dispatch_apply (sort_section cmp sz m ll) [0..<m] (?l0, tmps) = Some st' \<and> ?I m st'"
  proof (rule dispatch_apply_inv [where I = ?I])
    have "section_at sz m ll ?l0 j = ?range j" if "j < m" for j
      using shape_end [OF s that] by (simp add: section_at_def)
    then show "?I 0 (?l0, tmps)" using tmps by simp
    fix k st
    assume k: "k < m" and I: "?I k st"
    obtain l tm where st: "st = (l, tm)" by (cases st) auto
    have l: "cnt \<le> length l" "scratch sz m tm" "section_at sz m ll l k = ?range k" using I k unfolding st by auto
    have t: "k < length tm" "length (tm ! k) = sz" using l(2) k by (auto simp: scratch_def)
    have fit: "k * sz + sect_len sz m ll k \<le> length l" using shape_end [OF s k] l(1) by simp
    have "sorted_wrt (<) (take (sect_len sz m ll k) (drop (k * sz) l))"
      using l(3) by (simp add: section_at_def)
    from CFSimpleMergeSort_law [OF fit _ this, of "tm ! k"] shape_len [OF s, of k] t(2) obtain t' zs where
      z: "CFSimpleMergeSort cmp l (k * sz) (sect_len sz m ll k) (tm ! k) = Some (block_set l (k * sz) zs, t')"
        "length t' = sz" "mset zs = mset (?range k)" "sorted_wrt before zs"
      using l(3) by (auto simp: section_at_def)
    have lz: "length zs = sect_len sz m ll k" using z(3) by (metis diff_add_inverse length_upt size_mset)
    note w = section_block_set [OF s l(1) k lz]
    have "sort_section cmp sz m ll k st = Some (block_set l (k * sz) zs, tm[k := t'])"
      using z(1) t(1) unfolding st sort_section_def prod.case Let_def sect_len_def by simp
    moreover have "?I (Suc k) (block_set l (k * sz) zs, tm[k := t'])"
    proof (intro conjI allI impI)
      show "scratch sz m (snd (block_set l (k * sz) zs, tm[k := t']))" using scratch_update [OF l(2) z(2), of k] by simp
      fix j
      assume j: "j < m"
      have other: "if j < k then sorted_wrt before (section_at sz m ll l j) \<and>
          mset (section_at sz m ll l j) = mset (?range j) else section_at sz m ll l j = ?range j"
        using I j unfolding st fst_conv by blast
      show "if j < Suc k then sorted_wrt before (section_at sz m ll (fst (block_set l (k * sz) zs, tm[k := t'])) j) \<and>
          mset (section_at sz m ll (fst (block_set l (k * sz) zs, tm[k := t'])) j) = mset (?range j)
        else section_at sz m ll (fst (block_set l (k * sz) zs, tm[k := t'])) j = ?range j"
        unfolding fst_conv w(3) [OF j] using other z(3,4) by (cases "j = k") (simp_all add: less_Suc_eq)
    qed (use I w(1,2) st in simp_all)
    ultimately show "\<exists>st'. sort_section cmp sz m ll k st = Some st' \<and> ?I (Suc k) st'" by blast
  qed
  then show ?thesis by (metis (mono_tags, lifting) prod.collapse)
qed

lemma sorted_sections_tidy:
  assumes s: "shape sz m ll cnt"
    and z: "\<And>j. j < m \<Longrightarrow> sorted_wrt before (section_at sz m ll l j) \<and>
      mset (section_at sz m ll l j) = mset [j * sz..<j * sz + sect_len sz m ll j]"
  shows "tidy (sections sz m ll l)"
proof -
  have "apart (section_at sz m ll l i) (section_at sz m ll l j)" if ij: "i < j" "j < m" for i j
  proof -
    have "(i + 1) * sz \<le> j * sz" using ij by (intro mult_le_mono1) simp
    then have "i * sz + sect_len sz m ll i \<le> j * sz" using shape_len [OF s, of i] by simp
    moreover have "set (section_at sz m ll l i) = {i * sz..<i * sz + sect_len sz m ll i}"
      "set (section_at sz m ll l j) = {j * sz..<j * sz + sect_len sz m ll j}"
      using z [of i] z [of j] ij by (metis set_mset_mset set_upt less_trans)+
    ultimately show ?thesis by (auto simp: apart_def)
  qed
  then show ?thesis using z by (auto simp: tidy_def sections_def sorted_wrt_iff_nth_less)
qed

lemma shape_cores:
  assumes "160 \<le> cnt" "2 \<le> n" "n \<le> 16"
  defines "sz \<equiv> ((((cnt + n - 1) div n) + 15) div 16) * 16"
  shows "shape sz ((cnt + sz - 1) div sz) (cnt + sz - sz * ((cnt + sz - 1) div sz)) cnt"
proof -
  let ?a = "(cnt + n - 1) div n" and ?m = "(cnt + sz - 1) div sz"
  have "?a * n \<le> cnt + n - 1" by simp
  have a: "?a \<le> cnt div 2 + 1"
  proof -
    have "cnt + n - 1 < (cnt div 2 + 2) * n"
    proof -
      have "cnt \<le> 2 * (cnt div 2) + 1" by simp
      also have "\<dots> \<le> (cnt div 2) * n + 1" using assms(2) by simp
      finally show ?thesis using assms(2) by (simp add: add_mult_distrib)
    qed
    then have "?a < cnt div 2 + 2" using assms(2) by (simp add: div_less_iff_less_mult)
    then show ?thesis by simp
  qed
  have "1 * n \<le> cnt + n - 1" using assms(1) by simp
  then have "1 \<le> ?a" using assms(2) by (subst less_eq_div_iff_mult_less_eq) simp_all
  moreover have "1 \<le> a \<Longrightarrow> 0 < (a + 15) div 16 * 16 \<and> (a + 15) div 16 * 16 \<le> a + 15" for a :: nat by presburger
  ultimately have sz: "0 < sz" "sz \<le> ?a + 15" unfolding sz_def by blast+
  then have small: "sz < cnt" using a assms(1) by linarith
  have m: "?m * sz \<le> cnt + sz - 1" "cnt + sz - 1 < ?m * sz + sz"
    using dividend_less_div_times [OF sz(1), of "cnt + sz - 1"] by (simp_all add: add.commute)
  have two: "2 \<le> ?m" using small sz(1) by (simp add: less_eq_div_iff_mult_less_eq)
  moreover have "cnt = (?m - 1) * sz + (cnt + sz - sz * ?m)"
  proof -
    obtain k where k: "?m = Suc k" using two by (cases ?m) auto
    show ?thesis using m(1) unfolding k by (simp add: mult.commute)
  qed
  moreover have "sz * ?m \<le> cnt + sz - 1" "cnt + sz - 1 < sz * ?m + sz" using m by (simp_all only: mult.commute)
  then have "0 < cnt + sz - sz * ?m" "cnt + sz - sz * ?m \<le> sz" using sz(1) by linarith+
  ultimately show ?thesis unfolding shape_def by blast
qed

lemma CFSortIndexesN_law:
  assumes cnt: "160 \<le> cnt" and n: "2 \<le> n" "n \<le> 16"
  shows "\<exists>idxs. CFSortIndexesN fresh cmp ([0..<cnt] @ rest) cnt n = Some (idxs @ rest) \<and>
    mset idxs = mset [0..<cnt] \<and> sorted_wrt before idxs"
proof -
  define sz where "sz = ((((cnt + n - 1) div n) + 15) div 16) * 16"
  define m ll where "m = (cnt + sz - 1) div sz" and "ll = cnt + sz - sz * m"
  have s: "shape sz m ll cnt" using shape_cores [OF cnt n] unfolding ll_def m_def sz_def .
  let ?tmps = "replicate m (map fresh [0..<sz])" and ?l0 = "[0..<cnt] @ rest"
  have "scratch sz m ?tmps" by (simp add: scratch_def)
  from sort_sections_law [OF s this, of rest] obtain l1 t1 where
    1: "dispatch_apply (sort_section cmp sz m ll) [0..<m] (?l0, ?tmps) = Some (l1, t1)" "scratch sz m t1"
      "length l1 = cnt + length rest" "drop cnt l1 = rest"
      "\<And>j. j < m \<Longrightarrow> sorted_wrt before (section_at sz m ll l1 j) \<and>
        mset (section_at sz m ll l1 j) = mset [j * sz..<j * sz + sect_len sz m ll j]" by blast
  have c: "cnt \<le> length l1" "cnt \<le> length ?l0" using 1(3) by simp_all
  have t: "tidy (sections sz m ll l1)" by (rule sorted_sections_tidy [OF s 1(5)])
  from merge_rounds_law [OF s c(1) t 1(2), of "(m + 1) div 2"] obtain l2 t2 where
    2: "dispatch_apply (\<lambda>_. merge_round cmp sz m ll) [0..<(m + 1) div 2] (l1, t1) = Some (l2, t2)"
      "length l2 = length l1" "drop cnt l2 = drop cnt l1"
      "sections sz m ll l2 = ((merge_odds \<circ> merge_pairs) ^^ ((m + 1) div 2)) (sections sz m ll l1)" by blast
  have m: "0 < m" "sections sz m ll l1 \<noteq> []" using s by (auto simp: shape_def sections_def)
  have "even_sections (int sz) (sections sz m ll l1)"
    using s length_section_at [OF s c(1)] by (auto simp: even_sections_def sect_len_def)
  moreover have "int (length (last (sections sz m ll l1))) \<le> int sz"
    using length_section_at [OF s c(1), of "m - 1"] shape_len [OF s, of "m - 1"] m by (simp add: last_conv_nth)
  ultimately have so: "sorted_wrt before (concat (sections sz m ll l2))"
    "mset (concat (sections sz m ll l2)) = mset (concat (sections sz m ll l1))"
    using odd_even_sorts(1,2) [OF t] unfolding 2(4) by simp_all
  have c2: "cnt \<le> length l2" using c(1) 2(2) by simp
  have "mset (concat (sections sz m ll l1)) = mset (concat (sections sz m ll ?l0))"
  proof -
    have "section_at sz m ll ?l0 j = [j * sz..<j * sz + sect_len sz m ll j]" if "j < m" for j
      using shape_end [OF s that] by (simp add: section_at_def)
    then have "map mset (sections sz m ll l1) = map mset (sections sz m ll ?l0)"
      using 1(5) by (auto simp: sections_def)
    then show ?thesis by (simp add: mset_concat)
  qed
  also have "concat (sections sz m ll ?l0) = [0..<cnt]" using concat_sections [OF s c(2)] by simp
  finally have "mset (take cnt l2) = mset [0..<cnt]" using so(2) concat_sections [OF s c2] by simp
  moreover have "sorted_wrt before (take cnt l2)" using so(1) concat_sections [OF s c2] by simp
  moreover have "l2 = take cnt l2 @ rest" using 2(3) 1(4) by (metis append_take_drop_id)
  moreover have "CFSortIndexesN fresh cmp ?l0 cnt n = Some l2"
    unfolding CFSortIndexesN_def Let_def sz_def [symmetric] m_def [symmetric] ll_def [symmetric] 1(1)
      Option.bind_lunit prod.case 2(1) by (rule refl)
  ultimately show ?thesis by metis
qed

end

lemma sort_cores_range:
  "sort_cores active cnt concurrent = (True, n) \<Longrightarrow> 160 \<le> cnt \<and> 2 \<le> n \<and> n \<le> 16"
  by (auto simp: sort_cores_def Let_def split: if_splits)

text \<open>C7. \<open>CFSortIndexes\<close>, sequential or concurrent and for any number of processors, returns the indexes
  from 0 to \<open>cnt - 1\<close>, each once, ordered by the comparison and stable, and leaves the rest of the
  buffer alone.\<close>

theorem CFSortIndexes_sorted:
  assumes "sort_order cmp" "cnt \<le> length buf" "1 \<le> cnt" "cnt \<le> (2 ^ 63 - 1) div 8"
  shows "\<exists>idxs. CFSortIndexes fresh active buf cnt opts cmp = Some (idxs @ drop cnt buf) \<and>
    mset idxs = mset [0..<cnt] \<and> sorted_wrt (index_before cmp) idxs"
proof (cases "fst (sort_cores active cnt (opts mod 2 = 1))")
  case False
  from CFSortIndexes_law [OF assms False, of fresh] show ?thesis unfolding before_eq [OF assms(1)] .
next
  case True
  then obtain n where n: "sort_cores active cnt (opts mod 2 = 1) = (True, n)" by (metis prod.collapse)
  have "CFSortIndexes fresh active buf cnt opts cmp = CFSortIndexesN fresh cmp ([0..<cnt] @ drop cnt buf) cnt n"
    using assms(3,4) n by (simp add: CFSortIndexes_def fill_indexes_law [OF assms(2)] not_less)
  with sort_order.CFSortIndexesN_law [OF assms(1), of cnt n] sort_cores_range [OF n] show ?thesis
    unfolding before_eq [OF assms(1)] by metis
qed

text \<open>A concurrent sort: 200 indexes on four processors.\<close>

lemma CFSortIndexes_sorted_witness:
  "fst (sort_cores 4 200 (1 mod 2 = (1 :: nat))) \<and>
   (\<exists>idxs. CFSortIndexes (\<lambda>_. 0) 4 (replicate 201 7) 200 1 (\<lambda>a b. cmp_of (a mod 10) (b mod 10)) =
      Some (idxs @ drop 200 (replicate 201 7)) \<and> mset idxs = mset [0..<200] \<and>
    sorted_wrt (index_before (\<lambda>a b. cmp_of (a mod 10) (b mod 10))) idxs)"
proof
  show "fst (sort_cores 4 200 (1 mod 2 = (1 :: nat)))" by (simp add: sort_cores_def)
  show "\<exists>idxs. CFSortIndexes (\<lambda>_. 0) 4 (replicate 201 7) 200 1 (\<lambda>a b. cmp_of (a mod 10) (b mod 10)) =
      Some (idxs @ drop 200 (replicate 201 7)) \<and> mset idxs = mset [0..<200] \<and>
    sorted_wrt (index_before (\<lambda>a b. cmp_of (a mod 10) (b mod 10))) idxs"
    by (rule CFSortIndexes_sorted) (simp_all add: key_order)
qed

end
