(* ===== verification/GregorianDate.thy ===== *)
theory GregorianDate
  imports CF_Prelude "HOL-Library.Monad_Syntax"
begin

text \<open>
  \<open>CFDate.c\<close>: the conversions between absolute times and Gregorian dates, adding units to a time,
  the difference of two times in units, and the day and week numbers.  A \<open>CFAbsoluteTime\<close> is a
  double; the model takes times of a whole number of seconds, as integers: such doubles, their sums
  and products here and the floor of their quotients are exact up to 2 to the 52 (\<open>exact_time\<close>), and the
  properties about times are for these.  The fields of dates and units are of 32 bits: sums that can leave
  the range are checked (\<open>c_int32\<close>), and an overflow, undefined in C, is \<open>None\<close>; the year of a date keeps the
  low 32 bits of the 64-bit year assigned to it.  The sums left unchecked move a month or a day back
  towards its range.  Day numbers, 64-bit integers in one direction and a double in the other, are integers.
  Divisions and remainders of C truncate (\<open>sdiv\<close>, \<open>smod\<close>).  A time zone is the function
  \<open>CFTimeZoneGetSecondsFromGMT\<close> of the zone, or \<open>None\<close> for a NULL zone.  Reading past a table of months is
  \<open>None\<close>, and so is a loop that does not end.
\<close>

section \<open>Small functions\<close>

type_synonym CFTimeZone = "(int \<Rightarrow> int) option"

text \<open>An \<open>int\<close> or \<open>SInt32\<close> result: out of range is undefined.\<close>

definition fits32 :: "int \<Rightarrow> bool" where
  "fits32 x \<longleftrightarrow> - (2 ^ 31) \<le> x \<and> x < 2 ^ 31"

definition c_int32 :: "int \<Rightarrow> int option" where
  "c_int32 x = (if fits32 x then Some x else None)"

lemma c_int32_fits [simp]: "fits32 x \<Longrightarrow> c_int32 x = Some x"
  by (simp add: c_int32_def)

definition CFDoubleModToInt :: "int \<Rightarrow> int \<Rightarrow> int" where
  "CFDoubleModToInt d modulus =
     (let result = d - (d div modulus) * modulus
      in if result < 0 then result + modulus else result)"

definition CFDoubleMod :: "int \<Rightarrow> int \<Rightarrow> int" where
  "CFDoubleMod d modulus =
     (let result = d - (d div modulus) * modulus
      in if result < 0 then result + modulus else result)"

definition daysInMonth :: "int list" where
  "daysInMonth = [0, 31, 28, 31, 30, 31, 30, 31, 31, 30, 31, 30, 31, 0, 0, 0]"

definition daysBeforeMonth :: "int list" where
  "daysBeforeMonth = [0, 0, 31, 59, 90, 120, 151, 181, 212, 243, 273, 304, 334, 365, 0, 0]"

definition daysAfterMonth :: "int list" where
  "daysAfterMonth = [365, 334, 306, 275, 245, 214, 184, 153, 122, 92, 61, 31, 0, 0, 0, 0]"

definition isleap :: "int \<Rightarrow> bool" where
  "isleap year =
     (let y = (year + 1) smod 400;
          y = (if y < 0 then - y else y)
      in 0 = y AND 3 \<and> 100 \<noteq> y \<and> 200 \<noteq> y \<and> 300 \<noteq> y)"

definition month_table :: "int list \<Rightarrow> int \<Rightarrow> int option" where
  "month_table table month = (if 0 \<le> month then rd table (nat month) else None)"

definition CFDaysInMonth :: "int \<Rightarrow> int \<Rightarrow> bool \<Rightarrow> int option" where
  "CFDaysInMonth month year leap =
     do { d \<leftarrow> month_table daysInMonth month; Some (d + of_bool (2 = month \<and> leap)) }"

definition CFDaysBeforeMonth :: "int \<Rightarrow> int \<Rightarrow> bool \<Rightarrow> int option" where
  "CFDaysBeforeMonth month year leap =
     do { d \<leftarrow> month_table daysBeforeMonth month; Some (d + of_bool (2 < month \<and> leap)) }"

definition CFDaysAfterMonth :: "int \<Rightarrow> int \<Rightarrow> bool \<Rightarrow> int option" where
  "CFDaysAfterMonth month year leap =
     do { d \<leftarrow> month_table daysAfterMonth month; Some (d + of_bool (month < 2 \<and> leap)) }"

section \<open>Days and dates\<close>

partial_function (option) years_down :: "int \<Rightarrow> int \<Rightarrow> (int \<times> int) option" where
  "years_down y absolute =
     (if absolute < 0
      then do { d \<leftarrow> CFDaysAfterMonth 0 (y - 1) (isleap (y - 1)); years_down (y - 1) (absolute + d) }
      else Some (y, absolute))"

partial_function (option) years_up :: "int \<Rightarrow> int \<Rightarrow> int \<Rightarrow> (int \<times> int) option" where
  "years_up y absolute ydays =
     (if ydays \<le> absolute
      then do { d \<leftarrow> CFDaysAfterMonth 0 (y + 1) (isleap (y + 1)); years_up (y + 1) (absolute - ydays) d }
      else Some (y, absolute))"

partial_function (option) find_month :: "int \<Rightarrow> bool \<Rightarrow> int \<Rightarrow> int \<Rightarrow> int option" where
  "find_month y leap absolute m =
     do { d \<leftarrow> CFDaysBeforeMonth (m + 1) y leap;
          if d \<le> absolute then find_month y leap absolute (m + 1) else Some m }"

definition CFYMDFromAbsolute :: "int \<Rightarrow> (int \<times> int \<times> int) option" where
  "CFYMDFromAbsolute absolute =
     (let b = absolute sdiv 146097;
          y = b * 400;
          absolute = absolute - b * 146097
      in do { (y, absolute) \<leftarrow> years_down y absolute;
              ydays \<leftarrow> CFDaysAfterMonth 0 y (isleap y);
              (y, absolute) \<leftarrow> years_up y absolute ydays;
              let leap = isleap y;
              m \<leftarrow> find_month y leap absolute (absolute sdiv 33 + 1);
              d \<leftarrow> CFDaysBeforeMonth m y leap;
              Some (y, m, absolute - d + 1) })"

fun sum_years :: "int list \<Rightarrow> int \<Rightarrow> int \<Rightarrow> int option" where
  "sum_years [] sign absolute = Some absolute"
| "sum_years (idx # idxs) sign absolute =
     do { d \<leftarrow> CFDaysAfterMonth 0 idx (isleap idx); sum_years idxs sign (absolute + sign * d) }"

definition CFAbsoluteFromYMD :: "int \<Rightarrow> int \<Rightarrow> int \<Rightarrow> int option" where
  "CFAbsoluteFromYMD year month day =
     (let b = year sdiv 400;
          absolute = b * 146097;
          year = year - b * 400
      in do { absolute \<leftarrow> (if year < 0 then sum_years [year..-1] (-1) absolute
                else sum_years [0..year - 1] 1 absolute);
              d \<leftarrow> CFDaysBeforeMonth month year (isleap year);
              Some (absolute + (d + day - 1)) })"

record CFGregorianDate =
  gd_year :: int
  gd_month :: int
  gd_day :: int
  gd_hour :: int
  gd_minute :: int
  gd_second :: int

text \<open>The unit flags: a set of bits, as the caller passes them.\<close>

record CFGregorianUnitFlags =
  kCFGregorianUnitsYears :: bool
  kCFGregorianUnitsMonths :: bool
  kCFGregorianUnitsDays :: bool
  kCFGregorianUnitsHours :: bool
  kCFGregorianUnitsMinutes :: bool
  kCFGregorianUnitsSeconds :: bool

definition CFGregorianDateIsValid :: "CFGregorianDate \<Rightarrow> CFGregorianUnitFlags \<Rightarrow> bool option" where
  "CFGregorianDateIsValid g f =
     (if kCFGregorianUnitsYears f \<and> gd_year g \<le> 0 then Some False
      else if kCFGregorianUnitsMonths f \<and> (gd_month g < 1 \<or> 12 < gd_month g) then Some False
      else if kCFGregorianUnitsDays f \<and> (gd_day g < 1 \<or> 31 < gd_day g) then Some False
      else if kCFGregorianUnitsHours f \<and> (gd_hour g < 0 \<or> 23 < gd_hour g) then Some False
      else if kCFGregorianUnitsMinutes f \<and> (gd_minute g < 0 \<or> 59 < gd_minute g) then Some False
      else if kCFGregorianUnitsSeconds f \<and> (gd_second g < 0 \<or> 60 \<le> gd_second g) then Some False
      else if kCFGregorianUnitsDays f \<and> kCFGregorianUnitsMonths f \<and> kCFGregorianUnitsYears f
      then do { d \<leftarrow> CFDaysInMonth (gd_month g) (gd_year g - 2001) (isleap (gd_year g - 2001));
                Some (if d < gd_day g then False else True) }
      else Some True)"

definition CFGregorianDateGetAbsoluteTime :: "CFGregorianDate \<Rightarrow> CFTimeZone \<Rightarrow> int option" where
  "CFGregorianDateGetAbsoluteTime gdate tz =
     do { year \<leftarrow> c_int32 (gd_year gdate - 2001);
          days \<leftarrow> CFAbsoluteFromYMD year (gd_month gdate) (gd_day gdate);
          let at = 86400 * days;
          let at = at + (3600 * gd_hour gdate + 60 * gd_minute gdate + gd_second gdate);
          Some (case tz of None \<Rightarrow> at
            | Some secondsFromGMT \<Rightarrow>
                let offset0 = secondsFromGMT at; offset1 = secondsFromGMT (at - offset0)
                in at - offset1) }"

definition fixed_at :: "int \<Rightarrow> CFTimeZone \<Rightarrow> int" where
  "fixed_at at tz = at + (case tz of None \<Rightarrow> 0 | Some secondsFromGMT \<Rightarrow> secondsFromGMT at)"

definition CFAbsoluteTimeGetGregorianDate :: "int \<Rightarrow> CFTimeZone \<Rightarrow> CFGregorianDate option" where
  "CFAbsoluteTimeGetGregorianDate at tz =
     (let fixedat = fixed_at at tz;
          absolute = fixedat div 86400
      in do { (year, month, day) \<leftarrow> CFYMDFromAbsolute absolute;
              let year = (if 2 ^ 31 - 1 - 2001 < year then 2 ^ 31 - 1 - 2001 else year);
              Some \<lparr>gd_year = signed_take_bit 31 (year + 2001), gd_month = month, gd_day = day,
                gd_hour = CFDoubleModToInt (fixedat div 3600) 24,
                gd_minute = CFDoubleModToInt (fixedat div 60) 60,
                gd_second = CFDoubleMod fixedat 60\<rparr> })"

section \<open>Adding units\<close>

record CFGregorianUnits =
  gu_years :: int
  gu_months :: int
  gu_days :: int
  gu_hours :: int
  gu_minutes :: int
  gu_seconds :: int

function months_down :: "int \<Rightarrow> int \<Rightarrow> (int \<times> int) option" where
  "months_down years months =
     (if 12 < months then do { years \<leftarrow> c_int32 (years + 1); months_down years (months - 12) }
      else Some (years, months))"
  by auto
termination by (relation "measure (\<lambda>(years, months). nat months)") auto

function months_up :: "int \<Rightarrow> int \<Rightarrow> (int \<times> int) option" where
  "months_up years months =
     (if months < 1 then do { years \<leftarrow> c_int32 (years - 1); months_up years (months + 12) }
      else Some (years, months))"
  by auto
termination by (relation "measure (\<lambda>(years, months). nat (1 - months))") auto

declare months_down.simps [simp del] months_up.simps [simp del]

definition month_days :: "int \<Rightarrow> int \<Rightarrow> int option" where
  "month_days years months =
     do { year \<leftarrow> c_int32 (years - 2001); CFDaysInMonth months year (isleap year) }"

partial_function (option) days_down :: "int \<Rightarrow> int \<Rightarrow> int \<Rightarrow> int \<Rightarrow> (int \<times> int \<times> int \<times> int) option" where
  "days_down years months days monthdays =
     (if monthdays < days
      then let months = months + 1
           in do { (years, months) \<leftarrow> (if 12 < months
                     then do { years \<leftarrow> c_int32 (years + 1); Some (years, months - 12) }
                     else Some (years, months));
                   let days = days - monthdays;
                   monthdays \<leftarrow> month_days years months; days_down years months days monthdays }
      else Some (years, months, days, monthdays))"

partial_function (option) days_up :: "int \<Rightarrow> int \<Rightarrow> int \<Rightarrow> (int \<times> int \<times> int) option" where
  "days_up years months days =
     (if days < 1
      then let months = months - 1
           in do { (years, months) \<leftarrow> (if months < 1
                     then do { years \<leftarrow> c_int32 (years - 1); Some (years, months + 12) }
                     else Some (years, months));
                   monthdays \<leftarrow> month_days years months; days_up years months (days + monthdays) }
      else Some (years, months, days))"

definition CFAbsoluteTimeAddGregorianUnits ::
  "int \<Rightarrow> CFTimeZone \<Rightarrow> CFGregorianUnits \<Rightarrow> int option" where
  "CFAbsoluteTimeAddGregorianUnits at tz units =
     do { gdate \<leftarrow> CFAbsoluteTimeGetGregorianDate at tz;
          years \<leftarrow> c_int32 (gd_year gdate + gu_years units);
          months \<leftarrow> c_int32 (gd_month gdate + gu_months units);
          (years, months) \<leftarrow> months_down years months;
          (years, months) \<leftarrow> months_up years months;
          monthdays \<leftarrow> month_days years months;
          let days = (if monthdays < gd_day gdate then monthdays else gd_day gdate);
          days \<leftarrow> c_int32 (days + gu_days units);
          (years, months, days, monthdays) \<leftarrow> days_down years months days monthdays;
          (years, months, days) \<leftarrow> days_up years months days;
          candidate_at0 \<leftarrow> CFGregorianDateGetAbsoluteTime
            (gdate\<lparr>gd_year := years, gd_month := months, gd_day := days\<rparr>) tz;
          Some (candidate_at0 + 3600 * gu_hours units + 60 * gu_minutes units + gu_seconds units) }"

section \<open>Differences and numbers\<close>

text \<open>\<open>((int32_t *)&units)[idx]\<close>.\<close>

definition unit_get :: "CFGregorianUnits \<Rightarrow> nat \<Rightarrow> int" where
  "unit_get u idx = (if idx = 0 then gu_years u else if idx = 1 then gu_months u
     else if idx = 2 then gu_days u else if idx = 3 then gu_hours u else gu_minutes u)"

definition unit_set :: "CFGregorianUnits \<Rightarrow> nat \<Rightarrow> int \<Rightarrow> CFGregorianUnits" where
  "unit_set u idx v = (if idx = 0 then u\<lparr>gu_years := v\<rparr> else if idx = 1 then u\<lparr>gu_months := v\<rparr>
     else if idx = 2 then u\<lparr>gu_days := v\<rparr> else if idx = 3 then u\<lparr>gu_hours := v\<rparr>
     else u\<lparr>gu_minutes := v\<rparr>)"

definition unit_flag :: "CFGregorianUnitFlags \<Rightarrow> nat \<Rightarrow> bool" where
  "unit_flag f idx = (if idx = 0 then kCFGregorianUnitsYears f else if idx = 1 then kCFGregorianUnitsMonths f
     else if idx = 2 then kCFGregorianUnitsDays f else if idx = 3 then kCFGregorianUnitsHours f
     else kCFGregorianUnitsMinutes f)"

definition unit_seconds :: "int list" where
  "unit_seconds = [366 * 24 * 3600, 31 * 24 * 3600, 24 * 3600, 3600, 60]"

text \<open>The \<open>do ... while\<close> loop: \<open>atold\<close> is the time before the last step.\<close>

partial_function (option) approximate ::
  "int \<Rightarrow> int \<Rightarrow> CFTimeZone \<Rightarrow> nat \<Rightarrow> int \<Rightarrow> CFGregorianUnits \<Rightarrow> int \<Rightarrow> (CFGregorianUnits \<times> int) option" where
  "approximate at1 at2 tz idx incr units atnew =
     (let atold = atnew
      in do { unit \<leftarrow> c_int32 (unit_get units idx + incr);
              let units = unit_set units idx unit;
              atnew \<leftarrow> CFAbsoluteTimeAddGregorianUnits at2 tz units;
              if (1 = incr \<and> atnew \<le> at1) \<or> (-1 = incr \<and> at1 \<le> atnew)
              then approximate at1 at2 tz idx incr units atnew
              else Some (units, atold) })"

fun approximate_units :: "int \<Rightarrow> int \<Rightarrow> CFTimeZone \<Rightarrow> CFGregorianUnitFlags \<Rightarrow> int \<Rightarrow> nat list \<Rightarrow>
    CFGregorianUnits \<Rightarrow> int \<Rightarrow> (CFGregorianUnits \<times> int) option" where
  "approximate_units at1 at2 tz f incr [] units atnew = Some (units, atnew)"
| "approximate_units at1 at2 tz f incr (idx # idxs) units atnew =
     (if unit_flag f idx
      then do { s \<leftarrow> rd unit_seconds idx;
                quotient \<leftarrow> c_int32 ((at1 - atnew) sdiv s);
                unit \<leftarrow> c_int32 (-3 * incr + quotient);
                (units, atold) \<leftarrow> approximate at1 at2 tz idx incr (unit_set units idx unit) atnew;
                unit \<leftarrow> c_int32 (unit_get units idx - incr);
                approximate_units at1 at2 tz f incr idxs (unit_set units idx unit) atold }
      else approximate_units at1 at2 tz f incr idxs units atnew)"

definition CFAbsoluteTimeGetDifferenceAsGregorianUnits ::
  "int \<Rightarrow> int \<Rightarrow> CFTimeZone \<Rightarrow> CFGregorianUnitFlags \<Rightarrow> CFGregorianUnits option" where
  "CFAbsoluteTimeGetDifferenceAsGregorianUnits at1 at2 tz unitFlags =
     (let units = \<lparr>gu_years = 0, gu_months = 0, gu_days = 0, gu_hours = 0, gu_minutes = 0, gu_seconds = 0\<rparr>;
          incr = (if at2 < at1 then 1 else -1)
      in do { (units, atnew) \<leftarrow> approximate_units at1 at2 tz unitFlags incr [0..<5] units at2;
              Some (if kCFGregorianUnitsSeconds unitFlags then units\<lparr>gu_seconds := at1 - atnew\<rparr> else units) })"

definition CFAbsoluteTimeGetDayOfWeek :: "int \<Rightarrow> CFTimeZone \<Rightarrow> int" where
  "CFAbsoluteTimeGetDayOfWeek at tz =
     (let absolute = fixed_at at tz div 86400
      in if absolute < 0 then (absolute + 1) smod 7 + 7 else absolute smod 7 + 1)"

definition CFAbsoluteTimeGetDayOfYear :: "int \<Rightarrow> CFTimeZone \<Rightarrow> int option" where
  "CFAbsoluteTimeGetDayOfYear at tz =
     (let absolute = fixed_at at tz div 86400
      in do { (year, month, day) \<leftarrow> CFYMDFromAbsolute absolute;
              d \<leftarrow> CFDaysBeforeMonth month year (isleap year);
              Some (d + day) })"

definition CFAbsoluteTimeGetWeekOfYear :: "int \<Rightarrow> CFTimeZone \<Rightarrow> int option" where
  "CFAbsoluteTimeGetWeekOfYear at tz =
     (let absolute = fixed_at at tz div 86400
      in do { (year, month, day) \<leftarrow> CFYMDFromAbsolute absolute;
              absolute0101 \<leftarrow> CFAbsoluteFromYMD year 1 1;
              let dow0101 = CFDoubleModToInt absolute0101 7 + 1;
              if 1 = month \<and> day < 4 \<and>
                (day < 4 \<and> 5 = dow0101 \<or> day < 3 \<and> 6 = dow0101 \<or> day < 2 \<and> 7 = dow0101)
              then Some 53
              else do {
                first \<leftarrow> (if 12 = month \<and> 28 < day
                  then do { absolute20101 \<leftarrow> CFAbsoluteFromYMD (year + 1) 1 1;
                            let dow20101 = CFDoubleModToInt absolute20101 7 + 1;
                            Some (28 < day \<and> 4 = dow20101 \<or> 29 < day \<and> 3 = dow20101 \<or> 30 < day \<and> 2 = dow20101) }
                  else Some False);
                if first then Some 1
                else do { d \<leftarrow> CFDaysBeforeMonth month year (isleap year);
                          Some ((d + day + (dow0101 - 11) smod 7 + 2) sdiv 7 + 1) } } })"

definition CFDateCompare :: "int \<Rightarrow> int \<Rightarrow> CFComparisonResult" where
  "CFDateCompare time otherTime =
     (if time < otherTime then kCFCompareLessThan
      else if time > otherTime then kCFCompareGreaterThan else kCFCompareEqualTo)"

definition CFDateGetTimeIntervalSinceDate :: "int \<Rightarrow> int \<Rightarrow> int" where
  "CFDateGetTimeIntervalSinceDate time otherTime = time - otherTime"

section \<open>The calendar\<close>

text \<open>The Gregorian rule for the year \<open>y + 2001\<close>, and the days from 2001-01-01 to its first day.\<close>

definition gregorian_leap :: "int \<Rightarrow> bool" where
  "gregorian_leap Y \<longleftrightarrow> Y mod 4 = 0 \<and> (Y mod 100 \<noteq> 0 \<or> Y mod 400 = 0)"

definition year_start :: "int \<Rightarrow> int" where
  "year_start y = 365 * y + (y + 2000) div 4 - (y + 2000) div 100 + (y + 2000) div 400 - 485"

lemma isleap_mod: "isleap y \<longleftrightarrow>
    (let r = (y + 1) mod 400 in r mod 4 = 0 \<and> r \<noteq> 100 \<and> r \<noteq> 200 \<and> r \<noteq> 300)"
proof -
  let ?a = "y + 1"
  have and3: "n AND 3 = n mod 4" for n :: int
    using take_bit_eq_mask [of 2 n] by (simp add: take_bit_eq_mod mask_eq_exp_minus_1)
  show ?thesis
  proof (cases "0 \<le> ?a")
    case True
    then have "?a smod 400 = ?a mod 400" by (simp add: signed_modulo_int_def signed_divide_int_def sgn_if minus_mult_div_eq_mod [symmetric] mult.commute)
    then show ?thesis by (auto simp: isleap_def and3 Let_def)
  next
    case False
    have "?a smod 400 = - ((- ?a) mod 400)" using False
      by (simp add: signed_modulo_int_def signed_divide_int_def sgn_if minus_mult_div_eq_mod [symmetric])
    moreover have "(- ?a) mod 400 = (if ?a mod 400 = 0 then 0 else 400 - ?a mod 400)"
      by (rule zmod_zminus1_eq_if [THEN trans]) simp
    ultimately have "isleap y \<longleftrightarrow> (let y = (if ?a mod 400 = 0 then 0 else 400 - ?a mod 400)
       in y mod 4 = 0 \<and> y \<noteq> 100 \<and> y \<noteq> 200 \<and> y \<noteq> 300)"
      by (auto simp: isleap_def and3 Let_def)
    moreover have "0 \<le> r \<Longrightarrow> r < 400 \<Longrightarrow> (if r = 0 then 0 else 400 - r) mod 4 = 0 \<longleftrightarrow> r mod 4 = 0" for r :: int
      by presburger
    from this [of "?a mod 400"] have "(if ?a mod 400 = 0 then 0 else 400 - ?a mod 400) mod 4 = 0 \<longleftrightarrow> ?a mod 400 mod 4 = 0"
      by simp
    ultimately show ?thesis unfolding Let_def by (simp split: if_splits) linarith?
  qed
qed

lemma century: "r mod 100 = 0 \<longleftrightarrow> r = 0 \<or> r = 100 \<or> r = 200 \<or> r = 300" if "0 \<le> r" "r < 400" for r :: int
proof
  assume "r mod 100 = 0"
  then obtain k where "r = 100 * k" by (auto simp: mod_eq_0_iff_dvd elim: dvdE)
  moreover from this that have "k = 0 \<or> k = 1 \<or> k = 2 \<or> k = 3" by auto
  ultimately show "r = 0 \<or> r = 100 \<or> r = 200 \<or> r = 300" by auto
qed auto

lemma isleap_gregorian: "isleap y = gregorian_leap (y + 2001)"
proof -
  define r where "r = (y + 1) mod 400"
  have "y + 2001 = (y + 1) + 400 * 5" by simp
  then have 400: "(y + 2001) mod 400 = r" unfolding r_def by (simp only: mod_mult_self2)
  have "(y + 2001) mod 4 = r mod 4" "(y + 2001) mod 100 = r mod 100"
    unfolding 400 [symmetric] by (simp_all add: mod_mod_cancel)
  moreover have "r mod 100 = 0 \<longleftrightarrow> r = 0 \<or> r = 100 \<or> r = 200 \<or> r = 300" by (rule century) (simp_all add: r_def)
  ultimately show ?thesis unfolding isleap_mod gregorian_leap_def Let_def r_def [symmetric] 400 by auto
qed

lemma div_step: "0 < k \<Longrightarrow> (x + 1) div k = x div k + of_bool ((x + 1) mod k = 0)" for x k :: int
proof -
  assume k: "0 < k"
  have r: "0 \<le> x mod k" "x mod k < k" using k by simp_all
  have x: "x = k * (x div k) + x mod k" by simp
  show ?thesis
  proof (cases "x mod k + 1 = k")
    case True
    have "x + 1 = k * (x div k) + (x mod k + 1)" using x by linarith
    then have e: "x + 1 = k * (x div k + 1) + 0" unfolding True by (simp only: distrib_left mult_1_right add_0_right)
    from int_div_pos_eq [OF e] int_mod_pos_eq [OF e] k show ?thesis by simp
  next
    case False
    have e: "x + 1 = k * (x div k) + (x mod k + 1)" using x by linarith
    from int_div_pos_eq [OF e] int_mod_pos_eq [OF e] r False show ?thesis by simp
  qed
qed

lemma leap_count: "(r \<longrightarrow> q) \<Longrightarrow> (q \<longrightarrow> p) \<Longrightarrow>
    of_bool (p \<and> (\<not> q \<or> r)) = (of_bool p - of_bool q + of_bool r :: int)"
  by (cases p; cases q; cases r) simp_all

lemma year_sum: "365 * (y + 1) + (a + p) - (b + q) + (c + r) - 485 =
    365 * y + a - b + c - 485 + 365 + (p - q + r)" for y :: int
  by simp

lemma year_start_step: "year_start (y + 1) = year_start y + 365 + of_bool (isleap y)"
proof -
  define z where "z = y + 2000"
  have e: "y + 1 + 2000 = z + 1" "y + 2001 = z + 1" "y + 2000 = z" by (simp_all add: z_def)
  have m: "(z + 1) mod 400 = 0 \<longrightarrow> (z + 1) mod 100 = 0" "(z + 1) mod 100 = 0 \<longrightarrow> (z + 1) mod 4 = 0"
    by (auto simp: mod_eq_0_iff_dvd elim: dvd_trans [rotated])
  have d: "(z + 1) div 4 = z div 4 + of_bool ((z + 1) mod 4 = 0)"
    "(z + 1) div 100 = z div 100 + of_bool ((z + 1) mod 100 = 0)"
    "(z + 1) div 400 = z div 400 + of_bool ((z + 1) mod 400 = 0)" by (rule div_step; simp)+
  show ?thesis unfolding year_start_def isleap_gregorian gregorian_leap_def e d leap_count [OF m]
    by (rule year_sum)
qed

lemma year_start_0 [simp]: "year_start 0 = 0"
  by (simp add: year_start_def)

lemma year_start_400: "year_start (y + 400 * b) = year_start y + 146097 * b"
proof -
  have d: "(z + c * k) div c = z div c + k" if "0 < c" for z c k :: int using that by (simp add: add.commute)
  have e: "y + 400 * b + 2000 = (y + 2000) + 4 * (100 * b)" "y + 400 * b + 2000 = (y + 2000) + 100 * (4 * b)"
    "y + 400 * b + 2000 = (y + 2000) + 400 * b" by simp_all
  have 4: "(y + 400 * b + 2000) div 4 = (y + 2000) div 4 + 100 * b" unfolding e(1) by (rule d) simp
  have 100: "(y + 400 * b + 2000) div 100 = (y + 2000) div 100 + 4 * b" unfolding e(2) by (rule d) simp
  have 400: "(y + 400 * b + 2000) div 400 = (y + 2000) div 400 + b" unfolding e(3) by (rule d) simp
  have sum: "365 * (y + 400 * b) + (p + 100 * b) - (q + 4 * b) + (r + b) - 485 = 365 * y + p - q + r - 485 + 146097 * b"
    for p q r :: int by simp
  show ?thesis unfolding year_start_def 4 100 400 by (rule sum)
qed

lemma isleap_400: "isleap (y + 400 * b) = isleap y"
  unfolding isleap_mod by (simp add: add.commute [of y] add.assoc)

lemma year_start_mono: "y \<le> z \<Longrightarrow> year_start y \<le> year_start z"
proof (induction z rule: int_ge_induct)
  case (step i)
  then show ?case using year_start_step [of i] by (simp add: of_bool_def split: if_splits)
qed simp

lemma year_start_strict: "y < z \<Longrightarrow> year_start y < year_start z"
  using year_start_mono [of "y + 1" z] year_start_step [of y] by (simp add: of_bool_def split: if_splits)

lemma days_of_year: "CFDaysAfterMonth 0 y leap = Some (365 + of_bool leap)"
  by (simp add: CFDaysAfterMonth_def month_table_def daysAfterMonth_def)

definition before_month :: "int \<Rightarrow> bool \<Rightarrow> int" where
  "before_month m leap = daysBeforeMonth ! nat m + of_bool (2 < m \<and> leap)"

definition month_length :: "int \<Rightarrow> bool \<Rightarrow> int" where
  "month_length m leap = daysInMonth ! nat m + of_bool (2 = m \<and> leap)"

text \<open>A day of the calendar, and its number counted from 2001-01-01.\<close>

definition date_ok :: "int \<Rightarrow> int \<Rightarrow> int \<Rightarrow> bool" where
  "date_ok y m d \<longleftrightarrow> 1 \<le> m \<and> m \<le> 12 \<and> 1 \<le> d \<and> d \<le> month_length m (isleap y)"

definition day_number :: "int \<Rightarrow> int \<Rightarrow> int \<Rightarrow> int" where
  "day_number y m d = year_start y + before_month m (isleap y) + d - 1"

lemma month_cases:
  assumes "1 \<le> m" "m \<le> 12"
  obtains "m = 1" | "m = 2" | "m = 3" | "m = 4" | "m = 5" | "m = 6" | "m = 7" | "m = 8" | "m = 9"
    | "m = 10" | "m = 11" | "m = (12 :: int)"
proof -
  have "m = 1 \<or> m = 2 \<or> m = 3 \<or> m = 4 \<or> m = 5 \<or> m = 6 \<or> m = 7 \<or> m = 8 \<or> m = 9 \<or> m = 10 \<or> m = 11 \<or> m = 12"
    using assms by arith
  then show thesis using that by blast
qed

lemma nth_month: "[x0, x1, x2, x3, x4, x5, x6, x7, x8, x9, x10, x11, x12, x13, x14, x15] ! nat (numeral k) =
    [x0, x1, x2, x3, x4, x5, x6, x7, x8, x9, x10, x11, x12, x13, x14, x15] ! numeral k"
  by simp

lemma CFDaysBeforeMonth_val: "0 \<le> m \<Longrightarrow> m \<le> 15 \<Longrightarrow> CFDaysBeforeMonth m y leap = Some (before_month m leap)"
  by (simp add: CFDaysBeforeMonth_def month_table_def before_month_def daysBeforeMonth_def)

lemma CFDaysInMonth_val: "0 \<le> m \<Longrightarrow> m \<le> 15 \<Longrightarrow> CFDaysInMonth m y leap = Some (month_length m leap)"
  by (simp add: CFDaysInMonth_def month_table_def month_length_def daysInMonth_def)

lemma before_step: "1 \<le> m \<Longrightarrow> m \<le> 12 \<Longrightarrow> before_month (m + 1) leap = before_month m leap + month_length m leap"
  by (erule (1) month_cases; cases leap;
    simp add: before_month_def month_length_def daysBeforeMonth_def daysInMonth_def)

lemma before_ends [simp]: "before_month 1 leap = 0" "before_month 13 leap = 365 + of_bool leap"
  by (simp_all add: before_month_def daysBeforeMonth_def)

lemma month_length_bounds: "1 \<le> m \<Longrightarrow> m \<le> 12 \<Longrightarrow> 28 \<le> month_length m leap \<and> month_length m leap \<le> 31"
  by (erule (1) month_cases; cases leap; simp add: month_length_def daysInMonth_def)

lemma before_guess: "1 \<le> m \<Longrightarrow> m \<le> 12 \<Longrightarrow> before_month m leap \<le> 33 * (m - 1)"
  by (erule (1) month_cases; cases leap; simp add: before_month_def daysBeforeMonth_def)

lemma before_mono: "m \<le> n \<Longrightarrow> 1 \<le> m \<Longrightarrow> n \<le> 13 \<Longrightarrow> before_month m leap \<le> before_month n leap"
proof (induction n rule: int_ge_induct)
  case (step i)
  then show ?case using before_step [of i leap] month_length_bounds [of i leap] by simp
qed simp

lemma date_in_year:
  "date_ok y m d \<Longrightarrow> year_start y \<le> day_number y m d \<and> day_number y m d < year_start (y + 1)"
proof -
  assume ok: "date_ok y m d"
  have "before_month (m + 1) (isleap y) \<le> before_month 13 (isleap y)" "0 \<le> before_month m (isleap y)"
    using ok before_mono [of "m + 1" 13 "isleap y"] before_mono [of 1 m "isleap y"] by (auto simp: date_ok_def)
  then show ?thesis using ok before_step [of m "isleap y"]
    by (simp add: date_ok_def day_number_def year_start_step)
qed

lemma day_number_inj:
  assumes a: "date_ok y m d" and b: "date_ok y' m' d'" and eq: "day_number y m d = day_number y' m' d'"
  shows "y = y' \<and> m = m' \<and> d = d'"
proof -
  have "\<not> y < y'" "\<not> y' < y"
    using date_in_year [OF a] date_in_year [OF b] eq year_start_mono [of "y + 1" y'] year_start_mono [of "y' + 1" y]
    by auto
  then have y: "y = y'" by simp
  have "\<not> m < m'" if "date_ok y m d" "date_ok y m' d'" "day_number y m d = day_number y m' d'" for m d m' d'
    using that before_step [of m "isleap y"] before_mono [of "m + 1" m' "isleap y"]
    by (auto simp: date_ok_def day_number_def)
  from this [of m d m' d'] this [of m' d' m d] a b eq y have "m = m'" by auto
  with eq y show ?thesis by (simp add: day_number_def)
qed

lemma years_down_law:
  "\<exists>y' a'. years_down y a = Some (y', a') \<and> year_start y' + a' = year_start y + a \<and> 0 \<le> a'"
proof (induction "nat (- a)" arbitrary: y a rule: less_induct)
  case less
  show ?case
  proof (cases "a < 0")
    case True
    let ?d = "365 + of_bool (isleap (y - 1))"
    have "nat (- (a + ?d)) < nat (- a)" using True by (auto simp: of_bool_def)
    from less [OF this, of "y - 1"] obtain y' a' where
      "years_down (y - 1) (a + ?d) = Some (y', a')" "year_start y' + a' = year_start (y - 1) + (a + ?d)" "0 \<le> a'"
      by blast
    then show ?thesis using True year_start_step [of "y - 1"]
      by (subst years_down.simps) (simp add: days_of_year)
  next
    case False
    then show ?thesis by (simp add: years_down.simps)
  qed
qed

lemma years_up_law:
  "0 \<le> a \<Longrightarrow> \<exists>y' a'. years_up y a (365 + of_bool (isleap y)) = Some (y', a') \<and>
     year_start y' + a' = year_start y + a \<and> 0 \<le> a' \<and> a' < 365 + of_bool (isleap y')"
proof (induction "nat a" arbitrary: y a rule: less_induct)
  case less
  let ?d = "365 + of_bool (isleap y)"
  show ?case
  proof (cases "?d \<le> a")
    case True
    have "nat (a - ?d) < nat a" using True less.prems by (simp add: of_bool_def split: if_splits)
    from less.hyps [OF this, of "y + 1"] True obtain y' a' where
      "years_up (y + 1) (a - ?d) (365 + of_bool (isleap (y + 1))) = Some (y', a')"
      "year_start y' + a' = year_start (y + 1) + (a - ?d)" "0 \<le> a'" "a' < 365 + of_bool (isleap y')"
      by auto
    then show ?thesis using True year_start_step [of y]
      by (subst years_up.simps) (simp add: days_of_year)
  next
    case False
    then show ?thesis using less.prems by (simp add: years_up.simps)
  qed
qed

lemma find_month_law:
  "1 \<le> m \<Longrightarrow> m \<le> 12 \<Longrightarrow> before_month m leap \<le> a \<Longrightarrow> a < 365 + of_bool leap \<Longrightarrow>
   \<exists>m'. find_month y leap a m = Some m' \<and> 1 \<le> m' \<and> m' \<le> 12 \<and> before_month m' leap \<le> a \<and>
     a < before_month (m' + 1) leap"
proof (induction "nat (12 - m)" arbitrary: m rule: less_induct)
  case less
  have v: "CFDaysBeforeMonth (m + 1) y leap = Some (before_month (m + 1) leap)"
    using less.prems by (simp add: CFDaysBeforeMonth_val)
  show ?case
  proof (cases "before_month (m + 1) leap \<le> a")
    case True
    then have "m \<noteq> 12" using less.prems(4) by auto
    then show ?thesis using less.hyps [of "m + 1"] less.prems True v
      by (subst find_month.simps) auto
  next
    case False
    then show ?thesis using less.prems v by (subst find_month.simps) auto
  qed
qed

lemma CFYMDFromAbsolute_law:
  "\<exists>y m d. CFYMDFromAbsolute a = Some (y, m, d) \<and> date_ok y m d \<and> day_number y m d = a"
proof -
  let ?b = "a sdiv 146097"
  obtain y1 a1 where 1: "years_down (?b * 400) (a - ?b * 146097) = Some (y1, a1)"
    "year_start y1 + a1 = year_start (?b * 400) + (a - ?b * 146097)" "0 \<le> a1"
    using years_down_law by blast
  have base: "year_start (?b * 400) = ?b * 146097" using year_start_400 [of 0 ?b] by (simp add: mult.commute)
  from years_up_law [OF 1(3), of y1] obtain y2 a2 where
    2: "years_up y1 a1 (365 + of_bool (isleap y1)) = Some (y2, a2)" "year_start y2 + a2 = year_start y1 + a1"
    "0 \<le> a2" "a2 < 365 + of_bool (isleap y2)" by blast
  let ?m = "a2 sdiv 33 + 1"
  have m: "?m = a2 div 33 + 1" using 2(3) by (simp add: signed_divide_int_def sgn_if)
  have "a2 \<le> 365" using 2(4) by (simp add: of_bool_def split: if_splits)
  then have mr: "1 \<le> ?m" "?m \<le> 12" unfolding m using 2(3) by (simp_all add: pos_imp_zdiv_nonneg_iff) 
  have "before_month ?m (isleap y2) \<le> a2"
    using before_guess [OF mr, of "isleap y2"] unfolding m by simp
  from find_month_law [OF mr this 2(4), of y2] obtain m' where
    3: "find_month y2 (isleap y2) a2 ?m = Some m'" "1 \<le> m'" "m' \<le> 12" "before_month m' (isleap y2) \<le> a2"
    "a2 < before_month (m' + 1) (isleap y2)" by blast
  have "CFYMDFromAbsolute a = Some (y2, m', a2 - before_month m' (isleap y2) + 1)"
    using 1(1) 2(1) 3(1-3) by (simp add: CFYMDFromAbsolute_def days_of_year CFDaysBeforeMonth_val)
  moreover have "date_ok y2 m' (a2 - before_month m' (isleap y2) + 1)"
    using 3(2-5) before_step [of m' "isleap y2"] by (simp add: date_ok_def)
  moreover have "day_number y2 m' (a2 - before_month m' (isleap y2) + 1) = a"
    using 1(2) 2(2) base by (simp add: day_number_def)
  ultimately show ?thesis by blast
qed

lemma sum_up: "0 \<le> n \<Longrightarrow> sum_years [y..y + n - 1] 1 a = Some (a + (year_start (y + n) - year_start y))"
proof (induction "nat n" arbitrary: n y a)
  case (Suc k)
  then have n: "0 < n" by simp
  have "sum_years [y + 1..y + 1 + (n - 1) - 1] 1 (a + (365 + of_bool (isleap y))) =
      Some (a + (365 + of_bool (isleap y)) + (year_start (y + 1 + (n - 1)) - year_start (y + 1)))"
    by (rule Suc.hyps(1)) (use Suc.hyps(2) n in auto)
  moreover have "[y..y + n - 1] = y # [y + 1..y + n - 1]" using n by (subst upto.simps) simp
  ultimately show ?case by (simp add: days_of_year year_start_step)
qed simp

lemma sum_down: "0 \<le> n \<Longrightarrow> sum_years [y..y + n - 1] (-1) a = Some (a - (year_start (y + n) - year_start y))"
proof (induction "nat n" arbitrary: n y a)
  case (Suc k)
  then have n: "0 < n" by simp
  have "sum_years [y + 1..y + 1 + (n - 1) - 1] (-1) (a - (365 + of_bool (isleap y))) =
      Some (a - (365 + of_bool (isleap y)) - (year_start (y + 1 + (n - 1)) - year_start (y + 1)))"
    by (rule Suc.hyps(1)) (use Suc.hyps(2) n in auto)
  moreover have "[y..y + n - 1] = y # [y + 1..y + n - 1]" using n by (subst upto.simps) simp
  ultimately show ?case by (simp add: days_of_year year_start_step)
qed simp

lemma CFAbsoluteFromYMD_law:
  assumes "1 \<le> m" "m \<le> 12"
  shows "CFAbsoluteFromYMD y m d = Some (day_number y m d)"
proof -
  let ?b = "y sdiv 400"
  define y' where "y' = y - ?b * 400"
  have y: "y = y' + 400 * ?b" by (simp add: y'_def)
  have "(if y' < 0 then sum_years [y'..-1] (-1) (?b * 146097) else sum_years [0..y' - 1] 1 (?b * 146097)) =
      Some (?b * 146097 + year_start y')"
    using sum_down [of "- y'" y' "?b * 146097"] sum_up [of y' 0 "?b * 146097"] by simp
  moreover have "CFDaysBeforeMonth m y' (isleap y') = Some (before_month m (isleap y))"
    using assms isleap_400 [of y' ?b] y by (simp add: CFDaysBeforeMonth_val)
  ultimately have "CFAbsoluteFromYMD y m d = Some (?b * 146097 + year_start y' + (before_month m (isleap y) + d - 1))"
    unfolding CFAbsoluteFromYMD_def Let_def y'_def [symmetric] by simp
  moreover have "?b * 146097 + year_start y' = year_start y"
    using year_start_400 [of y' ?b] y by (simp add: mult.commute)
  ultimately show ?thesis by (simp add: day_number_def)
qed

section \<open>Times of day and zones of a fixed offset\<close>

definition fixed_zone :: "CFTimeZone \<Rightarrow> int \<Rightarrow> bool" where
  "fixed_zone tz c \<longleftrightarrow> tz = None \<and> c = 0 \<or> tz = Some (\<lambda>_. c)"

lemma fixed_at_zone: "fixed_zone tz c \<Longrightarrow> fixed_at at tz = at + c"
  by (auto simp: fixed_zone_def fixed_at_def)

lemma CFDoubleModToInt_mod: "0 < k \<Longrightarrow> CFDoubleModToInt x k = x mod k"
  by (simp add: CFDoubleModToInt_def minus_div_mult_eq_mod Let_def not_less)

lemma CFDoubleMod_mod: "0 < k \<Longrightarrow> CFDoubleMod x k = x mod k"
  by (simp add: CFDoubleMod_def minus_div_mult_eq_mod Let_def not_less)

lemma split_time: "86400 * (t div 86400) + (3600 * (t div 3600 mod 24) + 60 * (t div 60 mod 60) + t mod 60) = (t :: int)"
proof -
  have e: "t div 86400 = t div 3600 div 24" "t div 3600 = t div 60 div 60"
    using zdiv_zmult2_eq [of 24 t 3600] zdiv_zmult2_eq [of 60 t 60] by simp_all
  have lin: "t = 60 * a + s \<Longrightarrow> a = 60 * b + m \<Longrightarrow> b = 24 * q + h \<Longrightarrow>
      86400 * q + (3600 * h + 60 * m + s) = t" for a b q h m s :: int by simp
  show ?thesis
    unfolding e(1) by (rule lin [of "t div 60" _ "t div 3600"]) (simp_all only: e(2) mult_div_mod_eq)
qed

lemma join_time:
  assumes "0 \<le> h" "h \<le> 23" "0 \<le> m" "m \<le> 59" "0 \<le> s" "s < (60 :: int)"
    and t: "t = 86400 * n + (3600 * h + 60 * m + s)"
  shows "t div 86400 = n" "t div 3600 mod 24 = h" "t div 60 mod 60 = m" "t mod 60 = s"
proof -
  have a: "t = 60 * (1440 * n + 60 * h + m) + s" by (simp add: t)
  have b: "1440 * n + 60 * h + m = 60 * (24 * n + h) + m" by simp
  have c: "24 * n + h = 24 * n + h" ..
  have m60: "t div 60 = 1440 * n + 60 * h + m" and s: "t mod 60 = s"
    using int_div_pos_eq [OF a] int_mod_pos_eq [OF a] assms(5,6) by simp_all
  have h60: "(1440 * n + 60 * h + m) div 60 = 24 * n + h" and m: "(1440 * n + 60 * h + m) mod 60 = m"
    using int_div_pos_eq [OF b] int_mod_pos_eq [OF b] assms(3,4) by simp_all
  have "t div 3600 = t div 60 div 60" using zdiv_zmult2_eq [of 60 t 60] by simp
  then have "t div 3600 mod 24 = (24 * n + h) mod 24" unfolding m60 h60 by (rule arg_cong)
  also have "\<dots> = h" by (rule int_mod_pos_eq [OF c]) (use assms(1,2) in simp_all)
  finally show "t div 3600 mod 24 = h" .
  show "t div 60 mod 60 = m" unfolding m60 by (rule m)
  show "t mod 60 = s" by (rule s)
  from int_div_pos_eq [OF t] assms show "t div 86400 = n" by simp
qed

text \<open>The times, in seconds, and the days for which the double arithmetic is exact: about 142 million
  years before and after 2001.\<close>

definition exact_time :: "int \<Rightarrow> bool" where
  "exact_time t \<longleftrightarrow> \<bar>t\<bar> \<le> 2 ^ 52"

definition exact_day :: "int \<Rightarrow> bool" where
  "exact_day n \<longleftrightarrow> \<bar>n\<bar> \<le> 53000000000"

lemma exact_time_day: "exact_time t \<Longrightarrow> exact_day (t div 86400)"
  by (simp add: exact_time_def exact_day_def)

lemma exact_time_days: "exact_time (86400 * n) \<Longrightarrow> exact_day n"
  by (simp add: exact_time_def exact_day_def abs_if split: if_splits)

lemma year_start_diff:
  "0 \<le> k \<Longrightarrow> year_start y + 365 * k \<le> year_start (y + k) \<and> year_start (y + k) \<le> year_start y + 366 * k"
proof (induction k rule: int_ge_induct)
  case (step i)
  then show ?case using year_start_step [of "y + i"]
    by (cases "isleap (y + i)") (simp_all add: add.assoc)
qed simp

lemma year_upper: "year_start y \<le> n \<Longrightarrow> exact_day n \<Longrightarrow> y \<le> 150000000"
  using year_start_diff [of y 0] by (cases "0 \<le> y") (auto simp: exact_day_def)

lemma year_lower: "n < year_start (y + 1) \<Longrightarrow> exact_day n \<Longrightarrow> -150000000 \<le> y"
  using year_start_diff [of "- (y + 1)" "y + 1"] by (cases "0 \<le> y") (auto simp: exact_day_def)

lemma exact_year: "date_ok y m d \<Longrightarrow> exact_day (day_number y m d) \<Longrightarrow> \<bar>y\<bar> \<le> 150000000"
  using year_upper [of y] year_lower [of _ y] date_in_year by (fastforce simp: abs_le_iff)

text \<open>A year counted from 2001 whose two ways of counting fit in 32 bits.\<close>

definition year_ok :: "int \<Rightarrow> bool" where
  "year_ok y \<longleftrightarrow> fits32 y \<and> fits32 (y + 2001)"

lemma year_ok_small: "\<bar>y\<bar> \<le> 150000000 \<Longrightarrow> year_ok y"
  by (simp add: year_ok_def fits32_def abs_le_iff)

lemma year_ok_between: "year_ok a \<Longrightarrow> year_ok b \<Longrightarrow> a \<le> y \<Longrightarrow> y \<le> b \<Longrightarrow> year_ok y"
  by (simp add: year_ok_def fits32_def)

lemma signed_take_bit_fits: "fits32 x \<Longrightarrow> signed_take_bit 31 x = x"
  by (simp add: fits32_def signed_take_bit_int_eq_self)

lemma GetGregorianDate_law:
  assumes "date_ok y m d" "day_number y m d = fixed_at at tz div 86400" "year_ok y"
  shows "CFAbsoluteTimeGetGregorianDate at tz = Some \<lparr>gd_year = y + 2001, gd_month = m, gd_day = d,
      gd_hour = fixed_at at tz div 3600 mod 24, gd_minute = fixed_at at tz div 60 mod 60,
      gd_second = fixed_at at tz mod 60\<rparr>"
proof -
  have "CFYMDFromAbsolute (fixed_at at tz div 86400) = Some (y, m, d)"
    using CFYMDFromAbsolute_law [of "fixed_at at tz div 86400"] day_number_inj [OF _ assms(1)] assms(2) by auto
  moreover have "y \<le> 2 ^ 31 - 1 - 2001" "fits32 (y + 2001)" using assms(3) by (simp_all add: year_ok_def fits32_def)
  ultimately show ?thesis
    by (simp add: CFAbsoluteTimeGetGregorianDate_def CFDoubleModToInt_mod CFDoubleMod_mod Let_def signed_take_bit_fits)
qed

lemma GetAbsoluteTime_law:
  assumes "fixed_zone tz c" "1 \<le> gd_month g" "gd_month g \<le> 12" "fits32 (gd_year g - 2001)"
  shows "CFGregorianDateGetAbsoluteTime g tz =
    Some (86400 * day_number (gd_year g - 2001) (gd_month g) (gd_day g) +
      (3600 * gd_hour g + 60 * gd_minute g + gd_second g) - c)"
  using assms by (auto simp: CFGregorianDateGetAbsoluteTime_def CFAbsoluteFromYMD_law fixed_zone_def)

definition all_units :: CFGregorianUnitFlags where
  "all_units = \<lparr>kCFGregorianUnitsYears = True, kCFGregorianUnitsMonths = True, kCFGregorianUnitsDays = True,
     kCFGregorianUnitsHours = True, kCFGregorianUnitsMinutes = True, kCFGregorianUnitsSeconds = True\<rparr>"

lemma IsValid_iff: "CFGregorianDateIsValid g all_units = Some True \<longleftrightarrow>
    0 < gd_year g \<and> date_ok (gd_year g - 2001) (gd_month g) (gd_day g) \<and> 0 \<le> gd_hour g \<and> gd_hour g \<le> 23 \<and>
    0 \<le> gd_minute g \<and> gd_minute g \<le> 59 \<and> 0 \<le> gd_second g \<and> gd_second g < 60"
proof (cases "1 \<le> gd_month g \<and> gd_month g \<le> 12")
  case True
  then have "CFDaysInMonth (gd_month g) (gd_year g - 2001) (isleap (gd_year g - 2001)) =
      Some (month_length (gd_month g) (isleap (gd_year g - 2001)))" by (simp add: CFDaysInMonth_val)
  with True month_length_bounds [of "gd_month g" "isleap (gd_year g - 2001)"] show ?thesis
    by (auto simp: CFGregorianDateIsValid_def all_units_def date_ok_def)
qed (auto simp: CFGregorianDateIsValid_def all_units_def date_ok_def)

section \<open>Adding units\<close>

lemma months_down_law:
  assumes r: "0 \<le> r" "r < 12"
  shows "0 \<le> q \<Longrightarrow> fits32 y \<Longrightarrow> fits32 (y + q) \<Longrightarrow> months_down y (12 * q + r + 1) = Some (y + q, r + 1)"
proof (induction q arbitrary: y rule: int_ge_induct)
  case base
  then show ?case using r by (simp add: months_down.simps [of _ "r + 1"])
next
  case (step q)
  then have f: "fits32 (y + 1)" "fits32 (y + 1 + q)" by (simp_all add: fits32_def)
  have e: "12 * (q + 1) + r + 1 - 12 = 12 * q + r + 1" "12 < 12 * (q + 1) + r + 1" using step.hyps r by simp_all
  show ?case
    unfolding months_down.simps [of y "12 * (q + 1) + r + 1"] e(1) if_P [OF e(2)] c_int32_fits [OF f(1)] Option.bind_lunit
      step.IH [OF f] by simp
qed

lemma months_up_law:
  assumes r: "0 \<le> r" "r < 12"
  shows "q \<le> 0 \<Longrightarrow> fits32 y \<Longrightarrow> fits32 (y + q) \<Longrightarrow> months_up y (12 * q + r + 1) = Some (y + q, r + 1)"
proof (induction q arbitrary: y rule: int_le_induct)
  case base
  then show ?case using r by (simp add: months_up.simps [of _ "r + 1"])
next
  case (step q)
  then have f: "fits32 (y - 1)" "fits32 (y - 1 + q)" by (simp_all add: fits32_def)
  have e: "12 * (q - 1) + r + 1 + 12 = 12 * q + r + 1" "12 * (q - 1) + r + 1 < 1" using step.hyps r by simp_all
  show ?case
    unfolding months_up.simps [of y "12 * (q - 1) + r + 1"] e(1) if_P [OF e(2)] c_int32_fits [OF f(1)] Option.bind_lunit
      step.IH [OF f] by simp
qed

text \<open>Only one of the two loops runs.\<close>

lemma months_normal:
  assumes "fits32 y" "fits32 (y + (m - 1) div 12)"
  shows "\<exists>y1 m1. months_down y m = Some (y1, m1) \<and> months_up y1 m1 = Some (y + (m - 1) div 12, (m - 1) mod 12 + 1)"
proof -
  define q r where "q = (m - 1) div 12" and "r = (m - 1) mod 12"
  have m: "m = 12 * q + r + 1" and r: "0 \<le> r" "r < 12" by (simp_all add: q_def r_def)
  have f: "fits32 y" "fits32 (y + q)" using assms by (simp_all add: q_def)
  show ?thesis unfolding q_def [symmetric] r_def [symmetric]
  proof (cases "0 \<le> q")
    case True
    have "months_up (y + q) (r + 1) = Some (y + q, r + 1)" using months_up_law [OF r, of 0 "y + q"] f by simp
    with months_down_law [OF r True f]
    show "\<exists>y1 m1. months_down y m = Some (y1, m1) \<and> months_up y1 m1 = Some (y + q, r + 1)" unfolding m by blast
  next
    case False
    then have "months_down y m = Some (y, m)" using r unfolding m by (simp add: months_down.simps [of y "12 * q + r + 1"])
    with months_up_law [OF r _ f] False
    show "\<exists>y1 m1. months_down y m = Some (y1, m1) \<and> months_up y1 m1 = Some (y + q, r + 1)" unfolding m by auto
  qed
qed

lemma month_days_val:
  "1 \<le> m \<Longrightarrow> m \<le> 12 \<Longrightarrow> fits32 (y - 2001) \<Longrightarrow> month_days y m = Some (month_length m (isleap (y - 2001)))"
  by (simp add: month_days_def CFDaysInMonth_val)

lemma day_number_next: "1 \<le> m \<Longrightarrow> m \<le> 12 \<Longrightarrow>
    day_number (if 12 < m + 1 then y + 1 else y) (if 12 < m + 1 then m + 1 - 12 else m + 1) (d - month_length m (isleap y)) =
    day_number y m d"
  using before_step [of m "isleap y"]
  by (cases "m = 12") (auto simp: day_number_def year_start_step)

lemma day_number_year: "1 \<le> m \<Longrightarrow> m \<le> 12 \<Longrightarrow> 1 \<le> d \<Longrightarrow> year_start y \<le> day_number y m d"
  using before_mono [of 1 m "isleap y"] by (simp add: day_number_def)

lemma day_number_year_end: "1 \<le> m \<Longrightarrow> m \<le> 12 \<Longrightarrow> d \<le> month_length m (isleap y) \<Longrightarrow>
    day_number y m d < year_start (y + 1)"
  using before_mono [of "m + 1" 13 "isleap y"] before_step [of m "isleap y"]
  by (simp add: day_number_def year_start_step)

lemma days_down_law:
  "1 \<le> m \<Longrightarrow> m \<le> 12 \<Longrightarrow> year_ok (y - 2001) \<Longrightarrow> exact_day (day_number (y - 2001) m d) \<Longrightarrow> \<exists>y' m' d' l'.
     days_down y m d (month_length m (isleap (y - 2001))) = Some (y', m', d', l') \<and> 1 \<le> m' \<and> m' \<le> 12 \<and>
     d' \<le> month_length m' (isleap (y' - 2001)) \<and> year_ok (y' - 2001) \<and>
     day_number (y' - 2001) m' d' = day_number (y - 2001) m d"
proof (induction "nat d" arbitrary: y m d rule: less_induct)
  case less
  let ?l = "month_length m (isleap (y - 2001))"
  show ?case
  proof (cases "?l < d")
    case True
    define y1 m1 where "y1 = (if 12 < m + 1 then y + 1 else y)" and "m1 = (if 12 < m + 1 then m + 1 - 12 else m + 1)"
    have m1: "1 \<le> m1" "m1 \<le> 12" using less.prems by (auto simp: m1_def)
    have n: "day_number (y1 - 2001) m1 (d - ?l) = day_number (y - 2001) m d"
      using day_number_next [OF less.prems(1,2), of "y - 2001" d] by (simp add: y1_def m1_def split: if_splits)
    have "y1 - 2001 \<le> 150000000"
      by (rule year_upper [OF _ less.prems(4)]) (use True m1 day_number_year [of m1 "d - ?l" "y1 - 2001"] n in simp)
    moreover have "y - 2001 \<le> y1 - 2001" by (simp add: y1_def)
    ultimately have ok: "year_ok (y1 - 2001)"
      using less.prems(3) by (intro year_ok_between [OF less.prems(3) year_ok_small [of 150000000]]) simp_all
    then have f: "fits32 y1" "fits32 (y1 - 2001)" by (simp_all add: year_ok_def)
    have "0 < ?l" using month_length_bounds [OF less.prems(1,2), of "isleap (y - 2001)"] by simp
    then have "nat (d - ?l) < nat d" using True by simp
    from less.hyps [OF this m1 ok] less.prems(4) obtain y' m' d' l' where
      r: "days_down y1 m1 (d - ?l) (month_length m1 (isleap (y1 - 2001))) = Some (y', m', d', l')"
      "1 \<le> m'" "m' \<le> 12" "d' \<le> month_length m' (isleap (y' - 2001))" "year_ok (y' - 2001)"
      "day_number (y' - 2001) m' d' = day_number (y - 2001) m d" unfolding n by blast
    have p: "(if 12 < m + 1 then do { years \<leftarrow> c_int32 (y + 1); Some (years, m + 1 - 12) } else Some (y, m + 1)) = Some (y1, m1)"
      using f(1) by (simp add: y1_def m1_def split: if_splits)
    have "days_down y m d ?l = Some (y', m', d', l')"
      unfolding days_down.simps [of y m d ?l] if_P [OF True] Let_def p Option.bind_lunit prod.case
        month_days_val [OF m1 f(2)] by (rule r(1))
    with r show ?thesis by blast
  next
    case False
    then show ?thesis using less.prems by (subst days_down.simps) auto
  qed
qed

lemma days_up_law:
  "1 \<le> m \<Longrightarrow> m \<le> 12 \<Longrightarrow> d \<le> month_length m (isleap (y - 2001)) \<Longrightarrow> year_ok (y - 2001) \<Longrightarrow>
   exact_day (day_number (y - 2001) m d) \<Longrightarrow> \<exists>y' m' d'.
     days_up y m d = Some (y', m', d') \<and> date_ok (y' - 2001) m' d' \<and>
     day_number (y' - 2001) m' d' = day_number (y - 2001) m d"
proof (induction "nat (1 - d)" arbitrary: y m d rule: less_induct)
  case less
  show ?case
  proof (cases "d < 1")
    case True
    define y1 m1 where "y1 = (if m - 1 < 1 then y - 1 else y)" and "m1 = (if m - 1 < 1 then m - 1 + 12 else m - 1)"
    let ?l = "month_length m1 (isleap (y1 - 2001))"
    have m1: "1 \<le> m1" "m1 \<le> 12" using less.prems by (auto simp: m1_def)
    have l: "28 \<le> ?l" using month_length_bounds [OF m1, of "isleap (y1 - 2001)"] by simp
    have n: "day_number (y1 - 2001) m1 (d + ?l) = day_number (y - 2001) m d"
      using day_number_next [OF m1, of "y1 - 2001" "d + ?l"] less.prems(1,2)
      by (simp add: y1_def m1_def split: if_splits)
    have "-150000000 \<le> y1 - 2001"
      by (rule year_lower [OF _ less.prems(5)]) (use True m1 day_number_year_end [of m1 "d + ?l" "y1 - 2001"] n in simp)
    then have ok: "year_ok (y1 - 2001)"
      by (intro year_ok_between [OF year_ok_small [of "-150000000"] less.prems(4)]) (simp_all add: y1_def)
    then have f: "fits32 y1" "fits32 (y1 - 2001)" by (simp_all add: year_ok_def)
    have "nat (1 - (d + ?l)) < nat (1 - d)" "d + ?l \<le> ?l" using True l by simp_all
    from less.hyps [OF this(1) m1 this(2) ok] less.prems(5) obtain y' m' d' where
      r: "days_up y1 m1 (d + ?l) = Some (y', m', d')" "date_ok (y' - 2001) m' d'"
      "day_number (y' - 2001) m' d' = day_number (y - 2001) m d" unfolding n by blast
    have p: "(if m - 1 < 1 then do { years \<leftarrow> c_int32 (y - 1); Some (years, m - 1 + 12) } else Some (y, m - 1)) = Some (y1, m1)"
      using f(1) by (simp add: y1_def m1_def split: if_splits)
    have "days_up y m d = Some (y', m', d')"
      unfolding days_up.simps [of y m d] if_P [OF True] Let_def p Option.bind_lunit prod.case
        month_days_val [OF m1 f(2)] by (rule r(1))
    with r show ?thesis by blast
  next
    case False
    then show ?thesis using less.prems by (subst days_up.simps) (simp add: date_ok_def)
  qed
qed

text \<open>The date that years and months lead to, the day clamped to the month.\<close>

definition shifted :: "int \<Rightarrow> int \<Rightarrow> int \<Rightarrow> int \<Rightarrow> int \<Rightarrow> int" where
  "shifted y m d years months =
     (let Y = y + years + (m + months - 1) div 12; M = (m + months - 1) mod 12 + 1
      in day_number Y M (min d (month_length M (isleap Y))))"

text \<open>The units that can be added to the date: no 32-bit sum overflows on the way, neither the year,
  before and after the months are reduced and also as it is passed on, less 2001, nor the month nor
  the day; and the date reached is one with an exact time.\<close>

definition units_fit :: "int \<Rightarrow> int \<Rightarrow> int \<Rightarrow> CFGregorianUnits \<Rightarrow> bool" where
  "units_fit y m d u \<longleftrightarrow>
     (let Y = y + gu_years u + (m + gu_months u - 1) div 12; M = (m + gu_months u - 1) mod 12 + 1
      in fits32 (y + 2001 + gu_years u) \<and> fits32 (m + gu_months u) \<and> fits32 (Y + 2001) \<and> fits32 Y \<and>
        fits32 (min d (month_length M (isleap Y)) + gu_days u) \<and>
        exact_time (86400 * (shifted y m d (gu_years u) (gu_months u) + gu_days u)))"

lemma AddGregorianUnits_law:
  assumes zone: "fixed_zone tz c" and ymd: "date_ok y m d" "day_number y m d = (at + c) div 86400"
    and ok: "year_ok y" and fit: "units_fit y m d units"
  shows "CFAbsoluteTimeAddGregorianUnits at tz units = Some
    (86400 * (shifted y m d (gu_years units) (gu_months units) + gu_days units) + (at + c) mod 86400 - c +
     3600 * gu_hours units + 60 * gu_minutes units + gu_seconds units)"
proof -
  let ?t = "at + c"
  let ?g = "\<lparr>gd_year = y + 2001, gd_month = m, gd_day = d, gd_hour = ?t div 3600 mod 24,
    gd_minute = ?t div 60 mod 60, gd_second = ?t mod 60\<rparr>"
  have g: "CFAbsoluteTimeGetGregorianDate at tz = Some ?g"
    using GetGregorianDate_law [of y m d at tz] ymd ok unfolding fixed_at_zone [OF zone] by simp
  define Y M where "Y = y + gu_years units + (m + gu_months units - 1) div 12"
    and "M = (m + gu_months units - 1) mod 12 + 1"
  let ?l = "month_length M (isleap Y)"
  let ?D = "(if ?l < d then ?l else d) + gu_days units"
  have D: "?D = min d ?l + gu_days units" by simp
  note f = fit [unfolded units_fit_def Let_def, folded Y_def M_def]
  have years: "c_int32 (gd_year ?g + gu_years units) = Some (y + 2001 + gu_years units)"
    and months: "c_int32 (gd_month ?g + gu_months units) = Some (m + gu_months units)"
    and days: "c_int32 ?D = Some ?D" using f unfolding D by simp_all
  have C: "day_number Y M ?D = shifted y m d (gu_years units) (gu_months units) + gu_days units"
    unfolding shifted_def Y_def [symmetric] M_def [symmetric] Let_def D by (simp add: day_number_def)
  have day: "exact_day (day_number Y M ?D)" unfolding C by (rule exact_time_days) (use f in blast)
  have M: "1 \<le> M" "M \<le> 12" unfolding M_def by (simp_all add: pos_mod_bound zless_imp_add1_zle)
  have e: "y + 2001 + gu_years units + (m + gu_months units - 1) div 12 = Y + 2001" by (simp add: Y_def)
  have "fits32 (y + 2001 + gu_years units)" "fits32 (Y + 2001)" using f by blast+
  from months_normal [of "y + 2001 + gu_years units" "m + gu_months units", unfolded e, OF this] obtain y1 m1 where
    n: "months_down (y + 2001 + gu_years units) (m + gu_months units) = Some (y1, m1)"
      "months_up y1 m1 = Some (Y + 2001, M)" unfolding M_def by blast
  have l: "month_days (Y + 2001) M = Some ?l" using month_days_val [OF M, of "Y + 2001"] f by simp
  have yok: "year_ok (Y + 2001 - 2001)" using f by (simp add: year_ok_def)
  from days_down_law [OF M yok, of ?D] day obtain y2 m2 d2 l2 where
    2: "days_down (Y + 2001) M ?D ?l = Some (y2, m2, d2, l2)" "1 \<le> m2" "m2 \<le> 12"
    "d2 \<le> month_length m2 (isleap (y2 - 2001))" "year_ok (y2 - 2001)" "day_number (y2 - 2001) m2 d2 = day_number Y M ?D" by auto
  from days_up_law [OF 2(2-5)] day obtain y3 m3 d3 where
    3: "days_up y2 m2 d2 = Some (y3, m3, d3)" "date_ok (y3 - 2001) m3 d3"
    "day_number (y3 - 2001) m3 d3 = day_number Y M ?D" unfolding 2(6) by blast
  have "1 \<le> m3" "m3 \<le> 12" using 3(2) by (auto simp: date_ok_def)
  moreover have "fits32 (y3 - 2001)"
    using year_ok_small [OF exact_year [OF 3(2)]] day unfolding 3(3) by (simp add: year_ok_def)
  ultimately have A: "CFGregorianDateGetAbsoluteTime (?g\<lparr>gd_year := y3, gd_month := m3, gd_day := d3\<rparr>) tz =
      Some (86400 * day_number Y M ?D + (3600 * (?t div 3600 mod 24) + 60 * (?t div 60 mod 60) + ?t mod 60) - c)"
    using GetAbsoluteTime_law [OF zone, of "?g\<lparr>gd_year := y3, gd_month := m3, gd_day := d3\<rparr>"] 3(3) by simp
  have B: "3600 * (?t div 3600 mod 24) + 60 * (?t div 60 mod 60) + ?t mod 60 = ?t mod 86400"
    by (rule add_left_imp_eq [of "86400 * (?t div 86400)"]) (simp only: split_time mult_div_mod_eq)
  have day_g: "gd_day ?g = d" by simp
  show ?thesis
    unfolding CFAbsoluteTimeAddGregorianUnits_def g Option.bind_lunit Let_def years months n prod.case l day_g days
      2(1) 3(1) A B C by (rule refl)
qed

section \<open>The difference of two times\<close>

definition month_start :: "int \<Rightarrow> int" where
  "month_start T = day_number (T div 12) (T mod 12 + 1) 1"

lemma month_start_step: "month_start (T + 1) = month_start T + month_length (T mod 12 + 1) (isleap (T div 12))"
proof -
  have r: "0 \<le> T mod 12" "T mod 12 < 12" by simp_all
  have T: "T = 12 * (T div 12) + T mod 12" by simp
  have m: "1 \<le> T mod 12 + 1" "T mod 12 + 1 \<le> 12" using r by linarith+
  show ?thesis
  proof (cases "T mod 12 = 11")
    case True
    have "a = 12 * q + r \<Longrightarrow> r = 11 \<Longrightarrow> a + 1 = 12 * (q + 1) + 0" for a q r :: int by simp
    from this [OF T True] have e: "T + 1 = 12 * (T div 12 + 1) + 0" .
    have "(T + 1) div 12 = T div 12 + 1" "(T + 1) mod 12 = 0"
      using int_div_pos_eq [OF e] int_mod_pos_eq [OF e] by simp_all
    then show ?thesis using True before_step [OF m, of "isleap (T div 12)"]
      by (simp add: month_start_def day_number_def year_start_step)
  next
    case False
    have e: "T + 1 = 12 * (T div 12) + (T mod 12 + 1)" using T by linarith
    have "(T + 1) div 12 = T div 12" "(T + 1) mod 12 = T mod 12 + 1"
      using int_div_pos_eq [OF e] int_mod_pos_eq [OF e] r False by simp_all
    then show ?thesis using before_step [OF m, of "isleap (T div 12)"]
      by (simp add: month_start_def day_number_def)
  qed
qed

lemma month_start_diff:
  "0 \<le> k \<Longrightarrow> month_start T + 28 * k \<le> month_start (T + k) \<and> month_start (T + k) \<le> month_start T + 31 * k"
proof (induction k rule: int_ge_induct)
  case (step i)
  have "1 \<le> (T + i) mod 12 + 1" "(T + i) mod 12 + 1 \<le> 12"
    using pos_mod_bound [of 12 "T + i"] pos_mod_sign [of 12 "T + i"] by linarith+
  from month_length_bounds [OF this, of "isleap ((T + i) div 12)"] month_start_step [of "T + i"] step.IH
  show ?case by (simp add: add.assoc)
qed simp

lemma shifted_months:
  assumes "1 \<le> d" "d \<le> 31"
  shows "month_start (12 * (y + years) + (m + months - 1)) \<le> shifted y m d years months \<and>
    shifted y m d years months \<le> month_start (12 * (y + years) + (m + months - 1)) + 30 \<and>
    (d \<le> 28 \<longrightarrow> shifted y m d years months = month_start (12 * (y + years) + (m + months - 1)) + d - 1) \<and>
    (28 \<le> d \<longrightarrow> month_start (12 * (y + years) + (m + months - 1)) + 27 \<le> shifted y m d years months)"
proof -
  let ?T = "12 * (y + years) + (m + months - 1)"
  have Td: "?T div 12 = y + years + (m + months - 1) div 12" by (simp only: div_mult_self4 [of 12])
  have Tm: "?T mod 12 = (m + months - 1) mod 12" by (rule mod_mult_self4)
  have "1 \<le> ?T mod 12 + 1" "?T mod 12 + 1 \<le> 12"
    using pos_mod_bound [of 12 ?T] pos_mod_sign [of 12 ?T] by linarith+
  from month_length_bounds [OF this, of "isleap (?T div 12)"]
  have "28 \<le> month_length (?T mod 12 + 1) (isleap (?T div 12))" by simp
  then show ?thesis using assms
    unfolding shifted_def Let_def Td [symmetric] Tm [symmetric] month_start_def day_number_def by auto
qed

text \<open>One more month is at least 25 days and at most 34, one more year at least 362 and at most 369,
  and many are many times more.\<close>

lemma shifted_month_diff:
  assumes "1 \<le> d" "d \<le> 31" "0 \<le> k"
  shows "28 * k - 3 \<le> shifted y m d years (months + k) - shifted y m d years months \<and>
    shifted y m d years (months + k) - shifted y m d years months \<le> 31 * k + 3"
proof -
  have e: "12 * (y + years) + (m + (months + k) - 1) = 12 * (y + years) + (m + months - 1) + k" by simp
  show ?thesis
    using shifted_months [OF assms(1,2), of y years m months] shifted_months [OF assms(1,2), of y years m "months + k"]
      month_start_diff [OF assms(3), of "12 * (y + years) + (m + months - 1)"]
    unfolding e by (cases "d \<le> 28") auto
qed

lemma shifted_year_diff:
  assumes "1 \<le> m" "m \<le> 12" "1 \<le> d" "d \<le> 31" "0 \<le> k"
  shows "365 * k - 2 \<le> shifted y m d (years + k) months - shifted y m d years months \<and>
    shifted y m d (years + k) months - shifted y m d years months \<le> 366 * k + 2"
proof -
  let ?q = "(m + months - 1) div 12" and ?M = "(m + months - 1) mod 12 + 1"
  have M: "1 \<le> ?M" "?M \<le> 12" by (simp_all add: pos_mod_bound zless_imp_add1_zle)
  have b: "before_month ?M l - before_month ?M l' \<le> 1" "month_length ?M l - month_length ?M l' \<le> 1"
    "before_month ?M l' - before_month ?M l \<le> 1" "month_length ?M l' - month_length ?M l \<le> 1" for l l'
    by (auto simp: before_month_def month_length_def)
  have e: "y + (years + k) + ?q = y + years + ?q + k" by simp
  have mn: "min d a - min d b \<le> 1" if "a - b \<le> 1" for a b :: int using that by auto
  show ?thesis
    using year_start_diff [OF assms(5), of "y + years + ?q"] b(1) [of "isleap (y + years + ?q + k)" "isleap (y + years + ?q)"]
      b(1) [of "isleap (y + years + ?q)" "isleap (y + years + ?q + k)"]
      mn [OF b(2) [of "isleap (y + years + ?q + k)" "isleap (y + years + ?q)"]]
      mn [OF b(2) [of "isleap (y + years + ?q)" "isleap (y + years + ?q + k)"]]
    unfolding shifted_def Let_def e day_number_def by (intro conjI; linarith)
qed

text \<open>The time that units lead to from a fixed start \<open>(y, m, d)\<close> at second \<open>t\<close> of the day.\<close>

definition added :: "int \<Rightarrow> int \<Rightarrow> int \<Rightarrow> int \<Rightarrow> CFGregorianUnits \<Rightarrow> int" where
  "added y m d t u = 86400 * (shifted y m d (gu_years u) (gu_months u) + gu_days u) + t +
     3600 * gu_hours u + 60 * gu_minutes u + gu_seconds u"

lemma idx_cases: "idx < 5 \<Longrightarrow> (idx = 0 \<Longrightarrow> P) \<Longrightarrow> (idx = 1 \<Longrightarrow> P) \<Longrightarrow> (idx = 2 \<Longrightarrow> P) \<Longrightarrow>
    (idx = 3 \<Longrightarrow> P) \<Longrightarrow> (idx = 4 \<Longrightarrow> P) \<Longrightarrow> P" for idx :: nat
  by linarith

lemma unit_get_other: "idx < 5 \<Longrightarrow> j < 5 \<Longrightarrow> j \<noteq> idx \<Longrightarrow> unit_get (unit_set u idx v) j = unit_get u j"
  unfolding unit_get_def unit_set_def by (simp; linarith)

lemma unit_set_simps [simp]:
  "idx < 5 \<Longrightarrow> unit_get (unit_set u idx v) idx = v"
  "idx < 5 \<Longrightarrow> unit_set (unit_set u idx v) idx w = unit_set u idx w"
  "idx < 5 \<Longrightarrow> unit_set u idx (unit_get u idx) = u"
  "gu_seconds (unit_set u idx v) = gu_seconds u"
  by (auto simp: unit_get_def unit_set_def)

text \<open>The shortest length of a unit, in seconds.\<close>

definition unit_least :: "int list" where
  "unit_least = [365 * 24 * 3600, 28 * 24 * 3600, 24 * 3600, 3600, 60]"

lemma unit_lengths: "idx < 5 \<Longrightarrow> 60 \<le> unit_least ! idx \<and> unit_least ! idx \<le> unit_seconds ! idx \<and>
    unit_seconds ! idx \<le> 366 * 86400"
  by (erule idx_cases) (simp_all add: unit_least_def unit_seconds_def)

text \<open>One more unit is at most its largest length, up to the two units of slack the search leaves on
  either side, and at least its shortest but for one unit.\<close>

lemma added_step:
  fixes y m d t n k :: int and u :: CFGregorianUnits and idx :: nat
  assumes "1 \<le> m" "m \<le> 12" "1 \<le> d" "d \<le> 31" "idx < 5" "0 \<le> k"
  defines "G \<equiv> \<lambda>k. added y m d t (unit_set u idx k)"
  shows "unit_least ! idx * (k - 1) \<le> G (n + k) - G n" "G (n + k) - G n \<le> unit_seconds ! idx * (k + 2)"
    "k \<noteq> 0 \<Longrightarrow> G n \<le> G (n + k)"
proof -
  have "unit_least ! idx * (k - 1) \<le> G (n + k) - G n \<and> G (n + k) - G n \<le> unit_seconds ! idx * (k + 2) \<and>
      (k \<noteq> 0 \<longrightarrow> G n \<le> G (n + k))"
    using assms(5)
  proof (rule idx_cases)
    assume "idx = 0"
    then show ?thesis using shifted_year_diff [OF assms(1-4,6), of y n "gu_months u"] assms(6)
      by (simp add: G_def added_def unit_set_def unit_seconds_def unit_least_def)
  next
    assume "idx = 1"
    then show ?thesis using shifted_month_diff [OF assms(3,4,6), of y m "gu_years u" n] assms(6)
      by (simp add: G_def added_def unit_set_def unit_seconds_def unit_least_def)
  qed (use assms(6) in \<open>simp_all add: G_def added_def unit_set_def unit_seconds_def unit_least_def\<close>)
  then show "unit_least ! idx * (k - 1) \<le> G (n + k) - G n" "G (n + k) - G n \<le> unit_seconds ! idx * (k + 2)"
    "k \<noteq> 0 \<Longrightarrow> G n \<le> G (n + k)" by simp_all
qed

text \<open>The search on a function that grows: from three below the estimate it goes up until the target \<open>a\<close>
  is passed, and what it tries stays near.\<close>

lemma unit_search_law:
  fixes D :: "int \<Rightarrow> int" and a l s :: int
  assumes lower: "\<And>n k. 0 \<le> k \<Longrightarrow> l * (k - 1) \<le> D (n + k) - D n"
    and upper: "\<And>n k. 0 \<le> k \<Longrightarrow> D (n + k) - D n \<le> s * (k + 2)"
    and mono: "\<And>n k. 0 < k \<Longrightarrow> D n \<le> D (n + k)"
    and ls: "1 \<le> l" "l \<le> s" and start: "D 0 \<le> a"
  defines "e \<equiv> (a - D 0) div s"
  shows "\<exists>J :: nat. 1 < J \<and> a < D (e - 3 + int J) \<and> (\<forall>j. 0 < j \<longrightarrow> j < J \<longrightarrow> D (e - 3 + int j) \<le> a) \<and>
    (\<forall>j. 0 < j \<longrightarrow> j \<le> J \<longrightarrow> -2 \<le> e - 3 + int j \<and> l * (e - 3 + int j - 4) \<le> a - D 0 \<and>
      D 0 - 4 * s \<le> D (e - 3 + int j) \<and> D (e - 3 + int j) \<le> a + 3 * s)"
proof -
  have e: "0 \<le> e" using start ls by (simp add: e_def pos_imp_zdiv_nonneg_iff)
  have "s * e + (a - D 0) mod s = a - D 0" unfolding e_def by (rule mult_div_mod_eq)
  moreover have "0 \<le> (a - D 0) mod s" using ls by simp
  ultimately have e: "0 \<le> e" "s * e \<le> a - D 0" using e by linarith+
  have first: "D (e - 2) \<le> a"
  proof (cases "2 \<le> e")
    case True
    then show ?thesis using upper [of "e - 2" 0] e by simp
  next
    case False
    then show ?thesis using mono [of "2 - e" "e - 2"] start by simp
  qed
  define k where "k = a - D 0 + 2"
  have k: "0 < k" using start by (simp add: k_def)
  have "1 * (k - 1) \<le> l * (k - 1)" using ls start by (intro mult_right_mono) (simp_all add: k_def)
  then have past: "a < D (0 + k)" using lower [of k 0] k by (simp add: k_def)
  have "1 * e \<le> s * e" using e(1) ls by (intro mult_right_mono) simp_all
  then have "e \<le> k" using e(2) by (simp add: k_def)
  then have "a < D (e - 3 + int (nat (k - e + 3)))" using past by simp
  moreover have "0 < nat (k - e + 3)" using \<open>e \<le> k\<close> by simp
  ultimately have "\<exists>J. 0 < J \<and> a < D (e - 3 + int J)" by blast
  then obtain J where J: "0 < J" "a < D (e - 3 + int J)" "\<forall>j. j < J \<longrightarrow> \<not> (0 < j \<and> a < D (e - 3 + int j))"
    using exists_least_iff [of "\<lambda>J. 0 < J \<and> a < D (e - 3 + int J)"] by blast
  have on: "D (e - 3 + int j) \<le> a" if "0 < j" "j < J" for j using J(3) that by (auto simp: not_less)
  have "J \<noteq> 1" using J(2) first by auto
  then have J1: "1 < J" using J(1) by simp
  have near: "-2 \<le> e - 3 + int j \<and> l * (e - 3 + int j - 4) \<le> a - D 0 \<and> D 0 - 4 * s \<le> D (e - 3 + int j) \<and>
      D (e - 3 + int j) \<le> a + 3 * s" if j: "0 < j" "j \<le> J" for j
  proof (intro conjI)
    let ?n = "e - 3 + int j"
    show low: "-2 \<le> ?n" using e(1) j(1) by simp
    have "D (e - 3 + int (j - 1)) \<le> a \<or> j = 1" using on [of "j - 1"] j by (cases "j = 1") auto
    then have prev: "D (?n - 1) \<le> a \<or> j = 1" using j(1) by (simp add: of_nat_diff algebra_simps)
    show "l * (?n - 4) \<le> a - D 0"
    proof (cases "4 \<le> ?n")
      case True
      show ?thesis
      proof (cases "j = 1")
        case True
        have "l * (?n - 4) \<le> s * e" using ls e(1) \<open>4 \<le> ?n\<close> True by (intro mult_mono) simp_all
        with e(2) show ?thesis by simp
      next
        case False
        have "l * (?n - 4) \<le> l * (?n - 1 - 1)" using ls by (intro mult_left_mono) simp_all
        also have "\<dots> \<le> D (0 + (?n - 1)) - D 0" by (rule lower) (use True in simp)
        finally show ?thesis using prev False by simp
      qed
    next
      case False
      then have "l * (?n - 4) \<le> 0" using ls by (simp add: mult_nonneg_nonpos)
      with start show ?thesis by simp
    qed
    show "D 0 - 4 * s \<le> D ?n"
    proof (cases "0 \<le> ?n")
      case True
      then show ?thesis using mono [of ?n 0] ls by (cases "?n = 0") simp_all
    next
      case False
      have "D (?n + (- ?n)) - D ?n \<le> s * (- ?n + 2)" by (rule upper) (use False in simp)
      also have "\<dots> \<le> s * 4" using low ls by (intro mult_left_mono) simp_all
      finally show ?thesis by simp
    qed
    show "D ?n \<le> a + 3 * s"
    proof (cases "j = 1")
      case True
      then show ?thesis using first ls by simp
    next
      case False
      have eq: "?n - 1 + 1 = ?n" by simp
      have "D (?n - 1) \<le> a" using prev False by blast
      moreover have "s * (1 + 2) = 3 * s" by simp
      ultimately show ?thesis using upper [OF zero_le_one, of "?n - 1", unfolded eq] by linarith
    qed
  qed
  show ?thesis using J(2) J1 on near by blast
qed

definition goes_on :: "int \<Rightarrow> int \<Rightarrow> int \<Rightarrow> bool" where
  "goes_on at1 incr v \<longleftrightarrow> (1 = incr \<and> v \<le> at1) \<or> (-1 = incr \<and> at1 \<le> v)"

lemma goes_on_iff: "incr = 1 \<or> incr = -1 \<Longrightarrow> goes_on at1 incr v \<longleftrightarrow> incr * v \<le> incr * at1"
  by (auto simp: goes_on_def)

lemma approximate_run:
  fixes n incr at1 at2 v :: int and u :: CFGregorianUnits and G :: "int \<Rightarrow> int"
  assumes idx: "idx < 5"
    and add: "\<And>j. 0 < j \<Longrightarrow> j \<le> J \<Longrightarrow> CFAbsoluteTimeAddGregorianUnits at2 tz (unit_set u idx (n + incr * int j)) =
      Some (G (n + incr * int j))"
    and fits: "\<And>j. 0 < j \<Longrightarrow> j \<le> J \<Longrightarrow> fits32 (n + incr * int j)"
    and stop: "\<not> goes_on at1 incr (G (n + incr * int J))"
    and on: "\<And>j. 0 < j \<Longrightarrow> j < J \<Longrightarrow> goes_on at1 incr (G (n + incr * int j))"
  shows "i < J \<Longrightarrow> approximate at1 at2 tz idx incr (unit_set u idx (n + incr * int i)) v =
      Some (unit_set u idx (n + incr * int J), if i + 1 = J then v else G (n + incr * int (J - 1)))"
proof (induction "J - i" arbitrary: i v rule: less_induct)
  case less
  let ?n = "\<lambda>j. n + incr * int j"
  have i: "0 < i + 1" "i + 1 \<le> J" using less.prems by simp_all
  have sum: "unit_get (unit_set u idx (?n i)) idx + incr = ?n (i + 1)" using idx by (simp add: algebra_simps)
  have set: "unit_set (unit_set u idx (?n i)) idx (?n (i + 1)) = unit_set u idx (?n (i + 1))" using idx by simp
  have step: "approximate at1 at2 tz idx incr (unit_set u idx (?n i)) v =
      (if goes_on at1 incr (G (?n (i + 1)))
       then approximate at1 at2 tz idx incr (unit_set u idx (?n (i + 1))) (G (?n (i + 1)))
       else Some (unit_set u idx (?n (i + 1)), v))"
    unfolding approximate.simps [of at1 at2 tz idx incr "unit_set u idx (?n i)"] Let_def sum c_int32_fits [OF fits [OF i]]
      Option.bind_lunit set add [OF i] goes_on_def by (rule refl)
  show ?case
  proof (cases "i + 1 = J")
    case True
    then show ?thesis unfolding step using stop by simp
  next
    case False
    then have "goes_on at1 incr (G (?n (i + 1)))" using on [of "i + 1"] i by simp
    moreover have "approximate at1 at2 tz idx incr (unit_set u idx (?n (i + 1))) (G (?n (i + 1))) =
        Some (unit_set u idx (?n J), if i + 1 + 1 = J then G (?n (i + 1)) else G (?n (J - 1)))"
      by (rule less.hyps) (use less.prems False in auto)
    moreover have "(if i + 1 + 1 = J then G (?n (i + 1)) else G (?n (J - 1))) = G (?n (J - 1))"
      by (cases "i + 1 + 1 = J") auto
    ultimately show ?thesis unfolding step using False by simp
  qed
qed

text \<open>Times near the two of the difference.\<close>

definition near :: "int \<Rightarrow> bool" where
  "near v \<longleftrightarrow> \<bar>v\<bar> \<le> 2 ^ 51 + 2 ^ 28"

text \<open>One search: from a time \<open>added y m d t u\<close> on the right side of \<open>at1\<close> it ends, at units whose
  time is still on that side.\<close>

lemma approximate_law:
  assumes date: "1 \<le> m" "m \<le> 12" "1 \<le> d" "d \<le> 31" and idx: "idx < 5" "unit_get u idx = 0"
    and add: "\<forall>u. units_fit y m d u \<longrightarrow> CFAbsoluteTimeAddGregorianUnits at2 tz u = Some (added y m d t u)"
    and fit: "\<forall>n. \<bar>n\<bar> \<le> 2 ^ 31 - 60 \<longrightarrow> near (added y m d t (unit_set u idx n) + c) \<longrightarrow> units_fit y m d (unit_set u idx n)"
    and incr: "incr = 1 \<or> incr = -1" and side: "goes_on at1 incr (added y m d t u)"
    and size: "\<bar>at1 - added y m d t u\<bar> < unit_least ! idx * (2 ^ 31 - 64)"
    and range: "\<bar>at1 + c\<bar> \<le> 2 ^ 51" "\<bar>added y m d t u + c\<bar> \<le> 2 ^ 51"
  shows "\<exists>q n0 n. c_int32 ((at1 - added y m d t u) sdiv (unit_seconds ! idx)) = Some q \<and> c_int32 (-3 * incr + q) = Some n0 \<and>
    approximate at1 at2 tz idx incr (unit_set u idx n0) v = Some (unit_set u idx n, added y m d t (unit_set u idx (n - incr))) \<and>
    fits32 (n - incr) \<and> units_fit y m d (unit_set u idx (n - incr)) \<and>
    goes_on at1 incr (added y m d t (unit_set u idx (n - incr))) \<and> \<not> goes_on at1 incr (added y m d t (unit_set u idx n))"
proof -
  let ?G = "\<lambda>k. added y m d t (unit_set u idx k)" and ?s = "unit_seconds ! idx" and ?l = "unit_least ! idx"
  let ?D = "\<lambda>k. incr * ?G (incr * k)" and ?a = "incr * at1"
  define e where "e = (?a - ?D 0) div ?s"
  have ls: "60 \<le> ?l" "?l \<le> ?s" "?s \<le> 366 * 86400" using unit_lengths [OF idx(1)] by simp_all
  have G0: "?G 0 = added y m d t u" using unit_set_simps(3) [OF idx(1), of u] idx(2) by simp
  note st = added_step [OF date idx(1), of _ y t u]
  have on_iff: "goes_on at1 incr (?G (incr * k)) \<longleftrightarrow> ?D k \<le> ?a" for k by (rule goes_on_iff [OF incr])
  have lower: "?l * (k - 1) \<le> ?D (n + k) - ?D n" if "0 \<le> k" for n k
    using st(1) [OF that, of n] st(1) [OF that, of "- k - n"] incr by (auto simp: algebra_simps)
  have upper: "?D (n + k) - ?D n \<le> ?s * (k + 2)" if "0 \<le> k" for n k
    using st(2) [OF that, of n] st(2) [OF that, of "- k - n"] incr by (auto simp: algebra_simps)
  have mono: "?D n \<le> ?D (n + k)" if "0 < k" for n k
    using st(3) [of k n] st(3) [of k "- k - n"] that incr by (auto simp: algebra_simps)
  have D0: "?D 0 \<le> ?a" using side on_iff [of 0] G0 by simp
  have l1: "1 \<le> ?l" using ls by simp
  from unit_search_law [of ?l ?D ?s ?a, OF lower upper mono l1 ls(2) D0, folded e_def] obtain J :: nat where
    J: "1 < J" "?a < ?D (e - 3 + int J)" "\<And>j. 0 < j \<Longrightarrow> j < J \<Longrightarrow> ?D (e - 3 + int j) \<le> ?a"
      "\<And>j. 0 < j \<Longrightarrow> j \<le> J \<Longrightarrow> -2 \<le> e - 3 + int j \<and> ?l * (e - 3 + int j - 4) \<le> ?a - ?D 0 \<and>
        ?D 0 - 4 * ?s \<le> ?D (e - 3 + int j) \<and> ?D (e - 3 + int j) \<le> ?a + 3 * ?s" by blast
  have R: "?a - ?D 0 < ?l * (2 ^ 31 - 64)" using size incr G0 by auto
  have k: "\<bar>e - 3 + int j\<bar> \<le> 2 ^ 31 - 60" if "0 < j" "j \<le> J" for j
  proof -
    have "?l * (e - 3 + int j - 4) < ?l * (2 ^ 31 - 64)" using J(4) [OF that] R by linarith
    then have "e - 3 + int j - 4 < 2 ^ 31 - 64" using ls by simp
    moreover have "-2 \<le> e - 3 + int j" using J(4) [OF that] by blast
    ultimately show ?thesis by (simp add: abs_le_iff)
  qed
  define n0 where "n0 = incr * (e - 3)"
  have nj: "n0 + incr * int j = incr * (e - 3 + int j)" for j by (simp add: n0_def algebra_simps)
  have nbound: "\<bar>n0 + incr * int j\<bar> \<le> 2 ^ 31 - 60" if "0 < j" "j \<le> J" for j
    unfolding nj using k [OF that] incr by auto
  have nnear: "near (?G (n0 + incr * int j) + c)" if "0 < j" "j \<le> J" for j
    using J(4) [OF that] range ls(3) incr unfolding nj G0 near_def by (auto simp: G0 abs_le_iff)
  have fits: "units_fit y m d (unit_set u idx (n0 + incr * int j))" if "0 < j" "j \<le> J" for j
    using fit nbound [OF that] nnear [OF that] by blast
  have f32: "fits32 (n0 + incr * int j)" if "0 < j" "j \<le> J" for j
    using nbound [OF that] by (simp add: fits32_def abs_le_iff)
  have "approximate at1 at2 tz idx incr (unit_set u idx (n0 + incr * int 0)) v =
      Some (unit_set u idx (n0 + incr * int J), if 0 + 1 = J then v else ?G (n0 + incr * int (J - 1)))"
    by (rule approximate_run [OF idx(1)])
      (use add fits f32 J(1-3) in \<open>auto simp: nj on_iff not_le\<close>)
  then have run: "approximate at1 at2 tz idx incr (unit_set u idx n0) v =
      Some (unit_set u idx (n0 + incr * int J), ?G (n0 + incr * int (J - 1)))" using J(1) by simp
  have prev: "n0 + incr * int (J - 1) = n0 + incr * int J - incr" using J(1) by (simp add: of_nat_diff algebra_simps)
  have J1: "0 < J - 1" "J - 1 \<le> J" "J - 1 < J" using J(1) by simp_all
  have e0: "0 \<le> e" using D0 ls by (simp add: e_def pos_imp_zdiv_nonneg_iff)
  have "(at1 - added y m d t u) sdiv ?s = incr * e"
    using incr ls D0 G0 unfolding e_def by (auto simp: signed_divide_int_def sgn_if)
  moreover have "\<bar>e\<bar> \<le> 2 ^ 31 - 50" using k [of 1] J(1) e0 by simp
  then have "fits32 (incr * e)" "fits32 n0" using incr by (auto simp: fits32_def n0_def abs_le_iff)
  moreover have "-3 * incr + incr * e = n0" by (simp add: n0_def algebra_simps)
  moreover have "\<not> goes_on at1 incr (?G (n0 + incr * int J))" unfolding nj on_iff using J(2) by simp
  moreover have "goes_on at1 incr (?G (n0 + incr * int (J - 1)))" unfolding nj on_iff by (rule J(3) [OF J1(1,3)])
  ultimately show ?thesis using run fits [OF J1(1,2)] f32 [OF J1(1,2)] unfolding prev
    by (intro exI [of _ "incr * e"] exI [of _ n0] exI [of _ "n0 + incr * int J"]) simp
qed

lemma shifted_date:
  fixes y m d years months :: int
  assumes "1 \<le> d"
  defines "M \<equiv> (m + months - 1) mod 12 + 1"
  shows "date_ok (y + years + (m + months - 1) div 12) M
      (min d (month_length M (isleap (y + years + (m + months - 1) div 12))))"
proof -
  have M: "1 \<le> M" "M \<le> 12" unfolding M_def by (simp_all add: pos_mod_bound zless_imp_add1_zle)
  have "1 \<le> month_length M b" for b using month_length_bounds [OF M, of b] by simp
  then show ?thesis using assms(1) M by (simp add: date_ok_def)
qed

lemma shifted_year:
  "1 \<le> d \<Longrightarrow> exact_day (shifted y m d years months) \<Longrightarrow> \<bar>y + years + (m + months - 1) div 12\<bar> \<le> 150000000"
  using exact_year [OF shifted_date [where y = y and years = years and m = m and months = months and d = d]] by (simp add: shifted_def Let_def)

lemma units_fitI:
  assumes "1 \<le> d" "d \<le> 31" "gu_days u = 0" "exact_time (86400 * shifted y m d (gu_years u) (gu_months u))"
    and "fits32 (y + 2001 + gu_years u)" "fits32 (m + gu_months u)"
  shows "units_fit y m d u"
proof -
  have "\<bar>y + gu_years u + (m + gu_months u - 1) div 12\<bar> \<le> 150000000"
    by (rule shifted_year [OF assms(1) exact_time_days [OF assms(4)]])
  from year_ok_small [OF this] have "fits32 (y + gu_years u + (m + gu_months u - 1) div 12)"
    "fits32 (y + gu_years u + (m + gu_months u - 1) div 12 + 2001)" by (simp_all add: year_ok_def)
  moreover have "fits32 (min d l + 0)" if "1 \<le> l" for l using assms(1,2) that by (simp add: fits32_def)
  moreover have "1 \<le> month_length ((m + gu_months u - 1) mod 12 + 1) b" for b
    using month_length_bounds [of "(m + gu_months u - 1) mod 12 + 1" b] pos_mod_bound [of 12 "m + gu_months u - 1"]
      pos_mod_sign [of 12 "m + gu_months u - 1"] by (simp add: zless_imp_add1_zle)
  ultimately show ?thesis using assms by (simp add: units_fit_def Let_def)
qed

text \<open>Setting one more unit, the finer ones being zero, to a value that leads near the two times.\<close>

lemma fit_set:
  assumes date: "1 \<le> m" "m \<le> 12" "1 \<le> d" "d \<le> 31" and idx: "idx < 5" and fit: "units_fit y m d u"
    and zero: "\<And>j. idx \<le> j \<Longrightarrow> j < 5 \<Longrightarrow> unit_get u j = 0" "gu_seconds u = 0"
    and n: "\<bar>n\<bar> \<le> 2 ^ 31 - 60" and near: "near (added y m d t (unit_set u idx n) + c)"
    and t: "t = x - c" "0 \<le> x" "x < 86400"
  shows "units_fit y m d (unit_set u idx n)"
proof -
  have z: "idx \<le> 2 \<Longrightarrow> gu_hours u = 0" "idx \<le> 2 \<Longrightarrow> gu_minutes u = 0" "idx \<le> 1 \<Longrightarrow> gu_days u = 0"
    "idx \<le> 0 \<Longrightarrow> gu_months u = 0"
    using zero(1) [of 3] zero(1) [of 4] zero(1) [of 2] zero(1) [of 1] by (simp_all add: unit_get_def)
  have close: "exact_time (86400 * k)" if "near (86400 * k + x)" for k
    using that t(2,3) by (simp add: near_def exact_time_def abs_le_iff)
  have f: "fits32 (y + 2001 + gu_years u)" "fits32 (m + gu_months u)" using fit by (simp_all add: units_fit_def Let_def)
  show ?thesis using idx
  proof (rule idx_cases)
    assume i: "idx = 0"
    let ?u = "unit_set u idx n"
    have ex: "exact_time (86400 * shifted y m d (gu_years ?u) (gu_months ?u))"
      by (rule close) (use near z zero(2) i t in \<open>simp add: added_def unit_set_def\<close>)
    have "\<bar>y + n + (m - 1) div 12\<bar> \<le> 150000000"
      using shifted_year [OF date(3) exact_time_days [OF ex]] i z by (simp add: unit_set_def)
    moreover have "(m - 1) div 12 = 0" using date by (simp add: div_pos_pos_trivial)
    ultimately have "fits32 (y + 2001 + n)" by (simp add: fits32_def abs_le_iff)
    then show ?thesis using ex f z i by (intro units_fitI date) (simp_all add: unit_set_def)
  next
    assume i: "idx = 1"
    let ?u = "unit_set u idx n"
    have ex: "exact_time (86400 * shifted y m d (gu_years ?u) (gu_months ?u))"
      by (rule close) (use near z zero(2) i t in \<open>simp add: added_def unit_set_def\<close>)
    moreover have "fits32 (m + n)" using n date by (simp add: fits32_def abs_le_iff)
    ultimately show ?thesis using f z i by (intro units_fitI date) (simp_all add: unit_set_def)
  next
    assume i: "idx = 2"
    have ex: "exact_time (86400 * (shifted y m d (gu_years u) (gu_months u) + n))"
      by (rule close) (use near z zero(2) i t in \<open>simp add: added_def unit_set_def add.assoc\<close>)
    moreover have "fits32 (min d l + n)" if "1 \<le> l" for l using date n that by (auto simp: fits32_def abs_le_iff min_def)
    moreover have "1 \<le> month_length ((m + gu_months u - 1) mod 12 + 1) b" for b
      using month_length_bounds [of "(m + gu_months u - 1) mod 12 + 1" b] pos_mod_bound [of 12 "m + gu_months u - 1"]
        pos_mod_sign [of 12 "m + gu_months u - 1"] by (simp add: zless_imp_add1_zle)
    ultimately show ?thesis using fit i by (simp add: units_fit_def Let_def unit_set_def)
  qed (use fit in \<open>simp_all add: units_fit_def unit_set_def\<close>)
qed

lemma search_between:
  fixes G :: "int \<Rightarrow> int"
  assumes incr: "incr = 1 \<or> incr = -1" and on: "goes_on at1 incr (G 0)" "goes_on at1 incr (G (n - incr))"
    and off: "\<not> goes_on at1 incr (G n)"
    and mono: "\<And>n k. 0 < k \<Longrightarrow> G n \<le> G (n + k)" and upper: "\<And>n. G (n + 1) - G n \<le> r"
  shows "incr * G 0 \<le> incr * G (n - incr) \<and> \<bar>at1 - G (n - incr)\<bar> \<le> r"
proof
  show "incr * G 0 \<le> incr * G (n - incr)"
  proof (cases "incr = 1")
    case True
    then have "1 \<le> n" using mono [of "- n" n] off on(1) by (cases "1 \<le> n"; cases "n = 0") (auto simp: goes_on_def)
    then show ?thesis using mono [of "n - 1" 0] True by (cases "n = 1") auto
  next
    case False
    then have i: "incr = -1" using incr by simp
    then have "n \<le> -1" using mono [of n 0] off on(1) by (cases "n \<le> -1"; cases "n = 0") (auto simp: goes_on_def)
    then show ?thesis using mono [of "- n - 1" "n + 1"] i by (cases "n = -1") auto
  qed
  show "\<bar>at1 - G (n - incr)\<bar> \<le> r"
    using incr on(2) off upper [of "n - 1"] upper [of n] by (auto simp: goes_on_def)
qed

text \<open>The coarsest unit asked for can hold the difference.\<close>

definition difference_fits :: "CFGregorianUnitFlags \<Rightarrow> nat list \<Rightarrow> int \<Rightarrow> bool" where
  "difference_fits f idxs r \<longleftrightarrow>
     (case find (unit_flag f) idxs of None \<Rightarrow> True | Some idx \<Rightarrow> r < unit_least ! idx * (2 ^ 31 - 64))"

lemma difference_fits_small:
  assumes "r < 100000000" "set idxs \<subseteq> {..<5}"
  shows "difference_fits f idxs r"
proof (cases "find (unit_flag f) idxs")
  case (Some i)
  then have "i \<in> set idxs" by (auto simp: find_Some_iff)
  then have "i < 5" using assms(2) by auto
  then have "60 * (2 ^ 31 - 64) \<le> unit_least ! i * (2 ^ 31 - 64)" using unit_lengths by (intro mult_right_mono) simp_all
  then show ?thesis using assms(1) Some by (simp add: difference_fits_def)
qed (simp add: difference_fits_def)

lemma added_minute:
  "added y m d t (unit_set u 4 n) = added y m d t (unit_set u 4 (n - incr)) + 60 * incr"
  by (simp add: added_def unit_set_def algebra_simps)

lemma unit_get_set: "idx < 5 \<Longrightarrow> j < 5 \<Longrightarrow> unit_get (unit_set u idx v) j = (if j = idx then v else unit_get u j)"
  using unit_get_other [of idx j u v] by simp

lemma approximate_units_law:
  assumes date: "1 \<le> m" "m \<le> 12" "1 \<le> d" "d \<le> 31"
    and add: "\<forall>u. units_fit y m d u \<longrightarrow> CFAbsoluteTimeAddGregorianUnits at2 tz u = Some (added y m d t u)"
    and incr: "incr = 1 \<or> incr = -1" and t: "t = x - c" "0 \<le> x" "x < 86400"
    and range: "\<bar>at1 + c\<bar> \<le> 2 ^ 51" "\<bar>at2 + c\<bar> \<le> 2 ^ 51"
  shows "is = [k..<5] \<Longrightarrow> units_fit y m d u \<Longrightarrow> gu_seconds u = 0 \<Longrightarrow> (\<forall>j. k \<le> j \<longrightarrow> j < 5 \<longrightarrow> unit_get u j = 0) \<Longrightarrow>
    goes_on at1 incr (added y m d t u) \<Longrightarrow> incr * at2 \<le> incr * added y m d t u \<Longrightarrow>
    difference_fits f is \<bar>at1 - added y m d t u\<bar> \<Longrightarrow>
    \<exists>u'. approximate_units at1 at2 tz f incr is u (added y m d t u) = Some (u', added y m d t u') \<and>
      units_fit y m d u' \<and> goes_on at1 incr (added y m d t u') \<and> incr * at2 \<le> incr * added y m d t u' \<and>
      gu_seconds u' = 0 \<and> (\<forall>i < 5. \<not> unit_flag f i \<longrightarrow> unit_get u' i = unit_get u i) \<and>
      (is \<noteq> [] \<longrightarrow> unit_flag f 4 \<longrightarrow> \<bar>at1 - added y m d t u'\<bar> < 60)"
proof (induction "is" arbitrary: u k)
  case (Cons i "is")
  have "k < 5" using Cons.prems(1) by (metis list.distinct(1) not_le_imp_less upt_conv_Nil)
  then have "[k..<5] = k # [Suc k..<5]" by (rule upt_conv_Cons)
  then have i: "i = k" "is = [Suc k..<5]" "i < 5" using Cons.prems(1) \<open>k < 5\<close> by simp_all
  have zero: "unit_get u i = 0" "\<And>j. i \<le> j \<Longrightarrow> j < 5 \<Longrightarrow> unit_get u j = 0" using Cons.prems(4) i by auto
  show ?case
  proof (cases "unit_flag f i")
    case False
    have "difference_fits f is \<bar>at1 - added y m d t u\<bar>" using Cons.prems(7) False by (simp add: difference_fits_def)
    from Cons.IH [OF i(2) Cons.prems(2,3) _ Cons.prems(5,6) this] Cons.prems(4) i obtain u' where
      u': "approximate_units at1 at2 tz f incr is u (added y m d t u) = Some (u', added y m d t u')"
        "units_fit y m d u'" "goes_on at1 incr (added y m d t u')" "incr * at2 \<le> incr * added y m d t u'"
        "gu_seconds u' = 0" "\<forall>j < 5. \<not> unit_flag f j \<longrightarrow> unit_get u' j = unit_get u j"
        "is \<noteq> [] \<longrightarrow> unit_flag f 4 \<longrightarrow> \<bar>at1 - added y m d t u'\<bar> < 60" by auto
    have "i = 4" if "is = []"
    proof -
      have "length is = 4 - k" using i(2) by simp
      then show ?thesis using i(1,3) that by simp
    qed
    with u'(7) False have "unit_flag f 4 \<longrightarrow> \<bar>at1 - added y m d t u'\<bar> < 60" by (cases "is = []") auto
    with u'(1-6) False show ?thesis by auto
  next
    case True
    let ?s = "unit_seconds ! i" and ?G = "\<lambda>n. added y m d t (unit_set u i n)"
    have rdi: "rd unit_seconds i = Some ?s" using i(3) by (simp add: rd_def unit_seconds_def)
    have G0: "?G 0 = added y m d t u" using unit_set_simps(3) [OF i(3), of u] zero(1) by simp
    have size: "\<bar>at1 - added y m d t u\<bar> < unit_least ! i * (2 ^ 31 - 64)"
      using Cons.prems(7) True by (simp add: difference_fits_def)
    have u_range: "\<bar>added y m d t u + c\<bar> \<le> 2 ^ 51"
      using Cons.prems(5,6) range incr by (auto simp: goes_on_def abs_le_iff)
    have fit: "\<forall>n. \<bar>n\<bar> \<le> 2 ^ 31 - 60 \<longrightarrow> near (?G n + c) \<longrightarrow> units_fit y m d (unit_set u i n)"
      using fit_set [OF date i(3) Cons.prems(2) zero(2) Cons.prems(3) _ _ t] by blast
    from approximate_law [OF date i(3) zero(1) add fit incr Cons.prems(5) size range(1) u_range, of "added y m d t u"]
    obtain q n0 n where
      a: "c_int32 ((at1 - added y m d t u) sdiv ?s) = Some q" "c_int32 (-3 * incr + q) = Some n0"
        "approximate at1 at2 tz i incr (unit_set u i n0) (added y m d t u) = Some (unit_set u i n, ?G (n - incr))"
      and b: "fits32 (n - incr)" "units_fit y m d (unit_set u i (n - incr))"
        "goes_on at1 incr (?G (n - incr))" "\<not> goes_on at1 incr (?G n)" by (elim exE conjE) (rule that)
    note st = added_step [OF date i(3), of _ y t u]
    have u1: "incr * ?G 0 \<le> incr * ?G (n - incr) \<and> \<bar>at1 - ?G (n - incr)\<bar> \<le> 3 * ?s"
    proof (rule search_between [where G = ?G, OF incr _ b(3,4)])
      show "goes_on at1 incr (?G 0)" using Cons.prems(5) G0 by simp
      show "?G n \<le> ?G (n + k)" if "0 < k" for n k using st(3) [of k n] that by simp
      show "?G (n + 1) - ?G n \<le> 3 * ?s" for n using st(2) [of 1 n] by simp
    qed
    have rest: "gu_seconds (unit_set u i (n - incr)) = 0"
      "\<forall>j. Suc k \<le> j \<longrightarrow> j < 5 \<longrightarrow> unit_get (unit_set u i (n - incr)) j = 0"
      using Cons.prems(3) zero(2) i by (auto simp: unit_get_set)
    have "difference_fits f is \<bar>at1 - ?G (n - incr)\<bar>"
      by (rule difference_fits_small) (use u1 unit_lengths [OF i(3)] i(2) in auto)
    from Cons.IH [OF i(2) b(2) rest b(3) _ this] u1 Cons.prems(6) G0 obtain u' where
      u': "approximate_units at1 at2 tz f incr is (unit_set u i (n - incr)) (?G (n - incr)) = Some (u', added y m d t u')"
        "units_fit y m d u'" "goes_on at1 incr (added y m d t u')" "incr * at2 \<le> incr * added y m d t u'"
        "gu_seconds u' = 0" "\<forall>j < 5. \<not> unit_flag f j \<longrightarrow> unit_get u' j = unit_get (unit_set u i (n - incr)) j"
        "is \<noteq> [] \<longrightarrow> unit_flag f 4 \<longrightarrow> \<bar>at1 - added y m d t u'\<bar> < 60" by auto
    have get: "unit_get (unit_set u i n) i - incr = n - incr" "unit_set (unit_set u i n) i (n - incr) = unit_set u i (n - incr)"
      using i(3) by simp_all
    have run: "approximate_units at1 at2 tz f incr (i # is) u (added y m d t u) = Some (u', added y m d t u')"
      unfolding approximate_units.simps if_P [OF True] rdi Option.bind_lunit Let_def a prod.case get
        c_int32_fits [OF b(1)] by (rule u'(1))
    have keep: "\<forall>j < 5. \<not> unit_flag f j \<longrightarrow> unit_get u' j = unit_get u j"
      using u'(6) True i(3) by (metis unit_get_other)
    have "\<bar>at1 - added y m d t u'\<bar> < 60" if "is = []"
    proof -
      have "length is = 4 - k" using i(2) by simp
      then have "i = 4" using i(1,3) that by simp
      moreover have "u' = unit_set u i (n - incr)" using u'(1) that by simp
      ultimately show ?thesis using b(3,4) incr added_minute [of y m d t u n incr] by (auto simp: goes_on_def)
    qed
    then have "unit_flag f 4 \<longrightarrow> \<bar>at1 - added y m d t u'\<bar> < 60" using u'(7) by (cases "is = []") auto
    with run u'(2-5) keep show ?thesis by blast
  qed
qed auto

lemma shifted_0: "date_ok y m d \<Longrightarrow> shifted y m d 0 0 = day_number y m d"
  by (auto simp: shifted_def date_ok_def div_pos_pos_trivial mod_pos_pos_trivial)

lemma date_of_day: "exact_day n \<Longrightarrow> \<exists>y m d. date_ok y m d \<and> day_number y m d = n \<and> year_ok y"
  using CFYMDFromAbsolute_law [of n] exact_year year_ok_small by metis

section \<open>Numbers of days and weeks\<close>

lemma DayOfWeek_law: "CFAbsoluteTimeGetDayOfWeek at tz = (fixed_at at tz div 86400) mod 7 + 1"
proof -
  have neg: "(x + 1) smod 7 + 7 = x mod 7 + 1" if "x < 0" for x :: int
  proof -
    have "(x + 1) smod 7 = - ((- (x + 1)) mod 7)"
      using that by (cases "x = -1") (simp_all add: signed_modulo_int_def)
    then show ?thesis by presburger
  qed
  have pos: "0 \<le> x \<Longrightarrow> x smod 7 = x mod 7" for x :: int
    by (cases "x = 0") (simp_all add: signed_modulo_int_def)
  show ?thesis using neg pos by (simp add: CFAbsoluteTimeGetDayOfWeek_def Let_def)
qed

lemma DayOfYear_law:
  assumes "CFYMDFromAbsolute (fixed_at at tz div 86400) = Some (y, m, d)"
  shows "CFAbsoluteTimeGetDayOfYear at tz = Some (fixed_at at tz div 86400 - year_start y + 1)"
proof -
  from CFYMDFromAbsolute_law [of "fixed_at at tz div 86400"] assms
  have "date_ok y m d" "day_number y m d = fixed_at at tz div 86400" by auto
  then show ?thesis using assms
    by (simp add: CFAbsoluteTimeGetDayOfYear_def Let_def CFDaysBeforeMonth_val date_ok_def day_number_def)
qed

text \<open>The Thursday of the week of a day: its year and its number in that year make the ISO week.\<close>

definition thursday :: "int \<Rightarrow> int" where
  "thursday a = a - a mod 7 + 3"

lemma week_days:
  fixes o1 w :: int
  assumes w: "0 \<le> w" "w < 7" and o1: "0 \<le> o1"
  shows "o1 - (w + o1) mod 7 + 3 < 0 \<longleftrightarrow> o1 < 3 \<and> (w = 4 \<or> o1 < 2 \<and> w = 5 \<or> o1 < 1 \<and> w = 6)"
    "\<not> o1 - (w + o1) mod 7 + 3 < 0 \<Longrightarrow> (o1 + 1 + (w + 1 - 11) smod 7 + 2) sdiv 7 = (o1 - (w + o1) mod 7 + 3) div 7"
proof -
  define q r c where "q = o1 div 7" and "r = o1 mod 7" and "c = of_bool (7 \<le> w + r) * (7 :: int)"
  have r: "0 \<le> r" "r < 7" "o1 = 7 * q + r" "0 \<le> q" using o1 by (simp_all add: q_def r_def pos_imp_zdiv_nonneg_iff)
  have e: "w + o1 = 7 * (q + of_bool (7 \<le> w + r)) + (w + r - c)" using r(3) by (simp add: c_def)
  have "(w + o1) mod 7 = w + r - c"
    by (rule int_mod_pos_eq [OF e]) (use w r in \<open>auto simp: c_def\<close>)
  then have th: "o1 - (w + o1) mod 7 + 3 = 7 * q + (3 - w + c)" using r(3) by simp
  have cw: "w = 0 \<or> w = 1 \<or> w = 2 \<or> w = 3 \<or> w = 4 \<or> w = 5 \<or> w = 6" using w by linarith
  show "o1 - (w + o1) mod 7 + 3 < 0 \<longleftrightarrow> o1 < 3 \<and> (w = 4 \<or> o1 < 2 \<and> w = 5 \<or> o1 < 1 \<and> w = 6)"
  proof (cases "q = 0")
    case True
    then show ?thesis using cw r unfolding th c_def by auto
  next
    case False
    then have "1 \<le> q" using r(4) by linarith
    then show ?thesis using w r unfolding th c_def by auto
  qed
  have sm: "(-10 :: int) smod 7 = -3" "(-9 :: int) smod 7 = -2" "(-8 :: int) smod 7 = -1" "(-7 :: int) smod 7 = 0"
    "(-6 :: int) smod 7 = -6" "(-5 :: int) smod 7 = -5" "(-4 :: int) smod 7 = -4" by code_simp+
  have s: "(w + 1 - 11) smod 7 = (if w \<le> 3 then w - 3 else w - 10)" using cw by (elim disjE) (simp_all add: sm)
  have sd: "0 \<le> x \<Longrightarrow> x sdiv 7 = x div 7" for x :: int by (simp add: signed_divide_int_def sgn_if)
  have qs: "x = 7 * k + i \<Longrightarrow> 0 \<le> i \<Longrightarrow> i < 7 \<Longrightarrow> x div 7 = k" for x k i :: int by (rule int_div_pos_eq)
  assume "\<not> o1 - (w + o1) mod 7 + 3 < 0"
  then have n: "0 \<le> 7 * q + (3 - w + c)" unfolding th by simp
  define k where "k = (if w \<le> 3 then q + of_bool (7 \<le> w + r) else q - 1 + of_bool (7 \<le> w + r))"
  have l: "(o1 + 1 + (w + 1 - 11) smod 7 + 2) = 7 * k + (w + r - c)"
    unfolding s k_def r(3) c_def by simp
  have m: "7 * q + (3 - w + c) = 7 * k + (if w \<le> 3 then 3 - w else 10 - w)"
    unfolding k_def c_def by simp
  have "0 \<le> w + r - c" "w + r - c < 7" using w r unfolding c_def by auto
  moreover have "0 \<le> k" using n w r(4) unfolding k_def c_def by (auto split: if_splits)
  ultimately show "(o1 + 1 + (w + 1 - 11) smod 7 + 2) sdiv 7 = (o1 - (w + o1) mod 7 + 3) div 7"
    unfolding th m l using sd [of "7 * k + (w + r - c)"] qs [OF refl, of "w + r - c" k]
      qs [OF refl, of "if w \<le> 3 then 3 - w else 10 - w" k] w by simp
qed

lemma late_days:
  fixes a ns :: int
  assumes "a < ns"
  shows "ns \<le> thursday a \<longleftrightarrow> ns - a \<le> 3 \<and> (ns mod 7 = 3 \<or> ns - a \<le> 2 \<and> ns mod 7 = 2 \<or> ns - a \<le> 1 \<and> ns mod 7 = 1)"
proof -
  define q k j where "q = a div 7" and "k = a mod 7" and "j = ns - a"
  have k: "0 \<le> k" "k < 7" and a: "a = 7 * q + k" and j: "1 \<le> j" "ns = 7 * q + (k + j)"
    using assms by (simp_all add: q_def k_def j_def)
  have th: "thursday a = 7 * q + 3" unfolding thursday_def k_def [symmetric] using a by simp
  show ?thesis
  proof (cases "j \<le> 3")
    case True
    define c :: int where "c = of_bool (7 \<le> k + j)"
    have e: "ns = 7 * (q + c) + (k + j - 7 * c)" using j(2) by simp
    have "ns mod 7 = k + j - 7 * c"
      by (rule int_mod_pos_eq [OF e]) (use k j True in \<open>auto simp: c_def\<close>)
    then show ?thesis using k j(1) True unfolding th j_def [symmetric] by (auto simp: c_def j(2))
  next
    case False
    then show ?thesis using k j unfolding th j_def [symmetric] by auto
  qed
qed

lemma WeekOfYear_law:
  assumes ymd: "CFYMDFromAbsolute (fixed_at at tz div 86400) = Some (y, m, d)"
  defines "th \<equiv> thursday (fixed_at at tz div 86400)"
  shows "CFAbsoluteTimeGetWeekOfYear at tz = Some
    (if th < year_start y then 53 else if year_start (y + 1) \<le> th then 1 else (th - year_start y) div 7 + 1)"
proof -
  define a where "a = fixed_at at tz div 86400"
  have ok: "date_ok y m d" and a: "day_number y m d = a"
    using CFYMDFromAbsolute_law [of a] ymd unfolding a_def by auto
  define o1 w where "o1 = a - year_start y" and "w = year_start y mod 7"
  have m: "1 \<le> m" "m \<le> 12" "1 \<le> d" "d \<le> month_length m (isleap y)" using ok by (simp_all add: date_ok_def)
  have o1: "o1 = before_month m (isleap y) + d - 1" using a by (simp add: o1_def day_number_def)
  have yr: "year_start y \<le> a" "a < year_start (y + 1)" using date_in_year [OF ok] a by simp_all
  have w: "0 \<le> w" "w < 7" "0 \<le> o1" using yr by (simp_all add: w_def o1_def)
  have thw: "th - year_start y = o1 - (w + o1) mod 7 + 3"
    unfolding th_def thursday_def a_def [symmetric] w_def o1_def by (simp add: mod_simps)
  have first: "CFAbsoluteFromYMD Y 1 1 = Some (year_start Y)" for Y
    by (simp add: CFAbsoluteFromYMD_law day_number_def)
  have january: "1 = m \<and> d < 4 \<longleftrightarrow> o1 < 3"
  proof (cases "m = 1")
    case False
    then have "31 \<le> before_month m (isleap y)" using m before_mono [of 2 m "isleap y"] by (simp add: before_month_def daysBeforeMonth_def)
    with False m show ?thesis unfolding o1 by simp
  qed (use o1 in simp)
  have december: "12 = m \<and> 28 < d \<longleftrightarrow> year_start (y + 1) - a \<le> 3"
  proof (cases "m = 12")
    case True
    then show ?thesis using o1 before_step [of 12 "isleap y"] unfolding o1_def
      by (auto simp: year_start_step before_month_def daysBeforeMonth_def month_length_def daysInMonth_def)
  next
    case False
    then have "before_month (m + 1) (isleap y) \<le> before_month 12 (isleap y)" using m by (intro before_mono) simp_all
    then have "o1 < 334 + of_bool (isleap y)" using m before_step [of m "isleap y"] unfolding o1
      by (simp add: before_month_def daysBeforeMonth_def)
    with False show ?thesis unfolding o1_def by (auto simp: year_start_step)
  qed
  have last31: "m = 12 \<Longrightarrow> year_start (y + 1) - a = 32 - d"
    using o1 before_step [of 12 "isleap y"] unfolding o1_def
    by (simp add: year_start_step before_month_def daysBeforeMonth_def month_length_def daysInMonth_def)
  have jan1: "m = 1 \<Longrightarrow> o1 = d - 1" using o1 by simp
  have days: "CFDaysBeforeMonth m y (isleap y) = Some (before_month m (isleap y))" using m by (simp add: CFDaysBeforeMonth_val)
  have before: "th < year_start y \<longleftrightarrow> o1 < 3 \<and> (w = 4 \<or> o1 < 2 \<and> w = 5 \<or> o1 < 1 \<and> w = 6)"
    unfolding week_days(1) [OF w, symmetric] thw [symmetric] by simp
  have early: "(1 = m \<and> d < 4 \<and> (d < 4 \<and> 5 = w + 1 \<or> d < 3 \<and> 6 = w + 1 \<or> d < 2 \<and> 7 = w + 1)) \<longleftrightarrow> th < year_start y"
    unfolding before using january jan1 by auto
  have late: "(12 = m \<and> 28 < d \<and> (28 < d \<and> 4 = year_start (y + 1) mod 7 + 1 \<or>
      29 < d \<and> 3 = year_start (y + 1) mod 7 + 1 \<or> 30 < d \<and> 2 = year_start (y + 1) mod 7 + 1)) \<longleftrightarrow> year_start (y + 1) \<le> th"
    using late_days [OF yr(2)] december last31 unfolding th_def a_def [symmetric] by auto
  have regular: "\<not> th < year_start y \<Longrightarrow>
      (before_month m (isleap y) + d + (w + 1 - 11) smod 7 + 2) sdiv 7 = (th - year_start y) div 7"
    using week_days(2) [OF w] thw o1 by (simp add: add.commute add.left_commute)
  show ?thesis
    unfolding CFAbsoluteTimeGetWeekOfYear_def Let_def ymd Option.bind_lunit prod.case first days
      CFDoubleModToInt_mod [of 7, simplified] w_def [symmetric] early
    using late regular by (cases "12 = m \<and> 28 < d") auto
qed

section \<open>Properties\<close>

text \<open>C9. Days and calendar dates are in bijection.  \<open>isleap\<close> is the Gregorian rule for the year 2001
  plus its argument; every day number has a valid date (\<open>CFYMDFromAbsolute\<close> ends, for days before
  2001 too) that \<open>CFAbsoluteFromYMD\<close> maps back to it; and every valid date is the date of its day
  number, so both functions are exact on the whole proleptic Gregorian calendar.\<close>

theorem CFYMDFromAbsolute_inverse:
  assumes "date_ok y m d"
  shows "isleap y = gregorian_leap (y + 2001) \<and>
    (\<exists>a. CFAbsoluteFromYMD y m d = Some a \<and> a = day_number y m d \<and> CFYMDFromAbsolute a = Some (y, m, d)) \<and>
    (\<forall>a. \<exists>y' m' d'. CFYMDFromAbsolute a = Some (y', m', d') \<and> date_ok y' m' d' \<and>
      CFAbsoluteFromYMD y' m' d' = Some a)"
proof (intro conjI allI)
  show "isleap y = gregorian_leap (y + 2001)" by (rule isleap_gregorian)
  have abs: "CFAbsoluteFromYMD y m d = Some (day_number y m d)" if "date_ok y m d" for y m d
    using that by (intro CFAbsoluteFromYMD_law) (simp_all add: date_ok_def)
  from CFYMDFromAbsolute_law [of "day_number y m d"] day_number_inj [OF _ assms]
  have "CFYMDFromAbsolute (day_number y m d) = Some (y, m, d)" by auto
  with abs [OF assms] show "\<exists>a. CFAbsoluteFromYMD y m d = Some a \<and> a = day_number y m d \<and> CFYMDFromAbsolute a = Some (y, m, d)"
    by simp
  show "\<exists>y' m' d'. CFYMDFromAbsolute a = Some (y', m', d') \<and> date_ok y' m' d' \<and>
      CFAbsoluteFromYMD y' m' d' = Some a" for a
    using CFYMDFromAbsolute_law [of a] abs by blast
qed

lemma CFYMDFromAbsolute_inverse_witness:
  "\<exists>a. CFAbsoluteFromYMD 3 2 29 = Some a \<and> CFYMDFromAbsolute a = Some (3, 2, 29)"
proof -
  have "date_ok 3 2 29"
    by (simp add: date_ok_def month_length_def daysInMonth_def isleap_gregorian gregorian_leap_def)
  from CFYMDFromAbsolute_inverse [OF this] show ?thesis by blast
qed

text \<open>C33. Breaking a time into a date and putting the date together again gives the time back, in every
  zone of a fixed offset, for the times with exact arithmetic (2 to the 52 seconds, 142 million years, before
  and after 2001); the date is one that \<open>CFGregorianDateIsValid\<close> accepts whenever its year is positive, and
  its time of day is within the day.\<close>

theorem CFAbsoluteTime_date_roundtrip:
  assumes "fixed_zone tz c" "exact_time (at + c)"
  shows "\<exists>g. CFAbsoluteTimeGetGregorianDate at tz = Some g \<and> CFGregorianDateGetAbsoluteTime g tz = Some at \<and>
    (0 < gd_year g \<longrightarrow> CFGregorianDateIsValid g all_units = Some True) \<and>
    0 \<le> gd_hour g \<and> gd_hour g < 24 \<and> 0 \<le> gd_minute g \<and> gd_minute g < 60 \<and> 0 \<le> gd_second g \<and> gd_second g < 60"
proof -
  let ?t = "at + c"
  from date_of_day [OF exact_time_day [OF assms(2)]] obtain y m d where
    ymd: "date_ok y m d" "day_number y m d = ?t div 86400" "year_ok y" by blast
  define h mi s where "h = ?t div 3600 mod 24" and "mi = ?t div 60 mod 60" and "s = ?t mod 60"
  have b: "0 \<le> h" "h < 24" "0 \<le> mi" "mi < 60" "0 \<le> s" "s < 60" by (simp_all add: h_def mi_def s_def)
  let ?g = "\<lparr>gd_year = y + 2001, gd_month = m, gd_day = d, gd_hour = h, gd_minute = mi, gd_second = s\<rparr>"
  have g: "CFAbsoluteTimeGetGregorianDate at tz = Some ?g"
    using GetGregorianDate_law [of y m d at tz] ymd unfolding fixed_at_zone [OF assms(1)] h_def mi_def s_def by simp
  have "1 \<le> m" "m \<le> 12" "fits32 y" using ymd(1,3) by (simp_all add: date_ok_def year_ok_def)
  then have "CFGregorianDateGetAbsoluteTime ?g tz = Some (86400 * day_number y m d + (3600 * h + 60 * mi + s) - c)"
    using GetAbsoluteTime_law [OF assms(1), of ?g] by simp
  moreover have "86400 * day_number y m d + (3600 * h + 60 * mi + s) = at + c"
    unfolding ymd(2) h_def mi_def s_def by (rule split_time)
  ultimately have whole: "CFGregorianDateGetAbsoluteTime ?g tz = Some at" by simp
  have "0 < gd_year ?g \<longrightarrow> CFGregorianDateIsValid ?g all_units = Some True" using ymd(1) b by (simp add: IsValid_iff)
  with whole b g show ?thesis by auto
qed

text \<open>14 November 2009, 00:00:01 in a zone one hour east of Greenwich.\<close>

lemma CFAbsoluteTime_date_roundtrip_witness:
  "\<exists>g. CFAbsoluteTimeGetGregorianDate 279849601 (Some (\<lambda>_. 3600)) = Some g \<and>
     CFGregorianDateGetAbsoluteTime g (Some (\<lambda>_. 3600)) = Some 279849601"
proof -
  have "fixed_zone (Some (\<lambda>_. 3600)) 3600" "exact_time (279849601 + 3600)"
    by (simp_all add: fixed_zone_def exact_time_def)
  from CFAbsoluteTime_date_roundtrip [OF this] show ?thesis by blast
qed

text \<open>The other way round: a date that \<open>CFGregorianDateIsValid\<close> accepts, with a year whose times are
  exact, is the date of its absolute time in every zone of a fixed offset.\<close>

theorem CFGregorianDate_time_roundtrip:
  assumes "CFGregorianDateIsValid g all_units = Some True" "gd_year g \<le> 10 ^ 8" "fixed_zone tz c"
  shows "\<exists>at. CFGregorianDateGetAbsoluteTime g tz = Some at \<and> CFAbsoluteTimeGetGregorianDate at tz = Some g"
proof -
  from assms(1) have v: "date_ok (gd_year g - 2001) (gd_month g) (gd_day g)" "0 \<le> gd_hour g" "gd_hour g \<le> 23"
    "0 \<le> gd_minute g" "gd_minute g \<le> 59" "0 \<le> gd_second g" "gd_second g < 60" "0 < gd_year g"
    by (auto simp: IsValid_iff)
  define n where "n = day_number (gd_year g - 2001) (gd_month g) (gd_day g)"
  define t where "t = 86400 * n + (3600 * gd_hour g + 60 * gd_minute g + gd_second g)"
  have m: "1 \<le> gd_month g" "gd_month g \<le> 12" using v(1) by (simp_all add: date_ok_def)
  have ok: "year_ok (gd_year g - 2001)" by (rule year_ok_small) (use v(8) assms(2) in \<open>simp add: abs_le_iff\<close>)
  then have at: "CFGregorianDateGetAbsoluteTime g tz = Some (t - c)"
    using GetAbsoluteTime_law [OF assms(3) m] by (simp add: t_def n_def year_ok_def)
  note j = join_time [OF v(2-7) t_def]
  have "fixed_at (t - c) tz = t" by (simp add: fixed_at_zone [OF assms(3)])
  with GetGregorianDate_law [OF v(1) _ ok, of "t - c" tz] j have "CFAbsoluteTimeGetGregorianDate (t - c) tz = Some g"
    by (simp add: n_def)
  with at show ?thesis by blast
qed

lemma CFGregorianDate_time_roundtrip_witness:
  "\<exists>at. CFGregorianDateGetAbsoluteTime \<lparr>gd_year = 2000, gd_month = 2, gd_day = 29, gd_hour = 23,
      gd_minute = 59, gd_second = 59\<rparr> None = Some at \<and>
    CFAbsoluteTimeGetGregorianDate at None = Some \<lparr>gd_year = 2000, gd_month = 2, gd_day = 29, gd_hour = 23,
      gd_minute = 59, gd_second = 59\<rparr>"
  by (rule CFGregorianDate_time_roundtrip)
    (simp_all add: IsValid_iff date_ok_def month_length_def daysInMonth_def isleap_gregorian gregorian_leap_def fixed_zone_def)

text \<open>C34. Adding units to a time: the years and months move the date, with the day clamped to the length
  of the month reached, the days are then added on the calendar and the hours, minutes and seconds to
  the time, the time of day kept.  The hypothesis \<open>units_fit\<close> says that no 32-bit field overflows on the
  way; where one does, the code is undefined.\<close>

theorem CFAbsoluteTimeAddGregorianUnits_adds:
  assumes "fixed_zone tz c" "exact_time (at + c)" "date_ok y m d" "day_number y m d = (at + c) div 86400"
    "units_fit y m d units"
  shows "CFAbsoluteTimeAddGregorianUnits at tz units = Some
    (86400 * (shifted y m d (gu_years units) (gu_months units) + gu_days units) + (at + c) mod 86400 - c +
     3600 * gu_hours units + 60 * gu_minutes units + gu_seconds units)"
proof -
  have "exact_day (day_number y m d)" unfolding assms(4) by (rule exact_time_day) (rule assms(2))
  then have "year_ok y" by (intro year_ok_small exact_year [OF assms(3)])
  from AddGregorianUnits_law [OF assms(1,3,4) this assms(5)] show ?thesis .
qed

text \<open>One month after 31 January 2001 is 28 February.\<close>

lemma CFAbsoluteTimeAddGregorianUnits_adds_witness:
  "CFAbsoluteTimeAddGregorianUnits (30 * 86400 + 7) None
     \<lparr>gu_years = 0, gu_months = 1, gu_days = 0, gu_hours = 0, gu_minutes = 0, gu_seconds = 0\<rparr> = Some (58 * 86400 + 7)"
  using CFAbsoluteTimeAddGregorianUnits_adds [of None 0 "30 * 86400 + 7" 0 1 31
     "\<lparr>gu_years = 0, gu_months = 1, gu_days = 0, gu_hours = 0, gu_minutes = 0, gu_seconds = 0\<rparr>"]
  by (simp add: fixed_zone_def exact_time_def date_ok_def month_length_def daysInMonth_def day_number_def
      shifted_def isleap_gregorian gregorian_leap_def before_month_def daysBeforeMonth_def units_fit_def fits32_def)

text \<open>Adding \<open>INT32_MAX\<close> years to the first day of 2001 overflows.\<close>

lemma CFAbsoluteTimeAddGregorianUnits_overflows:
  "CFAbsoluteTimeAddGregorianUnits 0 None
     \<lparr>gu_years = 2 ^ 31 - 1, gu_months = 0, gu_days = 0, gu_hours = 0, gu_minutes = 0, gu_seconds = 0\<rparr> = None"
proof -
  have "CFAbsoluteTimeGetGregorianDate 0 None = Some \<lparr>gd_year = 0 + 2001, gd_month = 1, gd_day = 1,
      gd_hour = 0 div 3600 mod 24, gd_minute = 0 div 60 mod 60, gd_second = 0 mod 60\<rparr>"
    using GetGregorianDate_law [of 0 1 1 0 None]
    by (simp add: fixed_at_def date_ok_def month_length_def daysInMonth_def day_number_def year_ok_def fits32_def)
  then show ?thesis by (simp add: CFAbsoluteTimeAddGregorianUnits_def c_int32_def fits32_def)
qed

text \<open>C16. The difference of two times in the units asked for always ends (no search goes on for ever and no
  32-bit field overflows), is zero in the units not asked for, and is an inverse of adding: adding it to the
  second time gives the first when seconds are asked for, and otherwise a time between the two, less than a
  minute short of the first when minutes are asked for.  It is for times up to 2 to the 51 seconds from
  2001, 71 million years, whose difference the coarsest unit asked for can count in 32 bits
  (\<open>difference_fits\<close>): this is always so for years and months.\<close>

theorem CFAbsoluteTimeGetDifference_inverse:
  assumes zone: "fixed_zone tz c" and range: "\<bar>at1 + c\<bar> \<le> 2 ^ 51" "\<bar>at2 + c\<bar> \<le> 2 ^ 51"
    and size: "difference_fits f [0..<5] \<bar>at1 - at2\<bar>"
  shows "\<exists>u a. CFAbsoluteTimeGetDifferenceAsGregorianUnits at1 at2 tz f = Some u \<and>
    CFAbsoluteTimeAddGregorianUnits at2 tz u = Some a \<and>
    (\<forall>i < 5. \<not> unit_flag f i \<longrightarrow> unit_get u i = 0) \<and>
    (if kCFGregorianUnitsSeconds f then a = at1
     else gu_seconds u = 0 \<and> (if at2 < at1 then at2 \<le> a \<and> a \<le> at1 else at1 \<le> a \<and> a \<le> at2) \<and>
       (kCFGregorianUnitsMinutes f \<longrightarrow> \<bar>at1 - a\<bar> < 60)) \<and>
    (kCFGregorianUnitsMinutes f \<longrightarrow> \<bar>gu_seconds u\<bar> < 60)"
proof -
  let ?u0 = "\<lparr>gu_years = 0, gu_months = 0, gu_days = 0, gu_hours = 0, gu_minutes = 0, gu_seconds = 0\<rparr>"
  have "exact_day ((at2 + c) div 86400)" by (rule exact_time_day) (use range(2) in \<open>simp add: exact_time_def\<close>)
  from date_of_day [OF this] obtain y m d where
    ymd: "date_ok y m d" "day_number y m d = (at2 + c) div 86400" "year_ok y" by blast
  define x t where "x = (at2 + c) mod 86400" and "t = x - c"
  define incr :: int where "incr = (if at2 < at1 then 1 else -1)"
  have add: "\<forall>u. units_fit y m d u \<longrightarrow> CFAbsoluteTimeAddGregorianUnits at2 tz u = Some (added y m d t u)"
    using AddGregorianUnits_law [OF zone ymd] by (simp add: added_def t_def x_def)
  have x: "0 \<le> x" "x < 86400" "86400 * ((at2 + c) div 86400) + x = at2 + c" by (simp_all add: x_def)
  have s0: "shifted y m d 0 0 = (at2 + c) div 86400" using shifted_0 [OF ymd(1)] ymd(2) by simp
  have u0: "added y m d t ?u0 = at2" using x(3) by (simp add: added_def s0 t_def)
  have date: "1 \<le> m" "m \<le> 12" "1 \<le> d" "d \<le> 31"
    using ymd(1) month_length_bounds [of m "isleap y"] by (auto simp: date_ok_def)
  have fit0: "units_fit y m d ?u0"
    by (rule units_fitI) (use date ymd(3) x range(2) in \<open>auto simp: s0 year_ok_def exact_time_def fits32_def abs_le_iff\<close>)
  have incr: "incr = 1 \<or> incr = -1" and side: "goes_on at1 incr (added y m d t ?u0)"
    unfolding u0 by (auto simp: incr_def goes_on_def)
  have zero: "\<forall>j. 0 \<le> j \<longrightarrow> j < 5 \<longrightarrow> unit_get ?u0 j = 0" by (simp add: unit_get_def)
  from approximate_units_law [OF date add incr t_def x(1,2) range refl fit0 _ zero side, of f] size obtain u where
    u: "approximate_units at1 at2 tz f incr [0..<5] ?u0 at2 = Some (u, added y m d t u)" "units_fit y m d u"
      "goes_on at1 incr (added y m d t u)" "incr * at2 \<le> incr * added y m d t u" "gu_seconds u = 0"
      "\<forall>i < 5. \<not> unit_flag f i \<longrightarrow> unit_get u i = 0" "unit_flag f 4 \<longrightarrow> \<bar>at1 - added y m d t u\<bar> < 60"
    unfolding u0 by (auto simp: unit_get_def upt_rec_numeral)
  let ?r = "if kCFGregorianUnitsSeconds f then u\<lparr>gu_seconds := at1 - added y m d t u\<rparr> else u"
  have "CFAbsoluteTimeGetDifferenceAsGregorianUnits at1 at2 tz f = Some ?r"
    unfolding CFAbsoluteTimeGetDifferenceAsGregorianUnits_def Let_def incr_def [symmetric] u(1) Option.bind_lunit prod.case
    by (rule refl)
  moreover have "CFAbsoluteTimeAddGregorianUnits at2 tz ?r = Some (added y m d t ?r)"
    using add u(2) by (simp add: units_fit_def)
  moreover have "added y m d t (u\<lparr>gu_seconds := at1 - added y m d t u\<rparr>) = at1" using u(5) by (simp add: added_def)
  moreover have "unit_get (u\<lparr>gu_seconds := v\<rparr>) i = unit_get u i" for v i by (simp add: unit_get_def)
  moreover have "unit_flag f 4 = kCFGregorianUnitsMinutes f" by (simp add: unit_flag_def)
  ultimately show ?thesis using u(3-7) by (cases "at2 < at1") (auto simp: incr_def goes_on_def)
qed

lemma five: "[0..<5] = [0, 1, 2, 3, 4 :: nat]"
  by (simp add: upt_rec)

lemma difference_fits_coarse:
  "kCFGregorianUnitsYears f \<or> kCFGregorianUnitsMonths f \<Longrightarrow> \<bar>at1 + c\<bar> \<le> 2 ^ 51 \<Longrightarrow> \<bar>at2 + c\<bar> \<le> 2 ^ 51 \<Longrightarrow>
   difference_fits f [0..<5] \<bar>at1 - at2\<bar>"
  by (auto simp: difference_fits_def five unit_flag_def unit_least_def abs_le_iff)

lemma CFAbsoluteTimeGetDifference_inverse_witness:
  "\<exists>u. CFAbsoluteTimeGetDifferenceAsGregorianUnits (-1) 279849601 None all_units = Some u \<and>
    CFAbsoluteTimeAddGregorianUnits 279849601 None u = Some (-1)"
proof -
  have "fixed_zone None 0" "\<bar>-1 + 0 :: int\<bar> \<le> 2 ^ 51" "\<bar>279849601 + 0 :: int\<bar> \<le> 2 ^ 51"
    "difference_fits all_units [0..<5] \<bar>-1 - 279849601\<bar>"
    by (simp_all add: fixed_zone_def difference_fits_def all_units_def unit_flag_def unit_least_def five)
  from CFAbsoluteTimeGetDifference_inverse [OF this] show ?thesis by (auto simp: all_units_def)
qed

text \<open>The bound is needed: a difference of 2 to the 31 minutes in minutes alone overflows in the cast.\<close>

lemma CFAbsoluteTimeGetDifference_overflows:
  "CFAbsoluteTimeGetDifferenceAsGregorianUnits (60 * 2 ^ 31) 0 None
     \<lparr>kCFGregorianUnitsYears = False, kCFGregorianUnitsMonths = False, kCFGregorianUnitsDays = False,
      kCFGregorianUnitsHours = False, kCFGregorianUnitsMinutes = True, kCFGregorianUnitsSeconds = False\<rparr> = None"
proof -
  have "(128849018880 :: int) sdiv 60 = 2147483648" by (simp add: signed_divide_int_def sgn_if)
  then show ?thesis
    by (simp add: CFAbsoluteTimeGetDifferenceAsGregorianUnits_def unit_flag_def unit_seconds_def five
        rd_def c_int32_def fits32_def)
qed

text \<open>C35. The numbers of a day: \<open>CFAbsoluteTimeGetDayOfWeek\<close> counts from Monday, 1 January 2001, before
  it too; \<open>CFAbsoluteTimeGetDayOfYear\<close> counts from the start of the year; and
  \<open>CFAbsoluteTimeGetWeekOfYear\<close> is the ISO week, the number of the Thursday of the week in the
  Thursday's year, except for the first days of January whose week belongs to the year before: for
  those it is always 53, though the last week of that year is mostly the 52nd.\<close>

theorem CFAbsoluteTime_day_numbers:
  "\<exists>y m d. CFYMDFromAbsolute (fixed_at at tz div 86400) = Some (y, m, d) \<and>
    CFAbsoluteTimeGetDayOfWeek at tz = (fixed_at at tz div 86400) mod 7 + 1 \<and>
    CFAbsoluteTimeGetDayOfYear at tz = Some (fixed_at at tz div 86400 - year_start y + 1) \<and>
    CFAbsoluteTimeGetWeekOfYear at tz = Some
      (let th = thursday (fixed_at at tz div 86400)
       in if th < year_start y then 53 else if year_start (y + 1) \<le> th then 1 else (th - year_start y) div 7 + 1)"
  using CFYMDFromAbsolute_law [of "fixed_at at tz div 86400"] DayOfWeek_law [of at tz]
    DayOfYear_law [of at tz] WeekOfYear_law [of at tz] unfolding Let_def by blast

text \<open>Saturday, 1 January 2011 is in the 52nd ISO week of 2010; the code numbers it 53.\<close>

lemma CFAbsoluteTimeGetWeekOfYear_2011:
  "CFAbsoluteTimeGetWeekOfYear (86400 * 3652) None = Some 53"
  "thursday 3652 = 3650" "year_start 9 = 3287" "(thursday 3652 - year_start 9) div 7 + 1 = 52"
proof -
  from CFYMDFromAbsolute_law [of 3652] day_number_inj [of _ _ _ 10 1 1]
  have ymd: "CFYMDFromAbsolute 3652 = Some (10, 1, 1)"
    by (fastforce simp: date_ok_def month_length_def daysInMonth_def day_number_def year_start_def)
  then show "CFAbsoluteTimeGetWeekOfYear (86400 * 3652) None = Some 53"
    using WeekOfYear_law [of "86400 * 3652" None 10 1 1]
    by (simp add: fixed_at_def thursday_def year_start_def)
qed (simp_all add: thursday_def year_start_def)

end
