(* ===== verification/SortPointers.thy ===== *)
theory SortPointers
  imports SortFunctions
begin

text \<open>
  Sorting an array of pointers with \<open>CFQSortArray\<close>, as \<open>CFTreeSortChildren\<close> and \<open>CFArraySortValues\<close>
  do: the pointers as the bytes they are in memory, and what the sort leaves there when the
  comparison of the client, applied to the pointers, is an order.
\<close>

section \<open>Pointers in memory\<close>

text \<open>A pointer is eight bytes, little-endian.\<close>

definition ptr_bytes :: "u64 \<Rightarrow> u8 list" where
  "ptr_bytes r = map (\<lambda>i. ucast (drop_bit (8 * i) r)) [0..<8]"

definition ptr_of_bytes :: "u8 list \<Rightarrow> u64" where
  "ptr_of_bytes bs = foldr (\<lambda>b r. ucast b OR push_bit 8 r) bs 0"

lemma join_byte: "ucast (ucast (drop_bit k r) :: u8) OR push_bit 8 (drop_bit (k + 8) r) = drop_bit k r" for r :: u64
proof (rule bit_word_eqI)
  fix n assume n: "n < LENGTH(64)"
  show "bit (ucast (ucast (drop_bit k r) :: u8) OR push_bit 8 (drop_bit (k + 8) r)) n = bit (drop_bit k r) n"
  proof (cases "n < 8")
    case False
    then have "k + 8 + (n - 8) = k + n" by simp
    then show ?thesis using False n by (simp add: bit_simps)
  qed (simp add: bit_simps)
qed

lemma ptr_bytes_inverse [simp]: "ptr_of_bytes (ptr_bytes r) = r"
proof -
  have z: "drop_bit 64 r = 0" by (rule bit_word_eqI) (auto simp: bit_simps dest: bit_imp_le_length)
  have "[0..<8] = [0, 1, 2, 3, 4, 5, 6, 7]" by code_simp
  then show ?thesis
    using join_byte [of 56 r] join_byte [of 48 r] join_byte [of 40 r] join_byte [of 32 r] join_byte [of 24 r]
      join_byte [of 16 r] join_byte [of 8 r] join_byte [of 0 r] z
    by (simp add: ptr_bytes_def ptr_of_bytes_def)
qed

lemma element_ptrs: "i < length xs \<Longrightarrow> element (concat (map ptr_bytes xs)) 8 i = ptr_bytes (xs ! i)"
proof (induction xs arbitrary: i)
  case (Cons x xs)
  have "length (ptr_bytes x) = 8" by (simp add: ptr_bytes_def)
  then show ?case using Cons by (cases i) (simp_all add: element_def)
qed simp

lemma element_concat_ptrs:
  "\<forall>i \<in> set idxs. i < length xs \<Longrightarrow> concat (map (element (concat (map ptr_bytes xs)) 8) idxs) =
    concat (map ptr_bytes (map ((!) xs) idxs))"
  by (induction idxs) (auto simp: element_ptrs)

lemma decode_ptrs: "map (\<lambda>idx. ptr_of_bytes (element (concat (map ptr_bytes ys)) 8 idx)) [0..<length ys] = ys"
  by (rule nth_equalityI) (simp_all add: element_ptrs)

section \<open>The sorted pointers\<close>

text \<open>The contract of the client's comparison: "not greater" is total and transitive.\<close>

definition pointer_order :: "(u64 \<Rightarrow> u64 \<Rightarrow> CFComparisonResult) \<Rightarrow> bool" where
  "pointer_order func \<longleftrightarrow> (\<forall>x y. cmp_int (func x y) \<le> 0 \<or> cmp_int (func y x) \<le> 0) \<and>
     (\<forall>x y z. cmp_int (func x y) \<le> 0 \<longrightarrow> cmp_int (func y z) \<le> 0 \<longrightarrow> cmp_int (func x z) \<le> 0)"

lemma pointer_order_at: "pointer_order func \<Longrightarrow> sort_order (\<lambda>a b. func (f a) (f b))"
  unfolding pointer_order_def by unfold_locales blast+

lemma permuted_mset: "mset idxs = mset [0..<length xs] \<Longrightarrow> mset (map ((!) xs) idxs) = mset xs"
  by (metis map_nth mset_map)

lemma sort_pointers_law:
  assumes order: "pointer_order func" and size: "length xs \<le> (2 ^ 63 - 1) div 8"
  shows "\<exists>idxs. CFQSortArray fresh active (concat (map ptr_bytes xs)) (length xs) 8
        (\<lambda>v1 v2. func (ptr_of_bytes v1) (ptr_of_bytes v2)) = Some (concat (map ptr_bytes (map ((!) xs) idxs))) \<and>
      mset idxs = mset [0..<length xs] \<and> sorted_wrt (index_before (\<lambda>a b. func (xs ! a) (xs ! b))) idxs"
proof -
  let ?bytes = "concat (map ptr_bytes xs)" and ?f = "\<lambda>v1 v2. func (ptr_of_bytes v1) (ptr_of_bytes v2)"
  let ?c = "\<lambda>a b. ?f (element ?bytes 8 a) (element ?bytes 8 b)"
  have ord: "sort_order ?c" by (rule pointer_order_at [OF order])
  have bl: "length ?bytes = length xs * 8" by (simp add: length_concat ptr_bytes_def o_def sum_list_triv)
  have seq: "\<not> fst (sort_cores active (length xs) (0 mod 2 = (1::nat)))" by (simp add: sort_cores_def)
  from sort_array_law [where comparator = ?f and list = ?bytes, OF ord bl size seq, of fresh] obtain idxs where
    q: "CFQSortArray fresh active ?bytes (length xs) 8 ?f = Some (concat (map (element ?bytes 8) idxs))"
    and perm: "mset idxs = mset [0..<length xs]" and sorted: "sorted_wrt (sort_order.before ?c) idxs"
    unfolding CFQSortArray_def by blast
  have in_n: "\<forall>i \<in> set idxs. i < length xs" using mset_eq_setD [OF perm] by auto
  have "sorted_wrt (index_before (\<lambda>a b. func (xs ! a) (xs ! b))) idxs"
    using sorted unfolding before_eq [OF ord]
    by (rule sorted_wrt_mono_rel [rotated]) (use in_n in \<open>simp add: index_before_def element_ptrs\<close>)
  with q perm show ?thesis unfolding element_concat_ptrs [OF in_n] by blast
qed

end
