(* ===== verification/LinkedPaths.thy ===== *)
theory LinkedPaths
  imports CF_Prelude
begin

text \<open>
  Lists of nodes linked by pointers, shared by the components that keep their state in a store of
  nodes: \<open>f\<close> takes the address of a node to the next one, NULL ends a list, and \<open>path f x xs y\<close>
  says that the links lead from \<open>x\<close> through the addresses \<open>xs\<close> to \<open>y\<close>.
\<close>

abbreviation NULL :: u64 where "NULL \<equiv> 0"

text \<open>A path along the links: from \<open>x\<close> through the list to \<open>y\<close>.\<close>

fun path :: "(u64 \<Rightarrow> u64 option) \<Rightarrow> u64 \<Rightarrow> u64 list \<Rightarrow> u64 \<Rightarrow> bool" where
  "path f x [] y \<longleftrightarrow> x = y"
| "path f x (z # zs) y \<longleftrightarrow> x = z \<and> z \<noteq> NULL \<and> (\<exists>w. f z = Some w \<and> path f w zs y)"

lemma path_append [simp]: "path f x (xs @ ys) y \<longleftrightarrow> (\<exists>z. path f x xs z \<and> path f z ys y)"
  by (induction xs arbitrary: x) auto

lemma path_upd [simp]: "u \<notin> set xs \<Longrightarrow> path (f(u := v)) x xs y \<longleftrightarrow> path f x xs y"
  by (induction xs arbitrary: x) auto

lemma path_NULL [simp]: "path f NULL xs y \<longleftrightarrow> xs = [] \<and> y = NULL"
  by (cases xs) auto

lemma path_unique: "path f x xs NULL \<Longrightarrow> path f x ys NULL \<Longrightarrow> xs = ys"
proof (induction xs arbitrary: x ys)
  case (Cons z zs)
  then show ?case by (cases ys) auto
qed simp

lemma path_distinct: "path f x xs NULL \<Longrightarrow> distinct xs"
proof (induction xs arbitrary: x)
  case (Cons z zs)
  then obtain w where w: "f z = Some w" "path f w zs NULL" by auto
  have "z \<notin> set zs"
  proof
    assume "z \<in> set zs"
    then obtain as bs where zs: "zs = as @ z # bs" by (meson split_list)
    with w have "path f z (z # bs) NULL" "path f z (z # zs) NULL" using Cons.prems by auto
    from path_unique [OF this] zs show False by simp
  qed
  with Cons.IH [OF w(2)] show ?case by simp
qed simp

lemma path_last: "path f x xs NULL \<Longrightarrow> xs \<noteq> [] \<Longrightarrow> f (last xs) = Some NULL \<and> last xs \<noteq> NULL"
proof (induction xs arbitrary: x)
  case (Cons z zs)
  then show ?case by (cases "zs = []") auto
qed simp

text \<open>A new last element.\<close>

lemma path_snoc:
  assumes "path f x xs NULL" "c \<notin> set xs" "c \<noteq> NULL"
  shows "path (f(c \<mapsto> NULL)) c [c] NULL"
    "xs \<noteq> [] \<Longrightarrow> path (f(c \<mapsto> NULL, last xs \<mapsto> c)) x (xs @ [c]) NULL"
proof -
  show "path (f(c \<mapsto> NULL)) c [c] NULL" using assms by simp
  assume ne: "xs \<noteq> []"
  then obtain ys z where xs: "xs = ys @ [z]" by (metis append_butlast_last_id)
  have "distinct xs" by (rule path_distinct [OF assms(1)])
  then show "path (f(c \<mapsto> NULL, last xs \<mapsto> c)) x (xs @ [c]) NULL" using assms xs by auto
qed

lemma path_cong: "(\<And>x. x \<in> set xs \<Longrightarrow> f x = g x) \<Longrightarrow> path f a xs b \<longleftrightarrow> path g a xs b"
  by (induction xs arbitrary: a) auto

end
