(* ===== verification/ChildTree.thy ===== *)
theory ChildTree
  imports SortPointers LinkedPaths
begin

text \<open>
  \<open>CFTree.c\<close>: trees whose nodes are linked by a parent, a next sibling, a first and a rightmost
  child.  The nodes live in a store from addresses to records, so that the aliasing the code relies on
  is explicit; reading or writing through NULL or an address with no node is \<open>None\<close>, and so is a loop
  that does not end.  The calls of \<open>CFRetain\<close>, \<open>CFRelease\<close> and the context callbacks are kept in a log; a
  released child is taken to be kept alive by another owner.  There is no garbage collector
  (\<open>kCFUseCollectableAllocator\<close> is false) and the assertions are those of a release build, which
  checks nothing.  \<open>tree_rep\<close> relates a store
  to the list of the children of every tree, and each operation is shown to do on the store what a list
  operation does on these lists.
\<close>

section \<open>State\<close>

type_synonym tree_ref = u64

text \<open>A callback is NULL, one of the three functions the code compares with, or a client's.\<close>

datatype tree_callback = NoCallBack | CFRetain | CFRelease | CFCopyDescription | Client nat

record CFTreeContext =
  cx_info :: u64
  cx_retain :: tree_callback
  cx_release :: tree_callback
  cx_copyDescription :: tree_callback

record CFTreeCallBacks =
  cb_retain :: tree_callback
  cb_release :: tree_callback
  cb_copyDescription :: tree_callback

datatype tree_cbtype = kCFTreeHasNullCallBacks | kCFTreeHasCFTypeCallBacks | kCFTreeHasCustomCallBacks

record CFTree =
  t_parent :: tree_ref
  t_sibling :: tree_ref
  t_child :: tree_ref
  t_rightmostChild :: tree_ref
  t_info :: u64
  t_callbacks :: "CFTreeCallBacks option"
  t_cbtype :: tree_cbtype

text \<open>The calls that leave the component: \<open>CFRetain\<close> and \<open>CFRelease\<close> of a child, and callbacks.\<close>

datatype tree_call = RetainTree tree_ref | ReleaseTree tree_ref | Invoke tree_callback u64

record tree_store =
  ts_nodes :: "tree_ref \<Rightarrow> CFTree option"
  ts_calls :: "tree_call list"

definition tree_node :: "tree_store \<Rightarrow> tree_ref \<Rightarrow> CFTree option" where
  "tree_node st r = (if r = NULL then None else ts_nodes st r)"

definition tree_set :: "tree_store \<Rightarrow> tree_ref \<Rightarrow> (CFTree \<Rightarrow> CFTree) \<Rightarrow> tree_store option" where
  "tree_set st r f = do { n \<leftarrow> tree_node st r; Some (st\<lparr>ts_nodes := (ts_nodes st)(r \<mapsto> f n)\<rparr>) }"

definition tree_log :: "tree_store \<Rightarrow> tree_call list \<Rightarrow> tree_store" where
  "tree_log st cs = st\<lparr>ts_calls := ts_calls st @ cs\<rparr>"

section \<open>Contexts\<close>

definition kCFTypeTreeCallBacks :: CFTreeCallBacks where
  "kCFTypeTreeCallBacks = \<lparr>cb_retain = CFRetain, cb_release = CFRelease, cb_copyDescription = CFCopyDescription\<rparr>"

definition kCFNullTreeCallBacks :: CFTreeCallBacks where
  "kCFNullTreeCallBacks = \<lparr>cb_retain = NoCallBack, cb_release = NoCallBack, cb_copyDescription = NoCallBack\<rparr>"

definition CFTreeGetCallBacks :: "CFTree \<Rightarrow> CFTreeCallBacks option" where
  "CFTreeGetCallBacks tree = (case t_cbtype tree of
     kCFTreeHasNullCallBacks \<Rightarrow> Some kCFNullTreeCallBacks
   | kCFTreeHasCFTypeCallBacks \<Rightarrow> Some kCFTypeTreeCallBacks
   | kCFTreeHasCustomCallBacks \<Rightarrow> t_callbacks tree)"

definition CFTreeCallBacksMatchNull :: "CFTreeContext option \<Rightarrow> bool" where
  "CFTreeCallBacksMatchNull c = (case c of None \<Rightarrow> True
   | Some c \<Rightarrow> cx_retain c = NoCallBack \<and> cx_release c = NoCallBack \<and> cx_copyDescription c = NoCallBack)"

definition CFTreeCallBacksMatchCFType :: "CFTreeContext option \<Rightarrow> bool" where
  "CFTreeCallBacksMatchCFType c = (case c of None \<Rightarrow> False
   | Some c \<Rightarrow> cx_retain c = CFRetain \<and> cx_release c = CFRelease \<and> cx_copyDescription c = CFCopyDescription)"

text \<open>\<open>ret\<close> is what a retain callback returns.\<close>

definition CFTreeSetContext :: "(tree_callback \<Rightarrow> u64 \<Rightarrow> u64) \<Rightarrow> tree_store \<Rightarrow> tree_ref
    \<Rightarrow> CFTreeContext option \<Rightarrow> tree_store option" where
  "CFTreeSetContext ret st tree context =
     do { n \<leftarrow> tree_node st tree;
          oldcb \<leftarrow> CFTreeGetCallBacks n;
          let oldinfo = t_info n;
          n \<leftarrow> (if CFTreeCallBacksMatchNull context then Some (n\<lparr>t_cbtype := kCFTreeHasNullCallBacks\<rparr>)
            else if CFTreeCallBacksMatchCFType context then Some (n\<lparr>t_cbtype := kCFTreeHasCFTypeCallBacks\<rparr>)
            else do { c \<leftarrow> context;
                      Some (n\<lparr>t_callbacks := Some \<lparr>cb_retain = cx_retain c, cb_release = cx_release c,
                          cb_copyDescription = cx_copyDescription c\<rparr>,
                        t_cbtype := kCFTreeHasCustomCallBacks\<rparr>) });
          newcb \<leftarrow> CFTreeGetCallBacks n;
          c \<leftarrow> context;
          let (info, calls) = (if cb_retain newcb \<noteq> NoCallBack
            then (ret (cb_retain newcb) (cx_info c), [Invoke (cb_retain newcb) (cx_info c)])
            else (cx_info c, []));
          st \<leftarrow> tree_set st tree (\<lambda>_. n\<lparr>t_info := info\<rparr>);
          Some (tree_log st (calls @ (if cb_release oldcb \<noteq> NoCallBack
            then [Invoke (cb_release oldcb) oldinfo] else []))) }"

definition CFTreeGetContext :: "tree_store \<Rightarrow> tree_ref \<Rightarrow> CFTreeContext option" where
  "CFTreeGetContext st tree =
     do { n \<leftarrow> tree_node st tree;
          cb \<leftarrow> CFTreeGetCallBacks n;
          Some \<lparr>cx_info = t_info n, cx_retain = cb_retain cb, cx_release = cb_release cb,
            cx_copyDescription = cb_copyDescription cb\<rparr> }"

text \<open>\<open>memory\<close> is what the allocator returns; a new instance is cleared.\<close>

definition CFTreeCreate :: "(tree_callback \<Rightarrow> u64 \<Rightarrow> u64) \<Rightarrow> tree_store \<Rightarrow> tree_ref
    \<Rightarrow> CFTreeContext option \<Rightarrow> (tree_store \<times> tree_ref) option" where
  "CFTreeCreate ret st memory context =
     (if memory = NULL then Some (st, NULL) else
      do { st \<leftarrow> CFTreeSetContext ret (st\<lparr>ts_nodes := (ts_nodes st)(memory \<mapsto>
             \<lparr>t_parent = NULL, t_sibling = NULL, t_child = NULL, t_rightmostChild = NULL, t_info = 0,
               t_callbacks = None, t_cbtype = kCFTreeHasNullCallBacks\<rparr>)\<rparr>) memory context;
           Some (st, memory) })"

section \<open>Queries\<close>

partial_function (option) count_children :: "tree_store \<Rightarrow> tree_ref \<Rightarrow> 32 word \<Rightarrow> int option" where
  "count_children st tree cnt =
     (if NULL \<noteq> tree
      then do { n \<leftarrow> tree_node st tree; count_children st (t_sibling n) (cnt + 1) }
      else Some (sint cnt))"

definition CFTreeGetChildCount :: "tree_store \<Rightarrow> tree_ref \<Rightarrow> int option" where
  "CFTreeGetChildCount st tree = do { n \<leftarrow> tree_node st tree; count_children st (t_child n) 0 }"

definition CFTreeGetParent :: "tree_store \<Rightarrow> tree_ref \<Rightarrow> tree_ref option" where
  "CFTreeGetParent st tree = do { n \<leftarrow> tree_node st tree; Some (t_parent n) }"

definition CFTreeGetNextSibling :: "tree_store \<Rightarrow> tree_ref \<Rightarrow> tree_ref option" where
  "CFTreeGetNextSibling st tree = do { n \<leftarrow> tree_node st tree; Some (t_sibling n) }"

definition CFTreeGetFirstChild :: "tree_store \<Rightarrow> tree_ref \<Rightarrow> tree_ref option" where
  "CFTreeGetFirstChild st tree = do { n \<leftarrow> tree_node st tree; Some (t_child n) }"

partial_function (option) CFTreeFindRoot :: "tree_store \<Rightarrow> tree_ref \<Rightarrow> tree_ref option" where
  "CFTreeFindRoot st tree =
     do { n \<leftarrow> tree_node st tree;
          if NULL \<noteq> t_parent n then CFTreeFindRoot st (t_parent n) else Some tree }"

partial_function (option) child_at :: "tree_store \<Rightarrow> tree_ref \<Rightarrow> int \<Rightarrow> tree_ref option" where
  "child_at st tree idx =
     (if NULL \<noteq> tree
      then if 0 = idx then Some tree
           else do { n \<leftarrow> tree_node st tree; child_at st (t_sibling n) (idx - 1) }
      else Some NULL)"

definition CFTreeGetChildAtIndex :: "tree_store \<Rightarrow> tree_ref \<Rightarrow> int \<Rightarrow> tree_ref option" where
  "CFTreeGetChildAtIndex st tree idx = do { n \<leftarrow> tree_node st tree; child_at st (t_child n) idx }"

text \<open>The loops that visit every child: \<open>f\<close> is what they do with one.\<close>

partial_function (option) apply_children ::
  "tree_store \<Rightarrow> (tree_ref \<Rightarrow> 'a \<Rightarrow> 'a) \<Rightarrow> tree_ref \<Rightarrow> 'a \<Rightarrow> 'a option" where
  "apply_children st f tree acc =
     (if NULL \<noteq> tree
      then do { n \<leftarrow> tree_node st tree; apply_children st f (t_sibling n) (f tree acc) }
      else Some acc)"

definition CFTreeGetChildren :: "tree_store \<Rightarrow> tree_ref \<Rightarrow> tree_ref list option" where
  "CFTreeGetChildren st tree =
     do { n \<leftarrow> tree_node st tree; apply_children st (\<lambda>c children. children @ [c]) (t_child n) [] }"

definition CFTreeApplyFunctionToChildren ::
  "tree_store \<Rightarrow> tree_ref \<Rightarrow> (tree_ref \<Rightarrow> 'a \<Rightarrow> 'a) \<Rightarrow> 'a \<Rightarrow> 'a option" where
  "CFTreeApplyFunctionToChildren st tree applier context =
     do { n \<leftarrow> tree_node st tree; apply_children st applier (t_child n) context }"

section \<open>Changing the children\<close>

definition CFTreePrependChild :: "tree_store \<Rightarrow> tree_ref \<Rightarrow> tree_ref \<Rightarrow> tree_store option" where
  "CFTreePrependChild st tree newChild =
     do { st \<leftarrow> tree_set (tree_log st [RetainTree newChild]) newChild (\<lambda>n. n\<lparr>t_parent := tree\<rparr>);
          t \<leftarrow> tree_node st tree;
          st \<leftarrow> tree_set st newChild (\<lambda>n. n\<lparr>t_sibling := t_child t\<rparr>);
          t \<leftarrow> tree_node st tree;
          st \<leftarrow> (if t_child t = NULL then tree_set st tree (\<lambda>n. n\<lparr>t_rightmostChild := newChild\<rparr>) else Some st);
          tree_set st tree (\<lambda>n. n\<lparr>t_child := newChild\<rparr>) }"

definition CFTreeAppendChild :: "tree_store \<Rightarrow> tree_ref \<Rightarrow> tree_ref \<Rightarrow> tree_store option" where
  "CFTreeAppendChild st tree newChild =
     do { c \<leftarrow> tree_node st newChild;
          if t_parent c \<noteq> NULL then None else do {
          st \<leftarrow> tree_set (tree_log st [RetainTree newChild]) newChild
            (\<lambda>n. n\<lparr>t_parent := tree, t_sibling := NULL\<rparr>);
          t \<leftarrow> tree_node st tree;
          st \<leftarrow> (if t_child t = NULL then tree_set st tree (\<lambda>n. n\<lparr>t_child := newChild\<rparr>)
            else tree_set st (t_rightmostChild t) (\<lambda>n. n\<lparr>t_sibling := newChild\<rparr>));
          tree_set st tree (\<lambda>n. n\<lparr>t_rightmostChild := newChild\<rparr>) } }"

definition CFTreeInsertSibling :: "tree_store \<Rightarrow> tree_ref \<Rightarrow> tree_ref \<Rightarrow> tree_store option" where
  "CFTreeInsertSibling st tree newSibling =
     do { t \<leftarrow> tree_node st tree;
          st \<leftarrow> tree_set (tree_log st [RetainTree newSibling]) newSibling
            (\<lambda>n. n\<lparr>t_parent := t_parent t, t_sibling := t_sibling t\<rparr>);
          st \<leftarrow> tree_set st tree (\<lambda>n. n\<lparr>t_sibling := newSibling\<rparr>);
          t \<leftarrow> tree_node st tree;
          if t_parent t \<noteq> NULL
          then do { p \<leftarrow> tree_node st (t_parent t);
                    if t_rightmostChild p = tree
                    then tree_set st (t_parent t) (\<lambda>n. n\<lparr>t_rightmostChild := newSibling\<rparr>)
                    else Some st }
          else Some st }"

partial_function (option) unlink_child :: "tree_store \<Rightarrow> tree_ref \<Rightarrow> tree_ref \<Rightarrow> tree_store option" where
  "unlink_child st prevSibling tree =
     (if prevSibling = NULL then Some st else
      do { n \<leftarrow> tree_node st prevSibling;
           if t_sibling n = tree
           then do { t \<leftarrow> tree_node st tree;
                     st \<leftarrow> tree_set st prevSibling (\<lambda>n. n\<lparr>t_sibling := t_sibling t\<rparr>);
                     t \<leftarrow> tree_node st tree;
                     p \<leftarrow> tree_node st (t_parent t);
                     if t_rightmostChild p = tree
                     then tree_set st (t_parent t) (\<lambda>n. n\<lparr>t_rightmostChild := prevSibling\<rparr>)
                     else Some st }
           else unlink_child st (t_sibling n) tree })"

definition CFTreeRemove :: "tree_store \<Rightarrow> tree_ref \<Rightarrow> tree_store option" where
  "CFTreeRemove st tree =
     do { t \<leftarrow> tree_node st tree;
          if NULL \<noteq> t_parent t
          then do { p \<leftarrow> tree_node st (t_parent t);
                    st \<leftarrow> (if tree = t_child p
                      then do { st \<leftarrow> tree_set st (t_parent t) (\<lambda>n. n\<lparr>t_child := t_sibling t\<rparr>);
                                t \<leftarrow> tree_node st tree;
                                if t_sibling t = NULL
                                then tree_set st (t_parent t) (\<lambda>n. n\<lparr>t_rightmostChild := NULL\<rparr>)
                                else Some st }
                      else unlink_child st (t_child p) tree);
                    st \<leftarrow> tree_set st tree (\<lambda>n. n\<lparr>t_parent := NULL, t_sibling := NULL\<rparr>);
                    Some (tree_log st [ReleaseTree tree]) }
          else Some st }"

partial_function (option) release_children :: "tree_store \<Rightarrow> tree_ref \<Rightarrow> tree_store option" where
  "release_children st nextChild =
     (if NULL \<noteq> nextChild
      then do { n \<leftarrow> tree_node st nextChild;
                let nextSibling = t_sibling n;
                st \<leftarrow> tree_set st nextChild (\<lambda>n. n\<lparr>t_parent := NULL, t_sibling := NULL\<rparr>);
                release_children (tree_log st [ReleaseTree nextChild]) nextSibling }
      else Some st)"

definition CFTreeRemoveAllChildren :: "tree_store \<Rightarrow> tree_ref \<Rightarrow> tree_store option" where
  "CFTreeRemoveAllChildren st tree =
     do { t \<leftarrow> tree_node st tree;
          st \<leftarrow> tree_set st tree (\<lambda>n. n\<lparr>t_child := NULL, t_rightmostChild := NULL\<rparr>);
          release_children st (t_child t) }"

text \<open>What deallocating a tree does: its children are released and so is its context; the memory of
  the node is then free.\<close>

definition CFTreeDeallocate :: "tree_store \<Rightarrow> tree_ref \<Rightarrow> tree_store option" where
  "CFTreeDeallocate st tree =
     do { st \<leftarrow> CFTreeRemoveAllChildren st tree;
          n \<leftarrow> tree_node st tree;
          cb \<leftarrow> CFTreeGetCallBacks n;
          Some (tree_log st (if cb_release cb \<noteq> NoCallBack then [Invoke (cb_release cb) (t_info n)] else [])) }"

section \<open>Sorting\<close>

text \<open>\<open>CFQSortArray\<close> takes the array of child pointers as the bytes it is in memory.\<close>

definition CFTreeCompareValues ::
  "(tree_ref \<Rightarrow> tree_ref \<Rightarrow> CFComparisonResult) \<Rightarrow> u8 list \<Rightarrow> u8 list \<Rightarrow> CFComparisonResult" where
  "CFTreeCompareValues func v1 v2 = func (ptr_of_bytes v1) (ptr_of_bytes v2)"

fun link_siblings :: "tree_store \<Rightarrow> tree_ref list \<Rightarrow> tree_store option" where
  "link_siblings st [] = Some st"
| "link_siblings st [x] = tree_set st x (\<lambda>n. n\<lparr>t_sibling := NULL\<rparr>)"
| "link_siblings st (x # y # xs) =
     do { st \<leftarrow> tree_set st x (\<lambda>n. n\<lparr>t_sibling := y\<rparr>); link_siblings st (y # xs) }"

text \<open>\<open>fresh\<close> and \<open>active\<close> are those of \<open>CFQSortArray\<close>: new memory and the number of processors.\<close>

definition CFTreeSortChildren :: "(nat \<Rightarrow> nat) \<Rightarrow> nat \<Rightarrow> tree_store \<Rightarrow> tree_ref
    \<Rightarrow> (tree_ref \<Rightarrow> tree_ref \<Rightarrow> CFComparisonResult) \<Rightarrow> tree_store option" where
  "CFTreeSortChildren fresh active st tree comparator =
     do { children \<leftarrow> CFTreeGetChildCount st tree;
          if 1 < children
          then do { list \<leftarrow> CFTreeGetChildren st tree;
                    bytes \<leftarrow> CFQSortArray fresh active (concat (map ptr_bytes list)) (nat children) 8
                      (CFTreeCompareValues comparator);
                    let list = map (\<lambda>idx. ptr_of_bytes (element bytes 8 idx)) [0..<nat children];
                    first \<leftarrow> rd list 0;
                    rightmost \<leftarrow> rd list (nat children - 1);
                    st \<leftarrow> tree_set st tree (\<lambda>n. n\<lparr>t_child := first\<rparr>);
                    st \<leftarrow> link_siblings st list;
                    tree_set st tree (\<lambda>n. n\<lparr>t_rightmostChild := rightmost\<rparr>) }
          else Some st }"

section \<open>The children of a tree\<close>

definition tree_rightmost :: "tree_store \<Rightarrow> tree_ref \<Rightarrow> tree_ref option" where
  "tree_rightmost st t = map_option t_rightmostChild (tree_node st t)"

lemmas tree_links = CFTreeGetParent_def CFTreeGetNextSibling_def CFTreeGetFirstChild_def tree_rightmost_def

lemma tree_node_log [simp]: "tree_node (tree_log st cs) = tree_node st" "ts_calls (tree_log st cs) = ts_calls st @ cs"
  by (simp_all add: tree_log_def tree_node_def fun_eq_iff)

lemma tree_links_log [simp]:
  "CFTreeGetParent (tree_log st cs) = CFTreeGetParent st" "CFTreeGetNextSibling (tree_log st cs) = CFTreeGetNextSibling st"
  "CFTreeGetFirstChild (tree_log st cs) = CFTreeGetFirstChild st" "tree_rightmost (tree_log st cs) = tree_rightmost st"
  by (simp_all add: tree_links fun_eq_iff)

lemma tree_links_Some:
  "CFTreeGetParent st x = Some v \<longleftrightarrow> (\<exists>n. tree_node st x = Some n \<and> t_parent n = v)"
  "CFTreeGetNextSibling st x = Some v \<longleftrightarrow> (\<exists>n. tree_node st x = Some n \<and> t_sibling n = v)"
  "CFTreeGetFirstChild st x = Some v \<longleftrightarrow> (\<exists>n. tree_node st x = Some n \<and> t_child n = v)"
  "tree_rightmost st x = Some v \<longleftrightarrow> (\<exists>n. tree_node st x = Some n \<and> t_rightmostChild n = v)"
  by (auto simp: tree_links bind_eq_Some_conv)

lemma tree_links_None:
  "CFTreeGetParent st x = None \<longleftrightarrow> tree_node st x = None"
  "CFTreeGetNextSibling st x = None \<longleftrightarrow> tree_node st x = None"
  "CFTreeGetFirstChild st x = None \<longleftrightarrow> tree_node st x = None"
  "tree_rightmost st x = None \<longleftrightarrow> tree_node st x = None"
  by (cases "tree_node st x"; simp add: tree_links)+

lemma tree_node_NULL [simp]: "tree_node st NULL = None"
  by (simp add: tree_node_def)

lemma tree_set_Some:
  assumes "tree_node st r = Some n"
  obtains st' where "tree_set st r f = Some st'"
    "tree_node st' = (tree_node st)(r \<mapsto> f n)" "ts_calls st' = ts_calls st"
proof -
  have "r \<noteq> NULL" using assms by auto
  then show thesis using assms by (intro that [of "st\<lparr>ts_nodes := (ts_nodes st)(r \<mapsto> f n)\<rparr>"])
      (auto simp: tree_set_def tree_node_def fun_eq_iff)
qed

text \<open>The abstraction: \<open>kids t\<close> is the list of the children of \<open>t\<close>.  The child pointer starts a path
  through it, the rightmost pointer is its last element, every child has \<open>t\<close> as its parent and is in
  no other list, and a tree without a parent has no sibling.\<close>

definition tree_rep :: "tree_store \<Rightarrow> (tree_ref \<Rightarrow> tree_ref list) \<Rightarrow> bool" where
  "tree_rep st kids \<longleftrightarrow>
     (\<forall>t. tree_node st t = None \<longrightarrow> kids t = []) \<and>
     (\<forall>t x. CFTreeGetFirstChild st t = Some x \<longrightarrow> path (CFTreeGetNextSibling st) x (kids t) NULL) \<and>
     (\<forall>t x. tree_rightmost st t = Some x \<longrightarrow> x = (if kids t = [] then NULL else last (kids t))) \<and>
     (\<forall>c. CFTreeGetParent st c = Some NULL \<longrightarrow> CFTreeGetNextSibling st c = Some NULL) \<and>
     (\<forall>t c. c \<in> set (kids t) \<longleftrightarrow> t \<noteq> NULL \<and> CFTreeGetParent st c = Some t)"

lemma tree_repD:
  assumes "tree_rep st kids"
  shows "tree_node st t = None \<Longrightarrow> kids t = []"
    "tree_node st t = Some n \<Longrightarrow> path (CFTreeGetNextSibling st) (t_child n) (kids t) NULL"
    "tree_node st t = Some n \<Longrightarrow> t_rightmostChild n = (if kids t = [] then NULL else last (kids t))"
    "CFTreeGetParent st c = Some NULL \<Longrightarrow> CFTreeGetNextSibling st c = Some NULL"
    "c \<in> set (kids t) \<longleftrightarrow> t \<noteq> NULL \<and> CFTreeGetParent st c = Some t"
  using assms unfolding tree_rep_def by (simp_all add: tree_links_Some)

lemma tree_rep_child:
  assumes "tree_rep st kids" "tree_node st t = Some n"
  shows "t_child n = NULL \<longleftrightarrow> kids t = []" "kids t = x # xs \<Longrightarrow> t_child n = x"
  using tree_repD(2) [OF assms] by (cases "kids t"; auto)+

lemma kids_distinct: "tree_rep st kids \<Longrightarrow> distinct (kids t)"
  using tree_repD(1) [of st kids t] tree_repD(2) [of st kids t] path_distinct
  by (cases "tree_node st t") auto

text \<open>The links after an update of a node.\<close>

lemma tree_links_upd:
  assumes "tree_node st' = (tree_node st)(r \<mapsto> n)"
  shows "CFTreeGetParent st' = (CFTreeGetParent st)(r \<mapsto> t_parent n)"
    "CFTreeGetNextSibling st' = (CFTreeGetNextSibling st)(r \<mapsto> t_sibling n)"
    "CFTreeGetFirstChild st' = (CFTreeGetFirstChild st)(r \<mapsto> t_child n)"
    "tree_rightmost st' = (tree_rightmost st)(r \<mapsto> t_rightmostChild n)"
  using assms by (auto simp: tree_links fun_eq_iff)

lemma tree_links_triv:
  assumes "tree_node st r = Some n"
  shows "(CFTreeGetParent st)(r \<mapsto> t_parent n) = CFTreeGetParent st"
    "(CFTreeGetNextSibling st)(r \<mapsto> t_sibling n) = CFTreeGetNextSibling st"
    "(CFTreeGetFirstChild st)(r \<mapsto> t_child n) = CFTreeGetFirstChild st"
    "(tree_rightmost st)(r \<mapsto> t_rightmostChild n) = tree_rightmost st"
  using assms by (auto simp: tree_links fun_eq_iff)

text \<open>The effect of setting one field.\<close>

lemma set_links:
  assumes "tree_node st r = Some n"
  shows "\<exists>st'. tree_set st r (\<lambda>n. n\<lparr>t_parent := v\<rparr>) = Some st' \<and> tree_node st' = (tree_node st)(r \<mapsto> n\<lparr>t_parent := v\<rparr>) \<and>
      ts_calls st' = ts_calls st \<and> CFTreeGetParent st' = (CFTreeGetParent st)(r \<mapsto> v) \<and>
      CFTreeGetNextSibling st' = CFTreeGetNextSibling st \<and> CFTreeGetFirstChild st' = CFTreeGetFirstChild st \<and>
      tree_rightmost st' = tree_rightmost st"
    "\<exists>st'. tree_set st r (\<lambda>n. n\<lparr>t_sibling := v\<rparr>) = Some st' \<and> tree_node st' = (tree_node st)(r \<mapsto> n\<lparr>t_sibling := v\<rparr>) \<and>
      ts_calls st' = ts_calls st \<and> CFTreeGetParent st' = CFTreeGetParent st \<and>
      CFTreeGetNextSibling st' = (CFTreeGetNextSibling st)(r \<mapsto> v) \<and> CFTreeGetFirstChild st' = CFTreeGetFirstChild st \<and>
      tree_rightmost st' = tree_rightmost st"
    "\<exists>st'. tree_set st r (\<lambda>n. n\<lparr>t_child := v\<rparr>) = Some st' \<and> tree_node st' = (tree_node st)(r \<mapsto> n\<lparr>t_child := v\<rparr>) \<and>
      ts_calls st' = ts_calls st \<and> CFTreeGetParent st' = CFTreeGetParent st \<and>
      CFTreeGetNextSibling st' = CFTreeGetNextSibling st \<and> CFTreeGetFirstChild st' = (CFTreeGetFirstChild st)(r \<mapsto> v) \<and>
      tree_rightmost st' = tree_rightmost st"
    "\<exists>st'. tree_set st r (\<lambda>n. n\<lparr>t_rightmostChild := v\<rparr>) = Some st' \<and>
      tree_node st' = (tree_node st)(r \<mapsto> n\<lparr>t_rightmostChild := v\<rparr>) \<and>
      ts_calls st' = ts_calls st \<and> CFTreeGetParent st' = CFTreeGetParent st \<and>
      CFTreeGetNextSibling st' = CFTreeGetNextSibling st \<and> CFTreeGetFirstChild st' = CFTreeGetFirstChild st \<and>
      tree_rightmost st' = (tree_rightmost st)(r \<mapsto> v)"
    "\<exists>st'. tree_set st r (\<lambda>n. n\<lparr>t_parent := v, t_sibling := w\<rparr>) = Some st' \<and>
      tree_node st' = (tree_node st)(r \<mapsto> n\<lparr>t_parent := v, t_sibling := w\<rparr>) \<and>
      ts_calls st' = ts_calls st \<and> CFTreeGetParent st' = (CFTreeGetParent st)(r \<mapsto> v) \<and>
      CFTreeGetNextSibling st' = (CFTreeGetNextSibling st)(r \<mapsto> w) \<and> CFTreeGetFirstChild st' = CFTreeGetFirstChild st \<and>
      tree_rightmost st' = tree_rightmost st"
    "\<exists>st'. tree_set st r (\<lambda>n. n\<lparr>t_child := v, t_rightmostChild := w\<rparr>) = Some st' \<and>
      tree_node st' = (tree_node st)(r \<mapsto> n\<lparr>t_child := v, t_rightmostChild := w\<rparr>) \<and>
      ts_calls st' = ts_calls st \<and> CFTreeGetParent st' = CFTreeGetParent st \<and>
      CFTreeGetNextSibling st' = CFTreeGetNextSibling st \<and> CFTreeGetFirstChild st' = (CFTreeGetFirstChild st)(r \<mapsto> v) \<and>
      tree_rightmost st' = (tree_rightmost st)(r \<mapsto> w)"
  by (rule tree_set_Some [OF assms], rule exI, intro conjI, assumption+,
      simp_all add: tree_links_upd tree_links_triv [OF assms])+

section \<open>Adding children\<close>

text \<open>What a tree without a parent may assume: it is in no list, and no list is disturbed by it.\<close>

lemma root_fresh:
  assumes "tree_rep st kids" "tree_node st c = Some n" "t_parent n = NULL"
  shows "c \<notin> set (kids t)" "c \<noteq> NULL"
  using assms tree_repD(5) [OF assms(1), of c t] by (auto simp: tree_links)

lemma other_list:
  assumes "tree_rep st kids" "x \<in> set (kids t)" "t' \<noteq> t"
  shows "x \<notin> set (kids t')"
  using assms(2,3) tree_repD(5) [OF assms(1)] by auto

text \<open>One list changes: the rule every operation on the children is proved by.\<close>

lemma relist:
  assumes rep: "tree_rep st kids" and t: "t \<noteq> NULL"
    and par: "\<And>x. CFTreeGetParent st' x =
      (if x \<in> set xs then Some t else if x \<in> set (kids t) then Some NULL else CFTreeGetParent st x)"
    and same: "\<And>u. u \<noteq> t \<Longrightarrow> CFTreeGetFirstChild st' u = CFTreeGetFirstChild st u"
      "\<And>u. u \<noteq> t \<Longrightarrow> tree_rightmost st' u = tree_rightmost st u"
      "\<And>u x. u \<noteq> t \<Longrightarrow> x \<in> set (kids u) \<Longrightarrow> CFTreeGetNextSibling st' x = CFTreeGetNextSibling st x"
    and new: "\<And>x. x \<in> set xs \<Longrightarrow> x \<notin> set (kids t) \<Longrightarrow> CFTreeGetParent st x = Some NULL"
    and list: "CFTreeGetFirstChild st' t = Some a" "path (CFTreeGetNextSibling st') a xs NULL"
      "tree_rightmost st' t = Some (if xs = [] then NULL else last xs)"
    and roots: "\<And>x. CFTreeGetParent st' x = Some NULL \<Longrightarrow> CFTreeGetNextSibling st' x = Some NULL"
  shows "tree_rep st' (kids(t := xs))"
  unfolding tree_rep_def
proof (intro conjI allI impI)
  fix u assume "tree_node st' u = None"
  then have u: "CFTreeGetFirstChild st' u = None" by (simp add: tree_links_None)
  then have "u \<noteq> t" using list(1) by auto
  then show "(kids(t := xs)) u = []" using u same(1) tree_repD(1) [OF rep] by (simp add: tree_links_None)
next
  fix u x assume k: "CFTreeGetFirstChild st' u = Some x"
  show "path (CFTreeGetNextSibling st') x ((kids(t := xs)) u) NULL"
  proof (cases "u = t")
    case True
    then show ?thesis using k list by simp
  next
    case False
    then have "path (CFTreeGetNextSibling st) x (kids u) NULL"
      using k same(1) tree_repD(2) [OF rep] by (auto simp: tree_links_Some)
    then show ?thesis using False same(3) [OF False] path_cong [of "kids u" "CFTreeGetNextSibling st'"] by simp
  qed
next
  fix u x assume "tree_rightmost st' u = Some x"
  then show "x = (if (kids(t := xs)) u = [] then NULL else last ((kids(t := xs)) u))"
    using list(3) same(2) tree_repD(3) [OF rep] by (cases "u = t") (auto simp: tree_links_Some)
next
  fix c assume "CFTreeGetParent st' c = Some NULL"
  then show "CFTreeGetNextSibling st' c = Some NULL" by (rule roots)
next
  fix u c
  show "c \<in> set ((kids(t := xs)) u) \<longleftrightarrow> u \<noteq> NULL \<and> CFTreeGetParent st' c = Some u"
    using tree_repD(5) [OF rep, of c u] tree_repD(5) [OF rep, of c t] new [of c] t by (auto simp: par)
qed

lemma rep_sibling_root: "tree_rep st kids \<Longrightarrow> CFTreeGetParent st x = Some NULL \<Longrightarrow> CFTreeGetNextSibling st x = Some NULL"
  by (rule tree_repD(4))

lemma kids_allocated: "tree_rep st kids \<Longrightarrow> x \<in> set (kids t) \<Longrightarrow> \<exists>n. tree_node st x = Some n \<and> t_parent n = t \<and> t \<noteq> NULL"
  using tree_repD(5) [of st kids x t] by (simp add: tree_links_Some)

lemma AppendChild_effect:
  assumes rep: "tree_rep st kids" and t: "tree_node st tree = Some t"
    and c: "tree_node st c = Some n" "t_parent n = NULL" "c \<noteq> tree"
  shows "\<exists>st'. CFTreeAppendChild st tree c = Some st' \<and> ts_calls st' = ts_calls st @ [RetainTree c] \<and>
    CFTreeGetParent st' = (CFTreeGetParent st)(c \<mapsto> tree) \<and>
    CFTreeGetNextSibling st' = (if kids tree = [] then (CFTreeGetNextSibling st)(c \<mapsto> NULL)
      else (CFTreeGetNextSibling st)(c \<mapsto> NULL, last (kids tree) \<mapsto> c)) \<and>
    CFTreeGetFirstChild st' = (if kids tree = [] then (CFTreeGetFirstChild st)(tree \<mapsto> c) else CFTreeGetFirstChild st) \<and>
    tree_rightmost st' = (tree_rightmost st)(tree \<mapsto> c)"
proof -
  from set_links(5) [of "tree_log st [RetainTree c]" c n, where v = tree and w = NULL] c(1) obtain s1 where
    s1: "tree_set (tree_log st [RetainTree c]) c (\<lambda>n. n\<lparr>t_parent := tree, t_sibling := NULL\<rparr>) = Some s1"
      "tree_node s1 = (tree_node st)(c \<mapsto> n\<lparr>t_parent := tree, t_sibling := NULL\<rparr>)"
      "ts_calls s1 = ts_calls st @ [RetainTree c]" "CFTreeGetParent s1 = (CFTreeGetParent st)(c \<mapsto> tree)"
      "CFTreeGetNextSibling s1 = (CFTreeGetNextSibling st)(c \<mapsto> NULL)"
      "CFTreeGetFirstChild s1 = CFTreeGetFirstChild st" "tree_rightmost s1 = tree_rightmost st" by auto
  have t1: "tree_node s1 tree = Some t" using s1(2) t c(3) by simp
  show ?thesis
  proof (cases "kids tree = []")
    case True
    then have e: "t_child t = NULL" using tree_rep_child [OF rep t] by simp
    from set_links(3) [OF t1, of c] obtain s2 where
      s2: "tree_set s1 tree (\<lambda>n. n\<lparr>t_child := c\<rparr>) = Some s2" "tree_node s2 = (tree_node s1)(tree \<mapsto> t\<lparr>t_child := c\<rparr>)"
        "ts_calls s2 = ts_calls s1" "CFTreeGetParent s2 = CFTreeGetParent s1"
        "CFTreeGetNextSibling s2 = CFTreeGetNextSibling s1" "CFTreeGetFirstChild s2 = (CFTreeGetFirstChild s1)(tree \<mapsto> c)"
        "tree_rightmost s2 = tree_rightmost s1" by blast
    have t2: "tree_node s2 tree = Some (t\<lparr>t_child := c\<rparr>)" using s2(2) by simp
    from set_links(4) [OF t2, of c] show ?thesis using True s1 s2 c t1 e
      by (auto simp: CFTreeAppendChild_def)
  next
    case False
    then have e: "t_child t \<noteq> NULL" "t_rightmostChild t = last (kids tree)"
      using tree_rep_child [OF rep t] tree_repD(3) [OF rep t] by simp_all
    have "last (kids tree) \<in> set (kids tree)" using False by simp
    then have "CFTreeGetParent st (last (kids tree)) = Some tree" using tree_repD(5) [OF rep] by blast
    then obtain l where l: "tree_node st (last (kids tree)) = Some l" by (auto simp: tree_links_Some)
    have lc: "last (kids tree) \<noteq> c" using root_fresh(1) [OF rep c(1,2), of tree] False by (metis last_in_set)
    with l s1(2) have l1: "tree_node s1 (last (kids tree)) = Some l" by simp
    from set_links(2) [OF l1, of c] obtain s2 where
      s2: "tree_set s1 (last (kids tree)) (\<lambda>n. n\<lparr>t_sibling := c\<rparr>) = Some s2"
        "tree_node s2 = (tree_node s1)(last (kids tree) \<mapsto> l\<lparr>t_sibling := c\<rparr>)"
        "ts_calls s2 = ts_calls s1" "CFTreeGetParent s2 = CFTreeGetParent s1"
        "CFTreeGetNextSibling s2 = (CFTreeGetNextSibling s1)(last (kids tree) \<mapsto> c)"
        "CFTreeGetFirstChild s2 = CFTreeGetFirstChild s1"
        "tree_rightmost s2 = tree_rightmost s1" by blast
    obtain t' where t2: "tree_node s2 tree = Some t'" using s2(2) t1 by (cases "last (kids tree) = tree") auto
    from set_links(4) [OF t2, of c] show ?thesis using False s1 s2 c t1 e
      by (auto simp: CFTreeAppendChild_def)
  qed
qed

text \<open>Appending refines appending to the list of children.\<close>

lemma AppendChild_law:
  assumes rep: "tree_rep st kids" and t: "tree_node st tree = Some t"
    and c: "tree_node st c = Some n" "t_parent n = NULL" "c \<noteq> tree"
  shows "\<exists>st'. CFTreeAppendChild st tree c = Some st' \<and> tree_rep st' (kids(tree := kids tree @ [c])) \<and>
    ts_calls st' = ts_calls st @ [RetainTree c] \<and> CFTreeGetParent st' = (CFTreeGetParent st)(c \<mapsto> tree)"
proof -
  from AppendChild_effect [OF assms] obtain st' where st': "CFTreeAppendChild st tree c = Some st'"
    "ts_calls st' = ts_calls st @ [RetainTree c]" and par: "CFTreeGetParent st' = (CFTreeGetParent st)(c \<mapsto> tree)"
    and sib: "CFTreeGetNextSibling st' = (if kids tree = [] then (CFTreeGetNextSibling st)(c \<mapsto> NULL)
      else (CFTreeGetNextSibling st)(c \<mapsto> NULL, last (kids tree) \<mapsto> c))"
    and kid: "CFTreeGetFirstChild st' = (if kids tree = [] then (CFTreeGetFirstChild st)(tree \<mapsto> c) else CFTreeGetFirstChild st)"
    and right: "tree_rightmost st' = (tree_rightmost st)(tree \<mapsto> c)" by blast
  note fresh = root_fresh [OF rep c(1,2)]
  have tn: "tree \<noteq> NULL" using t by auto
  have p: "path (CFTreeGetNextSibling st) (t_child t) (kids tree) NULL" by (rule tree_repD(2) [OF rep t])
  have "tree_rep st' (kids(tree := kids tree @ [c]))"
  proof (rule relist [OF rep tn])
    show "CFTreeGetParent st' x = (if x \<in> set (kids tree @ [c]) then Some tree
        else if x \<in> set (kids tree) then Some NULL else CFTreeGetParent st x)" for x
      using tree_repD(5) [OF rep, of x tree] by (auto simp: par)
    show "CFTreeGetNextSibling st' x = CFTreeGetNextSibling st x" if "u \<noteq> tree" "x \<in> set (kids u)" for u x
    proof -
      have "x \<noteq> c" "x \<notin> set (kids tree)" using that fresh(1) [of u] other_list [OF rep that(2), of tree] by auto
      then have "x \<noteq> c" "kids tree \<noteq> [] \<Longrightarrow> x \<noteq> last (kids tree)" by (auto dest: last_in_set)
      then show ?thesis by (simp add: sib)
    qed
    show "CFTreeGetFirstChild st' tree = Some (if kids tree = [] then c else t_child t)"
      using t by (simp add: kid CFTreeGetFirstChild_def)
    show "path (CFTreeGetNextSibling st') (if kids tree = [] then c else t_child t) (kids tree @ [c]) NULL"
    proof (cases "kids tree = []")
      case True
      then show ?thesis using path_snoc(1) [OF p fresh(1) fresh(2)] unfolding sib by simp
    next
      case False
      then show ?thesis using path_snoc(2) [OF p fresh(1) fresh(2) False] unfolding sib by (simp only: if_False)
    qed
    show "CFTreeGetNextSibling st' x = Some NULL" if "CFTreeGetParent st' x = Some NULL" for x
    proof -
      have x: "x \<noteq> c" "CFTreeGetParent st x = Some NULL" using that tn by (auto simp: par split: if_splits)
      then have "kids tree \<noteq> [] \<Longrightarrow> x \<noteq> last (kids tree)" using tree_repD(5) [OF rep, of "last (kids tree)" tree] by auto
      then show ?thesis using tree_repD(4) [OF rep x(2)] x(1) by (simp add: sib)
    qed
  qed (use c in \<open>simp_all add: kid right CFTreeGetParent_def split: if_splits\<close>)
  with st' par show ?thesis by blast
qed

lemma PrependChild_law:
  assumes rep: "tree_rep st kids" and t: "tree_node st tree = Some t"
    and c: "tree_node st c = Some n" "t_parent n = NULL" "c \<noteq> tree"
  shows "\<exists>st'. CFTreePrependChild st tree c = Some st' \<and> tree_rep st' (kids(tree := c # kids tree)) \<and>
    ts_calls st' = ts_calls st @ [RetainTree c] \<and> CFTreeGetParent st' = (CFTreeGetParent st)(c \<mapsto> tree)"
proof -
  from set_links(1) [of "tree_log st [RetainTree c]" c n, where v = tree] c(1) obtain s1 where
    s1: "tree_set (tree_log st [RetainTree c]) c (\<lambda>n. n\<lparr>t_parent := tree\<rparr>) = Some s1"
      "tree_node s1 = (tree_node st)(c \<mapsto> n\<lparr>t_parent := tree\<rparr>)"
      "ts_calls s1 = ts_calls st @ [RetainTree c]" "CFTreeGetParent s1 = (CFTreeGetParent st)(c \<mapsto> tree)"
      "CFTreeGetNextSibling s1 = CFTreeGetNextSibling st"
      "CFTreeGetFirstChild s1 = CFTreeGetFirstChild st" "tree_rightmost s1 = tree_rightmost st" by auto
  have t1: "tree_node s1 tree = Some t" "tree_node s1 c = Some (n\<lparr>t_parent := tree\<rparr>)" using s1(2) t c(3) by simp_all
  from set_links(2) [OF t1(2), of "t_child t"] obtain s2 where
    s2: "tree_set s1 c (\<lambda>n. n\<lparr>t_sibling := t_child t\<rparr>) = Some s2"
      "tree_node s2 = (tree_node s1)(c \<mapsto> n\<lparr>t_parent := tree, t_sibling := t_child t\<rparr>)" "ts_calls s2 = ts_calls s1"
      "CFTreeGetParent s2 = CFTreeGetParent s1" "CFTreeGetNextSibling s2 = (CFTreeGetNextSibling s1)(c \<mapsto> t_child t)"
      "CFTreeGetFirstChild s2 = CFTreeGetFirstChild s1" "tree_rightmost s2 = tree_rightmost s1" by auto
  have t2: "tree_node s2 tree = Some t" using s2(2) t1 c(3) by simp
  let ?set = "if t_child t = NULL then tree_set s2 tree (\<lambda>n. n\<lparr>t_rightmostChild := c\<rparr>) else Some s2"
  have "\<exists>s3 t3. ?set = Some s3 \<and> tree_node s3 tree = Some t3 \<and> ts_calls s3 = ts_calls s2 \<and>
      CFTreeGetParent s3 = CFTreeGetParent s2 \<and> CFTreeGetNextSibling s3 = CFTreeGetNextSibling s2 \<and>
      CFTreeGetFirstChild s3 = CFTreeGetFirstChild s2 \<and>
      tree_rightmost s3 = (if t_child t = NULL then (tree_rightmost s2)(tree \<mapsto> c) else tree_rightmost s2)"
    using set_links(4) [OF t2, of c] t2 by (cases "t_child t = NULL") auto
  then obtain s3 t3 where s3: "?set = Some s3" "tree_node s3 tree = Some t3" "ts_calls s3 = ts_calls s2"
      "CFTreeGetParent s3 = CFTreeGetParent s2" "CFTreeGetNextSibling s3 = CFTreeGetNextSibling s2"
      "CFTreeGetFirstChild s3 = CFTreeGetFirstChild s2"
      "tree_rightmost s3 = (if t_child t = NULL then (tree_rightmost s2)(tree \<mapsto> c) else tree_rightmost s2)" by blast
  from set_links(3) [OF s3(2), of c] obtain st' where
    s4: "tree_set s3 tree (\<lambda>n. n\<lparr>t_child := c\<rparr>) = Some st'" "ts_calls st' = ts_calls s3"
      "CFTreeGetParent st' = CFTreeGetParent s3" "CFTreeGetNextSibling st' = CFTreeGetNextSibling s3"
      "CFTreeGetFirstChild st' = (CFTreeGetFirstChild s3)(tree \<mapsto> c)" "tree_rightmost st' = tree_rightmost s3" by blast
  have run: "CFTreePrependChild st tree c = Some st'"
    unfolding CFTreePrependChild_def s1(1) Option.bind_lunit t1 s2(1) t2 s3(1) s4(1) by (rule refl)
  have calls: "ts_calls st' = ts_calls st @ [RetainTree c]" using s4 s3 s2 s1 by simp
  have par: "CFTreeGetParent st' = (CFTreeGetParent st)(c \<mapsto> tree)" using s4 s3 s2 s1 by simp
  have sib: "CFTreeGetNextSibling st' = (CFTreeGetNextSibling st)(c \<mapsto> t_child t)" using s4 s3 s2 s1 by simp
  have kid: "CFTreeGetFirstChild st' = (CFTreeGetFirstChild st)(tree \<mapsto> c)" using s4 s3 s2 s1 by simp
  have right: "tree_rightmost st' = (if kids tree = [] then (tree_rightmost st)(tree \<mapsto> c) else tree_rightmost st)"
    using s4 s3 s2 s1 tree_rep_child(1) [OF rep t] by simp
  note fresh = root_fresh [OF rep c(1,2)]
  have tn: "tree \<noteq> NULL" using t by auto
  have p: "path (CFTreeGetNextSibling st) (t_child t) (kids tree) NULL" by (rule tree_repD(2) [OF rep t])
  have "tree_rep st' (kids(tree := c # kids tree))"
  proof (rule relist [OF rep tn])
    show "CFTreeGetParent st' x = (if x \<in> set (c # kids tree) then Some tree
        else if x \<in> set (kids tree) then Some NULL else CFTreeGetParent st x)" for x
      using tree_repD(5) [OF rep, of x tree] by (auto simp: par)
    show "CFTreeGetNextSibling st' x = CFTreeGetNextSibling st x" if "u \<noteq> tree" "x \<in> set (kids u)" for u x
      using that fresh(1) [of u] by (auto simp: sib)
    show "path (CFTreeGetNextSibling st') c (c # kids tree) NULL" using p fresh by (simp add: sib)
    show "tree_rightmost st' tree = Some (if c # kids tree = [] then NULL else last (c # kids tree))"
      using tree_repD(3) [OF rep t] t by (auto simp: right tree_rightmost_def)
    show "CFTreeGetNextSibling st' x = Some NULL" if "CFTreeGetParent st' x = Some NULL" for x
      using that tn tree_repD(4) [OF rep, of x] by (auto simp: par sib split: if_splits)
  qed (use c in \<open>auto simp: kid right CFTreeGetParent_def\<close>)
  with run calls par show ?thesis by blast
qed

fun insert_after :: "'a \<Rightarrow> 'a \<Rightarrow> 'a list \<Rightarrow> 'a list" where
  "insert_after x y [] = []"
| "insert_after x y (z # zs) = (if z = x then z # y # zs else z # insert_after x y zs)"

lemma insert_after_split: "x \<notin> set as \<Longrightarrow> insert_after x y (as @ x # bs) = as @ x # y # bs"
  by (induction as) auto

lemma InsertSibling_law:
  assumes rep: "tree_rep st kids" and t: "tree_node st tree = Some t" "t_parent t \<noteq> NULL"
    and c: "tree_node st c = Some n" "t_parent n = NULL" "c \<noteq> tree"
  shows "\<exists>st'. CFTreeInsertSibling st tree c = Some st' \<and>
    tree_rep st' (kids(t_parent t := insert_after tree c (kids (t_parent t)))) \<and>
    ts_calls st' = ts_calls st @ [RetainTree c] \<and> CFTreeGetParent st' = (CFTreeGetParent st)(c \<mapsto> t_parent t)"
proof -
  let ?p = "t_parent t"
  have tin: "tree \<in> set (kids ?p)" using tree_repD(5) [OF rep, of tree ?p] t by (simp add: CFTreeGetParent_def)
  then obtain pn where pn: "tree_node st ?p = Some pn" using tree_repD(1) [OF rep, of ?p] by fastforce
  from tin obtain as bs where ab: "kids ?p = as @ tree # bs" by (meson split_list)
  have dist: "distinct (as @ tree # bs)" using kids_distinct [OF rep, of ?p] ab by simp
  then have ins: "insert_after tree c (kids ?p) = as @ tree # c # bs" using ab by (simp add: insert_after_split)
  from set_links(5) [of "tree_log st [RetainTree c]" c n, where v = ?p and w = "t_sibling t"] c(1) obtain s1 where
    s1: "tree_set (tree_log st [RetainTree c]) c (\<lambda>n. n\<lparr>t_parent := ?p, t_sibling := t_sibling t\<rparr>) = Some s1"
      "tree_node s1 = (tree_node st)(c \<mapsto> n\<lparr>t_parent := ?p, t_sibling := t_sibling t\<rparr>)"
      "ts_calls s1 = ts_calls st @ [RetainTree c]" "CFTreeGetParent s1 = (CFTreeGetParent st)(c \<mapsto> ?p)"
      "CFTreeGetNextSibling s1 = (CFTreeGetNextSibling st)(c \<mapsto> t_sibling t)"
      "CFTreeGetFirstChild s1 = CFTreeGetFirstChild st" "tree_rightmost s1 = tree_rightmost st" by auto
  have t1: "tree_node s1 tree = Some t" using s1(2) t c(3) by simp
  from set_links(2) [OF t1, of c] obtain s2 where
    s2: "tree_set s1 tree (\<lambda>n. n\<lparr>t_sibling := c\<rparr>) = Some s2"
      "tree_node s2 = (tree_node s1)(tree \<mapsto> t\<lparr>t_sibling := c\<rparr>)" "ts_calls s2 = ts_calls s1"
      "CFTreeGetParent s2 = CFTreeGetParent s1" "CFTreeGetNextSibling s2 = (CFTreeGetNextSibling s1)(tree \<mapsto> c)"
      "CFTreeGetFirstChild s2 = CFTreeGetFirstChild s1" "tree_rightmost s2 = tree_rightmost s1" by auto
  have t2: "tree_node s2 tree = Some (t\<lparr>t_sibling := c\<rparr>)" using s2(2) by simp
  have "tree_rightmost s2 ?p = Some (last (kids ?p))"
    using tree_repD(3) [OF rep pn] pn ab by (simp add: s2(7) s1(7) tree_rightmost_def)
  then obtain p2 where p2: "tree_node s2 ?p = Some p2" "t_rightmostChild p2 = last (kids ?p)" by (auto simp: tree_links_Some)
  have last: "last (kids ?p) = tree \<longleftrightarrow> bs = []" using ab dist by (cases "bs = []") auto
  let ?set = "if t_rightmostChild p2 = tree then tree_set s2 ?p (\<lambda>n. n\<lparr>t_rightmostChild := c\<rparr>) else Some s2"
  have "\<exists>st'. ?set = Some st' \<and> ts_calls st' = ts_calls s2 \<and> CFTreeGetParent st' = CFTreeGetParent s2 \<and>
      CFTreeGetNextSibling st' = CFTreeGetNextSibling s2 \<and> CFTreeGetFirstChild st' = CFTreeGetFirstChild s2 \<and>
      tree_rightmost st' = (if bs = [] then (tree_rightmost s2)(?p \<mapsto> c) else tree_rightmost s2)"
    using set_links(4) [OF p2(1), of c] p2(2) last by (cases "bs = []") auto
  then obtain st' where s3: "?set = Some st'" "ts_calls st' = ts_calls s2" "CFTreeGetParent st' = CFTreeGetParent s2"
      "CFTreeGetNextSibling st' = CFTreeGetNextSibling s2" "CFTreeGetFirstChild st' = CFTreeGetFirstChild s2"
      "tree_rightmost st' = (if bs = [] then (tree_rightmost s2)(?p \<mapsto> c) else tree_rightmost s2)" by blast
  have run: "CFTreeInsertSibling st tree c = Some st'"
    using t s1(1) s2(1) t2 p2(1) s3(1)
    by (cases "t_rightmostChild p2 = tree") (simp_all add: CFTreeInsertSibling_def)
  have calls: "ts_calls st' = ts_calls st @ [RetainTree c]" using s3 s2 s1 by simp
  have par: "CFTreeGetParent st' = (CFTreeGetParent st)(c \<mapsto> ?p)" using s3 s2 s1 by simp
  have sib: "CFTreeGetNextSibling st' = (CFTreeGetNextSibling st)(c \<mapsto> t_sibling t, tree \<mapsto> c)" using s3 s2 s1 by simp
  have kid: "CFTreeGetFirstChild st' = CFTreeGetFirstChild st" using s3 s2 s1 by simp
  have right: "tree_rightmost st' = (if bs = [] then (tree_rightmost st)(?p \<mapsto> c) else tree_rightmost st)"
    using s3 s2 s1 by simp
  note fresh = root_fresh [OF rep c(1,2)]
  have p: "path (CFTreeGetNextSibling st) (t_child pn) (as @ tree # bs) NULL"
    using tree_repD(2) [OF rep pn] ab by simp
  have sibt: "CFTreeGetNextSibling st tree = Some (t_sibling t)" using t by (simp add: CFTreeGetNextSibling_def)
  have cab: "c \<notin> set as" "c \<notin> set bs" "c \<noteq> tree" using fresh(1) [of ?p] ab by auto
  have "tree_rep st' (kids(?p := as @ tree # c # bs))"
  proof (rule relist [OF rep t(2)])
    show "CFTreeGetParent st' x = (if x \<in> set (as @ tree # c # bs) then Some ?p
        else if x \<in> set (kids ?p) then Some NULL else CFTreeGetParent st x)" for x
      using tree_repD(5) [OF rep, of x ?p] ab by (auto simp: par)
    show "CFTreeGetNextSibling st' x = CFTreeGetNextSibling st x" if "u \<noteq> ?p" "x \<in> set (kids u)" for u x
      using that fresh(1) [of u] other_list [OF rep that(2), of ?p] tin by (auto simp: sib)
    show "path (CFTreeGetNextSibling st') (t_child pn) (as @ tree # c # bs) NULL"
      using p cab dist fresh(2) sibt by (auto simp: sib)
    show "tree_rightmost st' ?p = Some (if as @ tree # c # bs = [] then NULL else last (as @ tree # c # bs))"
      using tree_repD(3) [OF rep pn] pn ab by (auto simp: right tree_rightmost_def)
    show "CFTreeGetNextSibling st' x = Some NULL" if "CFTreeGetParent st' x = Some NULL" for x
    proof -
      have x: "x \<noteq> c" "CFTreeGetParent st x = Some NULL" using that t(2) by (auto simp: par split: if_splits)
      then have "x \<noteq> tree" using t by (auto simp: CFTreeGetParent_def)
      then show ?thesis using tree_repD(4) [OF rep x(2)] x(1) by (simp add: sib)
    qed
    show "CFTreeGetParent st x = Some NULL" if "x \<in> set (as @ tree # c # bs)" "x \<notin> set (kids ?p)" for x
      using that c(1,2) ab by (auto simp: CFTreeGetParent_def)
  qed (use pn in \<open>auto simp: kid right CFTreeGetFirstChild_def\<close>)
  with run calls par ins show ?thesis by auto
qed

section \<open>Removing children\<close>

text \<open>The search for the previous sibling: it finds the last element of the list before the tree.\<close>

lemma unlink_child_run:
  assumes "path (CFTreeGetNextSibling st) x (as @ [l]) tree" "tree \<notin> set (as @ [l])" "tree_node st l = Some ln"
  shows "unlink_child st x tree = do { t \<leftarrow> tree_node st tree;
      st \<leftarrow> tree_set st l (\<lambda>n. n\<lparr>t_sibling := t_sibling t\<rparr>);
      t \<leftarrow> tree_node st tree;
      p \<leftarrow> tree_node st (t_parent t);
      if t_rightmostChild p = tree
      then tree_set st (t_parent t) (\<lambda>n. n\<lparr>t_rightmostChild := l\<rparr>)
      else Some st }"
  using assms
proof (induction as arbitrary: x)
  case Nil
  then have e: "x = l" "l \<noteq> NULL" "t_sibling ln = tree" by (auto simp: CFTreeGetNextSibling_def)
  show ?case unfolding e(1) using e(2,3) Nil(3) by (subst unlink_child.simps) simp
next
  case (Cons a as)
  then obtain n where n: "x = a" "a \<noteq> NULL" "tree_node st a = Some n"
    "path (CFTreeGetNextSibling st) (t_sibling n) (as @ [l]) tree"
    by (auto simp: tree_links_Some)
  then have "t_sibling n \<noteq> tree" using Cons.prems(2) by (cases as) auto
  then show ?case using Cons.IH [OF n(4)] Cons.prems n by (subst unlink_child.simps) simp
qed

lemma Remove_law:
  assumes rep: "tree_rep st kids" and t: "tree_node st tree = Some t" "t_parent t \<noteq> NULL" "t_parent t \<noteq> tree"
  shows "\<exists>st'. CFTreeRemove st tree = Some st' \<and> tree_rep st' (kids(t_parent t := remove1 tree (kids (t_parent t)))) \<and>
    ts_calls st' = ts_calls st @ [ReleaseTree tree] \<and> CFTreeGetParent st' = (CFTreeGetParent st)(tree \<mapsto> NULL)"
proof -
  let ?p = "t_parent t"
  have tin: "tree \<in> set (kids ?p)" using tree_repD(5) [OF rep, of tree ?p] t by (simp add: CFTreeGetParent_def)
  then obtain pn where pn: "tree_node st ?p = Some pn" using tree_repD(1) [OF rep, of ?p] by fastforce
  from tin obtain as bs where ab: "kids ?p = as @ tree # bs" by (meson split_list)
  have dist: "distinct (as @ tree # bs)" using kids_distinct [OF rep, of ?p] ab by simp
  then have rem: "remove1 tree (kids ?p) = as @ bs" using ab by (simp add: remove1_append)
  have p: "path (CFTreeGetNextSibling st) (t_child pn) (as @ tree # bs) NULL"
    using tree_repD(2) [OF rep pn] ab by simp
  have sibt: "CFTreeGetNextSibling st tree = Some (t_sibling t)" using t by (simp add: CFTreeGetNextSibling_def)
  have pbs: "path (CFTreeGetNextSibling st) (t_sibling t) bs NULL" using p sibt by auto
  have pas: "path (CFTreeGetNextSibling st) (t_child pn) as tree" using p by auto
  have last: "t_rightmostChild pn = tree \<longleftrightarrow> bs = []"
    using tree_repD(3) [OF rep pn] ab dist by (cases "bs = []") auto
  have sb: "t_sibling t = NULL \<longleftrightarrow> bs = []" using pbs by (cases bs) auto
  have "\<exists>s2. (if tree = t_child pn
        then do { st \<leftarrow> tree_set st ?p (\<lambda>n. n\<lparr>t_child := t_sibling t\<rparr>);
                  t \<leftarrow> tree_node st tree;
                  if t_sibling t = NULL then tree_set st (t_parent t) (\<lambda>n. n\<lparr>t_rightmostChild := NULL\<rparr>) else Some st }
        else unlink_child st (t_child pn) tree) = Some s2 \<and> ts_calls s2 = ts_calls st \<and>
      CFTreeGetParent s2 = CFTreeGetParent st \<and>
      CFTreeGetNextSibling s2 = (if as = [] then CFTreeGetNextSibling st else (CFTreeGetNextSibling st)(last as \<mapsto> t_sibling t)) \<and>
      CFTreeGetFirstChild s2 = (if as = [] then (CFTreeGetFirstChild st)(?p \<mapsto> t_sibling t) else CFTreeGetFirstChild st) \<and>
      tree_rightmost s2 = (if bs \<noteq> [] then tree_rightmost st
        else if as = [] then (tree_rightmost st)(?p \<mapsto> NULL) else (tree_rightmost st)(?p \<mapsto> last as))"
  proof (cases "as = []")
    case True
    then have e: "tree = t_child pn" using p by simp
    from set_links(3) [OF pn, of "t_sibling t"] obtain s1 where
      s1: "tree_set st ?p (\<lambda>n. n\<lparr>t_child := t_sibling t\<rparr>) = Some s1"
        "tree_node s1 = (tree_node st)(?p \<mapsto> pn\<lparr>t_child := t_sibling t\<rparr>)" "ts_calls s1 = ts_calls st"
        "CFTreeGetParent s1 = CFTreeGetParent st" "CFTreeGetNextSibling s1 = CFTreeGetNextSibling st"
        "CFTreeGetFirstChild s1 = (CFTreeGetFirstChild st)(?p \<mapsto> t_sibling t)" "tree_rightmost s1 = tree_rightmost st" by blast
    have t1: "tree_node s1 tree = Some t" using s1(2) t by simp
    have p1: "tree_node s1 ?p = Some (pn\<lparr>t_child := t_sibling t\<rparr>)" using s1(2) by simp
    from set_links(4) [OF p1, of NULL] show ?thesis
      using True e s1 t1 sb by (cases "bs = []") auto
  next
    case False
    then obtain as' l where l: "as = as' @ [l]" by (metis append_butlast_last_id)
    have lt: "tree \<notin> set (as' @ [l])" "l \<noteq> tree" using dist l by auto
    have "t_child pn \<in> set as" using pas False by (cases as) auto
    then have "tree \<noteq> t_child pn" using lt(1) l by auto
    moreover have "l \<in> set (kids ?p)" using ab l by simp
    then obtain ln where ln: "tree_node st l = Some ln" using kids_allocated [OF rep] by blast
    from set_links(2) [OF ln, of "t_sibling t"] obtain s1 where
      s1: "tree_set st l (\<lambda>n. n\<lparr>t_sibling := t_sibling t\<rparr>) = Some s1"
        "tree_node s1 = (tree_node st)(l \<mapsto> ln\<lparr>t_sibling := t_sibling t\<rparr>)" "ts_calls s1 = ts_calls st"
        "CFTreeGetParent s1 = CFTreeGetParent st" "CFTreeGetNextSibling s1 = (CFTreeGetNextSibling st)(l \<mapsto> t_sibling t)"
        "CFTreeGetFirstChild s1 = CFTreeGetFirstChild st" "tree_rightmost s1 = tree_rightmost st" by blast
    have t1: "tree_node s1 tree = Some t" using s1(2) t lt(2) by simp
    have "tree_rightmost s1 ?p = Some (t_rightmostChild pn)" using pn by (simp add: s1(7) tree_rightmost_def)
    then obtain p1 where p1: "tree_node s1 ?p = Some p1" "t_rightmostChild p1 = t_rightmostChild pn"
      by (auto simp: tree_links_Some)
    have "unlink_child st (t_child pn) tree =
        (if t_rightmostChild pn = tree then tree_set s1 ?p (\<lambda>n. n\<lparr>t_rightmostChild := l\<rparr>) else Some s1)"
      using unlink_child_run [OF _ lt(1) ln, of "t_child pn"] pas l t s1(1) t1 p1 by simp
    moreover note set_links(4) [OF p1(1), of l]
    ultimately show ?thesis using False s1 l last by (cases "bs = []") auto
  qed
  then obtain s2 where s2: "(if tree = t_child pn
        then do { st \<leftarrow> tree_set st ?p (\<lambda>n. n\<lparr>t_child := t_sibling t\<rparr>);
                  t \<leftarrow> tree_node st tree;
                  if t_sibling t = NULL then tree_set st (t_parent t) (\<lambda>n. n\<lparr>t_rightmostChild := NULL\<rparr>) else Some st }
        else unlink_child st (t_child pn) tree) = Some s2" "ts_calls s2 = ts_calls st"
      "CFTreeGetParent s2 = CFTreeGetParent st"
      "CFTreeGetNextSibling s2 = (if as = [] then CFTreeGetNextSibling st else (CFTreeGetNextSibling st)(last as \<mapsto> t_sibling t))"
      "CFTreeGetFirstChild s2 = (if as = [] then (CFTreeGetFirstChild st)(?p \<mapsto> t_sibling t) else CFTreeGetFirstChild st)"
      "tree_rightmost s2 = (if bs \<noteq> [] then tree_rightmost st
        else if as = [] then (tree_rightmost st)(?p \<mapsto> NULL) else (tree_rightmost st)(?p \<mapsto> last as))" by blast
  have "CFTreeGetParent s2 tree = Some ?p" using t by (simp add: s2(3) CFTreeGetParent_def)
  then obtain t2 where t2: "tree_node s2 tree = Some t2" by (auto simp: tree_links_Some)
  from set_links(5) [OF t2, where v = NULL and w = NULL] obtain s3 where
    s3: "tree_set s2 tree (\<lambda>n. n\<lparr>t_parent := NULL, t_sibling := NULL\<rparr>) = Some s3" "ts_calls s3 = ts_calls s2"
      "CFTreeGetParent s3 = (CFTreeGetParent s2)(tree \<mapsto> NULL)"
      "CFTreeGetNextSibling s3 = (CFTreeGetNextSibling s2)(tree \<mapsto> NULL)"
      "CFTreeGetFirstChild s3 = CFTreeGetFirstChild s2" "tree_rightmost s3 = tree_rightmost s2" by blast
  let ?st' = "tree_log s3 [ReleaseTree tree]"
  have run: "CFTreeRemove st tree = Some ?st'"
    unfolding CFTreeRemove_def t(1) pn Option.bind_lunit if_P [OF t(2) [symmetric]] s2(1) s3(1) by (rule refl)
  have calls: "ts_calls ?st' = ts_calls st @ [ReleaseTree tree]" using s3 s2 by simp
  have par: "CFTreeGetParent s3 = (CFTreeGetParent st)(tree \<mapsto> NULL)" using s3 s2 by simp
  have sib: "CFTreeGetNextSibling s3 = (if as = [] then (CFTreeGetNextSibling st)(tree \<mapsto> NULL)
      else (CFTreeGetNextSibling st)(last as \<mapsto> t_sibling t, tree \<mapsto> NULL))" using s3 s2 by simp
  have kid: "CFTreeGetFirstChild s3 = (if as = [] then (CFTreeGetFirstChild st)(?p \<mapsto> t_sibling t)
      else CFTreeGetFirstChild st)" using s3 s2 by simp
  have right: "tree_rightmost s3 = (if bs \<noteq> [] then tree_rightmost st
      else if as = [] then (tree_rightmost st)(?p \<mapsto> NULL) else (tree_rightmost st)(?p \<mapsto> last as))" using s3 s2 by simp
  have "tree_rep ?st' (kids(?p := as @ bs))"
  proof (rule relist [OF rep t(2)])
    show "CFTreeGetParent ?st' x = (if x \<in> set (as @ bs) then Some ?p
        else if x \<in> set (kids ?p) then Some NULL else CFTreeGetParent st x)" for x
      using tree_repD(5) [OF rep, of x ?p] ab dist t(2) by (auto simp: par)
    show "CFTreeGetNextSibling ?st' x = CFTreeGetNextSibling st x" if "u \<noteq> ?p" "x \<in> set (kids u)" for u x
    proof -
      have "x \<notin> set (kids ?p)" using other_list [OF rep that(2)] that(1) by auto
      then have "x \<noteq> tree" "as \<noteq> [] \<Longrightarrow> x \<noteq> last as" using ab by auto
      then show ?thesis by (simp add: sib)
    qed
    show "CFTreeGetFirstChild ?st' ?p = Some (if as = [] then t_sibling t else t_child pn)"
      using pn by (simp add: kid CFTreeGetFirstChild_def)
    show "path (CFTreeGetNextSibling ?st') (if as = [] then t_sibling t else t_child pn) (as @ bs) NULL"
    proof (cases "as = []")
      case True
      then show ?thesis using pbs dist by (simp add: sib)
    next
      case False
      then obtain as' l where l: "as = as' @ [l]" by (metis append_butlast_last_id)
      then show ?thesis using pas pbs dist by (auto simp: sib)
    qed
    show "tree_rightmost ?st' ?p = Some (if as @ bs = [] then NULL else last (as @ bs))"
      using tree_repD(3) [OF rep pn] pn ab by (auto simp: right tree_rightmost_def)
    show "CFTreeGetNextSibling ?st' x = Some NULL" if "CFTreeGetParent ?st' x = Some NULL" for x
    proof (cases "x = tree")
      case False
      then have x: "CFTreeGetParent st x = Some NULL" using that by (simp add: par)
      then have "x \<notin> set (kids ?p)" using tree_repD(5) [OF rep, of x ?p] t(2) by auto
      then have "as \<noteq> [] \<Longrightarrow> x \<noteq> last as" using ab by auto
      then show ?thesis using tree_repD(4) [OF rep x] False by (simp add: sib)
    qed (simp add: sib)
  qed (use ab in \<open>auto simp: kid right\<close>)
  with run calls par rem show ?thesis by auto
qed

lemma release_children_law:
  assumes "path (CFTreeGetNextSibling st) x xs NULL" "\<forall>c \<in> set xs. tree_node st c \<noteq> None"
  shows "\<exists>st'. release_children st x = Some st' \<and> ts_calls st' = ts_calls st @ map ReleaseTree xs \<and>
    CFTreeGetParent st' = (\<lambda>c. if c \<in> set xs then Some NULL else CFTreeGetParent st c) \<and>
    CFTreeGetNextSibling st' = (\<lambda>c. if c \<in> set xs then Some NULL else CFTreeGetNextSibling st c) \<and>
    CFTreeGetFirstChild st' = CFTreeGetFirstChild st \<and> tree_rightmost st' = tree_rightmost st"
  using assms
proof (induction xs arbitrary: st x)
  case Nil
  then show ?case by (subst release_children.simps) simp
next
  case (Cons c xs)
  then obtain n where n: "x = c" "c \<noteq> NULL" "tree_node st c = Some n" by auto
  have tail: "path (CFTreeGetNextSibling st) (t_sibling n) xs NULL"
  proof -
    have "CFTreeGetNextSibling st c = Some (t_sibling n)" using n by (simp add: CFTreeGetNextSibling_def)
    then show ?thesis using Cons.prems(1) by auto
  qed
  have cxs: "c \<notin> set xs" using path_distinct [OF Cons.prems(1)] by simp
  from set_links(5) [OF n(3), where v = NULL and w = NULL] obtain s1 where
    s1: "tree_set st c (\<lambda>n. n\<lparr>t_parent := NULL, t_sibling := NULL\<rparr>) = Some s1"
      "tree_node s1 = (tree_node st)(c \<mapsto> n\<lparr>t_parent := NULL, t_sibling := NULL\<rparr>)" "ts_calls s1 = ts_calls st"
      "CFTreeGetParent s1 = (CFTreeGetParent st)(c \<mapsto> NULL)"
      "CFTreeGetNextSibling s1 = (CFTreeGetNextSibling st)(c \<mapsto> NULL)"
      "CFTreeGetFirstChild s1 = CFTreeGetFirstChild st" "tree_rightmost s1 = tree_rightmost st" by blast
  let ?s = "tree_log s1 [ReleaseTree c]"
  have "path (CFTreeGetNextSibling ?s) (t_sibling n) xs NULL" using tail cxs s1(5) by simp
  moreover have "\<forall>c \<in> set xs. tree_node ?s c \<noteq> None" using Cons.prems(2) s1(2) by auto
  ultimately obtain st' where st': "release_children ?s (t_sibling n) = Some st'"
      "ts_calls st' = ts_calls ?s @ map ReleaseTree xs"
      "CFTreeGetParent st' = (\<lambda>c. if c \<in> set xs then Some NULL else CFTreeGetParent ?s c)"
      "CFTreeGetNextSibling st' = (\<lambda>c. if c \<in> set xs then Some NULL else CFTreeGetNextSibling ?s c)"
      "CFTreeGetFirstChild st' = CFTreeGetFirstChild ?s" "tree_rightmost st' = tree_rightmost ?s"
    using Cons.IH by blast
  have "release_children st x = Some st'"
    using n s1(1) st'(1) by (subst release_children.simps) (simp add: Let_def)
  then show ?case using st' s1 by (auto simp: fun_eq_iff)
qed

lemma RemoveAllChildren_law:
  assumes rep: "tree_rep st kids" and t: "tree_node st tree = Some t"
  shows "\<exists>st'. CFTreeRemoveAllChildren st tree = Some st' \<and> tree_rep st' (kids(tree := [])) \<and>
    ts_calls st' = ts_calls st @ map ReleaseTree (kids tree) \<and>
    CFTreeGetParent st' = (\<lambda>c. if c \<in> set (kids tree) then Some NULL else CFTreeGetParent st c)"
proof -
  from set_links(6) [OF t, where v = NULL and w = NULL] obtain s1 where
    s1: "tree_set st tree (\<lambda>n. n\<lparr>t_child := NULL, t_rightmostChild := NULL\<rparr>) = Some s1"
      "tree_node s1 = (tree_node st)(tree \<mapsto> t\<lparr>t_child := NULL, t_rightmostChild := NULL\<rparr>)" "ts_calls s1 = ts_calls st"
      "CFTreeGetParent s1 = CFTreeGetParent st" "CFTreeGetNextSibling s1 = CFTreeGetNextSibling st"
      "CFTreeGetFirstChild s1 = (CFTreeGetFirstChild st)(tree \<mapsto> NULL)"
      "tree_rightmost s1 = (tree_rightmost st)(tree \<mapsto> NULL)" by blast
  have "path (CFTreeGetNextSibling s1) (t_child t) (kids tree) NULL" using tree_repD(2) [OF rep t] s1(5) by simp
  moreover have "\<forall>c \<in> set (kids tree). tree_node s1 c \<noteq> None" using kids_allocated [OF rep] s1(2) by auto
  ultimately have "\<exists>st'. release_children s1 (t_child t) = Some st' \<and>
      ts_calls st' = ts_calls st @ map ReleaseTree (kids tree) \<and>
      CFTreeGetParent st' = (\<lambda>c. if c \<in> set (kids tree) then Some NULL else CFTreeGetParent st c) \<and>
      CFTreeGetNextSibling st' = (\<lambda>c. if c \<in> set (kids tree) then Some NULL else CFTreeGetNextSibling st c) \<and>
      CFTreeGetFirstChild st' = (CFTreeGetFirstChild st)(tree \<mapsto> NULL) \<and>
      tree_rightmost st' = (tree_rightmost st)(tree \<mapsto> NULL)"
    using release_children_law [of s1 "t_child t" "kids tree"] unfolding s1(3-7) by blast
  then obtain st' where st': "release_children s1 (t_child t) = Some st'"
      "ts_calls st' = ts_calls st @ map ReleaseTree (kids tree)"
    and par: "CFTreeGetParent st' = (\<lambda>c. if c \<in> set (kids tree) then Some NULL else CFTreeGetParent st c)"
    and sib: "CFTreeGetNextSibling st' = (\<lambda>c. if c \<in> set (kids tree) then Some NULL else CFTreeGetNextSibling st c)"
    and kid: "CFTreeGetFirstChild st' = (CFTreeGetFirstChild st)(tree \<mapsto> NULL)"
    and right: "tree_rightmost st' = (tree_rightmost st)(tree \<mapsto> NULL)"
    by blast
  have tn: "tree \<noteq> NULL" using t by auto
  have "tree_rep st' (kids(tree := []))"
  proof (rule relist [OF rep tn])
    show "CFTreeGetNextSibling st' x = CFTreeGetNextSibling st x" if "u \<noteq> tree" "x \<in> set (kids u)" for u x
      using other_list [OF rep that(2), of tree] that(1) by (auto simp: sib)
    show "CFTreeGetNextSibling st' x = Some NULL" if "CFTreeGetParent st' x = Some NULL" for x
      using that tree_repD(4) [OF rep, of x] by (auto simp: par sib split: if_splits)
  qed (simp_all add: par kid right)
  moreover have "CFTreeRemoveAllChildren st tree = Some st'"
    using t s1(1) st'(1) by (simp add: CFTreeRemoveAllChildren_def)
  ultimately show ?thesis using st'(2) par by auto
qed

section \<open>Queries\<close>

lemma apply_children_law:
  "path (CFTreeGetNextSibling st) x xs NULL \<Longrightarrow> apply_children st f x acc = Some (fold f xs acc)"
proof (induction xs arbitrary: x acc)
  case Nil
  then show ?case by (subst apply_children.simps) simp
next
  case (Cons c xs)
  then obtain n where "x = c" "c \<noteq> NULL" "tree_node st c = Some n" "path (CFTreeGetNextSibling st) (t_sibling n) xs NULL"
    by (auto simp: tree_links_Some)
  then show ?case using Cons.IH by (subst apply_children.simps) simp
qed

lemma count_children_law:
  "path (CFTreeGetNextSibling st) x xs NULL \<Longrightarrow>
    count_children st x cnt = Some (sint (cnt + word_of_nat (length xs)))"
proof (induction xs arbitrary: x cnt)
  case Nil
  then show ?case by (subst count_children.simps) simp
next
  case (Cons c xs)
  then obtain n where "x = c" "c \<noteq> NULL" "tree_node st c = Some n" "path (CFTreeGetNextSibling st) (t_sibling n) xs NULL"
    by (auto simp: tree_links_Some)
  then show ?case using Cons.IH [of "t_sibling n" "cnt + 1"] by (subst count_children.simps) (simp add: add.assoc)
qed

lemma child_at_law:
  "path (CFTreeGetNextSibling st) x xs NULL \<Longrightarrow>
    child_at st x idx = Some (if 0 \<le> idx \<and> idx < int (length xs) then xs ! nat idx else NULL)"
proof (induction xs arbitrary: x idx)
  case Nil
  then show ?case by (subst child_at.simps) auto
next
  case (Cons c xs)
  then obtain n where "x = c" "c \<noteq> NULL" "tree_node st c = Some n" "path (CFTreeGetNextSibling st) (t_sibling n) xs NULL"
    by (auto simp: tree_links_Some)
  then show ?case using Cons.IH [of "t_sibling n" "idx - 1"]
    by (subst child_at.simps) (auto simp: nth_Cons' nat_diff_distrib)
qed

lemma fold_snoc: "fold (\<lambda>c cs. cs @ [c]) xs acc = acc @ xs"
  by (induction xs arbitrary: acc) auto

lemma child_queries:
  assumes rep: "tree_rep st kids" and t: "tree_node st tree = Some t"
  shows "CFTreeGetChildren st tree = Some (kids tree)"
    "CFTreeApplyFunctionToChildren st tree f acc = Some (fold f (kids tree) acc)"
    "CFTreeGetChildCount st tree = Some (sint (word_of_nat (length (kids tree)) :: 32 word))"
    "CFTreeGetChildAtIndex st tree idx =
      Some (if 0 \<le> idx \<and> idx < int (length (kids tree)) then kids tree ! nat idx else NULL)"
  using tree_repD(2) [OF rep t] t
  by (simp_all add: CFTreeGetChildren_def CFTreeApplyFunctionToChildren_def CFTreeGetChildCount_def
      CFTreeGetChildAtIndex_def apply_children_law count_children_law child_at_law fold_snoc)

lemma sint_of_small: "n < 2 ^ 31 \<Longrightarrow> sint (word_of_nat n :: 32 word) = int n"
  by (simp add: signed_of_nat signed_take_bit_int_eq_self)

section \<open>Roots\<close>

text \<open>No tree is its own ancestor: parents have a smaller rank.\<close>

definition grounded :: "tree_store \<Rightarrow> bool" where
  "grounded st \<longleftrightarrow> (\<exists>rank :: tree_ref \<Rightarrow> nat. \<forall>c p. CFTreeGetParent st c = Some p \<longrightarrow> p \<noteq> NULL \<longrightarrow> rank p < rank c)"

lemma FindRoot_law:
  assumes "tree_rep st kids" "grounded st" "tree_node st t = Some n"
  shows "\<exists>r. CFTreeFindRoot st t = Some r \<and> CFTreeGetParent st r = Some NULL"
proof -
  from assms(2) obtain rank :: "tree_ref \<Rightarrow> nat"
    where rank: "CFTreeGetParent st c = Some p \<Longrightarrow> p \<noteq> NULL \<Longrightarrow> rank p < rank c" for c p
    unfolding grounded_def by blast
  show ?thesis using assms(3)
  proof (induction "rank t" arbitrary: t n rule: less_induct)
    case less
    show ?case
    proof (cases "t_parent n = NULL")
      case True
      then show ?thesis using less.prems by (subst CFTreeFindRoot.simps) (simp add: CFTreeGetParent_def)
    next
      case False
      have p: "CFTreeGetParent st t = Some (t_parent n)" using less.prems by (simp add: CFTreeGetParent_def)
      then have "t \<in> set (kids (t_parent n))" using tree_repD(5) [OF assms(1)] False by blast
      then obtain m where "tree_node st (t_parent n) = Some m"
        using tree_repD(1) [OF assms(1), of "t_parent n"] by fastforce
      from less.hyps [OF rank [OF p False] this] show ?thesis
        using less.prems False by (subst CFTreeFindRoot.simps) simp
    qed
  qed
qed

lemma FindRoot_parent:
  assumes "CFTreeGetParent st x = Some p" "p \<noteq> NULL"
  shows "CFTreeFindRoot st x = CFTreeFindRoot st p"
  using assms by (subst CFTreeFindRoot.simps) (auto simp: tree_links_Some)

lemma FindRoot_root: "CFTreeGetParent st x = Some NULL \<Longrightarrow> CFTreeFindRoot st x = Some x"
  by (subst CFTreeFindRoot.simps) (auto simp: tree_links_Some)

lemma grounded_attach:
  assumes "grounded st" "CFTreeGetParent st' = (CFTreeGetParent st)(c \<mapsto> p)" "CFTreeGetParent st c = Some NULL"
    "CFTreeFindRoot st p \<noteq> Some c"
  shows "grounded st'"
proof -
  from assms(1) obtain rank :: "tree_ref \<Rightarrow> nat"
    where rank: "CFTreeGetParent st c = Some p \<Longrightarrow> p \<noteq> NULL \<Longrightarrow> rank p < rank c" for c p
    unfolding grounded_def by blast
  let ?r = "\<lambda>x. rank x + (if CFTreeFindRoot st x = Some c then Suc (rank p) else 0)"
  have "?r q < ?r x" if q: "CFTreeGetParent st' x = Some q" "q \<noteq> NULL" for x q
  proof (cases "x = c")
    case True
    then have "q = p" using q by (simp add: assms(2))
    then show ?thesis using True assms(4) FindRoot_root [OF assms(3)] by simp
  next
    case False
    then have "CFTreeGetParent st x = Some q" using q by (simp add: assms(2))
    then show ?thesis using rank [OF _ q(2)] FindRoot_parent [OF _ q(2)] by auto
  qed
  then show ?thesis unfolding grounded_def by (intro exI [of _ ?r]) blast
qed

lemma grounded_detach:
  assumes "grounded st" "CFTreeGetParent st' = (\<lambda>c. if c \<in> S then Some NULL else CFTreeGetParent st c)"
  shows "grounded st'"
  using assms unfolding grounded_def by (metis option.inject)

lemma grounded_detach1:
  "grounded st \<Longrightarrow> CFTreeGetParent st' = (CFTreeGetParent st)(c \<mapsto> NULL) \<Longrightarrow> grounded st'"
  by (rule grounded_detach [of st st' "{c}"]) (auto simp: fun_eq_iff)

lemma grounded_irrefl: "grounded st \<Longrightarrow> CFTreeGetParent st c = Some p \<Longrightarrow> p \<noteq> c"
  unfolding grounded_def by (cases "p = NULL") (auto simp: tree_links_Some)

section \<open>Sorting the children\<close>

lemma link_siblings_law:
  "ys \<noteq> [] \<Longrightarrow> distinct ys \<Longrightarrow> \<forall>y \<in> set ys. tree_node st y \<noteq> None \<Longrightarrow>
    \<exists>st'. link_siblings st ys = Some st' \<and> ts_calls st' = ts_calls st \<and>
      path (CFTreeGetNextSibling st') (hd ys) ys NULL \<and>
      (\<forall>c. c \<notin> set ys \<longrightarrow> CFTreeGetNextSibling st' c = CFTreeGetNextSibling st c) \<and>
      CFTreeGetParent st' = CFTreeGetParent st \<and> CFTreeGetFirstChild st' = CFTreeGetFirstChild st \<and>
      tree_rightmost st' = tree_rightmost st"
proof (induction st ys rule: link_siblings.induct)
  case (2 st x)
  then obtain n where n: "tree_node st x = Some n" by auto
  then have "x \<noteq> NULL" by auto
  with set_links(2) [OF n, of NULL] show ?case by auto
next
  case (3 st x y xs)
  then obtain n where n: "tree_node st x = Some n" by auto
  then have x: "x \<noteq> NULL" by auto
  from set_links(2) [OF n, of y] obtain s1 where s1: "tree_set st x (\<lambda>n. n\<lparr>t_sibling := y\<rparr>) = Some s1"
      "tree_node s1 = (tree_node st)(x \<mapsto> n\<lparr>t_sibling := y\<rparr>)" "ts_calls s1 = ts_calls st"
      "CFTreeGetParent s1 = CFTreeGetParent st" "CFTreeGetNextSibling s1 = (CFTreeGetNextSibling st)(x \<mapsto> y)"
      "CFTreeGetFirstChild s1 = CFTreeGetFirstChild st" "tree_rightmost s1 = tree_rightmost st" by blast
  have "\<forall>z \<in> set (y # xs). tree_node s1 z \<noteq> None" using 3(4) s1(2) by auto
  from 3(1) [OF s1(1) _ _ this] 3(3) obtain st' where st': "link_siblings s1 (y # xs) = Some st'"
      "ts_calls st' = ts_calls s1" "path (CFTreeGetNextSibling st') y (y # xs) NULL"
      "\<forall>c. c \<notin> set (y # xs) \<longrightarrow> CFTreeGetNextSibling st' c = CFTreeGetNextSibling s1 c"
      "CFTreeGetParent st' = CFTreeGetParent s1" "CFTreeGetFirstChild st' = CFTreeGetFirstChild s1"
      "tree_rightmost st' = tree_rightmost s1" by auto
  have "CFTreeGetNextSibling st' x = Some y" using st'(4) 3(3) s1(5) by simp
  then have "path (CFTreeGetNextSibling st') x (x # y # xs) NULL" using st'(3) x by simp
  then show ?case using st' s1 by (intro exI [of _ st']) auto
qed simp

section \<open>Building a tree\<close>

text \<open>What a client relies on: children appended are kept in order, and the other trees stay as they are.\<close>

locale ordered_children =
  fixes rep :: "'s \<Rightarrow> ('r \<Rightarrow> 'r list) \<Rightarrow> bool" and append :: "'s \<Rightarrow> 'r \<Rightarrow> 'r \<Rightarrow> 's option"
    and alive :: "'s \<Rightarrow> 'r \<Rightarrow> bool" and single :: "'s \<Rightarrow> 'r \<Rightarrow> bool"
  assumes append_law: "rep s kids \<Longrightarrow> alive s t \<Longrightarrow> single s c \<Longrightarrow> c \<noteq> t \<Longrightarrow>
    \<exists>s'. append s t c = Some s' \<and> rep s' (kids(t := kids t @ [c])) \<and> alive s' t \<and>
      (\<forall>x. x \<noteq> c \<longrightarrow> single s x \<longrightarrow> single s' x)"
begin

fun append_all :: "'s \<Rightarrow> 'r \<Rightarrow> 'r list \<Rightarrow> 's option" where
  "append_all s t [] = Some s"
| "append_all s t (c # cs) = do { s \<leftarrow> append s t c; append_all s t cs }"

lemma append_all_law:
  "rep s kids \<Longrightarrow> alive s t \<Longrightarrow> distinct cs \<Longrightarrow> t \<notin> set cs \<Longrightarrow> \<forall>c \<in> set cs. single s c \<Longrightarrow>
    \<exists>s'. append_all s t cs = Some s' \<and> rep s' (kids(t := kids t @ cs)) \<and> alive s' t"
proof (induction cs arbitrary: s kids)
  case (Cons c cs)
  then obtain s1 where s1: "append s t c = Some s1" "rep s1 (kids(t := kids t @ [c]))" "alive s1 t"
    "\<forall>x. x \<noteq> c \<longrightarrow> single s x \<longrightarrow> single s1 x" using append_law [of s kids t c] by auto
  have "\<forall>x \<in> set cs. single s1 x" using s1(4) Cons.prems by auto
  from Cons.IH [OF s1(2,3) _ _ this] Cons.prems(3,4) obtain s' where s': "append_all s1 t cs = Some s'" "alive s' t"
    "rep s' ((kids(t := kids t @ [c]))(t := (kids(t := kids t @ [c])) t @ cs))"
    by (meson distinct.simps(2) list.set_intros(2))
  then have "rep s' (kids(t := kids t @ c # cs))" by (simp only: fun_upd_upd fun_upd_same append_assoc append_Cons append_Nil)
  moreover have "append_all s t (c # cs) = Some s'" using s'(1) s1(1) by simp
  ultimately show ?case using s'(2) by blast
qed auto

end

interpretation tree: ordered_children tree_rep CFTreeAppendChild
  "\<lambda>st t. tree_node st t \<noteq> None" "\<lambda>st c. CFTreeGetParent st c = Some NULL"
proof
  fix st kids t c
  assume "tree_rep st kids" "tree_node st t \<noteq> None" "CFTreeGetParent st c = Some NULL" "c \<noteq> t"
  then obtain st' where "CFTreeAppendChild st t c = Some st'" "tree_rep st' (kids(t := kids t @ [c]))"
    and par: "CFTreeGetParent st' = (CFTreeGetParent st)(c \<mapsto> t)"
    using AppendChild_law by (fastforce simp: tree_links_Some)
  moreover have "tree_node st' t \<noteq> None"
    using \<open>tree_node st t \<noteq> None\<close> unfolding tree_links_None(1) [symmetric] par by simp
  ultimately show "\<exists>s'. CFTreeAppendChild st t c = Some s' \<and> tree_rep s' (kids(t := kids t @ [c])) \<and> tree_node s' t \<noteq> None \<and>
      (\<forall>x. x \<noteq> c \<longrightarrow> CFTreeGetParent st x = Some NULL \<longrightarrow> CFTreeGetParent s' x = Some NULL)" by simp
qed

section \<open>Properties\<close>

text \<open>C5. Adding a child refines adding it to a list.  In a well-formed store without cycles, for a
  tree \<open>c\<close> without a parent that is not the root of \<open>tree\<close>, \<open>CFTreeAppendChild\<close>, \<open>CFTreePrependChild\<close> and, for a
  \<open>tree\<close> that has a parent, \<open>CFTreeInsertSibling\<close> return; the children are then those of before with
  \<open>c\<close> at the end, at the front, or after \<open>tree\<close>; the store is still well formed and without cycles;
  and \<open>c\<close> has been retained once.\<close>

theorem CFTree_insertions_refine:
  assumes "tree_rep st kids" "grounded st" "tree_node st tree = Some t" "CFTreeGetParent st c = Some NULL"
    "CFTreeFindRoot st tree \<noteq> Some c"
  shows "(\<exists>st'. CFTreeAppendChild st tree c = Some st' \<and> tree_rep st' (kids(tree := kids tree @ [c])) \<and>
      grounded st' \<and> ts_calls st' = ts_calls st @ [RetainTree c]) \<and>
    (\<exists>st'. CFTreePrependChild st tree c = Some st' \<and> tree_rep st' (kids(tree := c # kids tree)) \<and>
      grounded st' \<and> ts_calls st' = ts_calls st @ [RetainTree c]) \<and>
    (t_parent t \<noteq> NULL \<longrightarrow> (\<exists>st'. CFTreeInsertSibling st tree c = Some st' \<and>
      tree_rep st' (kids(t_parent t := insert_after tree c (kids (t_parent t)))) \<and>
      grounded st' \<and> ts_calls st' = ts_calls st @ [RetainTree c]))"
proof -
  from assms(4) obtain n where n: "tree_node st c = Some n" "t_parent n = NULL" by (auto simp: tree_links_Some)
  have ne: "c \<noteq> tree" using assms(5) FindRoot_root [OF assms(4)] by auto
  have up: "grounded st'" if "CFTreeGetParent st' = (CFTreeGetParent st)(c \<mapsto> tree)" for st'
    by (rule grounded_attach [OF assms(2) that assms(4,5)])
  have up': "grounded st'" if "t_parent t \<noteq> NULL" "CFTreeGetParent st' = (CFTreeGetParent st)(c \<mapsto> t_parent t)" for st'
  proof (rule grounded_attach [OF assms(2) that(2) assms(4)])
    have "CFTreeGetParent st tree = Some (t_parent t)" using assms(3) by (simp add: CFTreeGetParent_def)
    from FindRoot_parent [OF this that(1)] show "CFTreeFindRoot st (t_parent t) \<noteq> Some c" using assms(5) by simp
  qed
  from AppendChild_law [OF assms(1,3) n ne] PrependChild_law [OF assms(1,3) n ne]
    InsertSibling_law [OF assms(1,3) _ n ne] up up' show ?thesis by meson
qed

text \<open>C22. Removing refines removing from a list.  \<open>CFTreeRemove\<close> of a tree with a parent takes it out of
  its parent's children, releases it once and leaves it a root; \<open>CFTreeRemoveAllChildren\<close> does so for all
  children, in order, and \<open>CFTreeRemove\<close> of a root does nothing.  The store stays well formed and without
  cycles, and the root search ends in it at a tree without a parent.\<close>

theorem CFTree_removals_refine:
  assumes "tree_rep st kids" "grounded st" "tree_node st tree = Some t"
  shows "(t_parent t \<noteq> NULL \<longrightarrow> (\<exists>st'. CFTreeRemove st tree = Some st' \<and>
      tree_rep st' (kids(t_parent t := remove1 tree (kids (t_parent t)))) \<and> grounded st' \<and>
      CFTreeGetParent st' tree = Some NULL \<and> ts_calls st' = ts_calls st @ [ReleaseTree tree])) \<and>
    (t_parent t = NULL \<longrightarrow> CFTreeRemove st tree = Some st) \<and>
    (\<exists>st'. CFTreeRemoveAllChildren st tree = Some st' \<and> tree_rep st' (kids(tree := [])) \<and> grounded st' \<and>
      (\<forall>c \<in> set (kids tree). CFTreeGetParent st' c = Some NULL) \<and>
      ts_calls st' = ts_calls st @ map ReleaseTree (kids tree)) \<and>
    (\<exists>r. CFTreeFindRoot st tree = Some r \<and> CFTreeGetParent st r = Some NULL)"
proof (intro conjI impI)
  have par: "CFTreeGetParent st tree = Some (t_parent t)" using assms(3) by (simp add: CFTreeGetParent_def)
  show "\<exists>st'. CFTreeRemove st tree = Some st' \<and> tree_rep st' (kids(t_parent t := remove1 tree (kids (t_parent t)))) \<and>
      grounded st' \<and> CFTreeGetParent st' tree = Some NULL \<and> ts_calls st' = ts_calls st @ [ReleaseTree tree]"
    if "t_parent t \<noteq> NULL"
    using Remove_law [OF assms(1,3) that grounded_irrefl [OF assms(2) par]] grounded_detach1 [OF assms(2)] by fastforce
  show "CFTreeRemove st tree = Some st" if "t_parent t = NULL" using that assms(3) by (simp add: CFTreeRemove_def)
  show "\<exists>st'. CFTreeRemoveAllChildren st tree = Some st' \<and> tree_rep st' (kids(tree := [])) \<and> grounded st' \<and>
      (\<forall>c \<in> set (kids tree). CFTreeGetParent st' c = Some NULL) \<and>
      ts_calls st' = ts_calls st @ map ReleaseTree (kids tree)"
    using RemoveAllChildren_law [OF assms(1,3)] grounded_detach [OF assms(2)] by fastforce
  show "\<exists>r. CFTreeFindRoot st tree = Some r \<and> CFTreeGetParent st r = Some NULL"
    by (rule FindRoot_law [OF assms])
qed

text \<open>Reading the children: after appending single trees one by one, \<open>CFTreeGetChildren\<close> gives the
  children in order, \<open>CFTreeApplyFunctionToChildren\<close> visits them in that order, \<open>CFTreeGetChildCount\<close>
  counts them as long as a 32-bit integer can, and \<open>CFTreeGetChildAtIndex\<close> gives each by its index and NULL
  outside the bounds, for negative indexes too.\<close>

theorem CFTree_children_read:
  assumes "tree_rep st kids" "tree_node st tree \<noteq> None" "distinct cs" "tree \<notin> set cs"
    "\<forall>c \<in> set cs. CFTreeGetParent st c = Some NULL" "length (kids tree @ cs) < 2 ^ 31"
  shows "\<exists>st'. tree.append_all st tree cs = Some st' \<and> tree_rep st' (kids(tree := kids tree @ cs)) \<and>
    CFTreeGetChildren st' tree = Some (kids tree @ cs) \<and>
    CFTreeApplyFunctionToChildren st' tree f acc = Some (fold f (kids tree @ cs) acc) \<and>
    CFTreeGetChildCount st' tree = Some (int (length (kids tree @ cs))) \<and>
    CFTreeGetChildAtIndex st' tree idx = Some
      (if 0 \<le> idx \<and> idx < int (length (kids tree @ cs)) then (kids tree @ cs) ! nat idx else NULL)"
proof -
  from tree.append_all_law [OF assms(1-5)] obtain st' where
    st': "tree.append_all st tree cs = Some st'" "tree_rep st' (kids(tree := kids tree @ cs))" "tree_node st' tree \<noteq> None"
    by blast
  then obtain t where t: "tree_node st' tree = Some t" by blast
  from child_queries(2) [OF st'(2) t, of f acc] child_queries(1,3,4) [OF st'(2) t] sint_of_small [OF assms(6)] st'(1,2)
  show ?thesis by simp
qed

text \<open>Linking the children in another order: the steps after the sort.\<close>

lemma relink_law:
  assumes rep: "tree_rep st kids" and t: "tree_node st tree = Some t"
    and perm: "mset ys = mset (kids tree)" and ne: "ys \<noteq> []"
  obtains s1 s2 st' where "tree_set st tree (\<lambda>n. n\<lparr>t_child := hd ys\<rparr>) = Some s1" "link_siblings s1 ys = Some s2"
    "tree_set s2 tree (\<lambda>n. n\<lparr>t_rightmostChild := last ys\<rparr>) = Some st'" "tree_rep st' (kids(tree := ys))"
    "CFTreeGetParent st' = CFTreeGetParent st" "ts_calls st' = ts_calls st"
proof -
  have sy: "set ys = set (kids tree)" and dy: "distinct ys"
    using perm mset_eq_setD mset_eq_imp_distinct_iff kids_distinct [OF rep] by blast+
  from set_links(3) [OF t, of "hd ys"] obtain s1 where
    s1: "tree_set st tree (\<lambda>n. n\<lparr>t_child := hd ys\<rparr>) = Some s1"
      "tree_node s1 = (tree_node st)(tree \<mapsto> t\<lparr>t_child := hd ys\<rparr>)" "ts_calls s1 = ts_calls st"
      "CFTreeGetParent s1 = CFTreeGetParent st" "CFTreeGetNextSibling s1 = CFTreeGetNextSibling st"
      "CFTreeGetFirstChild s1 = (CFTreeGetFirstChild st)(tree \<mapsto> hd ys)" "tree_rightmost s1 = tree_rightmost st" by blast
  have "tree_node st y \<noteq> None" if "y \<in> set (kids tree)" for y using kids_allocated [OF rep that] by auto
  then have "\<forall>y \<in> set ys. tree_node s1 y \<noteq> None" using s1(2) sy by auto
  from link_siblings_law [OF ne dy this] obtain s2 where s2: "link_siblings s1 ys = Some s2" "ts_calls s2 = ts_calls s1"
      "path (CFTreeGetNextSibling s2) (hd ys) ys NULL"
      "\<forall>c. c \<notin> set ys \<longrightarrow> CFTreeGetNextSibling s2 c = CFTreeGetNextSibling s1 c"
      "CFTreeGetParent s2 = CFTreeGetParent s1" "CFTreeGetFirstChild s2 = CFTreeGetFirstChild s1"
      "tree_rightmost s2 = tree_rightmost s1" by blast
  have "CFTreeGetParent s2 tree = Some (t_parent t)" using t by (simp add: s2(5) s1(4) CFTreeGetParent_def)
  then obtain t2 where t2: "tree_node s2 tree = Some t2" by (auto simp: tree_links_Some)
  from set_links(4) [OF t2, of "last ys"] obtain st' where
    s3: "tree_set s2 tree (\<lambda>n. n\<lparr>t_rightmostChild := last ys\<rparr>) = Some st'" "ts_calls st' = ts_calls s2"
      "CFTreeGetParent st' = CFTreeGetParent s2" "CFTreeGetNextSibling st' = CFTreeGetNextSibling s2"
      "CFTreeGetFirstChild st' = CFTreeGetFirstChild s2" "tree_rightmost st' = (tree_rightmost s2)(tree \<mapsto> last ys)" by blast
  have tn: "tree \<noteq> NULL" using t by auto
  have "tree_rep st' (kids(tree := ys))"
  proof (rule relist [OF rep tn])
    show "CFTreeGetParent st' x = (if x \<in> set ys then Some tree
        else if x \<in> set (kids tree) then Some NULL else CFTreeGetParent st x)" for x
      using tree_repD(5) [OF rep, of x tree] sy by (auto simp: s3(3) s2(5) s1(4))
    show "CFTreeGetNextSibling st' x = CFTreeGetNextSibling st x" if "u \<noteq> tree" "x \<in> set (kids u)" for u x
      using other_list [OF rep that(2), of tree] that(1) s2(4) sy by (auto simp: s3(4) s1(5))
    show "CFTreeGetFirstChild st' tree = Some (hd ys)" by (simp add: s3(5) s2(6) s1(6))
    show "path (CFTreeGetNextSibling st') (hd ys) ys NULL" using s2(3) by (simp add: s3(4))
    show "CFTreeGetNextSibling st' x = Some NULL" if "CFTreeGetParent st' x = Some NULL" for x
    proof -
      have x: "CFTreeGetParent st x = Some NULL" using that by (simp add: s3(3) s2(5) s1(4))
      then have "x \<notin> set (kids tree)" using tree_repD(5) [OF rep, of x tree] tn by auto
      then show ?thesis using tree_repD(4) [OF rep x] s2(4) sy by (simp add: s3(4) s1(5))
    qed
  qed (use ne sy in \<open>auto simp: s3 s2 s1\<close>)
  with s1 s2 s3 that show thesis by simp
qed

text \<open>C23. \<open>CFTreeSortChildren\<close>, which hands the array of child pointers to \<open>CFQSortArray\<close> and relinks the
  children by what comes back, puts the children in the order of the comparison, equal ones in the order
  they had, and changes nothing else: the store stays well formed, parents stay, nothing is retained or
  released.\<close>

theorem CFTreeSortChildren_sorted:
  assumes rep: "tree_rep st kids" and t: "tree_node st tree = Some t" and len: "length (kids tree) < 2 ^ 31"
    and total: "\<And>x y. cmp_int (comparator x y) \<le> 0 \<or> cmp_int (comparator y x) \<le> 0"
    and trans: "\<And>x y z. cmp_int (comparator x y) \<le> 0 \<Longrightarrow> cmp_int (comparator y z) \<le> 0 \<Longrightarrow> cmp_int (comparator x z) \<le> 0"
  shows "\<exists>st' idxs. CFTreeSortChildren fresh active st tree comparator = Some st' \<and>
    mset idxs = mset [0..<length (kids tree)] \<and>
    sorted_wrt (index_before (\<lambda>a b. comparator (kids tree ! a) (kids tree ! b))) idxs \<and>
    tree_rep st' (kids(tree := map ((!) (kids tree)) idxs)) \<and>
    CFTreeGetParent st' = CFTreeGetParent st \<and> ts_calls st' = ts_calls st"
proof (cases "1 < length (kids tree)")
  case False
  let ?n = "length (kids tree)"
  have cnt: "CFTreeGetChildCount st tree = Some (int ?n)"
    using child_queries(3) [OF rep t] sint_of_small [OF len] by simp
  have "sorted_wrt (index_before (\<lambda>a b. comparator (kids tree ! a) (kids tree ! b))) [0..<?n]"
    using False by (cases "?n = 0") (simp_all add: not_less le_Suc_eq)
  moreover have "CFTreeSortChildren fresh active st tree comparator = Some st"
    using False by (simp add: CFTreeSortChildren_def cnt)
  moreover have "kids(tree := map ((!) (kids tree)) [0..<?n]) = kids" by (simp add: map_nth)
  ultimately show ?thesis using rep by (intro exI [of _ st] exI [of _ "[0..<?n]"]) simp
next
  case True
  let ?xs = "kids tree" and ?n = "length (kids tree)"
  have cnt: "CFTreeGetChildCount st tree = Some (int ?n)"
    using child_queries(3) [OF rep t] sint_of_small [OF len] by simp
  have order: "pointer_order comparator" using total trans by (auto simp: pointer_order_def)
  have small: "?n \<le> (2 ^ 63 - 1) div 8" using len by simp
  from sort_pointers_law [OF order small, of fresh active] obtain idxs where
    q: "CFQSortArray fresh active (concat (map ptr_bytes ?xs)) ?n 8 (CFTreeCompareValues comparator) =
      Some (concat (map ptr_bytes (map ((!) ?xs) idxs)))" and perm: "mset idxs = mset [0..<?n]"
    and sorted: "sorted_wrt (index_before (\<lambda>a b. comparator (?xs ! a) (?xs ! b))) idxs"
    unfolding CFTreeCompareValues_def [abs_def] by blast
  define ys where "ys = map ((!) ?xs) idxs"
  have my: "mset ys = mset ?xs" unfolding ys_def by (rule permuted_mset [OF perm])
  then have yl: "length ys = ?n" and ne: "ys \<noteq> []" using True mset_eq_length by (blast, auto)
  have decode: "map (\<lambda>idx. ptr_of_bytes (element (concat (map ptr_bytes ys)) 8 idx)) [0..<?n] = ys"
    using decode_ptrs [of ys] by (simp add: yl)
  have ends: "rd ys 0 = Some (hd ys)" "rd ys (?n - 1) = Some (last ys)"
    using ne yl True by (auto simp: hd_conv_nth last_conv_nth)
  obtain s1 s2 st' where steps: "tree_set st tree (\<lambda>n. n\<lparr>t_child := hd ys\<rparr>) = Some s1"
      "link_siblings s1 ys = Some s2" "tree_set s2 tree (\<lambda>n. n\<lparr>t_rightmostChild := last ys\<rparr>) = Some st'"
    and result: "tree_rep st' (kids(tree := ys))" "CFTreeGetParent st' = CFTreeGetParent st" "ts_calls st' = ts_calls st"
    by (rule relink_law [OF rep t my ne])
  have ni: "nat (int ?n) = ?n" by simp
  have "CFTreeSortChildren fresh active st tree comparator = Some st'"
    unfolding CFTreeSortChildren_def cnt Option.bind_lunit child_queries(1) [OF rep t] ni q ys_def [symmetric]
      Let_def decode ends steps using True by simp
  then show ?thesis using perm sorted result unfolding ys_def by blast
qed

section \<open>Witnesses\<close>

text \<open>Tree 1 with the children 2 and 3, and the single trees 4 and 5.\<close>

definition example_node :: "tree_ref \<Rightarrow> tree_ref \<Rightarrow> tree_ref \<Rightarrow> tree_ref \<Rightarrow> CFTree" where
  "example_node p s c r = \<lparr>t_parent = p, t_sibling = s, t_child = c, t_rightmostChild = r, t_info = 0,
     t_callbacks = None, t_cbtype = kCFTreeHasNullCallBacks\<rparr>"

definition example_store :: tree_store where
  "example_store = \<lparr>ts_nodes = [1 \<mapsto> example_node 0 0 2 3, 2 \<mapsto> example_node 1 3 0 0, 3 \<mapsto> example_node 1 0 0 0,
     4 \<mapsto> example_node 0 0 0 0, 5 \<mapsto> example_node 0 0 0 0], ts_calls = []\<rparr>"

definition example_kids :: "tree_ref \<Rightarrow> tree_ref list" where
  "example_kids = (\<lambda>t. if t = 1 then [2, 3] else [])"

lemma example_nodes: "tree_node example_store x =
    (if x = 1 then Some (example_node 0 0 2 3) else if x = 2 then Some (example_node 1 3 0 0)
     else if x = 3 then Some (example_node 1 0 0 0) else if x = 4 \<or> x = 5 then Some (example_node 0 0 0 0) else None)"
  by (auto simp: tree_node_def example_store_def)

lemma example_facts:
  "tree_rep example_store example_kids" "grounded example_store"
  "tree_node example_store 1 = Some (example_node 0 0 2 3)" "tree_node example_store 2 = Some (example_node 1 3 0 0)"
  "CFTreeGetParent example_store 4 = Some NULL" "CFTreeGetParent example_store 5 = Some NULL"
  "CFTreeFindRoot example_store 2 = Some 1"
proof -
  show "tree_rep example_store example_kids"
    unfolding tree_rep_def tree_links_Some
    by (auto simp: tree_links example_nodes example_kids_def example_node_def split: if_splits)
  show "grounded example_store" unfolding grounded_def
    by (intro exI [of _ "\<lambda>x. if x = 1 then 0 else 1"]) (auto simp: tree_links_Some example_nodes example_node_def split: if_splits)
  show "CFTreeFindRoot example_store 2 = Some 1"
    by (simp add: CFTreeFindRoot.simps example_nodes example_node_def)
qed (simp_all add: tree_links example_nodes example_node_def)

lemma CFTree_insertions_refine_witness:
  "\<exists>st'. CFTreeAppendChild example_store 2 4 = Some st' \<and> tree_rep st' (example_kids(2 := example_kids 2 @ [4])) \<and>
      grounded st' \<and> ts_calls st' = ts_calls example_store @ [RetainTree 4]"
  using CFTree_insertions_refine [OF example_facts(1,2,4,5)] example_facts(7) by simp

lemma CFTree_removals_refine_witness:
  "\<exists>st'. CFTreeRemove example_store 2 = Some st' \<and> tree_rep st' (example_kids(1 := [3]))"
  using CFTree_removals_refine [OF example_facts(1,2,4)] by (auto simp: example_node_def example_kids_def)

lemma CFTree_children_read_witness:
  "\<exists>st'. tree.append_all example_store 1 [5, 4] = Some st' \<and> CFTreeGetChildAtIndex st' 1 3 = Some 4"
  using CFTree_children_read [OF example_facts(1), of 1 "[5, 4]" "\<lambda>_ n. n" 0 3]
  by (auto simp: example_facts example_kids_def)

lemma CFTreeSortChildren_sorted_witness:
  "\<exists>st' idxs. CFTreeSortChildren (\<lambda>_. 0) 1 example_store 1 (\<lambda>x y. cmp_of y x) = Some st' \<and>
    mset idxs = mset [0..<length (example_kids 1)] \<and>
    sorted_wrt (index_before (\<lambda>a b. cmp_of (example_kids 1 ! b) (example_kids 1 ! a))) idxs \<and>
    tree_rep st' (example_kids(1 := map ((!) (example_kids 1)) idxs)) \<and>
    CFTreeGetParent st' = CFTreeGetParent example_store \<and> ts_calls st' = ts_calls example_store"
  by (rule CFTreeSortChildren_sorted [OF example_facts(1,3)])
    (auto simp: example_kids_def cmp_of_def cmp_int_def split: if_splits)

end
