(* ===== verification/BasicHash.thy ===== *)
theory BasicHash
  imports CF_Prelude "HOL-Library.Monad_Syntax"
begin

text \<open>
  \<open>CFBasicHash.c\<close> and \<open>CFBasicHashFindBucket.m\<close>: the open-addressing hash table under CFSet, CFBag
  and CFDictionary, as compiled with \<open>DEPLOYMENT_TARGET_MACOSX\<close> (the cache of hash codes is there)
  and without the garbage collector.  The three stores are lists read and written with a check,
  \<open>HALT\<close> and an access outside a store are \<open>None\<close>; the 16-bit fields wrap; the stored counts keep
  the width the table has given them; the calls of the retain and release callbacks are logged.  A
  bucket that a search does not fill in has no key and no value (\<open>None\<close>).
\<close>

section \<open>Tables of sizes\<close>

definition CFBasicHashTableSizes :: "nat list" where
  "CFBasicHashTableSizes =
    [0, 3, 7, 13, 23, 41, 71, 127, 191, 251, 383, 631, 1087, 1723,
     2803, 4523, 7351, 11959, 19447, 31231, 50683, 81919, 132607,
     214519, 346607, 561109, 907759, 1468927, 2376191, 3845119,
     6221311, 10066421, 16287743, 26354171, 42641881, 68996069,
     111638519, 180634607, 292272623, 472907251,
     765180413, 1238087663, 2003267557, 3241355263, 5244622819] @ replicate 19 0"

definition CFBasicHashTableCapacities :: "nat list" where
  "CFBasicHashTableCapacities =
    [0, 3, 6, 11, 19, 32, 52, 85, 118, 155, 237, 390, 672, 1065,
     1732, 2795, 4543, 7391, 12019, 19302, 31324, 50629, 81956,
     132580, 214215, 346784, 561026, 907847, 1468567, 2376414,
     3844982, 6221390, 10066379, 16287773, 26354132, 42641916,
     68996399, 111638327, 180634415, 292272755,
     472907503, 765180257, 1238087439, 2003267722, 3241355160] @ replicate 19 0"

definition CFBasicHashPrimitiveRoots :: "nat list" where
  "CFBasicHashPrimitiveRoots =
    [0, 2, 3, 2, 5, 6, 7, 3, 19, 6, 5, 3, 3, 3,
     2, 5, 6, 3, 3, 6, 2, 3, 3,
     3, 5, 10, 3, 3, 22, 3,
     3, 3, 5, 2, 22, 2,
     11, 5, 5, 2,
     3, 10, 2, 3, 10,
     2, 3, 5, 3,
     3, 2, 7, 2,
     3, 3, 3, 2,
     3, 5, 5,
     2, 3, 2, 0]"

section \<open>State\<close>

record CFBasicHashCallbacks =
  cb_retainValue :: "(u64 \<Rightarrow> u64) option"
  cb_retainKey :: "(u64 \<Rightarrow> u64) option"
  cb_releaseValue :: bool
  cb_releaseKey :: bool
  cb_equateValues :: "(u64 \<Rightarrow> u64 \<Rightarrow> bool) option"
  cb_equateKeys :: "(u64 \<Rightarrow> u64 \<Rightarrow> bool) option"
  cb_hashKey :: "(u64 \<Rightarrow> u64) option"
  cb_getIndirectKey :: "(u64 \<Rightarrow> u64) option"

datatype hash_call = Value_retained u64 | Key_retained u64 | Value_released u64 | Key_released u64

record CFBasicHash =
  ht_mutable :: bool
  ht_kvo :: bool
  ht_mutations :: u16
  ht_hash_style :: nat
  ht_keys_offset :: nat
  ht_counts_offset :: nat
  ht_counts_width :: nat
  ht_hashes_offset :: nat
  ht_strong_values :: bool
  ht_strong_keys :: bool
  ht_weak_values :: bool
  ht_weak_keys :: bool
  ht_int_values :: bool
  ht_int_keys :: bool
  ht_indirect_keys :: bool
  ht_used_buckets :: nat
  ht_deleted :: u16
  ht_num_buckets_idx :: nat
  ht_null_rc :: bool
  ht_fast_grow :: bool
  ht_finalized :: bool
  ht_callbacks :: CFBasicHashCallbacks
  ht_values :: "u64 list"
  ht_keys :: "u64 list"
  ht_counts :: "nat list"
  ht_hashes :: "u64 list"
  ht_calls :: "hash_call list"

record CFBasicHashBucket =
  bk_idx :: int
  bk_key :: "u64 option"
  bk_value :: "u64 option"
  bk_count :: nat

definition kCFNotFound :: int where "kCFNotFound = -1"

definition CFBasicHashSubABZero :: u64 where "CFBasicHashSubABZero = 0xa7baadb1"
definition CFBasicHashSubABOne :: u64 where "CFBasicHashSubABOne = 0xa5baadb9"

text \<open>The substitution for 0 and all ones, which mark empty and deleted buckets, and its inverse.\<close>

definition sub_in :: "u64 \<Rightarrow> u64" where
  "sub_in v = (if v = 0 then CFBasicHashSubABZero else if v = -1 then CFBasicHashSubABOne else v)"

definition sub_out :: "u64 \<Rightarrow> u64" where
  "sub_out v = (if v = CFBasicHashSubABZero then 0 else if v = CFBasicHashSubABOne then -1 else v)"

definition is_magic :: "u64 \<Rightarrow> bool" where
  "is_magic v \<longleftrightarrow> v = CFBasicHashSubABZero \<or> v = CFBasicHashSubABOne"

definition CFBasicHashHasStrongValues :: "CFBasicHash \<Rightarrow> bool" where
  "CFBasicHashHasStrongValues ht = ht_strong_values ht"

definition CFBasicHashHasStrongKeys :: "CFBasicHash \<Rightarrow> bool" where
  "CFBasicHashHasStrongKeys ht = ht_strong_keys ht"

definition CFBasicHashHasHashCache :: "CFBasicHash \<Rightarrow> bool" where
  "CFBasicHashHasHashCache ht \<longleftrightarrow> ht_hashes_offset ht \<noteq> 0"

text \<open>Bit 6 of the runtime header, the immutable bit; bit 0 is the client's (\<open>ht_kvo\<close>).\<close>

definition CFBasicHashIsMutable :: "CFBasicHash \<Rightarrow> bool" where
  "CFBasicHashIsMutable ht = ht_mutable ht"

definition CFBasicHashMakeImmutable :: "CFBasicHash \<Rightarrow> CFBasicHash" where
  "CFBasicHashMakeImmutable ht = ht\<lparr>ht_mutable := False\<rparr>"

section \<open>Callbacks\<close>

definition CFBasicHashImportValue :: "CFBasicHash \<Rightarrow> u64 \<Rightarrow> u64 \<times> hash_call list" where
  "CFBasicHashImportValue ht v = (case cb_retainValue (ht_callbacks ht) of
     None \<Rightarrow> (v, [])
   | Some func \<Rightarrow> if ht_null_rc ht then (v, []) else (func v, [Value_retained (func v)]))"

definition CFBasicHashImportKey :: "CFBasicHash \<Rightarrow> u64 \<Rightarrow> u64 \<times> hash_call list" where
  "CFBasicHashImportKey ht k = (case cb_retainKey (ht_callbacks ht) of
     None \<Rightarrow> (k, [])
   | Some func \<Rightarrow> if ht_null_rc ht then (k, []) else (func k, [Key_retained (func k)]))"

definition CFBasicHashEjectValue :: "CFBasicHash \<Rightarrow> u64 \<Rightarrow> CFBasicHash" where
  "CFBasicHashEjectValue ht v =
     (if \<not> cb_releaseValue (ht_callbacks ht) \<or> ht_null_rc ht then ht
      else ht\<lparr>ht_calls := ht_calls ht @ [Value_released v]\<rparr>)"

definition CFBasicHashEjectKey :: "CFBasicHash \<Rightarrow> u64 \<Rightarrow> CFBasicHash" where
  "CFBasicHashEjectKey ht k =
     (if \<not> cb_releaseKey (ht_callbacks ht) \<or> ht_null_rc ht then ht
      else ht\<lparr>ht_calls := ht_calls ht @ [Key_released k]\<rparr>)"

definition CFBasicHashTestEqualValue :: "CFBasicHash \<Rightarrow> u64 \<Rightarrow> u64 \<Rightarrow> bool" where
  "CFBasicHashTestEqualValue ht a b = (case cb_equateValues (ht_callbacks ht) of
     None \<Rightarrow> a = b | Some func \<Rightarrow> func a b)"

definition CFBasicHashTestEqualKey :: "CFBasicHash \<Rightarrow> u64 \<Rightarrow> u64 \<Rightarrow> bool" where
  "CFBasicHashTestEqualKey ht a b = (case cb_equateKeys (ht_callbacks ht) of
     None \<Rightarrow> a = b | Some func \<Rightarrow> func a b)"

definition CFBasicHashHashKey :: "CFBasicHash \<Rightarrow> u64 \<Rightarrow> u64" where
  "CFBasicHashHashKey ht k = (case cb_hashKey (ht_callbacks ht) of None \<Rightarrow> k | Some func \<Rightarrow> func k)"

definition CFBasicHashGetIndirectKey :: "CFBasicHash \<Rightarrow> u64 \<Rightarrow> u64" where
  "CFBasicHashGetIndirectKey ht v = (case cb_getIndirectKey (ht_callbacks ht) of
     None \<Rightarrow> v | Some func \<Rightarrow> func v)"

section \<open>Buckets\<close>

text \<open>A bucket index is a signed integer; a negative one is outside of every store.\<close>

definition store_index :: "int \<Rightarrow> nat option" where
  "store_index i = (if 0 \<le> i then Some (nat i) else None)"

definition CFBasicHashGetValue :: "CFBasicHash \<Rightarrow> nat \<Rightarrow> u64 option" where
  "CFBasicHashGetValue ht idx = do { val \<leftarrow> rd (ht_values ht) idx; Some (sub_out val) }"

definition slot_set_value :: "CFBasicHash \<Rightarrow> nat \<Rightarrow> u64 \<Rightarrow> bool \<Rightarrow> bool \<Rightarrow> CFBasicHash option" where
  "slot_set_value ht idx v ignoreOld literal =
     do { old \<leftarrow> rd (ht_values ht) idx;
          values \<leftarrow> wr (ht_values ht) idx (if literal then v else sub_in v);
          let ht = ht\<lparr>ht_values := values\<rparr>;
          Some (if ignoreOld \<or> old = 0 \<or> old = -1 then ht
                else CFBasicHashEjectValue ht (sub_out old)) }"

definition CFBasicHashGetKey :: "CFBasicHash \<Rightarrow> nat \<Rightarrow> u64 option" where
  "CFBasicHashGetKey ht idx =
     (if ht_keys_offset ht \<noteq> 0
      then do { key \<leftarrow> rd (ht_keys ht) idx; Some (sub_out key) }
      else do { v \<leftarrow> CFBasicHashGetValue ht idx;
                Some (if ht_indirect_keys ht then CFBasicHashGetIndirectKey ht v else v) })"

definition slot_set_key :: "CFBasicHash \<Rightarrow> nat \<Rightarrow> u64 \<Rightarrow> bool \<Rightarrow> bool \<Rightarrow> CFBasicHash option" where
  "slot_set_key ht idx k ignoreOld literal =
     (if ht_keys_offset ht = 0 then None
      else do { old \<leftarrow> rd (ht_keys ht) idx;
                keys \<leftarrow> wr (ht_keys ht) idx (if literal then k else sub_in k);
                let ht = ht\<lparr>ht_keys := keys\<rparr>;
                Some (if ignoreOld \<or> old = 0 \<or> old = -1 then ht
                      else CFBasicHashEjectKey ht (sub_out old)) })"

definition CFBasicHashIsEmptyOrDeleted :: "CFBasicHash \<Rightarrow> nat \<Rightarrow> bool option" where
  "CFBasicHashIsEmptyOrDeleted ht idx =
     do { v \<leftarrow> rd (ht_values ht) idx; Some (v = 0 \<or> v = -1) }"

definition CFBasicHashIsDeleted :: "CFBasicHash \<Rightarrow> nat \<Rightarrow> bool option" where
  "CFBasicHashIsDeleted ht idx = do { v \<leftarrow> rd (ht_values ht) idx; Some (v = -1) }"

text \<open>Counts are 1, 2, 4 or 8 bytes wide; \<open>count_bits\<close> is the width in bits.\<close>

definition count_bits :: "nat \<Rightarrow> nat" where "count_bits width = 8 * 2 ^ width"

definition CFBasicHashGetSlotCount :: "CFBasicHash \<Rightarrow> nat \<Rightarrow> nat option" where
  "CFBasicHashGetSlotCount ht idx =
     (if ht_counts_width ht \<le> 3 then rd (ht_counts ht) idx else Some 0)"

definition CFBasicHashBumpCounts :: "CFBasicHash \<Rightarrow> CFBasicHash option" where
  "CFBasicHashBumpCounts ht =
     (let width = ht_counts_width ht in
      if width < 3
      then do { counts \<leftarrow> rd_block (ht_counts ht) 0
                  (CFBasicHashTableSizes ! ht_num_buckets_idx ht);
                Some (ht\<lparr>ht_counts_width := width + 1,
                  ht_counts := map (\<lambda>c. c mod 2 ^ count_bits (width + 1)) counts\<rparr>) }
      else None)"

function CFBasicHashIncSlotCount :: "CFBasicHash \<Rightarrow> nat \<Rightarrow> CFBasicHash option" where
  "CFBasicHashIncSlotCount ht idx =
     do { val \<leftarrow> rd (ht_counts ht) idx;
          if val < 2 ^ (count_bits (ht_counts_width ht) - 1) - 1
          then do { counts \<leftarrow> wr (ht_counts ht) idx (val + 1); Some (ht\<lparr>ht_counts := counts\<rparr>) }
          else do { ht \<leftarrow> CFBasicHashBumpCounts ht; CFBasicHashIncSlotCount ht idx } }"
  by auto
termination
  by (relation "measure (\<lambda>(ht, idx). 3 - ht_counts_width ht)")
    (auto simp: CFBasicHashBumpCounts_def Let_def Option.bind_eq_Some_conv split: if_splits)

declare CFBasicHashIncSlotCount.simps [simp del]

definition CFBasicHashDecSlotCount :: "CFBasicHash \<Rightarrow> nat \<Rightarrow> CFBasicHash option" where
  "CFBasicHashDecSlotCount ht idx =
     (if ht_counts_width ht \<le> 3
      then do { val \<leftarrow> rd (ht_counts ht) idx;
                let b = 2 ^ count_bits (ht_counts_width ht);
                counts \<leftarrow> wr (ht_counts ht) idx ((val + (b - 1)) mod b);
                Some (ht\<lparr>ht_counts := counts\<rparr>) }
      else Some ht)"

definition CFBasicHashGetCapacityForNumBuckets :: "nat \<Rightarrow> nat" where
  "CFBasicHashGetCapacityForNumBuckets num_buckets_idx =
     CFBasicHashTableCapacities ! num_buckets_idx"

definition CFBasicHashGetNumBucketsIndexForCapacity :: "nat \<Rightarrow> nat option" where
  "CFBasicHashGetNumBucketsIndexForCapacity capacity =
     find (\<lambda>idx. capacity \<le> CFBasicHashGetCapacityForNumBuckets idx) [0..<64]"

definition CFBasicHashGetNumBuckets :: "CFBasicHash \<Rightarrow> nat" where
  "CFBasicHashGetNumBuckets ht = CFBasicHashTableSizes ! ht_num_buckets_idx ht"

definition CFBasicHashGetCapacity :: "CFBasicHash \<Rightarrow> nat" where
  "CFBasicHashGetCapacity ht = CFBasicHashGetCapacityForNumBuckets (ht_num_buckets_idx ht)"

definition CFBasicHashGetBucket :: "CFBasicHash \<Rightarrow> nat \<Rightarrow> CFBasicHashBucket option" where
  "CFBasicHashGetBucket ht idx =
     do { free \<leftarrow> CFBasicHashIsEmptyOrDeleted ht idx;
          if free
          then Some \<lparr>bk_idx = int idx, bk_key = Some 0, bk_value = Some 0, bk_count = 0\<rparr>
          else do { cnt \<leftarrow> (if ht_counts_offset ht \<noteq> 0 then CFBasicHashGetSlotCount ht idx else Some 1);
                    v \<leftarrow> CFBasicHashGetValue ht idx;
                    k \<leftarrow> CFBasicHashGetKey ht idx;
                    Some \<lparr>bk_idx = int idx, bk_key = Some k, bk_value = Some v, bk_count = cnt\<rparr> } }"

section \<open>Searching\<close>

definition find_keys :: "CFBasicHash \<Rightarrow> u64 list" where
  "find_keys ht = (if ht_keys_offset ht \<noteq> 0 then ht_keys ht else ht_values ht)"

text \<open>The three probe sequences: the step of the search loop takes the current probe and the
  accumulator (used by the exponential one only) to the next.\<close>

definition probe_h2 :: "nat \<Rightarrow> nat \<Rightarrow> nat" where
  "probe_h2 num_buckets hash_code =
     (let h2 = hash_code div num_buckets mod num_buckets in if h2 = 0 then num_buckets - 1 else h2)"

definition next_probe :: "nat \<Rightarrow> nat \<Rightarrow> nat \<Rightarrow> nat \<Rightarrow> nat \<times> nat \<Rightarrow> nat \<times> nat" where
  "next_probe style num_buckets hash_code pr = (\<lambda>(probe, acc).
     let h1 = hash_code mod num_buckets; h2 = probe_h2 num_buckets hash_code in
     if style = 1 then
       (let probe = probe + 1 in (if num_buckets \<le> probe then probe - num_buckets else probe, acc))
     else if style = 2 then
       (let probe = probe + h2 in (if num_buckets \<le> probe then probe - num_buckets else probe, acc))
     else
       (let probe = (h1 + h2 * acc) mod 2 ^ 64; acc = acc * pr mod 2 ^ 64 in
        (if num_buckets \<le> probe then probe mod num_buckets else probe,
         if num_buckets \<le> acc then acc mod num_buckets else acc)))"

definition absent_bucket :: "int \<Rightarrow> CFBasicHashBucket" where
  "absent_bucket idx = \<lparr>bk_idx = idx, bk_key = None, bk_value = None, bk_count = 0\<rparr>"

fun find_bucket_loop :: "CFBasicHash \<Rightarrow> u64 \<Rightarrow> u64 \<Rightarrow> (nat \<times> nat \<Rightarrow> nat \<times> nat) \<Rightarrow> nat \<Rightarrow> nat \<times> nat
    \<Rightarrow> int \<Rightarrow> CFBasicHashBucket option" where
  "find_bucket_loop ht stack_key hash_code next_p 0 st deleted_idx =
     Some (absent_bucket deleted_idx)"
| "find_bucket_loop ht stack_key hash_code next_p (Suc left) st deleted_idx =
     (let probe = fst st in
      do { curr_key \<leftarrow> rd (find_keys ht) probe;
           if curr_key = 0
           then Some (absent_bucket (if kCFNotFound = deleted_idx then int probe else deleted_idx))
           else if curr_key = -1
           then find_bucket_loop ht stack_key hash_code next_p left (next_p st)
                  (if kCFNotFound = deleted_idx then int probe else deleted_idx)
           else do {
             let curr_key = (if ht_indirect_keys ht
                             then CFBasicHashGetIndirectKey ht (sub_out curr_key)
                             else sub_out curr_key);
             hash_ok \<leftarrow> (if CFBasicHashHasHashCache ht \<and> curr_key \<noteq> stack_key
                then do { h \<leftarrow> rd (ht_hashes ht) probe; Some (h = hash_code) } else Some True);
             if curr_key = stack_key \<or> (hash_ok \<and> CFBasicHashTestEqualKey ht curr_key stack_key)
             then do { v \<leftarrow> CFBasicHashGetValue ht probe;
                       cnt \<leftarrow> (if ht_counts_offset ht \<noteq> 0 then CFBasicHashGetSlotCount ht probe
                               else Some 1);
                       Some \<lparr>bk_idx = int probe, bk_key = Some curr_key, bk_value = Some v,
                             bk_count = cnt\<rparr> }
             else find_bucket_loop ht stack_key hash_code next_p left (next_p st) deleted_idx } })"

definition internal_FindBucket :: "CFBasicHash \<Rightarrow> u64 \<Rightarrow> CFBasicHashBucket option" where
  "internal_FindBucket ht stack_key =
     (if ht_num_buckets_idx ht = 0
      then Some \<lparr>bk_idx = kCFNotFound, bk_key = Some 0, bk_value = Some 0, bk_count = 0\<rparr>
      else if ht_hash_style ht \<in> {1, 2, 3}
      then (let n = CFBasicHashGetNumBuckets ht; hash_code = CFBasicHashHashKey ht stack_key;
                pr = CFBasicHashPrimitiveRoots ! ht_num_buckets_idx ht in
            find_bucket_loop ht stack_key hash_code
              (next_probe (ht_hash_style ht) n (unat hash_code) pr) n
              (unat hash_code mod n, pr) kCFNotFound)
      else None)"

text \<open>The variant used when no key can be there twice and no bucket is deleted.\<close>

fun find_free_loop :: "u64 list \<Rightarrow> (nat \<times> nat \<Rightarrow> nat \<times> nat) \<Rightarrow> nat \<Rightarrow> nat \<times> nat \<Rightarrow> int option" where
  "find_free_loop keys next_p 0 st = Some kCFNotFound"
| "find_free_loop keys next_p (Suc left) st =
     do { curr_key \<leftarrow> rd keys (fst st);
          if curr_key = 0 then Some (int (fst st)) else find_free_loop keys next_p left (next_p st) }"

definition CFBasicHashFindBucket_NoCollision :: "CFBasicHash \<Rightarrow> u64 \<Rightarrow> u64 \<Rightarrow> int option" where
  "CFBasicHashFindBucket_NoCollision ht stack_key key_hash =
     (if ht_num_buckets_idx ht = 0 then Some kCFNotFound
      else if ht_hash_style ht \<in> {1, 2, 3}
      then (let n = CFBasicHashGetNumBuckets ht;
                hash_code = (if key_hash \<noteq> 0 then key_hash else CFBasicHashHashKey ht stack_key);
                pr = CFBasicHashPrimitiveRoots ! ht_num_buckets_idx ht in
            find_free_loop (find_keys ht) (next_probe (ht_hash_style ht) n (unat hash_code) pr) n
              (unat hash_code mod n, pr))
      else None)"

definition CFBasicHashFindBucket :: "CFBasicHash \<Rightarrow> u64 \<Rightarrow> CFBasicHashBucket option" where
  "CFBasicHashFindBucket ht stack_key =
     (if is_magic stack_key
      then Some \<lparr>bk_idx = kCFNotFound, bk_key = Some 0, bk_value = Some 0, bk_count = 0\<rparr>
      else internal_FindBucket ht stack_key)"

definition CFBasicHashSuppressRC :: "CFBasicHash \<Rightarrow> CFBasicHash" where
  "CFBasicHashSuppressRC ht = ht\<lparr>ht_null_rc := True\<rparr>"

definition CFBasicHashUnsuppressRC :: "CFBasicHash \<Rightarrow> CFBasicHash" where
  "CFBasicHashUnsuppressRC ht = ht\<lparr>ht_null_rc := False\<rparr>"

definition CFBasicHashGetFlags :: "CFBasicHash \<Rightarrow> u64" where
  "CFBasicHashGetFlags ht =
     (let flag = (\<lambda>b n. if b then push_bit n (1 :: u64) else 0) in
      push_bit 13 (word_of_nat (ht_hash_style ht)) OR flag (CFBasicHashHasStrongValues ht) 8
        OR flag (CFBasicHashHasStrongKeys ht) 9 OR flag (ht_fast_grow ht) 15
        OR flag (ht_keys_offset ht \<noteq> 0) 0 OR flag (ht_counts_offset ht \<noteq> 0) 1
        OR flag (CFBasicHashHasHashCache ht) 2)"

section \<open>Counting and visiting\<close>

fun sum_slot_counts :: "CFBasicHash \<Rightarrow> nat list \<Rightarrow> nat option" where
  "sum_slot_counts ht [] = Some 0"
| "sum_slot_counts ht (idx # idxs) =
     do { cnt \<leftarrow> CFBasicHashGetSlotCount ht idx; total \<leftarrow> sum_slot_counts ht idxs; Some (cnt + total) }"

text \<open>The sum of the slot counts is a \<open>CFIndex\<close> in the code and a natural number here; it is the same
  below 2 to the 63.\<close>

definition CFBasicHashGetCount :: "CFBasicHash \<Rightarrow> nat option" where
  "CFBasicHashGetCount ht =
     (if ht_counts_offset ht \<noteq> 0 then sum_slot_counts ht [0..<CFBasicHashGetNumBuckets ht]
      else Some (ht_used_buckets ht))"

definition CFBasicHashGetCountOfKey :: "CFBasicHash \<Rightarrow> u64 \<Rightarrow> nat option" where
  "CFBasicHashGetCountOfKey ht stack_key =
     (if is_magic stack_key then Some 0
      else if ht_used_buckets ht = 0 then Some 0
      else do { bkt \<leftarrow> internal_FindBucket ht stack_key; Some (bk_count bkt) })"

text \<open>The block given to \<open>CFBasicHashApply\<close> passes on a state and says whether to go on.\<close>

fun apply_loop_buckets :: "CFBasicHash \<Rightarrow> ('s \<Rightarrow> CFBasicHashBucket \<Rightarrow> ('s \<times> bool) option) \<Rightarrow> nat list
    \<Rightarrow> nat \<Rightarrow> 's \<Rightarrow> 's option" where
  "apply_loop_buckets ht block [] used s = Some s"
| "apply_loop_buckets ht block (idx # idxs) used s =
     (if 0 < used
      then do { bkt \<leftarrow> CFBasicHashGetBucket ht idx;
                if 0 < bk_count bkt
                then do { (s, more) \<leftarrow> block s bkt;
                          if more then apply_loop_buckets ht block idxs (used - 1) s else Some s }
                else apply_loop_buckets ht block idxs used s }
      else Some s)"

definition CFBasicHashApply ::
  "CFBasicHash \<Rightarrow> ('s \<Rightarrow> CFBasicHashBucket \<Rightarrow> ('s \<times> bool) option) \<Rightarrow> 's \<Rightarrow> 's option" where
  "CFBasicHashApply ht block s =
     apply_loop_buckets ht block [0..<CFBasicHashGetNumBuckets ht] (ht_used_buckets ht) s"

fun apply_indexed_loop :: "CFBasicHash \<Rightarrow> ('s \<Rightarrow> CFBasicHashBucket \<Rightarrow> ('s \<times> bool) option) \<Rightarrow> nat list
    \<Rightarrow> 's \<Rightarrow> 's option" where
  "apply_indexed_loop ht block [] s = Some s"
| "apply_indexed_loop ht block (idx # idxs) s =
     do { bkt \<leftarrow> CFBasicHashGetBucket ht idx;
          if 0 < bk_count bkt
          then do { (s, more) \<leftarrow> block s bkt;
                    if more then apply_indexed_loop ht block idxs s else Some s }
          else apply_indexed_loop ht block idxs s }"

definition CFBasicHashApplyIndexed :: "CFBasicHash \<Rightarrow> nat \<Rightarrow> int
    \<Rightarrow> ('s \<Rightarrow> CFBasicHashBucket \<Rightarrow> ('s \<times> bool) option) \<Rightarrow> 's \<Rightarrow> 's option" where
  "CFBasicHashApplyIndexed ht location len block s =
     (if len < 0 then None
      else if len = 0 then Some s
      else if int (CFBasicHashGetNumBuckets ht) < int location + len then None
      else apply_indexed_loop ht block [location..<location + nat len] s)"

definition CFBasicHashGetCountOfValue :: "CFBasicHash \<Rightarrow> u64 \<Rightarrow> nat option" where
  "CFBasicHashGetCountOfValue ht stack_value =
     (if CFBasicHashSubABZero = stack_value then Some 0
      else if ht_used_buckets ht = 0 then Some 0
      else if ht_keys_offset ht = 0
      then do { bkt \<leftarrow> internal_FindBucket ht stack_value; Some (bk_count bkt) }
      else CFBasicHashApply ht
        (\<lambda>total bkt. do { v \<leftarrow> bk_value bkt;
           Some (if stack_value = v \<or> CFBasicHashTestEqualValue ht v stack_value
                 then total + bk_count bkt else total, True) }) 0)"

definition CFBasicHashesAreEqual :: "CFBasicHash \<Rightarrow> CFBasicHash \<Rightarrow> bool option" where
  "CFBasicHashesAreEqual ht1 ht2 =
     do { cnt1 \<leftarrow> CFBasicHashGetCount ht1;
          cnt2 \<leftarrow> CFBasicHashGetCount ht2;
          if cnt1 \<noteq> cnt2 then Some False
          else if 0 = cnt1 then Some True
          else CFBasicHashApply ht1
            (\<lambda>equal bkt1. do {
               k1 \<leftarrow> bk_key bkt1;
               bkt2 \<leftarrow> internal_FindBucket ht2 k1;
               if bk_count bkt1 \<noteq> bk_count bkt2 then Some (False, False)
               else if ht_keys_offset ht1 \<noteq> 0
               then do { v1 \<leftarrow> bk_value bkt1; v2 \<leftarrow> bk_value bkt2;
                         if v1 \<noteq> v2 \<and> \<not> CFBasicHashTestEqualValue ht1 v1 v2
                         then Some (False, False) else Some (equal, True) }
               else Some (equal, True) }) True }"

definition CFBasicHashEqual :: "CFBasicHash \<Rightarrow> CFBasicHash \<Rightarrow> bool option" where
  "CFBasicHashEqual ht1 ht2 = CFBasicHashesAreEqual ht1 ht2"

definition CFBasicHashHash :: "CFBasicHash \<Rightarrow> nat option" where
  "CFBasicHashHash ht = CFBasicHashGetCount ht"

text \<open>The elements are written to the buffers in order; the result is what the buffers receive,
  as pairs of a value and a key.\<close>

fun get_elements_loop :: "CFBasicHash \<Rightarrow> nat \<Rightarrow> nat list \<Rightarrow> nat \<Rightarrow> (u64 \<times> u64) list
    \<Rightarrow> (u64 \<times> u64) list option" where
  "get_elements_loop ht bufferslen [] used out = Some out"
| "get_elements_loop ht bufferslen (idx # idxs) used out =
     (if 0 < used \<and> length out < bufferslen
      then do { bkt \<leftarrow> CFBasicHashGetBucket ht idx;
                if 0 < bk_count bkt
                then do { v \<leftarrow> bk_value bkt; k \<leftarrow> bk_key bkt;
                          get_elements_loop ht bufferslen idxs (used - 1)
                            (out @ replicate (min (bk_count bkt) (bufferslen - length out)) (v, k)) }
                else get_elements_loop ht bufferslen idxs used out }
      else Some out)"

definition CFBasicHashGetElements :: "CFBasicHash \<Rightarrow> nat \<Rightarrow> (u64 \<times> u64) list option" where
  "CFBasicHashGetElements ht bufferslen =
     get_elements_loop ht bufferslen [0..<CFBasicHashGetNumBuckets ht] (ht_used_buckets ht) []"

text \<open>Fast enumeration: the state is the next index, and the result the new state and the keys.\<close>

fun fast_enumeration_loop :: "CFBasicHash \<Rightarrow> nat \<Rightarrow> nat list \<Rightarrow> nat \<Rightarrow> nat \<Rightarrow> u64 list
    \<Rightarrow> (nat \<times> u64 list) option" where
  "fast_enumeration_loop ht cnt [] used st items = Some (st, items)"
| "fast_enumeration_loop ht cnt (idx # idxs) used st items =
     (if 0 < used \<and> length items < cnt
      then do { bkt \<leftarrow> CFBasicHashGetBucket ht idx;
                if 0 < bk_count bkt
                then do { k \<leftarrow> bk_key bkt;
                          fast_enumeration_loop ht cnt idxs (used - 1) (st + 1) (items @ [k]) }
                else fast_enumeration_loop ht cnt idxs used (st + 1) items }
      else Some (st, items))"

definition CFBasicHashFastEnumeration :: "CFBasicHash \<Rightarrow> nat \<Rightarrow> nat \<Rightarrow> (nat \<times> u64 list) option" where
  "CFBasicHashFastEnumeration ht st cnt =
     fast_enumeration_loop ht cnt [st..<CFBasicHashGetNumBuckets ht] (ht_used_buckets ht) st []"

section \<open>Emptying, growing and shrinking\<close>

definition drain_bucket :: "u64 list \<Rightarrow> u64 list \<Rightarrow> CFBasicHash \<Rightarrow> nat \<Rightarrow> CFBasicHash option" where
  "drain_bucket old_values old_keys ht idx =
     do { v \<leftarrow> rd old_values idx;
          if v \<noteq> 0 \<and> v \<noteq> -1
          then do { let ht = CFBasicHashEjectValue ht (sub_out v);
                    if ht_keys_offset ht \<noteq> 0
                    then do { k \<leftarrow> rd old_keys idx; Some (CFBasicHashEjectKey ht (sub_out k)) }
                    else Some ht }
          else Some ht }"

fun drain_loop :: "u64 list \<Rightarrow> u64 list \<Rightarrow> CFBasicHash \<Rightarrow> nat list \<Rightarrow> CFBasicHash option" where
  "drain_loop old_values old_keys ht [] = Some ht"
| "drain_loop old_values old_keys ht (idx # idxs) =
     do { ht \<leftarrow> drain_bucket old_values old_keys ht idx; drain_loop old_values old_keys ht idxs }"

definition CFBasicHashDrain :: "CFBasicHash \<Rightarrow> CFBasicHash option" where
  "CFBasicHashDrain ht =
     drain_loop (ht_values ht) (ht_keys ht)
       (ht\<lparr>ht_values := [],
          ht_keys := (if ht_keys_offset ht \<noteq> 0 then [] else ht_keys ht),
          ht_counts := (if ht_counts_offset ht \<noteq> 0 then [] else ht_counts ht),
          ht_hashes := (if CFBasicHashHasHashCache ht then [] else ht_hashes ht),
          ht_mutations := ht_mutations ht + 1, ht_num_buckets_idx := 0,
          ht_used_buckets := 0, ht_deleted := 0\<rparr>)
       [0..<CFBasicHashGetNumBuckets ht]"

definition rehash_index :: "CFBasicHash \<Rightarrow> int \<Rightarrow> nat option" where
  "rehash_index ht newItemCount =
     (if newItemCount = 0 then Some (ht_num_buckets_idx ht)
      else do { let newItemCount = max newItemCount 0;
                idx \<leftarrow> CFBasicHashGetNumBucketsIndexForCapacity (ht_used_buckets ht + nat newItemCount);
                Some (if newItemCount = 1 \<and> ht_fast_grow ht then idx + 1 else idx) })"

text \<open>One bucket of the old stores, those of \<open>old\<close>, moves to the new ones.\<close>

definition rehash_bucket :: "CFBasicHash \<Rightarrow> CFBasicHash \<Rightarrow> nat \<Rightarrow> CFBasicHash option" where
  "rehash_bucket old ht idx =
     do { v \<leftarrow> rd (ht_values old) idx;
          if v \<noteq> 0 \<and> v \<noteq> -1
          then do {
            let stack_value = sub_out v;
            stack_key \<leftarrow> (if ht_keys_offset ht \<noteq> 0
              then do { k \<leftarrow> rd (ht_keys old) idx; Some (sub_out k) } else Some stack_value);
            let stack_key = (if ht_indirect_keys ht
              then CFBasicHashGetIndirectKey ht stack_value else stack_key);
            key_hash \<leftarrow> (if CFBasicHashHasHashCache ht then rd (ht_hashes old) idx else Some 0);
            bkt \<leftarrow> CFBasicHashFindBucket_NoCollision ht stack_key key_hash;
            bkt_idx \<leftarrow> store_index bkt;
            ht \<leftarrow> slot_set_value ht bkt_idx stack_value False False;
            ht \<leftarrow> (if ht_keys_offset ht \<noteq> 0 then slot_set_key ht bkt_idx stack_key False False
                   else Some ht);
            ht \<leftarrow> (if ht_counts_offset ht \<noteq> 0
              then do { c \<leftarrow> rd (ht_counts old) idx; counts \<leftarrow> wr (ht_counts ht) bkt_idx c;
                        Some (ht\<lparr>ht_counts := counts\<rparr>) } else Some ht);
            if CFBasicHashHasHashCache ht
            then do { hashes \<leftarrow> wr (ht_hashes ht) bkt_idx key_hash; Some (ht\<lparr>ht_hashes := hashes\<rparr>) }
            else Some ht }
          else Some ht }"

fun rehash_loop :: "CFBasicHash \<Rightarrow> CFBasicHash \<Rightarrow> nat list \<Rightarrow> CFBasicHash option" where
  "rehash_loop old ht [] = Some ht"
| "rehash_loop old ht (idx # idxs) = do { ht \<leftarrow> rehash_bucket old ht idx; rehash_loop old ht idxs }"

definition CFBasicHashRehash :: "CFBasicHash \<Rightarrow> int \<Rightarrow> CFBasicHash option" where
  "CFBasicHashRehash ht newItemCount =
     do { idx \<leftarrow> rehash_index ht newItemCount;
          let n = CFBasicHashTableSizes ! idx;
          rehash_loop ht
            (ht\<lparr>ht_num_buckets_idx := idx, ht_deleted := 0, ht_values := replicate n 0,
               ht_keys := (if ht_keys_offset ht \<noteq> 0 then replicate n 0 else ht_keys ht),
               ht_counts := (if ht_counts_offset ht \<noteq> 0 then replicate n 0 else ht_counts ht),
               ht_hashes := (if CFBasicHashHasHashCache ht then replicate n 0 else ht_hashes ht)\<rparr>)
            [0..<CFBasicHashGetNumBuckets ht] }"

definition CFBasicHashSetCapacity :: "CFBasicHash \<Rightarrow> int \<Rightarrow> CFBasicHash option" where
  "CFBasicHashSetCapacity ht capacity =
     (if \<not> ht_mutable ht then None
      else if int (ht_used_buckets ht) < capacity
      then CFBasicHashRehash (ht\<lparr>ht_mutations := ht_mutations ht + 1\<rparr>)
             (capacity - int (ht_used_buckets ht))
      else Some ht)"

section \<open>Adding, replacing and removing\<close>

text \<open>The part of \<open>__CFBasicHashAddValue\<close> that fills the bucket, once there is room.\<close>

definition fill_bucket :: "CFBasicHash \<Rightarrow> nat \<Rightarrow> u64 \<Rightarrow> u64 \<Rightarrow> CFBasicHash option" where
  "fill_bucket ht idx stack_key stack_value =
     do { let key_hash = (if CFBasicHashHasHashCache ht then CFBasicHashHashKey ht stack_key else 0);
          let (stack_value, calls) = CFBasicHashImportValue ht stack_value;
          let (stack_key, calls') = (if ht_keys_offset ht \<noteq> 0
            then CFBasicHashImportKey ht stack_key else (stack_key, []));
          let ht = ht\<lparr>ht_calls := ht_calls ht @ calls @ calls'\<rparr>;
          ht \<leftarrow> slot_set_value ht idx stack_value False False;
          ht \<leftarrow> (if ht_keys_offset ht \<noteq> 0 then slot_set_key ht idx stack_key False False else Some ht);
          ht \<leftarrow> (if ht_counts_offset ht \<noteq> 0 then CFBasicHashIncSlotCount ht idx else Some ht);
          ht \<leftarrow> (if CFBasicHashHasHashCache ht
            then do { hashes \<leftarrow> wr (ht_hashes ht) idx key_hash; Some (ht\<lparr>ht_hashes := hashes\<rparr>) }
            else Some ht);
          Some (ht\<lparr>ht_used_buckets := (ht_used_buckets ht + 1) mod 2 ^ 32\<rparr>) }"

definition internal_AddValue :: "CFBasicHash \<Rightarrow> int \<Rightarrow> u64 \<Rightarrow> u64 \<Rightarrow> CFBasicHash option" where
  "internal_AddValue ht bkt_idx stack_key stack_value =
     do { let ht = ht\<lparr>ht_mutations := ht_mutations ht + 1\<rparr>;
          (ht, bkt_idx) \<leftarrow>
            (if CFBasicHashGetCapacity ht < ht_used_buckets ht + 1
             then do { ht \<leftarrow> CFBasicHashRehash ht 1;
                       bkt_idx \<leftarrow> CFBasicHashFindBucket_NoCollision ht stack_key 0;
                       Some (ht, bkt_idx) }
             else do { i \<leftarrow> store_index bkt_idx;
                       del \<leftarrow> CFBasicHashIsDeleted ht i;
                       Some (if del then ht\<lparr>ht_deleted := ht_deleted ht - 1\<rparr> else ht, bkt_idx) });
          idx \<leftarrow> store_index bkt_idx;
          fill_bucket ht idx stack_key stack_value }"

definition internal_ReplaceValue :: "CFBasicHash \<Rightarrow> int \<Rightarrow> u64 \<Rightarrow> u64 \<Rightarrow> CFBasicHash option" where
  "internal_ReplaceValue ht bkt_idx stack_key stack_value =
     do { idx \<leftarrow> store_index bkt_idx;
          let ht = ht\<lparr>ht_mutations := ht_mutations ht + 1\<rparr>;
          let (stack_value, calls) = CFBasicHashImportValue ht stack_value;
          let (stack_key, calls') = (if ht_keys_offset ht \<noteq> 0
            then CFBasicHashImportKey ht stack_key else (stack_key, []));
          let ht = ht\<lparr>ht_calls := ht_calls ht @ calls @ calls'\<rparr>;
          ht \<leftarrow> slot_set_value ht idx stack_value False False;
          if ht_keys_offset ht \<noteq> 0 then slot_set_key ht idx stack_key False False else Some ht }"

definition do_shrink :: "CFBasicHash \<Rightarrow> bool" where
  "do_shrink ht =
     (let by = (if ht_fast_grow ht then 5 else 2) in
      by < ht_num_buckets_idx ht
        \<and> ht_used_buckets ht < CFBasicHashGetCapacityForNumBuckets (ht_num_buckets_idx ht - by))"

definition internal_RemoveValue :: "CFBasicHash \<Rightarrow> int \<Rightarrow> CFBasicHash option" where
  "internal_RemoveValue ht bkt_idx =
     do { idx \<leftarrow> store_index bkt_idx;
          let ht = ht\<lparr>ht_mutations := ht_mutations ht + 1\<rparr>;
          ht \<leftarrow> slot_set_value ht idx (-1) False True;
          ht \<leftarrow> (if ht_keys_offset ht \<noteq> 0 then slot_set_key ht idx (-1) False True else Some ht);
          ht \<leftarrow> (if ht_counts_offset ht \<noteq> 0 then CFBasicHashDecSlotCount ht idx else Some ht);
          ht \<leftarrow> (if CFBasicHashHasHashCache ht
            then do { hashes \<leftarrow> wr (ht_hashes ht) idx 0; Some (ht\<lparr>ht_hashes := hashes\<rparr>) }
            else Some ht);
          let ht = ht\<lparr>ht_used_buckets := (ht_used_buckets ht + (2 ^ 32 - 1)) mod 2 ^ 32,
                     ht_deleted := ht_deleted ht + 1\<rparr>;
          if do_shrink ht then CFBasicHashRehash ht (-1)
          else if 0 = ht_deleted ht
            \<or> (20 \<le> CFBasicHashGetNumBuckets ht
                \<and> CFBasicHashGetNumBuckets ht div 4 \<le> unat (ht_deleted ht))
          then CFBasicHashRehash ht 0
          else Some ht }"

definition LONG_MAX :: nat where "LONG_MAX = 2 ^ 63 - 1"

definition CFBasicHashAddValue :: "CFBasicHash \<Rightarrow> u64 \<Rightarrow> u64 \<Rightarrow> (CFBasicHash \<times> bool) option" where
  "CFBasicHashAddValue ht stack_key stack_value =
     (if \<not> ht_mutable ht \<or> is_magic stack_key \<or> is_magic stack_value then None
      else do { bkt \<leftarrow> internal_FindBucket ht stack_key;
                if 0 < bk_count bkt
                then do { let ht = ht\<lparr>ht_mutations := ht_mutations ht + 1\<rparr>;
                          if ht_counts_offset ht \<noteq> 0 \<and> bk_count bkt < LONG_MAX
                          then do { idx \<leftarrow> store_index (bk_idx bkt);
                                    ht \<leftarrow> CFBasicHashIncSlotCount ht idx; Some (ht, True) }
                          else Some (ht, False) }
                else do { ht \<leftarrow> internal_AddValue ht (bk_idx bkt) stack_key stack_value;
                          Some (ht, True) } })"

definition CFBasicHashReplaceValue :: "CFBasicHash \<Rightarrow> u64 \<Rightarrow> u64 \<Rightarrow> CFBasicHash option" where
  "CFBasicHashReplaceValue ht stack_key stack_value =
     (if \<not> ht_mutable ht \<or> is_magic stack_key \<or> is_magic stack_value then None
      else do { bkt \<leftarrow> internal_FindBucket ht stack_key;
                if 0 < bk_count bkt
                then internal_ReplaceValue ht (bk_idx bkt) stack_key stack_value
                else Some ht })"

definition CFBasicHashSetValue :: "CFBasicHash \<Rightarrow> u64 \<Rightarrow> u64 \<Rightarrow> CFBasicHash option" where
  "CFBasicHashSetValue ht stack_key stack_value =
     (if \<not> ht_mutable ht \<or> is_magic stack_key \<or> is_magic stack_value then None
      else do { bkt \<leftarrow> internal_FindBucket ht stack_key;
                if 0 < bk_count bkt
                then internal_ReplaceValue ht (bk_idx bkt) stack_key stack_value
                else internal_AddValue ht (bk_idx bkt) stack_key stack_value })"

text \<open>The tail that the two removing functions share.\<close>

definition remove_bucket :: "CFBasicHash \<Rightarrow> CFBasicHashBucket \<Rightarrow> (CFBasicHash \<times> nat) option" where
  "remove_bucket ht bkt =
     do { ht \<leftarrow>
            (if 1 < bk_count bkt
             then do { let ht = ht\<lparr>ht_mutations := ht_mutations ht + 1\<rparr>;
                       if ht_counts_offset ht \<noteq> 0 \<and> bk_count bkt < LONG_MAX
                       then do { idx \<leftarrow> store_index (bk_idx bkt); CFBasicHashDecSlotCount ht idx }
                       else Some ht }
             else if 0 < bk_count bkt then internal_RemoveValue ht (bk_idx bkt) else Some ht);
          Some (ht, bk_count bkt) }"

definition CFBasicHashRemoveValue :: "CFBasicHash \<Rightarrow> u64 \<Rightarrow> (CFBasicHash \<times> nat) option" where
  "CFBasicHashRemoveValue ht stack_key =
     (if \<not> ht_mutable ht then None
      else if is_magic stack_key then Some (ht, 0)
      else do { bkt \<leftarrow> internal_FindBucket ht stack_key; remove_bucket ht bkt })"

definition CFBasicHashRemoveValueAtIndex :: "CFBasicHash \<Rightarrow> nat \<Rightarrow> (CFBasicHash \<times> nat) option" where
  "CFBasicHashRemoveValueAtIndex ht idx =
     (if \<not> ht_mutable ht then None
      else do { bkt \<leftarrow> CFBasicHashGetBucket ht idx; remove_bucket ht bkt })"

definition CFBasicHashRemoveAllValues :: "CFBasicHash \<Rightarrow> CFBasicHash option" where
  "CFBasicHashRemoveAllValues ht =
     (if \<not> ht_mutable ht then None
      else if 0 = ht_num_buckets_idx ht then Some ht
      else CFBasicHashDrain ht)"

text \<open>Integer values renumbered around an insertion or a removal.\<close>

fun renumber_up :: "u64 \<Rightarrow> CFBasicHash \<Rightarrow> nat list \<Rightarrow> CFBasicHash option" where
  "renumber_up int_value ht [] = Some ht"
| "renumber_up int_value ht (idx # idxs) =
     do { free \<leftarrow> CFBasicHashIsEmptyOrDeleted ht idx;
          ht \<leftarrow> (if free then Some ht
            else do { v \<leftarrow> CFBasicHashGetValue ht idx;
                      if int_value \<le> v
                      then do { ht \<leftarrow> slot_set_value ht idx (v + 1) True False;
                                Some (ht\<lparr>ht_mutations := ht_mutations ht + 1\<rparr>) }
                      else Some ht });
          renumber_up int_value ht idxs }"

definition CFBasicHashAddIntValueAndInc :: "CFBasicHash \<Rightarrow> u64 \<Rightarrow> u64 \<Rightarrow> (CFBasicHash \<times> bool) option" where
  "CFBasicHashAddIntValueAndInc ht stack_key int_value =
     (if \<not> ht_mutable ht \<or> is_magic stack_key \<or> is_magic int_value then None
      else do { bkt \<leftarrow> internal_FindBucket ht stack_key;
                if 0 < bk_count bkt
                then Some (ht\<lparr>ht_mutations := ht_mutations ht + 1\<rparr>, False)
                else do {
                  (ht, idx) \<leftarrow>
                    (if CFBasicHashGetCapacity ht < ht_used_buckets ht + 1
                     then do { ht \<leftarrow> CFBasicHashRehash ht 1;
                               idx \<leftarrow> CFBasicHashFindBucket_NoCollision ht stack_key 0;
                               Some (ht, idx) }
                     else Some (ht, bk_idx bkt));
                  ht \<leftarrow> renumber_up int_value ht [0..<CFBasicHashGetNumBuckets ht];
                  ht \<leftarrow> internal_AddValue ht idx stack_key int_value;
                  Some (ht, True) } })"

fun renumber_down :: "u64 \<Rightarrow> CFBasicHash \<Rightarrow> nat list \<Rightarrow> u64 \<Rightarrow> (CFBasicHash \<times> u64) option" where
  "renumber_down int_value ht [] bkt = Some (ht, bkt)"
| "renumber_down int_value ht (idx # idxs) bkt =
     do { free \<leftarrow> CFBasicHashIsEmptyOrDeleted ht idx;
          if free then renumber_down int_value ht idxs bkt
          else do { v \<leftarrow> CFBasicHashGetValue ht idx;
                    let bkt = (if int_value = v then word_of_nat idx else bkt);
                    ht \<leftarrow> (if int_value < v
                      then do { ht \<leftarrow> slot_set_value ht idx (v - 1) True False;
                                Some (ht\<lparr>ht_mutations := ht_mutations ht + 1\<rparr>) }
                      else Some ht);
                    renumber_down int_value ht idxs bkt } }"

definition CFBasicHashRemoveIntValueAndDec :: "CFBasicHash \<Rightarrow> u64 \<Rightarrow> CFBasicHash option" where
  "CFBasicHashRemoveIntValueAndDec ht int_value =
     (if \<not> ht_mutable ht \<or> is_magic int_value then None
      else do { (ht, bkt_idx) \<leftarrow> renumber_down int_value ht [0..<CFBasicHashGetNumBuckets ht] (-1);
                internal_RemoveValue ht (sint bkt_idx) })"

section \<open>Creation, copies and the end\<close>

definition CFBasicHashDeallocate :: "CFBasicHash \<Rightarrow> CFBasicHash option" where
  "CFBasicHashDeallocate ht =
     (if ht_finalized ht then None else CFBasicHashDrain (ht\<lparr>ht_finalized := True\<rparr>))"

definition CFBasicHashCreate :: "u64 \<Rightarrow> CFBasicHashCallbacks \<Rightarrow> CFBasicHash option" where
  "CFBasicHashCreate flags cb =
     (let flag = (\<lambda>n. bit flags n) in
      if flag 8 \<and> flag 10 \<or> flag 8 \<and> flag 6 \<or> flag 9 \<and> flag 11 \<or> flag 9 \<and> flag 7
        \<or> flag 10 \<and> flag 6 \<or> flag 11 \<and> flag 7
        \<or> flag 12 \<and> flag 9 \<or> flag 12 \<and> flag 11 \<or> flag 12 \<and> flag 7
      then None
      else
       (let keys_offset = (if flag 0 then 1 else 0);
            offset = (if flag 0 then 2 else 1);
            counts_offset = (if flag 1 then offset else 0);
            offset = (if flag 1 then offset + 1 else offset);
            hashes_offset = (if flag 2 then offset else 0) in
        Some \<lparr>ht_mutable = True, ht_kvo = False, ht_mutations = 1,
          ht_hash_style = unat (drop_bit 13 flags AND 3),
          ht_keys_offset = keys_offset, ht_counts_offset = counts_offset, ht_counts_width = 0,
          ht_hashes_offset = hashes_offset,
          ht_strong_values = flag 8, ht_strong_keys = flag 9, ht_weak_values = flag 10,
          ht_weak_keys = flag 11, ht_int_values = flag 6, ht_int_keys = flag 7,
          ht_indirect_keys = flag 12, ht_used_buckets = 0, ht_deleted = 0,
          ht_num_buckets_idx = 0, ht_null_rc = False, ht_fast_grow = flag 15,
          ht_finalized = False, ht_callbacks = cb,
          ht_values = [], ht_keys = [], ht_counts = [], ht_hashes = [], ht_calls = []\<rparr>))"

definition copy_bucket :: "CFBasicHash \<Rightarrow> CFBasicHash \<Rightarrow> nat \<Rightarrow> CFBasicHash option" where
  "copy_bucket src_ht ht idx =
     do { v \<leftarrow> rd (ht_values src_ht) idx;
          if v \<noteq> 0 \<and> v \<noteq> -1
          then do { let (value, calls) = CFBasicHashImportValue ht (sub_out v);
                    ht \<leftarrow> slot_set_value (ht\<lparr>ht_calls := ht_calls ht @ calls\<rparr>) idx value True False;
                    if ht_keys_offset ht \<noteq> 0
                    then do { k \<leftarrow> rd (ht_keys src_ht) idx;
                              let (key, calls) = CFBasicHashImportKey ht (sub_out k);
                              slot_set_key (ht\<lparr>ht_calls := ht_calls ht @ calls\<rparr>) idx key True False }
                    else Some ht }
          else do { ht \<leftarrow> slot_set_value ht idx v True True;
                    if ht_keys_offset ht \<noteq> 0 then slot_set_key ht idx v True True else Some ht } }"

fun copy_buckets :: "CFBasicHash \<Rightarrow> CFBasicHash \<Rightarrow> nat list \<Rightarrow> CFBasicHash option" where
  "copy_buckets src_ht ht [] = Some ht"
| "copy_buckets src_ht ht (idx # idxs) =
     do { ht \<leftarrow> copy_bucket src_ht ht idx; copy_buckets src_ht ht idxs }"

text \<open>The new stores are not cleared; \<open>fresh\<close> is what they hold.\<close>

definition CFBasicHashCreateCopy :: "(nat \<Rightarrow> u64) \<Rightarrow> CFBasicHash \<Rightarrow> CFBasicHash option" where
  "CFBasicHashCreateCopy fresh src_ht =
     (let n = CFBasicHashGetNumBuckets src_ht;
          ht = src_ht\<lparr>ht_mutable := True, ht_kvo := False, ht_finalized := False, ht_mutations := 1,
                      ht_values := [], ht_keys := [], ht_counts := [], ht_hashes := [],
                      ht_calls := []\<rparr> in
      if n = 0 then Some ht
      else do { ht \<leftarrow> copy_buckets src_ht
                  (ht\<lparr>ht_values := map fresh [0..<n],
                     ht_keys := (if ht_keys_offset ht \<noteq> 0 then map fresh [0..<n] else [])\<rparr>) [0..<n];
                counts \<leftarrow> (if ht_counts_offset ht \<noteq> 0 then rd_block (ht_counts src_ht) 0 n else Some []);
                hashes \<leftarrow> (if CFBasicHashHasHashCache ht then rd_block (ht_hashes src_ht) 0 n else Some []);
                Some (ht\<lparr>ht_counts := counts, ht_hashes := hashes\<rparr>) })"

end
