(* ===== verification/BasicHashSlots.thy ===== *)
theory BasicHashSlots
  imports BasicHash
begin

text \<open>
  Open addressing without the stores of \<open>CFBasicHash.c\<close>: a table is a list of slots, each empty,
  deleted or holding a key, a value and a count.  The theory says when every key of such a table can
  be found along its probe sequence, and what filling, deleting and updating a slot does to the
  entries.  Key equality \<open>eq\<close> and the probe sequence \<open>pr\<close> of a key are parameters.
\<close>

datatype slot = Empty | Deleted | Live u64 u64 nat

type_synonym entry = "u64 \<times> u64 \<times> nat"

fun slot_entries :: "slot \<Rightarrow> entry multiset" where
  "slot_entries (Live k v c) = {#(k, v, c)#}"
| "slot_entries _ = {#}"

definition entries :: "slot list \<Rightarrow> entry multiset" where
  "entries ss = sum_list (map slot_entries ss)"

fun slot_matches :: "(u64 \<Rightarrow> u64 \<Rightarrow> bool) \<Rightarrow> u64 \<Rightarrow> slot \<Rightarrow> bool" where
  "slot_matches eq k (Live k' v c) = eq k' k"
| "slot_matches eq k _ = False"

definition reachable :: "(u64 \<Rightarrow> nat \<Rightarrow> nat) \<Rightarrow> slot list \<Rightarrow> bool" where
  "reachable pr ss \<longleftrightarrow> (\<forall>i<length ss. \<forall>k v c. ss ! i = Live k v c \<longrightarrow>
     (\<exists>d<length ss. pr k d = i \<and> (\<forall>e<d. ss ! pr k e \<noteq> Empty)))"

definition distinct_keys :: "(u64 \<Rightarrow> u64 \<Rightarrow> bool) \<Rightarrow> slot list \<Rightarrow> bool" where
  "distinct_keys eq ss \<longleftrightarrow> (\<forall>i<length ss. \<forall>j<length ss. \<forall>k v c. i \<noteq> j \<longrightarrow> ss ! i = Live k v c \<longrightarrow>
     \<not> slot_matches eq k (ss ! j))"

definition table_ok :: "(u64 \<Rightarrow> u64 \<Rightarrow> bool) \<Rightarrow> (u64 \<Rightarrow> nat \<Rightarrow> nat) \<Rightarrow> slot list \<Rightarrow> bool" where
  "table_ok eq pr ss \<longleftrightarrow> reachable pr ss \<and> distinct_keys eq ss"

lemma reachableD: "reachable pr ss \<Longrightarrow> i < length ss \<Longrightarrow> ss ! i = Live k v c \<Longrightarrow>
    \<exists>d<length ss. pr k d = i \<and> (\<forall>e<d. ss ! pr k e \<noteq> Empty)"
  by (simp add: reachable_def)

lemma distinct_keysD: "distinct_keys eq ss \<Longrightarrow> i < length ss \<Longrightarrow> j < length ss \<Longrightarrow> i \<noteq> j \<Longrightarrow>
    ss ! i = Live k v c \<Longrightarrow> \<not> slot_matches eq k (ss ! j)"
  by (simp add: distinct_keys_def)

lemma entries_simps [simp]: "entries [] = {#}" "entries (s # ss) = slot_entries s + entries ss"
  "entries (ss @ ss') = entries ss + entries ss'"
  by (simp_all add: entries_def)

lemma entries_Empty [simp]: "entries (replicate n Empty) = {#}"
  by (induction n) auto

lemma entries_update: "i < length ss \<Longrightarrow>
    entries (ss[i := s]) + slot_entries (ss ! i) = entries ss + slot_entries s"
proof (induction ss arbitrary: i)
  case (Cons x xs)
  show ?case
  proof (cases i)
    case (Suc j)
    with Cons.IH [of j] Cons.prems show ?thesis by (simp add: add.assoc)
  qed (simp add: ac_simps)
qed simp

lemma entries_fill: "i < length ss \<Longrightarrow> slot_entries (ss ! i) = {#} \<Longrightarrow>
    entries (ss[i := Live k v c]) = add_mset (k, v, c) (entries ss)"
  using entries_update [of i ss "Live k v c"] by simp

lemma entries_clear: "i < length ss \<Longrightarrow> ss ! i = Live k v c \<Longrightarrow> slot_entries s = {#} \<Longrightarrow>
    add_mset (k, v, c) (entries (ss[i := s])) = entries ss"
  using entries_update [of i ss s] by simp

lemma entries_replace: "i < length ss \<Longrightarrow> ss ! i = Live k v c \<Longrightarrow>
    add_mset (k, v, c) (entries (ss[i := Live k' v' c'])) = add_mset (k', v', c') (entries ss)"
  using entries_update [of i ss "Live k' v' c'"] by simp

lemma in_entries: "(k, v, c) \<in># entries ss \<longleftrightarrow> (\<exists>i<length ss. ss ! i = Live k v c)"
proof (induction ss)
  case (Cons s ss)
  have "(k, v, c) \<in># slot_entries s \<longleftrightarrow> s = Live k v c" by (cases s) auto
  with Cons show ?case by (auto simp: less_Suc_eq_0_disj)
qed simp

lemma size_entries: "size (entries ss) = length (filter (\<lambda>s. s \<noteq> Empty \<and> s \<noteq> Deleted) ss)"
proof (induction ss)
  case (Cons s ss)
  then show ?case by (cases s) auto
qed simp

lemma size_entries_le: "size (entries ss) \<le> length ss"
  by (simp add: size_entries)

lemma slot_entries_free [simp]: "slot_entries s = {#} \<longleftrightarrow> s = Empty \<or> s = Deleted"
  by (cases s) auto

lemma full_table: "(\<forall>s\<in>set ss. s \<noteq> Empty \<and> s \<noteq> Deleted) \<Longrightarrow> size (entries ss) = length ss"
  by (simp add: size_entries)

lemma free_slot: "size (entries ss) < length ss \<Longrightarrow> \<exists>i<length ss. ss ! i = Empty \<or> ss ! i = Deleted"
  using full_table [of ss] by (metis in_set_conv_nth nat_neq_iff)

section \<open>Finding a key\<close>

text \<open>What a search along \<open>pr k\<close> meets before its probe \<open>d\<close>: no empty slot and not the key.\<close>

definition passed :: "(u64 \<Rightarrow> u64 \<Rightarrow> bool) \<Rightarrow> (nat \<Rightarrow> nat) \<Rightarrow> slot list \<Rightarrow> u64 \<Rightarrow> nat \<Rightarrow> bool" where
  "passed eq p ss k d \<longleftrightarrow> (\<forall>e<d. ss ! p e \<noteq> Empty \<and> \<not> slot_matches eq k (ss ! p e))"

lemma passed_Suc [simp]: "passed eq p ss k (Suc d) \<longleftrightarrow>
    passed eq p ss k d \<and> ss ! p d \<noteq> Empty \<and> \<not> slot_matches eq k (ss ! p d)"
  by (auto simp: passed_def less_Suc_eq)

lemma passed_0 [simp]: "passed eq p ss k 0"
  by (simp add: passed_def)

lemma search_absent:
  assumes ok: "table_ok eq pr ss" and passed: "passed eq (pr k) ss k d"
    and stop: "d = length ss \<or> ss ! pr k d = Empty"
    and same: "\<And>k'. eq k' k \<Longrightarrow> pr k' = pr k" and s: "s \<in> set ss"
  shows "\<not> slot_matches eq k s"
proof
  assume m: "slot_matches eq k s"
  then obtain k' v c where live: "s = Live k' v c" and eq: "eq k' k" by (cases s) auto
  from s live obtain i where i: "i < length ss" "ss ! i = Live k' v c" by (auto simp: in_set_conv_nth)
  obtain d' where d': "d' < length ss" "pr k' d' = i" "\<forall>e<d'. ss ! pr k' e \<noteq> Empty"
    using reachableD [OF _ i] ok by (auto simp: table_ok_def)
  have p: "pr k' = pr k" by (rule same [OF eq])
  have "\<not> d' < d"
  proof
    assume "d' < d"
    with passed have "\<not> slot_matches eq k (ss ! pr k d')" by (simp add: passed_def)
    with d'(2) i(2) eq p show False by simp
  qed
  moreover have "\<not> d < d'"
  proof
    assume d: "d < d'"
    with stop d'(1) have "ss ! pr k d = Empty" by simp
    with d d'(3) p show False by simp
  qed
  ultimately have "d' = d" by simp
  then have "d \<noteq> length ss" using d'(1) by simp
  with stop have "ss ! pr k d = Empty" by simp
  with \<open>d' = d\<close> d'(2) i(2) p show False by simp
qed

lemma unique_match:
  assumes "table_ok eq pr ss" "i < length ss" "j < length ss"
    "slot_matches eq k (ss ! i)" "slot_matches eq k (ss ! j)"
    and sym: "\<And>a b. eq a b \<Longrightarrow> eq b a" and trans: "\<And>a b c. eq a b \<Longrightarrow> eq b c \<Longrightarrow> eq a c"
  shows "i = j"
proof (rule ccontr)
  assume "i \<noteq> j"
  obtain k1 v1 c1 where 1: "ss ! i = Live k1 v1 c1" "eq k1 k" using assms(4) by (cases "ss ! i") auto
  obtain k2 v2 c2 where 2: "ss ! j = Live k2 v2 c2" "eq k2 k" using assms(5) by (cases "ss ! j") auto
  have "eq k2 k1" by (rule trans [OF 2(2) sym [OF 1(2)]])
  with 2 have "slot_matches eq k1 (ss ! j)" by simp
  moreover have "distinct_keys eq ss" using assms(1) by (simp add: table_ok_def)
  ultimately show False using distinct_keysD assms(2,3) \<open>i \<noteq> j\<close> 1 by blast
qed

section \<open>Changing a slot\<close>

lemma reachable_update:
  assumes "reachable pr ss" "i < length ss" "s \<noteq> Empty"
    and "\<And>k v c. s = Live k v c \<Longrightarrow> \<exists>d<length ss. pr k d = i \<and> (\<forall>e<d. ss ! pr k e \<noteq> Empty)"
  shows "reachable pr (ss[i := s])"
  unfolding reachable_def
proof (intro allI impI)
  fix j k v c assume j: "j < length (ss[i := s])" and live: "ss[i := s] ! j = Live k v c"
  have "\<exists>d<length ss. pr k d = j \<and> (\<forall>e<d. ss ! pr k e \<noteq> Empty)"
  proof (cases "j = i")
    case True
    with live j assms(4) show ?thesis by simp
  next
    case False
    with live j assms(1) show ?thesis by (auto simp: reachable_def)
  qed
  then obtain d where d: "d < length ss" "pr k d = j" "\<forall>e<d. ss ! pr k e \<noteq> Empty" by blast
  have "ss[i := s] ! x \<noteq> Empty" if "ss ! x \<noteq> Empty" for x
    using that assms(2,3) by (cases "x = i") auto
  with d show "\<exists>d<length (ss[i := s]). pr k d = j \<and> (\<forall>e<d. ss[i := s] ! pr k e \<noteq> Empty)"
    by (intro exI [of _ d]) simp
qed

lemma table_ok_fill:
  assumes ok: "table_ok eq pr ss" and d: "d < length ss" "pr k d < length ss"
    and path: "\<forall>e<d. ss ! pr k e \<noteq> Empty"
    and absent: "\<forall>s\<in>set ss. \<not> slot_matches eq k s" and sym: "\<And>a b. eq a b \<Longrightarrow> eq b a"
  shows "table_ok eq pr (ss[pr k d := Live k v c])"
proof -
  have "reachable pr (ss[pr k d := Live k v c])"
    by (rule reachable_update) (use ok d path in \<open>auto simp: table_ok_def\<close>)
  moreover have "distinct_keys eq (ss[pr k d := Live k v c])"
    unfolding distinct_keys_def
  proof (intro allI impI)
    fix i j k1 v1 c1
    assume i: "i < length (ss[pr k d := Live k v c])" and j: "j < length (ss[pr k d := Live k v c])"
      and ne: "i \<noteq> j" and live: "ss[pr k d := Live k v c] ! i = Live k1 v1 c1"
    consider "i = pr k d" | "j = pr k d" | "i \<noteq> pr k d" "j \<noteq> pr k d" by blast
    then show "\<not> slot_matches eq k1 (ss[pr k d := Live k v c] ! j)"
    proof cases
      case 1
      with live i j ne absent show ?thesis by simp
    next
      case 2
      with live i j ne have l: "ss ! i = Live k1 v1 c1" by simp
      from absent i have "\<not> slot_matches eq k (ss ! i)" by simp
      with l have "\<not> eq k1 k" by simp
      with sym have "\<not> eq k k1" by blast
      with 2 i j show ?thesis by simp
    next
      case 3
      with live i j ne ok show ?thesis by (simp add: table_ok_def distinct_keys_def)
    qed
  qed
  ultimately show ?thesis by (simp add: table_ok_def)
qed

lemma table_ok_delete:
  assumes ok: "table_ok eq pr ss" and i: "i < length ss"
  shows "table_ok eq pr (ss[i := Deleted])"
proof -
  have "reachable pr (ss[i := Deleted])"
    by (rule reachable_update) (use ok i in \<open>auto simp: table_ok_def\<close>)
  moreover have "distinct_keys eq (ss[i := Deleted])"
    unfolding distinct_keys_def
  proof (intro allI impI)
    fix a b k v c
    assume a: "a < length (ss[i := Deleted])" and b: "b < length (ss[i := Deleted])"
      and ne: "a \<noteq> b" and l: "ss[i := Deleted] ! a = Live k v c"
    from a l have "ss ! a = Live k v c" by (cases "a = i") auto
    then have "\<not> slot_matches eq k (ss ! b)"
      using distinct_keysD [of eq ss a b k v c] ok a b ne by (simp add: table_ok_def)
    then show "\<not> slot_matches eq k (ss[i := Deleted] ! b)" using b by (cases "b = i") auto
  qed
  ultimately show ?thesis by (simp add: table_ok_def)
qed

lemma table_ok_rename:
  assumes ok: "table_ok eq pr ss" and i: "i < length ss" and live: "ss ! i = Live k v c"
    and same: "pr k' = pr k" and eq: "\<And>x. eq x k' = eq x k" "\<And>x. eq k' x = eq k x"
  shows "table_ok eq pr (ss[i := Live k' v' c'])"
proof -
  have "\<exists>d<length ss. pr k d = i \<and> (\<forall>e<d. ss ! pr k e \<noteq> Empty)"
    using ok i live by (auto simp: table_ok_def reachable_def)
  then have "reachable pr (ss[i := Live k' v' c'])"
    by (intro reachable_update) (use ok i same in \<open>auto simp: table_ok_def\<close>)
  moreover have "distinct_keys eq (ss[i := Live k' v' c'])"
    unfolding distinct_keys_def
  proof (intro allI impI)
    fix a b k1 v1 c1
    assume a: "a < length (ss[i := Live k' v' c'])" and b: "b < length (ss[i := Live k' v' c'])"
      and ne: "a \<noteq> b" and l: "ss[i := Live k' v' c'] ! a = Live k1 v1 c1"
    have "distinct_keys eq ss" using ok by (simp add: table_ok_def)
    note dk = distinct_keysD [OF this]
    have m: "slot_matches eq k' s = slot_matches eq k s" for s by (cases s) (auto simp: eq)
    consider "a = i" | "b = i" | "a \<noteq> i" "b \<noteq> i" by blast
    then show "\<not> slot_matches eq k1 (ss[i := Live k' v' c'] ! b)"
    proof cases
      case 1
      with l a b ne dk [of i b k v c] live m show ?thesis by simp
    next
      case 2
      with l a b ne dk [of a i k1 v1 c1] live eq show ?thesis by simp
    next
      case 3
      with l a b ne dk show ?thesis by simp
    qed
  qed
  ultimately show ?thesis by (simp add: table_ok_def)
qed

lemma table_ok_Empty [simp]: "table_ok eq pr (replicate n Empty)"
  by (simp add: table_ok_def reachable_def distinct_keys_def)

section \<open>Linear probing\<close>

definition linear :: "nat \<Rightarrow> nat \<Rightarrow> nat \<Rightarrow> nat" where
  "linear n h j = (h + j) mod n"

lemma linear_less [simp]: "0 < n \<Longrightarrow> linear n h j < n"
  by (simp add: linear_def)

lemma linear_Suc: "0 < n \<Longrightarrow> linear n h (Suc j) =
    (let p = linear n h j + 1 in if n \<le> p then p - n else p)"
proof -
  assume "0 < n"
  then have "(h + j) mod n < n" by simp
  then show ?thesis by (simp add: linear_def Let_def mod_Suc)
qed

lemma linear_covers: assumes "i < n" shows "\<exists>j<n. linear n h j = i"
proof (intro exI conjI)
  let ?j = "(i + n - h mod n) mod n"
  show "?j < n" using assms by simp
  have "linear n h ?j = (h + (i + n - h mod n)) mod n" by (simp add: linear_def mod_add_right_eq)
  also have "\<dots> = (h mod n + (i + n - h mod n)) mod n" by (simp add: mod_add_left_eq)
  also have "h mod n + (i + n - h mod n) = i + n"
  proof -
    have "h mod n < n" using assms by (simp add: mod_less_divisor)
    then show ?thesis by simp
  qed
  finally show "linear n h ?j = i" using assms by simp
qed

text \<open>The first empty slot along a linear sequence is found in one round.\<close>

lemma first_empty:
  assumes "i < length ss" "ss ! i = Empty"
  obtains d where "d < length ss" "ss ! linear (length ss) h d = Empty"
    "\<forall>e<d. ss ! linear (length ss) h e \<noteq> Empty"
proof -
  obtain j where j: "j < length ss" "linear (length ss) h j = i" using linear_covers assms(1) by blast
  let ?P = "\<lambda>d. ss ! linear (length ss) h d = Empty"
  have P: "?P j" using j assms(2) by simp
  then have "?P (LEAST d. ?P d)" by (rule LeastI)
  moreover have "(LEAST d. ?P d) \<le> j" by (rule Least_le) (rule P)
  moreover have "\<forall>e<(LEAST d. ?P d). \<not> ?P e" using not_less_Least by blast
  moreover have "(LEAST d. ?P d) < length ss" using calculation(2) j(1) by simp
  ultimately show ?thesis by (intro that) blast+
qed

text \<open>A round that meets neither an empty nor a deleted slot has met them all.\<close>

lemma full_round:
  assumes "0 < length ss" "\<forall>e<length ss. ss ! linear (length ss) h e \<noteq> Empty \<and> ss ! linear (length ss) h e \<noteq> Deleted"
  shows "size (entries ss) = length ss"
proof (rule full_table, rule ballI)
  fix s assume "s \<in> set ss"
  then obtain i where "i < length ss" "s = ss ! i" by (auto simp: in_set_conv_nth)
  with linear_covers [of i "length ss" h] assms(2) show "s \<noteq> Empty \<and> s \<noteq> Deleted" by auto
qed

end
