(* ===== verification/BasicHashStores.thy ===== *)
theory BasicHashStores
  imports BasicHashSlots
begin

text \<open>
  The stores of \<open>CFBasicHash.c\<close> as the slots of BasicHashSlots.thy: well-formed stores, one bucket
  written, the linear search along a probe sequence (found, or a vacancy), and rehashing, which
  moves every entry to new stores.
\<close>

section \<open>The stores as slots\<close>

text \<open>What an operation never changes.\<close>

definition config :: "CFBasicHash \<Rightarrow> CFBasicHash" where
  "config ht = ht\<lparr>ht_mutations := 0, ht_counts_width := 0, ht_used_buckets := 0, ht_deleted := 0,
     ht_num_buckets_idx := 0, ht_values := [], ht_keys := [], ht_counts := [], ht_hashes := [],
     ht_calls := []\<rparr>"

lemma configD:
  assumes "config a = config b"
  shows "ht_callbacks a = ht_callbacks b" "ht_hash_style a = ht_hash_style b"
    "ht_keys_offset a = ht_keys_offset b" "ht_counts_offset a = ht_counts_offset b"
    "ht_hashes_offset a = ht_hashes_offset b" "ht_indirect_keys a = ht_indirect_keys b"
    "ht_mutable a = ht_mutable b" "ht_null_rc a = ht_null_rc b" "ht_fast_grow a = ht_fast_grow b"
    "ht_finalized a = ht_finalized b"
  using assms by (cases a; cases b; simp add: config_def)+

definition keyeq :: "CFBasicHash \<Rightarrow> u64 \<Rightarrow> u64 \<Rightarrow> bool" where
  "keyeq ht a b \<longleftrightarrow> a = b \<or> CFBasicHashTestEqualKey ht a b"

definition key_probe :: "CFBasicHash \<Rightarrow> u64 \<Rightarrow> nat \<Rightarrow> nat" where
  "key_probe ht k = linear (CFBasicHashGetNumBuckets ht) (unat (CFBasicHashHashKey ht k))"

definition value_key :: "CFBasicHash \<Rightarrow> u64 \<Rightarrow> u64" where
  "value_key ht v = (if ht_indirect_keys ht then CFBasicHashGetIndirectKey ht v else v)"

definition slot_of :: "CFBasicHash \<Rightarrow> u64 \<Rightarrow> u64 \<Rightarrow> nat \<Rightarrow> slot" where
  "slot_of ht v k c = (if v = 0 then Empty else if v = -1 then Deleted
     else Live (if ht_keys_offset ht \<noteq> 0 then sub_out k else value_key ht (sub_out v)) (sub_out v)
            (if ht_counts_offset ht \<noteq> 0 then c else 1))"

definition slot_at :: "CFBasicHash \<Rightarrow> nat \<Rightarrow> slot" where
  "slot_at ht i = slot_of ht (ht_values ht ! i) (ht_keys ht ! i) (ht_counts ht ! i)"

definition slots :: "CFBasicHash \<Rightarrow> slot list" where
  "slots ht = map (slot_at ht) [0..<CFBasicHashGetNumBuckets ht]"

definition bucket_ok :: "CFBasicHash \<Rightarrow> u64 \<Rightarrow> u64 \<Rightarrow> nat \<Rightarrow> u64 \<Rightarrow> bool" where
  "bucket_ok ht v k c h \<longleftrightarrow>
     (ht_keys_offset ht \<noteq> 0 \<longrightarrow> (k = 0 \<longleftrightarrow> v = 0) \<and> (k = -1 \<longleftrightarrow> v = -1))
   \<and> (ht_counts_offset ht \<noteq> 0 \<longrightarrow> c < 2 ^ (count_bits (ht_counts_width ht) - 1)
        \<and> (0 < c \<longleftrightarrow> v \<noteq> 0 \<and> v \<noteq> -1))
   \<and> (ht_hashes_offset ht \<noteq> 0 \<longrightarrow> (\<forall>k' v' c'. slot_of ht v k c = Live k' v' c' \<longrightarrow>
        h = CFBasicHashHashKey ht k'))"

definition stores_ok :: "CFBasicHash \<Rightarrow> bool" where
  "stores_ok ht \<longleftrightarrow> ht_num_buckets_idx ht \<le> 44 \<and> ht_counts_width ht \<le> 3 \<and> ht_hash_style ht = 1
   \<and> (ht_keys_offset ht \<noteq> 0 \<longrightarrow> \<not> ht_indirect_keys ht)
   \<and> length (ht_values ht) = CFBasicHashGetNumBuckets ht
   \<and> (ht_keys_offset ht \<noteq> 0 \<longrightarrow> length (ht_keys ht) = CFBasicHashGetNumBuckets ht)
   \<and> (ht_counts_offset ht \<noteq> 0 \<longrightarrow> length (ht_counts ht) = CFBasicHashGetNumBuckets ht)
   \<and> (ht_hashes_offset ht \<noteq> 0 \<longrightarrow> length (ht_hashes ht) = CFBasicHashGetNumBuckets ht)
   \<and> (\<forall>i<CFBasicHashGetNumBuckets ht.
        bucket_ok ht (ht_values ht ! i) (ht_keys ht ! i) (ht_counts ht ! i) (ht_hashes ht ! i))"

lemma length_slots [simp]: "length (slots ht) = CFBasicHashGetNumBuckets ht"
  by (simp add: slots_def)

lemma nth_slots [simp]: "i < CFBasicHashGetNumBuckets ht \<Longrightarrow> slots ht ! i = slot_at ht i"
  by (simp add: slots_def)

lemma config_cong:
  assumes "config a = config b"
  shows "keyeq a = keyeq b" "CFBasicHashHashKey a = CFBasicHashHashKey b"
    "slot_of a = slot_of b" "value_key a = value_key b"
    "CFBasicHashImportValue a = CFBasicHashImportValue b" "CFBasicHashImportKey a = CFBasicHashImportKey b"
    "CFBasicHashGetIndirectKey a = CFBasicHashGetIndirectKey b"
    "CFBasicHashHasHashCache a = CFBasicHashHasHashCache b"
  by (auto simp: fun_eq_iff keyeq_def CFBasicHashTestEqualKey_def CFBasicHashHashKey_def slot_of_def
      value_key_def CFBasicHashGetIndirectKey_def CFBasicHashImportValue_def CFBasicHashImportKey_def
      configD [OF assms] CFBasicHashHasHashCache_def split: option.split)

lemma stores_cong:
  assumes c: "config a = config b" and w: "ht_counts_width a = ht_counts_width b"
    and idx: "ht_num_buckets_idx a = ht_num_buckets_idx b"
    and s: "ht_values a = ht_values b" "ht_keys a = ht_keys b" "ht_counts a = ht_counts b"
      "ht_hashes a = ht_hashes b"
  shows "CFBasicHashGetNumBuckets a = CFBasicHashGetNumBuckets b" "stores_ok a = stores_ok b"
    "slots a = slots b"
proof -
  show n: "CFBasicHashGetNumBuckets a = CFBasicHashGetNumBuckets b"
    by (simp add: CFBasicHashGetNumBuckets_def idx)
  have "bucket_ok a = bucket_ok b"
    by (simp add: fun_eq_iff bucket_ok_def w configD [OF c] config_cong [OF c])
  then show "stores_ok a = stores_ok b" by (simp only: stores_ok_def n w idx s configD [OF c])
  show "slots a = slots b" by (simp add: slots_def slot_at_def [abs_def] n s config_cong [OF c])
qed


text \<open>Fields that are not part of the stores do not matter.\<close>

lemma off_store [simp]:
  "CFBasicHashGetNumBuckets (ht\<lparr>ht_mutations := m\<rparr>) = CFBasicHashGetNumBuckets ht"
  "CFBasicHashGetNumBuckets (ht\<lparr>ht_calls := cs\<rparr>) = CFBasicHashGetNumBuckets ht"
  "CFBasicHashGetNumBuckets (ht\<lparr>ht_used_buckets := u\<rparr>) = CFBasicHashGetNumBuckets ht"
  "CFBasicHashGetNumBuckets (ht\<lparr>ht_deleted := d\<rparr>) = CFBasicHashGetNumBuckets ht"
  "stores_ok (ht\<lparr>ht_mutations := m\<rparr>) = stores_ok ht" "stores_ok (ht\<lparr>ht_calls := cs\<rparr>) = stores_ok ht"
  "stores_ok (ht\<lparr>ht_used_buckets := u\<rparr>) = stores_ok ht" "stores_ok (ht\<lparr>ht_deleted := d\<rparr>) = stores_ok ht"
  "slots (ht\<lparr>ht_mutations := m\<rparr>) = slots ht" "slots (ht\<lparr>ht_calls := cs\<rparr>) = slots ht"
  "slots (ht\<lparr>ht_used_buckets := u\<rparr>) = slots ht" "slots (ht\<lparr>ht_deleted := d\<rparr>) = slots ht"
  "config (ht\<lparr>ht_mutations := m\<rparr>) = config ht" "config (ht\<lparr>ht_calls := cs\<rparr>) = config ht"
  "config (ht\<lparr>ht_used_buckets := u\<rparr>) = config ht" "config (ht\<lparr>ht_deleted := d\<rparr>) = config ht"
proof -
  show c: "config (ht\<lparr>ht_mutations := m\<rparr>) = config ht" "config (ht\<lparr>ht_calls := cs\<rparr>) = config ht"
    "config (ht\<lparr>ht_used_buckets := u\<rparr>) = config ht" "config (ht\<lparr>ht_deleted := d\<rparr>) = config ht"
    by (simp_all add: config_def)
qed (rule stores_cong; simp add: config_def)+

lemma Eject_off_store [simp]:
  "CFBasicHashGetNumBuckets (CFBasicHashEjectValue ht v) = CFBasicHashGetNumBuckets ht"
  "CFBasicHashGetNumBuckets (CFBasicHashEjectKey ht v) = CFBasicHashGetNumBuckets ht"
  "stores_ok (CFBasicHashEjectValue ht v) = stores_ok ht" "slots (CFBasicHashEjectValue ht v) = slots ht"
  "stores_ok (CFBasicHashEjectKey ht v) = stores_ok ht" "slots (CFBasicHashEjectKey ht v) = slots ht"
  "config (CFBasicHashEjectValue ht v) = config ht" "config (CFBasicHashEjectKey ht v) = config ht"
  "ht_used_buckets (CFBasicHashEjectValue ht v) = ht_used_buckets ht"
  "ht_used_buckets (CFBasicHashEjectKey ht v) = ht_used_buckets ht"
  "ht_num_buckets_idx (CFBasicHashEjectValue ht v) = ht_num_buckets_idx ht"
  "ht_num_buckets_idx (CFBasicHashEjectKey ht v) = ht_num_buckets_idx ht"
  by (simp_all add: CFBasicHashEjectValue_def CFBasicHashEjectKey_def)

section \<open>Writing a bucket\<close>

lemma sub_in_marks [simp]: "sub_in v \<noteq> 0" "sub_in v \<noteq> -1"
  by (simp_all add: sub_in_def CFBasicHashSubABZero_def CFBasicHashSubABOne_def)

lemma sub_out_in [simp]: "\<not> is_magic v \<Longrightarrow> sub_out (sub_in v) = v"
  by (auto simp: sub_in_def sub_out_def is_magic_def CFBasicHashSubABZero_def CFBasicHashSubABOne_def)

lemma sub_in_out [simp]: "v \<noteq> 0 \<Longrightarrow> v \<noteq> -1 \<Longrightarrow> sub_in (sub_out v) = v"
  by (auto simp: sub_in_def sub_out_def CFBasicHashSubABZero_def CFBasicHashSubABOne_def)

lemma sub_out_magic [simp]: "\<not> is_magic (sub_out v)"
  by (auto simp: sub_out_def is_magic_def CFBasicHashSubABZero_def CFBasicHashSubABOne_def)

definition write_bucket :: "CFBasicHash \<Rightarrow> nat \<Rightarrow> u64 \<Rightarrow> u64 \<Rightarrow> nat \<Rightarrow> u64 \<Rightarrow> CFBasicHash" where
  "write_bucket ht i v k c h =
     ht\<lparr>ht_values := (ht_values ht)[i := v],
       ht_keys := (if ht_keys_offset ht \<noteq> 0 then (ht_keys ht)[i := k] else ht_keys ht),
       ht_counts := (if ht_counts_offset ht \<noteq> 0 then (ht_counts ht)[i := c] else ht_counts ht),
       ht_hashes := (if ht_hashes_offset ht \<noteq> 0 then (ht_hashes ht)[i := h] else ht_hashes ht)\<rparr>"

lemma write_bucket_config [simp]: "config (write_bucket ht i v k c h) = config ht"
  "CFBasicHashGetNumBuckets (write_bucket ht i v k c h) = CFBasicHashGetNumBuckets ht"
  "ht_used_buckets (write_bucket ht i v k c h) = ht_used_buckets ht"
  "ht_num_buckets_idx (write_bucket ht i v k c h) = ht_num_buckets_idx ht"
  "ht_counts_width (write_bucket ht i v k c h) = ht_counts_width ht"
  by (simp_all add: write_bucket_def config_def CFBasicHashGetNumBuckets_def)

lemma write_bucket_nth:
  assumes "stores_ok ht" "i < CFBasicHashGetNumBuckets ht" "j < CFBasicHashGetNumBuckets ht"
  shows "ht_values (write_bucket ht i v k c h) ! j = (if j = i then v else ht_values ht ! j)"
    "ht_keys_offset ht \<noteq> 0 \<Longrightarrow>
       ht_keys (write_bucket ht i v k c h) ! j = (if j = i then k else ht_keys ht ! j)"
    "ht_counts_offset ht \<noteq> 0 \<Longrightarrow>
       ht_counts (write_bucket ht i v k c h) ! j = (if j = i then c else ht_counts ht ! j)"
    "ht_hashes_offset ht \<noteq> 0 \<Longrightarrow>
       ht_hashes (write_bucket ht i v k c h) ! j = (if j = i then h else ht_hashes ht ! j)"
  using assms by (auto simp: write_bucket_def stores_ok_def nth_list_update)

lemma slot_of_cong: "(ht_keys_offset ht \<noteq> 0 \<Longrightarrow> k = k') \<Longrightarrow> (ht_counts_offset ht \<noteq> 0 \<Longrightarrow> c = c') \<Longrightarrow>
    slot_of ht v k c = slot_of ht v k' c'"
  by (simp add: slot_of_def)

lemma bucket_ok_cong:
  assumes "config ht' = config ht" "ht_counts_width ht' = ht_counts_width ht"
    "ht_keys_offset ht \<noteq> 0 \<Longrightarrow> k = k'" "ht_counts_offset ht \<noteq> 0 \<Longrightarrow> c = c'"
    "ht_hashes_offset ht \<noteq> 0 \<Longrightarrow> h = h'"
  shows "bucket_ok ht' v k c h = bucket_ok ht v k' c' h'"
proof -
  have "slot_of ht v k c = slot_of ht v k' c'" by (rule slot_of_cong) (use assms in auto)
  then show ?thesis
    using assms(2-) by (auto simp: bucket_ok_def configD [OF assms(1)] config_cong [OF assms(1)])
qed

lemma write_bucket_ok:
  assumes ok: "stores_ok ht" and i: "i < CFBasicHashGetNumBuckets ht" and b: "bucket_ok ht v k c h"
  shows "stores_ok (write_bucket ht i v k c h)"
    "slots (write_bucket ht i v k c h) = (slots ht)[i := slot_of ht v k c]"
proof -
  let ?w = "write_bucket ht i v k c h"
  have cfg: "config ?w = config ht" by simp
  note n = write_bucket_nth [OF ok i, where v = v and k = k and c = c and h = h]
  have "bucket_ok ?w (ht_values ?w ! j) (ht_keys ?w ! j) (ht_counts ?w ! j) (ht_hashes ?w ! j)"
    if j: "j < CFBasicHashGetNumBuckets ht" for j
  proof (cases "j = i")
    case True
    have "bucket_ok ?w v (ht_keys ?w ! j) (ht_counts ?w ! j) (ht_hashes ?w ! j) = bucket_ok ht v k c h"
      by (rule bucket_ok_cong) (use n(2-4) [OF j] True in auto)
    with b n(1) [OF j] True show ?thesis by simp
  next
    case False
    have "bucket_ok ?w (ht_values ht ! j) (ht_keys ?w ! j) (ht_counts ?w ! j) (ht_hashes ?w ! j)
        = bucket_ok ht (ht_values ht ! j) (ht_keys ht ! j) (ht_counts ht ! j) (ht_hashes ht ! j)"
      by (rule bucket_ok_cong) (use n(2-4) [OF j] False in auto)
    with ok j n(1) [OF j] False show ?thesis by (simp add: stores_ok_def)
  qed
  with ok show "stores_ok ?w"
    by (simp add: stores_ok_def configD [OF cfg]) (simp add: write_bucket_def)
  show "slots ?w = (slots ht)[i := slot_of ht v k c]"
  proof (rule nth_equalityI)
    fix j assume "j < length (slots ?w)"
    then have j: "j < CFBasicHashGetNumBuckets ht" by simp
    have "slot_at ?w j = slot_of ht (ht_values ?w ! j) (ht_keys ?w ! j) (ht_counts ?w ! j)"
      by (simp add: slot_at_def config_cong [OF cfg])
    also have "\<dots> = (if j = i then slot_of ht v k c else slot_at ht j)"
    proof (cases "j = i")
      case True
      then show ?thesis using n [OF j] by (auto intro!: slot_of_cong)
    next
      case False
      then show ?thesis using n [OF j] by (auto simp: slot_at_def intro!: slot_of_cong)
    qed
    finally show "slots ?w ! j = (slots ht)[i := slot_of ht v k c] ! j" using i j by simp
  qed simp
qed

section \<open>Searching\<close>

text \<open>What the table relies on: key equality is an equivalence and equal keys have equal hash codes,
  as the comment on \<open>CFBasicHashCallbacks\<close> asks.\<close>

definition callbacks_ok :: "CFBasicHash \<Rightarrow> bool" where
  "callbacks_ok ht \<longleftrightarrow> (\<forall>a b. keyeq ht a b \<longrightarrow> keyeq ht b a)
     \<and> (\<forall>a b c. keyeq ht a b \<longrightarrow> keyeq ht b c \<longrightarrow> keyeq ht a c)
     \<and> (\<forall>a b. keyeq ht a b \<longrightarrow> CFBasicHashHashKey ht a = CFBasicHashHashKey ht b)"

lemma callbacks_okD:
  assumes "callbacks_ok ht"
  shows "\<And>a b. keyeq ht a b \<Longrightarrow> keyeq ht b a"
    "\<And>a b c. keyeq ht a b \<Longrightarrow> keyeq ht b c \<Longrightarrow> keyeq ht a c"
    "\<And>a b. keyeq ht a b \<Longrightarrow> CFBasicHashHashKey ht a = CFBasicHashHashKey ht b"
    "\<And>a b. keyeq ht a b \<Longrightarrow> key_probe ht a = key_probe ht b"
proof -
  show hash: "keyeq ht a b \<Longrightarrow> CFBasicHashHashKey ht a = CFBasicHashHashKey ht b" for a b
    using assms unfolding callbacks_ok_def by blast
  show "keyeq ht a b \<Longrightarrow> keyeq ht b a" for a b using assms unfolding callbacks_ok_def by blast
  show "keyeq ht a b \<Longrightarrow> keyeq ht b c \<Longrightarrow> keyeq ht a c" for a b c
    using assms unfolding callbacks_ok_def by blast
  show "keyeq ht a b \<Longrightarrow> key_probe ht a = key_probe ht b" for a b
    unfolding key_probe_def by (simp only: hash)
qed

lemma callbacks_ok_config: "config a = config b \<Longrightarrow> callbacks_ok a = callbacks_ok b"
proof -
  assume c: "config a = config b"
  show ?thesis by (simp only: callbacks_ok_def config_cong [OF c])
qed

lemma keyeq_refl [simp]: "keyeq ht k k" by (simp add: keyeq_def)

lemma find_keys_slot:
  assumes ok: "stores_ok ht" and i: "i < CFBasicHashGetNumBuckets ht"
  obtains raw where "rd (find_keys ht) i = Some raw"
    "raw = 0 \<longleftrightarrow> slot_at ht i = Empty" "raw = -1 \<longleftrightarrow> slot_at ht i = Deleted"
    "\<And>k v c. slot_at ht i = Live k v c \<Longrightarrow>
       (if ht_indirect_keys ht then CFBasicHashGetIndirectKey ht (sub_out raw) else sub_out raw) = k"
proof
  show "rd (find_keys ht) i = Some (find_keys ht ! i)" using ok i by (auto simp: find_keys_def stores_ok_def)
  have b: "bucket_ok ht (ht_values ht ! i) (ht_keys ht ! i) (ht_counts ht ! i) (ht_hashes ht ! i)"
    using ok i by (simp add: stores_ok_def)
  then show "find_keys ht ! i = 0 \<longleftrightarrow> slot_at ht i = Empty" "find_keys ht ! i = -1 \<longleftrightarrow> slot_at ht i = Deleted"
    by (auto simp: find_keys_def bucket_ok_def slot_at_def slot_of_def)
  show "(if ht_indirect_keys ht then CFBasicHashGetIndirectKey ht (sub_out (find_keys ht ! i))
      else sub_out (find_keys ht ! i)) = k" if "slot_at ht i = Live k v c" for k v c
    using that ok by (auto simp: find_keys_def slot_at_def slot_of_def value_key_def stores_ok_def split: if_splits)
qed

lemma live_bucket:
  assumes ok: "stores_ok ht" and i: "i < CFBasicHashGetNumBuckets ht" and l: "slot_at ht i = Live k v c"
  shows "CFBasicHashGetValue ht i = Some v"
    "(if ht_counts_offset ht \<noteq> 0 then CFBasicHashGetSlotCount ht i else Some 1) = Some c"
    "0 < c" "ht_hashes_offset ht \<noteq> 0 \<Longrightarrow> rd (ht_hashes ht) i = Some (CFBasicHashHashKey ht k)"
    "CFBasicHashGetKey ht i = Some k" "CFBasicHashIsEmptyOrDeleted ht i = Some False"
    "\<not> is_magic v" "ht_keys_offset ht = 0 \<Longrightarrow> k = value_key ht v" "ht_keys_offset ht \<noteq> 0 \<Longrightarrow> \<not> is_magic k"
    "ht_counts_offset ht \<noteq> 0 \<Longrightarrow> c < 2 ^ (count_bits (ht_counts_width ht) - 1)"
    "ht_counts_offset ht = 0 \<Longrightarrow> c = 1"
proof -
  have b: "bucket_ok ht (ht_values ht ! i) (ht_keys ht ! i) (ht_counts ht ! i) (ht_hashes ht ! i)"
    using ok i by (simp add: stores_ok_def)
  have f: "ht_values ht ! i \<noteq> 0" "ht_values ht ! i \<noteq> -1" "v = sub_out (ht_values ht ! i)"
    "k = (if ht_keys_offset ht \<noteq> 0 then sub_out (ht_keys ht ! i) else value_key ht v)"
    "c = (if ht_counts_offset ht \<noteq> 0 then ht_counts ht ! i else 1)"
    using l by (auto simp: slot_at_def slot_of_def split: if_splits)
  show "CFBasicHashGetValue ht i = Some v" using f ok i by (simp add: CFBasicHashGetValue_def stores_ok_def)
  then show "CFBasicHashGetKey ht i = Some k"
    using f ok i by (auto simp: CFBasicHashGetKey_def stores_ok_def value_key_def)
  show "(if ht_counts_offset ht \<noteq> 0 then CFBasicHashGetSlotCount ht i else Some 1) = Some c"
    using f ok i by (auto simp: CFBasicHashGetSlotCount_def stores_ok_def)
  show "CFBasicHashIsEmptyOrDeleted ht i = Some False"
    using f ok i by (simp add: CFBasicHashIsEmptyOrDeleted_def stores_ok_def)
  show "0 < c" using f b by (auto simp: bucket_ok_def)
  show "rd (ht_hashes ht) i = Some (CFBasicHashHashKey ht k)" if "ht_hashes_offset ht \<noteq> 0"
    using that b l ok i by (auto simp: bucket_ok_def stores_ok_def slot_at_def)
  show "\<not> is_magic v" using f by simp
  show "ht_keys_offset ht = 0 \<Longrightarrow> k = value_key ht v" "ht_keys_offset ht \<noteq> 0 \<Longrightarrow> \<not> is_magic k"
    "ht_counts_offset ht = 0 \<Longrightarrow> c = 1"
    using f by simp_all
  show "ht_counts_offset ht \<noteq> 0 \<Longrightarrow> c < 2 ^ (count_bits (ht_counts_width ht) - 1)"
    using f b by (auto simp: bucket_ok_def)
qed

definition live_bucket_at :: "nat \<Rightarrow> u64 \<Rightarrow> u64 \<Rightarrow> nat \<Rightarrow> CFBasicHashBucket" where
  "live_bucket_at i k v c = \<lparr>bk_idx = int i, bk_key = Some k, bk_value = Some v, bk_count = c\<rparr>"

definition found :: "CFBasicHash \<Rightarrow> u64 \<Rightarrow> CFBasicHashBucket \<Rightarrow> bool" where
  "found ht k b \<longleftrightarrow> (\<exists>i<CFBasicHashGetNumBuckets ht. \<exists>k' v c. slots ht ! i = Live k' v c \<and> keyeq ht k' k
     \<and> b = live_bucket_at i k' v c)"

text \<open>The bucket that a failed search proposes for the key.\<close>

definition vacancy :: "(nat \<Rightarrow> nat) \<Rightarrow> slot list \<Rightarrow> int \<Rightarrow> bool" where
  "vacancy p ss idx \<longleftrightarrow> (\<exists>e<length ss. idx = int (p e) \<and> (ss ! p e = Empty \<or> ss ! p e = Deleted)
     \<and> (\<forall>e'<e. ss ! p e' \<noteq> Empty))"

definition deleted_before :: "(nat \<Rightarrow> nat) \<Rightarrow> slot list \<Rightarrow> nat \<Rightarrow> int \<Rightarrow> bool" where
  "deleted_before p ss j idx \<longleftrightarrow> (if idx = kCFNotFound then \<forall>e<j. ss ! p e \<noteq> Deleted
     else \<exists>e<j. idx = int (p e) \<and> ss ! p e = Deleted)"

definition missed :: "CFBasicHash \<Rightarrow> u64 \<Rightarrow> (nat \<Rightarrow> nat) \<Rightarrow> CFBasicHashBucket \<Rightarrow> bool" where
  "missed ht k p b \<longleftrightarrow> bk_count b = 0
     \<and> (\<exists>d\<le>length (slots ht). passed (keyeq ht) p (slots ht) k d
          \<and> (d = length (slots ht) \<or> slots ht ! p d = Empty)
          \<and> (vacancy p (slots ht) (bk_idx b) \<or> d = length (slots ht) \<and> bk_idx b = kCFNotFound
               \<and> (\<forall>e<d. slots ht ! p e \<noteq> Deleted)))"

lemma deleted_before_vacancy:
  assumes "deleted_before p ss j idx" "idx \<noteq> kCFNotFound" "passed eq p ss k j" "j \<le> length ss"
  shows "vacancy p ss idx"
proof -
  obtain e where e: "e < j" "idx = int (p e)" "ss ! p e = Deleted"
    using assms(1,2) by (auto simp: deleted_before_def)
  with assms(3,4) show ?thesis by (auto simp: vacancy_def passed_def intro!: exI [of _ e])
qed

lemma find_bucket_loop_law:
  fixes p :: "nat \<Rightarrow> nat"
  assumes ok: "stores_ok ht" and cb: "callbacks_ok ht"
    and p: "\<And>j. p j < CFBasicHashGetNumBuckets ht" and next_p: "\<And>j. next_p (p j, acc) = (p (Suc j), acc)"
    and h: "h = CFBasicHashHashKey ht k"
  shows "left + j = CFBasicHashGetNumBuckets ht \<Longrightarrow> passed (keyeq ht) p (slots ht) k j \<Longrightarrow>
    deleted_before p (slots ht) j dl \<Longrightarrow>
    \<exists>b. find_bucket_loop ht k h next_p left (p j, acc) dl = Some b \<and> (found ht k b \<or> missed ht k p b)"
proof (induction left arbitrary: j dl)
  case 0
  have "missed ht k p (absent_bucket dl)"
    using 0 deleted_before_vacancy [OF 0(3) _ 0(2)]
    by (auto simp: missed_def absent_bucket_def deleted_before_def split: if_splits
        intro!: exI [of _ "CFBasicHashGetNumBuckets ht"])
  then show ?case by auto
next
  case (Suc left)
  let ?i = "p j"
  from Suc.prems(1) have jn: "j < CFBasicHashGetNumBuckets ht" by simp
  have rec: "left + Suc j = CFBasicHashGetNumBuckets ht" using Suc.prems(1) by simp
  obtain raw where raw: "rd (find_keys ht) ?i = Some raw"
    "raw = 0 \<longleftrightarrow> slot_at ht ?i = Empty" "raw = -1 \<longleftrightarrow> slot_at ht ?i = Deleted"
    "\<And>k v c. slot_at ht ?i = Live k v c \<Longrightarrow>
       (if ht_indirect_keys ht then CFBasicHashGetIndirectKey ht (sub_out raw) else sub_out raw) = k"
    using find_keys_slot [OF ok p [of j]] by blast
  show ?case
  proof (cases "slot_at ht ?i")
    case Empty
    have "missed ht k p (absent_bucket (if kCFNotFound = dl then int ?i else dl))"
      using Suc.prems(2) Empty jn p deleted_before_vacancy [OF Suc.prems(3) _ Suc.prems(2)]
      by (auto simp: missed_def absent_bucket_def vacancy_def passed_def intro!: exI [of _ j])
    with raw Empty show ?thesis by simp
  next
    case Deleted
    have "deleted_before p (slots ht) (Suc j) (if kCFNotFound = dl then int ?i else dl)"
      using Suc.prems(3) Deleted p by (auto simp: deleted_before_def less_Suc_eq kCFNotFound_def)
    moreover have "passed (keyeq ht) p (slots ht) k (Suc j)" using Suc.prems(2) Deleted p by simp
    ultimately show ?thesis using Suc.IH [OF rec] raw(1-3) Deleted by (simp add: next_p)
  next
    case (Live k' v c)
    note l = live_bucket [OF ok p [of j] Live]
    have r: "raw \<noteq> 0" "raw \<noteq> -1"
      "(if ht_indirect_keys ht then CFBasicHashGetIndirectKey ht (sub_out raw) else sub_out raw) = k'"
      using raw Live by auto
    have hash: "(if CFBasicHashHasHashCache ht \<and> k' \<noteq> k
        then do { x \<leftarrow> rd (ht_hashes ht) ?i; Some (x = h) } else Some True)
      = Some (CFBasicHashHasHashCache ht \<and> k' \<noteq> k \<longrightarrow> CFBasicHashHashKey ht k' = h)"
      using l(4) by (auto simp: CFBasicHashHasHashCache_def)
    have hit: "k' = k \<or> (CFBasicHashHasHashCache ht \<and> k' \<noteq> k \<longrightarrow> CFBasicHashHashKey ht k' = h)
        \<and> CFBasicHashTestEqualKey ht k' k \<longleftrightarrow> keyeq ht k' k"
      using callbacks_okD(3) [OF cb, of k' k] h by (auto simp: keyeq_def)
    have step: "find_bucket_loop ht k h next_p (Suc left) (p j, acc) dl
      = (if keyeq ht k' k then Some (live_bucket_at ?i k' v c)
         else find_bucket_loop ht k h next_p left (p (Suc j), acc) dl)"
      by (simp only: find_bucket_loop.simps Let_def fst_conv raw(1) Option.bind.bind_lunit r if_False
          hash hit l(1,2) next_p live_bucket_at_def)
    show ?thesis
    proof (cases "keyeq ht k' k")
      case True
      then have "found ht k (live_bucket_at ?i k' v c)"
        using Live p by (auto simp: found_def intro!: exI [of _ ?i])
      with True show ?thesis unfolding step by simp
    next
      case False
      have "passed (keyeq ht) p (slots ht) k (Suc j)" using Suc.prems(2) Live p False by simp
      moreover have "deleted_before p (slots ht) (Suc j) dl"
        using Suc.prems(3) Live p by (auto simp: deleted_before_def less_Suc_eq)
      ultimately show ?thesis using Suc.IH [OF rec] False unfolding step by simp
    qed
  qed
qed

lemma next_probe_linear: "0 < n \<Longrightarrow> next_probe 1 n hash pr (linear n hash j, acc) = (linear n hash (Suc j), acc)"
  by (simp add: next_probe_def linear_Suc Let_def)

lemma linear_0: "linear n hash 0 = hash mod n" by (simp add: linear_def)

lemma buckets_pos: "stores_ok ht \<Longrightarrow> CFBasicHashGetNumBuckets ht = 0 \<longleftrightarrow> ht_num_buckets_idx ht = 0"
proof -
  assume ok: "stores_ok ht"
  have "\<forall>i\<in>set [0..<45]. CFBasicHashTableSizes ! i = 0 \<longleftrightarrow> i = 0"
    by (simp add: CFBasicHashTableSizes_def upt_rec)
  with ok show ?thesis by (simp add: stores_ok_def CFBasicHashGetNumBuckets_def)
qed

definition absent :: "CFBasicHash \<Rightarrow> u64 \<Rightarrow> CFBasicHashBucket \<Rightarrow> bool" where
  "absent ht k b \<longleftrightarrow> bk_count b = 0 \<and> (\<forall>s\<in>set (slots ht). \<not> slot_matches (keyeq ht) k s)
     \<and> (vacancy (key_probe ht k) (slots ht) (bk_idx b)
        \<or> bk_idx b = kCFNotFound \<and> size (entries (slots ht)) = CFBasicHashGetNumBuckets ht)"

lemma FindBucket_law:
  assumes ok: "stores_ok ht" and cb: "callbacks_ok ht"
    and table: "table_ok (keyeq ht) (key_probe ht) (slots ht)"
  obtains b where "internal_FindBucket ht k = Some b" "found ht k b \<or> absent ht k b"
proof (cases "ht_num_buckets_idx ht = 0")
  case True
  then have n: "CFBasicHashGetNumBuckets ht = 0" using buckets_pos [OF ok] by simp
  then have "slots ht = []" by (simp add: slots_def)
  then show ?thesis using True n by (intro that) (auto simp: internal_FindBucket_def absent_def)
next
  case False
  let ?n = "CFBasicHashGetNumBuckets ht"
  let ?h = "CFBasicHashHashKey ht k"
  let ?pr = "CFBasicHashPrimitiveRoots ! ht_num_buckets_idx ht"
  from False have n: "0 < ?n" using buckets_pos [OF ok] by simp
  have kp: "key_probe ht k = linear ?n (unat ?h)" by (simp add: key_probe_def)
  have "\<exists>b. find_bucket_loop ht k ?h (next_probe 1 ?n (unat ?h) ?pr) ?n (linear ?n (unat ?h) 0, ?pr) kCFNotFound
      = Some b \<and> (found ht k b \<or> missed ht k (linear ?n (unat ?h)) b)"
    by (rule find_bucket_loop_law [OF ok cb])
      (use n in \<open>auto simp: next_probe_linear deleted_before_def simp del: One_nat_def\<close>)
  then obtain b where b: "internal_FindBucket ht k = Some b" "found ht k b \<or> missed ht k (key_probe ht k) b"
    using False ok kp by (auto simp: internal_FindBucket_def Let_def linear_0 stores_ok_def)
  have "absent ht k b" if m: "missed ht k (key_probe ht k) b"
  proof -
    from m obtain d where d: "passed (keyeq ht) (key_probe ht k) (slots ht) k d"
      "d = length (slots ht) \<or> slots ht ! key_probe ht k d = Empty" "bk_count b = 0"
      "vacancy (key_probe ht k) (slots ht) (bk_idx b) \<or> d = length (slots ht) \<and> bk_idx b = kCFNotFound
        \<and> (\<forall>e<d. slots ht ! key_probe ht k e \<noteq> Deleted)"
      by (auto simp: missed_def)
    have "\<forall>s\<in>set (slots ht). \<not> slot_matches (keyeq ht) k s"
      using search_absent [OF table d(1,2)] callbacks_okD(4) [OF cb] by blast
    moreover have "size (entries (slots ht)) = length (slots ht)"
      if "d = length (slots ht)" "\<forall>e<d. slots ht ! key_probe ht k e \<noteq> Deleted"
      using full_round [of "slots ht" "unat ?h"] that d(1) n by (simp add: kp passed_def)
    ultimately show ?thesis using d(3,4) by (auto simp: absent_def)
  qed
  with b that show ?thesis by blast
qed

lemma find_free_loop_law:
  assumes "\<And>j. p j < length keys" "\<And>j. next_p (p j, acc) = (p (Suc j), acc)"
    and "\<forall>e<d. keys ! p e \<noteq> 0" "keys ! p d = 0"
  shows "j \<le> d \<Longrightarrow> d < j + left \<Longrightarrow> find_free_loop keys next_p left (p j, acc) = Some (int (p d))"
proof (induction left arbitrary: j)
  case (Suc left)
  show ?case
  proof (cases "j = d")
    case False
    with Suc.prems assms(3) have "keys ! p j \<noteq> 0" by simp
    moreover have "find_free_loop keys next_p left (p (Suc j), acc) = Some (int (p d))"
      by (rule Suc.IH) (use Suc.prems False in auto)
    ultimately show ?thesis using assms(1) by (simp add: assms(2))
  qed (use assms in simp)
qed simp

lemma FindBucket_NoCollision_law:
  assumes ok: "stores_ok ht" and free: "\<exists>i<CFBasicHashGetNumBuckets ht. slots ht ! i = Empty"
    and h: "key_hash = 0 \<or> key_hash = CFBasicHashHashKey ht k"
  obtains d where "CFBasicHashFindBucket_NoCollision ht k key_hash = Some (int (key_probe ht k d))"
    "d < CFBasicHashGetNumBuckets ht" "slots ht ! key_probe ht k d = Empty"
    "\<forall>e<d. slots ht ! key_probe ht k e \<noteq> Empty"
proof -
  let ?n = "CFBasicHashGetNumBuckets ht" and ?h = "CFBasicHashHashKey ht k"
  from free have n: "0 < ?n" by auto
  then have idx: "ht_num_buckets_idx ht \<noteq> 0" using buckets_pos [OF ok] by simp
  have kp: "key_probe ht k = linear ?n (unat ?h)" by (simp add: key_probe_def)
  obtain d where d: "d < ?n" "slots ht ! linear ?n (unat ?h) d = Empty"
    "\<forall>e<d. slots ht ! linear ?n (unat ?h) e \<noteq> Empty"
    using free first_empty [of _ "slots ht" "unat ?h"] by (metis length_slots)
  have len: "length (find_keys ht) = ?n" using ok by (simp add: find_keys_def stores_ok_def)
  have zero: "find_keys ht ! i = 0 \<longleftrightarrow> slots ht ! i = Empty" if "i < ?n" for i
    using find_keys_slot [OF ok that] that by (metis nth_slots rd_eq_Some)
  have "find_free_loop (find_keys ht) (next_probe 1 ?n (unat ?h) pr) ?n (linear ?n (unat ?h) 0, pr)
      = Some (int (linear ?n (unat ?h) d))" for pr
    by (rule find_free_loop_law [where p = "linear ?n (unat ?h)"])
      (use n d len zero in \<open>auto simp: next_probe_linear simp del: One_nat_def\<close>)
  then have "CFBasicHashFindBucket_NoCollision ht k key_hash = Some (int (key_probe ht k d))"
    using idx ok h kp by (auto simp: CFBasicHashFindBucket_NoCollision_def Let_def linear_0 stores_ok_def)
  with d kp that show ?thesis by simp
qed

section \<open>Rehashing\<close>

definition wf_table :: "CFBasicHash \<Rightarrow> bool" where
  "wf_table ht \<longleftrightarrow> stores_ok ht \<and> table_ok (keyeq ht) (key_probe ht) (slots ht)"

lemma key_probe_cong: "config a = config b \<Longrightarrow> CFBasicHashGetNumBuckets a = CFBasicHashGetNumBuckets b \<Longrightarrow>
    key_probe a = key_probe b"
proof -
  assume c: "config a = config b" and n: "CFBasicHashGetNumBuckets a = CFBasicHashGetNumBuckets b"
  show ?thesis by (rule ext) (simp only: key_probe_def config_cong [OF c] n)
qed

lemma key_probe_less: "0 < CFBasicHashGetNumBuckets ht \<Longrightarrow> key_probe ht k d < CFBasicHashGetNumBuckets ht"
  by (simp add: key_probe_def)

lemma slot_at_free:
  "slot_at ht i = Empty \<longleftrightarrow> ht_values ht ! i = 0" "slot_at ht i = Deleted \<longleftrightarrow> ht_values ht ! i = -1"
  by (auto simp: slot_at_def slot_of_def)

lemma free_raw:
  assumes "stores_ok ht" "i < CFBasicHashGetNumBuckets ht" "slot_at ht i = Empty \<or> slot_at ht i = Deleted"
  shows "ht_values ht ! i = 0 \<or> ht_values ht ! i = -1"
    "ht_keys_offset ht \<noteq> 0 \<Longrightarrow> ht_keys ht ! i = 0 \<or> ht_keys ht ! i = -1"
    "ht_counts_offset ht \<noteq> 0 \<Longrightarrow> ht_counts ht ! i = 0"
  using assms by (auto simp: stores_ok_def bucket_ok_def slot_at_free)

lemma slot_set_value_free: "i < length (ht_values ht) \<Longrightarrow> ht_values ht ! i = 0 \<or> ht_values ht ! i = -1 \<Longrightarrow>
    slot_set_value ht i v False False = Some (ht\<lparr>ht_values := (ht_values ht)[i := sub_in v]\<rparr>)"
  by (auto simp: slot_set_value_def Let_def)

lemma slot_set_key_free: "ht_keys_offset ht \<noteq> 0 \<Longrightarrow> i < length (ht_keys ht) \<Longrightarrow>
    ht_keys ht ! i = 0 \<or> ht_keys ht ! i = -1 \<Longrightarrow>
    slot_set_key ht i k False False = Some (ht\<lparr>ht_keys := (ht_keys ht)[i := sub_in k]\<rparr>)"
  by (auto simp: slot_set_key_def Let_def)

text \<open>Filling a free bucket with the key, value and count of an entry.\<close>

definition entry_ok :: "CFBasicHash \<Rightarrow> u64 \<Rightarrow> u64 \<Rightarrow> nat \<Rightarrow> bool" where
  "entry_ok ht k v c \<longleftrightarrow> \<not> is_magic v \<and> (ht_keys_offset ht = 0 \<longrightarrow> k = value_key ht v)
     \<and> (ht_keys_offset ht \<noteq> 0 \<longrightarrow> \<not> is_magic k) \<and> 0 < c
     \<and> (ht_counts_offset ht \<noteq> 0 \<longrightarrow> c < 2 ^ (count_bits (ht_counts_width ht) - 1))
     \<and> (ht_counts_offset ht = 0 \<longrightarrow> c = 1)"

lemma live_entry_ok: "stores_ok ht \<Longrightarrow> i < CFBasicHashGetNumBuckets ht \<Longrightarrow> slot_at ht i = Live k v c \<Longrightarrow>
    entry_ok ht k v c"
  using live_bucket(3,7-11) by (simp add: entry_ok_def)

lemma put_ok:
  assumes "stores_ok ht" "i < CFBasicHashGetNumBuckets ht" "entry_ok ht k v c"
  shows "stores_ok (write_bucket ht i (sub_in v) (sub_in k) c (CFBasicHashHashKey ht k))"
    "slots (write_bucket ht i (sub_in v) (sub_in k) c (CFBasicHashHashKey ht k)) = (slots ht)[i := Live k v c]"
proof -
  have s: "slot_of ht (sub_in v) (sub_in k) c = Live k v c"
    using assms(3) by (auto simp: slot_of_def entry_ok_def)
  have b: "bucket_ok ht (sub_in v) (sub_in k) c (CFBasicHashHashKey ht k)"
    using assms(3) s by (auto simp: bucket_ok_def entry_ok_def)
  show "stores_ok (write_bucket ht i (sub_in v) (sub_in k) c (CFBasicHashHashKey ht k))"
    by (rule write_bucket_ok [OF assms(1,2) b])
  show "slots (write_bucket ht i (sub_in v) (sub_in k) c (CFBasicHashHashKey ht k)) = (slots ht)[i := Live k v c]"
    by (simp only: write_bucket_ok [OF assms(1,2) b] s)
qed

lemma wf_table_fill:
  assumes wf: "wf_table ht" and cb: "callbacks_ok ht" and e: "entry_ok ht k v c"
    and d: "d < CFBasicHashGetNumBuckets ht" "\<forall>e<d. slots ht ! key_probe ht k e \<noteq> Empty"
      "slots ht ! key_probe ht k d = Empty \<or> slots ht ! key_probe ht k d = Deleted"
    and absent: "\<forall>s\<in>set (slots ht). \<not> slot_matches (keyeq ht) k s"
    and w: "w = write_bucket ht (key_probe ht k d) (sub_in v) (sub_in k) c (CFBasicHashHashKey ht k)"
  shows "wf_table w" "slots w = (slots ht)[key_probe ht k d := Live k v c]"
    "entries (slots w) = add_mset (k, v, c) (entries (slots ht))"
proof -
  have i: "key_probe ht k d < CFBasicHashGetNumBuckets ht" by (rule key_probe_less) (use d in simp)
  have ok: "stores_ok ht" using wf by (simp add: wf_table_def)
  show s: "slots w = (slots ht)[key_probe ht k d := Live k v c]" unfolding w by (rule put_ok [OF ok i e])
  have "table_ok (keyeq ht) (key_probe ht) (slots w)"
    unfolding s by (rule table_ok_fill) (use wf d i absent callbacks_okD(1) [OF cb] in \<open>auto simp: wf_table_def\<close>)
  moreover have "keyeq w = keyeq ht" unfolding w by (rule config_cong) simp
  moreover have "key_probe w = key_probe ht" unfolding w by (rule key_probe_cong) simp_all
  ultimately show "wf_table w" using put_ok(1) [OF ok i e] by (simp add: wf_table_def w)
  show "entries (slots w) = add_mset (k, v, c) (entries (slots ht))"
    unfolding s by (rule entries_fill) (use i d in auto)
qed

lemma rehash_bucket_live:
  assumes old: "stores_ok old" and i: "i < CFBasicHashGetNumBuckets old" and l: "slot_at old i = Live k v c"
    and ok: "stores_ok ht" and cfg: "config ht = config old"
    and free: "\<exists>j<CFBasicHashGetNumBuckets ht. slots ht ! j = Empty"
  obtains d where "rehash_bucket old ht i
      = Some (write_bucket ht (key_probe ht k d) (sub_in v) (sub_in k) c (CFBasicHashHashKey ht k))"
    "d < CFBasicHashGetNumBuckets ht" "slots ht ! key_probe ht k d = Empty"
    "\<forall>e<d. slots ht ! key_probe ht k e \<noteq> Empty"
proof -
  let ?hash = "CFBasicHashHashKey ht k"
  let ?kh = "if CFBasicHashHasHashCache ht then ?hash else 0"
  note c = configD [OF cfg] config_cong [OF cfg]
  note lb = live_bucket [OF old i l]
  obtain d where d: "CFBasicHashFindBucket_NoCollision ht k ?kh = Some (int (key_probe ht k d))"
    "d < CFBasicHashGetNumBuckets ht" "slots ht ! key_probe ht k d = Empty"
    "\<forall>e<d. slots ht ! key_probe ht k e \<noteq> Empty"
    by (rule FindBucket_NoCollision_law [OF ok free, where k = k and key_hash = ?kh]) auto
  let ?p = "key_probe ht k d"
  have p: "?p < CFBasicHashGetNumBuckets ht" by (rule key_probe_less) (use d in simp)
  have len: "length (ht_values ht) = CFBasicHashGetNumBuckets ht"
    "ht_keys_offset ht \<noteq> 0 \<Longrightarrow> length (ht_keys ht) = CFBasicHashGetNumBuckets ht"
    "ht_counts_offset ht \<noteq> 0 \<Longrightarrow> length (ht_counts ht) = CFBasicHashGetNumBuckets ht"
    "ht_hashes_offset ht \<noteq> 0 \<Longrightarrow> length (ht_hashes ht) = CFBasicHashGetNumBuckets ht"
    using ok by (simp_all add: stores_ok_def)
  have free: "slot_at ht ?p = Empty \<or> slot_at ht ?p = Deleted" using d p by simp
  note f = free_raw [OF ok p free]
  have v: "rd (ht_values old) i = Some (ht_values old ! i)" "ht_values old ! i \<noteq> 0" "ht_values old ! i \<noteq> -1"
    "sub_out (ht_values old ! i) = v"
    using old i l by (auto simp: stores_ok_def slot_at_def slot_of_def split: if_splits)
  have key: "(if ht_keys_offset ht \<noteq> 0 then do { k \<leftarrow> rd (ht_keys old) i; Some (sub_out k) } else Some v)
      = Some (if ht_keys_offset ht \<noteq> 0 then k else v)"
    using old i l by (auto simp: stores_ok_def slot_at_def slot_of_def c split: if_splits)
  have key': "(if ht_indirect_keys ht then CFBasicHashGetIndirectKey ht v
      else if ht_keys_offset ht \<noteq> 0 then k else v) = k"
    using lb(8) ok by (auto simp: value_key_def c stores_ok_def)
  have kh: "(if CFBasicHashHasHashCache ht then rd (ht_hashes old) i else Some 0) = Some ?kh"
    using lb(4) by (simp add: CFBasicHashHasHashCache_def c)
  have cnt: "rd (ht_counts old) i = Some c" if "ht_counts_offset ht \<noteq> 0"
    using that old i l by (auto simp: stores_ok_def slot_at_def slot_of_def c split: if_splits)
  have "rehash_bucket old ht i = Some (write_bucket ht ?p (sub_in v) (sub_in k) c ?hash)"
    unfolding rehash_bucket_def v(1) Option.bind.bind_lunit v(4) Let_def key key' kh d(1)
    using v(2,3) p f cnt len
    by (auto simp: store_index_def slot_set_value_free slot_set_key_free write_bucket_def
        CFBasicHashHasHashCache_def)
  with d that show ?thesis by blast
qed

lemma rehash_bucket_free:
  assumes "stores_ok old" "i < CFBasicHashGetNumBuckets old" "slot_at old i = Empty \<or> slot_at old i = Deleted"
  shows "rehash_bucket old ht i = Some ht"
  using assms free_raw(1) [OF assms] by (auto simp: rehash_bucket_def stores_ok_def)

definition undeleted :: "CFBasicHash \<Rightarrow> bool" where
  "undeleted ht \<longleftrightarrow> (\<forall>s\<in>set (slots ht). s \<noteq> Deleted)"

text \<open>What rehashing keeps, beside the configuration.\<close>

definition like :: "CFBasicHash \<Rightarrow> CFBasicHash \<Rightarrow> bool" where
  "like a b \<longleftrightarrow> config a = config b \<and> ht_counts_width a = ht_counts_width b
     \<and> ht_used_buckets a = ht_used_buckets b \<and> ht_num_buckets_idx a = ht_num_buckets_idx b"

lemma like_trans: "like a b \<Longrightarrow> like b c \<Longrightarrow> like a c" by (simp add: like_def)

lemma like_write [simp]: "like (write_bucket ht i v k c h) ht" by (simp add: like_def)

lemma like_buckets: "like a b \<Longrightarrow> CFBasicHashGetNumBuckets a = CFBasicHashGetNumBuckets b"
  by (simp add: like_def CFBasicHashGetNumBuckets_def)

lemma rehash_loop_law:
  assumes old: "wf_table old" and cb: "callbacks_ok old"
  shows "m \<le> CFBasicHashGetNumBuckets old \<Longrightarrow> wf_table ht \<Longrightarrow> undeleted ht \<Longrightarrow> config ht = config old \<Longrightarrow>
    ht_counts_width ht = ht_counts_width old \<Longrightarrow>
    size (entries (slots old)) \<le> CFBasicHashGetNumBuckets ht \<Longrightarrow>
    entries (slots ht) = entries (take m (slots old)) \<Longrightarrow>
    \<exists>ht'. rehash_loop old ht [m..<CFBasicHashGetNumBuckets old] = Some ht' \<and> wf_table ht' \<and> undeleted ht'
      \<and> like ht' ht \<and> entries (slots ht') = entries (slots old)"
proof (induction "CFBasicHashGetNumBuckets old - m" arbitrary: m ht)
  case 0
  then show ?case by (simp add: like_def)
next
  case (Suc x)
  let ?n = "CFBasicHashGetNumBuckets old" and ?ss = "slots old"
  from Suc.hyps(2) have m: "m < ?n" "x = ?n - Suc m" "Suc m \<le> ?n" by simp_all
  have upt: "[m..<?n] = m # [Suc m..<?n]" using m by (simp add: upt_rec)
  have ok: "stores_ok old" "stores_ok ht" using old Suc.prems(2) by (simp_all add: wf_table_def)
  have take: "entries (take (Suc m) ?ss) = entries (take m ?ss) + slot_entries (slot_at old m)"
    using m by (simp add: take_Suc_conv_app_nth)
  consider "slot_at old m = Empty \<or> slot_at old m = Deleted" | k v c where "slot_at old m = Live k v c"
    by (cases "slot_at old m") auto
  then show ?case
  proof cases
    case 1
    then have "entries (slots ht) = entries (take (Suc m) ?ss)" using Suc.prems(7) take by auto
    from Suc.hyps(1) [OF m(2,3) Suc.prems(2-6) this] show ?thesis
      unfolding upt by (simp add: rehash_bucket_free [OF ok(1) m(1) 1])
  next
    case (2 k v c)
    have "entries ?ss = entries (take m ?ss) + entries (drop m ?ss)"
      by (metis append_take_drop_id entries_simps(3))
    moreover have "drop m ?ss = slot_at old m # drop (Suc m) ?ss"
      using m by (simp add: Cons_nth_drop_Suc [symmetric])
    ultimately have "size (entries (slots ht)) < size (entries ?ss)"
      using Suc.prems(7) 2 by simp
    then have "size (entries (slots ht)) < length (slots ht)" using Suc.prems(6) by simp
    from free_slot [OF this] Suc.prems(3) have free: "\<exists>j<CFBasicHashGetNumBuckets ht. slots ht ! j = Empty"
      by (metis length_slots nth_mem undeleted_def)
    obtain d where d: "rehash_bucket old ht m
        = Some (write_bucket ht (key_probe ht k d) (sub_in v) (sub_in k) c (CFBasicHashHashKey ht k))"
      "d < CFBasicHashGetNumBuckets ht" "slots ht ! key_probe ht k d = Empty"
      "\<forall>e<d. slots ht ! key_probe ht k e \<noteq> Empty"
      by (rule rehash_bucket_live [OF ok(1) m(1) 2 ok(2) Suc.prems(4) free])
    let ?w = "write_bucket ht (key_probe ht k d) (sub_in v) (sub_in k) c (CFBasicHashHashKey ht k)"
    have cb': "callbacks_ok ht" using cb callbacks_ok_config [OF Suc.prems(4)] by simp
    have e: "entry_ok ht k v c" using live_entry_ok [OF ok(1) m(1) 2] Suc.prems(5)
      by (simp add: entry_ok_def configD [OF Suc.prems(4)] config_cong [OF Suc.prems(4)])
    have absent: "\<forall>s\<in>set (slots ht). \<not> slot_matches (keyeq ht) k s"
    proof
      fix s assume s: "s \<in> set (slots ht)"
      show "\<not> slot_matches (keyeq ht) k s"
      proof (cases s)
        case (Live k' v' c')
        with s have "(k', v', c') \<in># entries (take m ?ss)"
          unfolding Suc.prems(7) [symmetric] in_entries by (auto simp: in_set_conv_nth)
        then obtain i where i: "i < m" "?ss ! i = Live k' v' c'"
          unfolding in_entries using m by auto
        have "distinct_keys (keyeq old) ?ss" using old by (simp add: wf_table_def table_ok_def)
        from distinct_keysD [OF this, of i m k' v' c'] i m 2 have "\<not> keyeq old k k'" by simp
        then have "\<not> keyeq old k' k" using callbacks_okD(1) [OF cb] by blast
        then show ?thesis by (simp add: Live config_cong [OF Suc.prems(4)])
      qed simp_all
    qed
    note w = wf_table_fill [OF Suc.prems(2) cb' e d(2,4) disjI1 [OF d(3)] absent refl]
    have "undeleted ?w"
      unfolding undeleted_def w(2) using Suc.prems(3) set_update_subset_insert by (fastforce simp: undeleted_def)
    moreover have "entries (slots ?w) = entries (take (Suc m) ?ss)" using w(3) Suc.prems(7) take 2 by simp
    ultimately obtain ht' where ht': "rehash_loop old ?w [Suc m..<?n] = Some ht'" "wf_table ht'" "undeleted ht'"
      "like ht' ?w" "entries (slots ht') = entries ?ss"
      using Suc.hyps(1) [OF m(2,3) w(1)] Suc.prems(4-6) by auto
    have "like ht' ht" by (rule like_trans [OF ht'(4)]) simp
    with ht' d(1) show ?thesis unfolding upt by simp
  qed
qed

lemma table_facts: "i \<le> 44 \<Longrightarrow> CFBasicHashTableCapacities ! i \<le> CFBasicHashTableSizes ! i"
  "i \<le> 43 \<Longrightarrow> CFBasicHashTableCapacities ! i \<le> CFBasicHashTableCapacities ! Suc i"
proof -
  have "\<forall>i\<in>set [0..<45]. CFBasicHashTableCapacities ! i \<le> CFBasicHashTableSizes ! i"
    by (simp add: CFBasicHashTableCapacities_def CFBasicHashTableSizes_def upt_rec)
  then show "i \<le> 44 \<Longrightarrow> CFBasicHashTableCapacities ! i \<le> CFBasicHashTableSizes ! i" by simp
  have "\<forall>i\<in>set [0..<44]. CFBasicHashTableCapacities ! i \<le> CFBasicHashTableCapacities ! Suc i"
    by (simp add: CFBasicHashTableCapacities_def upt_rec)
  then show "i \<le> 43 \<Longrightarrow> CFBasicHashTableCapacities ! i \<le> CFBasicHashTableCapacities ! Suc i" by simp
qed

lemma index_for_capacity:
  assumes "i \<le> 44" "req \<le> CFBasicHashTableCapacities ! i"
  obtains idx where "CFBasicHashGetNumBucketsIndexForCapacity req = Some idx" "idx \<le> i"
    "req \<le> CFBasicHashTableCapacities ! idx"
proof -
  let ?P = "\<lambda>i. req \<le> CFBasicHashTableCapacities ! i"
  let ?l = "LEAST i. ?P i"
  have l: "?P ?l" "?l \<le> i" using assms(2) by (auto intro: LeastI Least_le)
  have "CFBasicHashGetNumBucketsIndexForCapacity req = Some ?l"
    unfolding CFBasicHashGetNumBucketsIndexForCapacity_def CFBasicHashGetCapacityForNumBuckets_def find_Some_iff
  proof (intro exI [of _ ?l] conjI allI impI)
    fix j assume "j < ?l"
    with l assms(1) show "\<not> req \<le> CFBasicHashTableCapacities ! ([0..<64] ! j)"
      using not_less_Least [of j ?P] by simp
  qed (use l assms(1) in simp_all)
  with l that show ?thesis by blast
qed

text \<open>The largest number of buckets in use that every operation can still grow: the capacity
  before the last one.\<close>

definition room_limit :: nat where "room_limit = 2003267722"

lemma room_limit: "CFBasicHashTableCapacities ! 43 = room_limit"
  by (simp add: CFBasicHashTableCapacities_def room_limit_def)

lemma Rehash_law:
  assumes wf: "wf_table ht" and cb: "callbacks_ok ht"
    and idx: "rehash_index ht newItemCount = Some idx" "idx \<le> 44"
    and fits: "size (entries (slots ht)) \<le> CFBasicHashTableSizes ! idx"
  obtains ht' where "CFBasicHashRehash ht newItemCount = Some ht'" "wf_table ht'" "undeleted ht'"
    "config ht' = config ht" "ht_num_buckets_idx ht' = idx" "ht_used_buckets ht' = ht_used_buckets ht"
    "ht_counts_width ht' = ht_counts_width ht" "entries (slots ht') = entries (slots ht)"
proof -
  let ?n = "CFBasicHashTableSizes ! idx"
  define t where "t = ht\<lparr>ht_num_buckets_idx := idx, ht_deleted := 0, ht_values := replicate ?n 0,
     ht_keys := (if ht_keys_offset ht \<noteq> 0 then replicate ?n 0 else ht_keys ht),
     ht_counts := (if ht_counts_offset ht \<noteq> 0 then replicate ?n 0 else ht_counts ht),
     ht_hashes := (if CFBasicHashHasHashCache ht then replicate ?n 0 else ht_hashes ht)\<rparr>"
  have f: "ht_values t = replicate ?n 0" "ht_num_buckets_idx t = idx"
    "ht_used_buckets t = ht_used_buckets ht" "ht_counts_width t = ht_counts_width ht"
    "ht_keys_offset ht \<noteq> 0 \<Longrightarrow> ht_keys t = replicate ?n 0"
    "ht_counts_offset ht \<noteq> 0 \<Longrightarrow> ht_counts t = replicate ?n 0"
    "ht_hashes_offset ht \<noteq> 0 \<Longrightarrow> ht_hashes t = replicate ?n 0"
    by (simp_all add: t_def CFBasicHashHasHashCache_def)
  have n: "CFBasicHashGetNumBuckets t = ?n" by (simp add: CFBasicHashGetNumBuckets_def f)
  have cfg: "config t = config ht" by (simp add: t_def config_def)
  have s: "slots t = replicate ?n Empty"
    by (rule nth_equalityI) (auto simp: n slot_at_free f)
  have "bucket_ok t 0 (ht_keys t ! i) (ht_counts t ! i) h" if "i < ?n" for i h
    using that f by (auto simp: bucket_ok_def slot_of_def configD [OF cfg])
  then have "stores_ok t"
    using wf idx(2) f by (simp add: wf_table_def stores_ok_def n configD [OF cfg])
  then have t: "wf_table t" "undeleted t" by (simp_all add: wf_table_def undeleted_def s)
  have "\<exists>ht'. rehash_loop ht t [0..<CFBasicHashGetNumBuckets ht] = Some ht' \<and> wf_table ht' \<and> undeleted ht'
      \<and> like ht' t \<and> entries (slots ht') = entries (slots ht)"
    by (rule rehash_loop_law [OF wf cb _ t cfg]) (use fits n s f in auto)
  then obtain ht' where r: "rehash_loop ht t [0..<CFBasicHashGetNumBuckets ht] = Some ht'" "wf_table ht'"
    "undeleted ht'" "like ht' t" "entries (slots ht') = entries (slots ht)" by blast
  have "CFBasicHashRehash ht newItemCount = Some ht'"
    unfolding CFBasicHashRehash_def idx(1) Option.bind.bind_lunit Let_def t_def [symmetric] by (rule r(1))
  then show ?thesis using that r cfg f by (simp add: like_def)
qed

lemma rehash_index_grow:
  assumes "ht_used_buckets ht + nat newItemCount \<le> room_limit" "0 < newItemCount"
  obtains idx where "rehash_index ht newItemCount = Some idx" "idx \<le> 44"
    "ht_used_buckets ht + nat newItemCount \<le> CFBasicHashTableCapacities ! idx"
proof -
  obtain idx where i: "CFBasicHashGetNumBucketsIndexForCapacity (ht_used_buckets ht + nat newItemCount) = Some idx"
    "idx \<le> 43" "ht_used_buckets ht + nat newItemCount \<le> CFBasicHashTableCapacities ! idx"
    by (rule index_for_capacity [of 43]) (use assms(1) room_limit in auto)
  show ?thesis
    by (rule that [of "if newItemCount = 1 \<and> ht_fast_grow ht then idx + 1 else idx"])
      (use i assms(2) table_facts(2) [OF i(2)] in \<open>auto simp: rehash_index_def Let_def\<close>)
qed

lemma rehash_index_shrink:
  assumes "ht_used_buckets ht \<le> CFBasicHashTableCapacities ! 43"
  obtains idx where "rehash_index ht (-1) = Some idx" "idx \<le> 44"
    "ht_used_buckets ht \<le> CFBasicHashTableCapacities ! idx"
proof -
  obtain idx where i: "CFBasicHashGetNumBucketsIndexForCapacity (ht_used_buckets ht) = Some idx"
    "idx \<le> 43" "ht_used_buckets ht \<le> CFBasicHashTableCapacities ! idx"
    by (rule index_for_capacity [of 43]) (use assms in auto)
  show ?thesis by (rule that [of idx]) (use i in \<open>auto simp: rehash_index_def Let_def\<close>)
qed

end
