(* ===== verification/BasicHashUpdates.thy ===== *)
theory BasicHashUpdates
  imports BasicHashStores
begin

text \<open>
  The parts of the updating operations of \<open>CFBasicHash.c\<close> that work on one bucket: filling it,
  replacing its value, counting in it and removing it, each with its effect on the entries and with
  the growing and shrinking of the table that goes with it.
\<close>

section \<open>Filling, replacing and clearing a bucket\<close>

definition hash_wf :: "CFBasicHash \<Rightarrow> bool" where
  "hash_wf ht \<longleftrightarrow> wf_table ht \<and> ht_used_buckets ht = size (entries (slots ht))
     \<and> ht_used_buckets ht \<le> CFBasicHashGetCapacity ht \<and> ht_used_buckets ht \<le> room_limit"

lemma wf_table_off [simp]:
  "wf_table (ht\<lparr>ht_mutations := m\<rparr>) = wf_table ht" "wf_table (ht\<lparr>ht_calls := cs\<rparr>) = wf_table ht"
  "wf_table (ht\<lparr>ht_used_buckets := u\<rparr>) = wf_table ht" "wf_table (ht\<lparr>ht_deleted := d\<rparr>) = wf_table ht"
proof -
  have "wf_table a = wf_table b" if "config a = config b" "stores_ok a = stores_ok b" "slots a = slots b"
    "CFBasicHashGetNumBuckets a = CFBasicHashGetNumBuckets b" for a b
    by (simp only: wf_table_def config_cong [OF that(1)] key_probe_cong [OF that(1,4)] that(2,3))
  note c = this
  show "wf_table (ht\<lparr>ht_mutations := m\<rparr>) = wf_table ht" "wf_table (ht\<lparr>ht_calls := cs\<rparr>) = wf_table ht"
    "wf_table (ht\<lparr>ht_used_buckets := u\<rparr>) = wf_table ht" "wf_table (ht\<lparr>ht_deleted := d\<rparr>) = wf_table ht"
    by (rule c; simp)+
qed

lemma hash_wf_off [simp]:
  "hash_wf (ht\<lparr>ht_mutations := m\<rparr>) = hash_wf ht" "hash_wf (ht\<lparr>ht_calls := cs\<rparr>) = hash_wf ht"
  "hash_wf (ht\<lparr>ht_deleted := d\<rparr>) = hash_wf ht"
  by (simp_all add: hash_wf_def CFBasicHashGetCapacity_def)

text \<open>What the retain callbacks promise: the retained key equals the key, the retained value has a key
  equal to the value's in a table without keys (with keys it may be any other value), and neither is one
  of the two substitutes.\<close>

definition imported_value :: "CFBasicHash \<Rightarrow> u64 \<Rightarrow> u64" where
  "imported_value ht v = fst (CFBasicHashImportValue ht v)"

definition imported_key :: "CFBasicHash \<Rightarrow> u64 \<Rightarrow> u64 \<Rightarrow> u64" where
  "imported_key ht k v = (if ht_keys_offset ht \<noteq> 0 then fst (CFBasicHashImportKey ht k)
     else value_key ht (imported_value ht v))"

definition contract :: "CFBasicHash \<Rightarrow> bool" where
  "contract ht \<longleftrightarrow> callbacks_ok ht
     \<and> (\<forall>v. \<not> is_magic v \<longrightarrow> \<not> is_magic (imported_value ht v)
          \<and> (ht_keys_offset ht = 0 \<longrightarrow> keyeq ht (value_key ht (imported_value ht v)) (value_key ht v)))
     \<and> (\<forall>k. \<not> is_magic k \<longrightarrow> \<not> is_magic (fst (CFBasicHashImportKey ht k))
          \<and> keyeq ht (fst (CFBasicHashImportKey ht k)) k)"

text \<open>In a table without keys the client passes the value as the key.\<close>

definition args_ok :: "CFBasicHash \<Rightarrow> u64 \<Rightarrow> u64 \<Rightarrow> bool" where
  "args_ok ht k v \<longleftrightarrow> \<not> is_magic k \<and> \<not> is_magic v \<and> (ht_keys_offset ht = 0 \<longrightarrow> k = value_key ht v)"

lemma imported_cong:
  assumes "config a = config b"
  shows "imported_value a = imported_value b" "imported_key a = imported_key b" "contract a = contract b"
    "args_ok a = args_ok b"
proof -
  show v: "imported_value a = imported_value b"
    by (rule ext) (simp only: imported_value_def config_cong [OF assms])
  show "imported_key a = imported_key b"
    by (intro ext) (simp only: imported_key_def config_cong [OF assms] configD [OF assms] v)
  show "contract a = contract b"
    by (simp only: contract_def callbacks_ok_config [OF assms] v config_cong [OF assms] configD [OF assms])
  show "args_ok a = args_ok b" by (intro ext) (simp only: args_ok_def config_cong [OF assms] configD [OF assms])
qed

lemma contractD: "contract ht \<Longrightarrow> callbacks_ok ht" by (simp add: contract_def)

lemma imported_ok:
  assumes "contract ht" "args_ok ht k v"
  shows "keyeq ht (imported_key ht k v) k" "\<not> is_magic (imported_value ht v)"
    "ht_keys_offset ht \<noteq> 0 \<Longrightarrow> \<not> is_magic (imported_key ht k v)"
    "ht_keys_offset ht = 0 \<Longrightarrow> imported_key ht k v = value_key ht (imported_value ht v)"
  using assms by (auto simp: contract_def args_ok_def imported_key_def)

lemma half_count: "(0 :: nat) < 2 ^ (count_bits w - 1) - 1" "(1 :: nat) < 2 ^ (count_bits w - 1)"
proof -
  obtain x where "(2 :: nat) ^ w = Suc x" using gr0_implies_Suc [of "2 ^ w"] by auto
  then have "(7 :: nat) \<le> count_bits w - 1" by (simp add: count_bits_def)
  then have "(2 :: nat) ^ 7 \<le> 2 ^ (count_bits w - 1)" by (intro power_increasing) simp_all
  then show "(0 :: nat) < 2 ^ (count_bits w - 1) - 1" "(1 :: nat) < 2 ^ (count_bits w - 1)" by simp_all
qed

lemma IncSlotCount_zero: "idx < length (ht_counts ht) \<Longrightarrow> ht_counts ht ! idx = 0 \<Longrightarrow>
    CFBasicHashIncSlotCount ht idx = Some (ht\<lparr>ht_counts := (ht_counts ht)[idx := 1]\<rparr>)"
  using half_count(1) [of "ht_counts_width ht"] by (simp add: CFBasicHashIncSlotCount.simps [of ht])

text \<open>The conditional writes of the operations, as one update each.\<close>

lemma set_key_step: "(ht_keys_offset ht \<noteq> 0 \<Longrightarrow> i < length (ht_keys ht)) \<Longrightarrow>
    (ht_keys_offset ht \<noteq> 0 \<Longrightarrow> ht_keys ht ! i = 0 \<or> ht_keys ht ! i = -1) \<Longrightarrow>
    (if ht_keys_offset ht \<noteq> 0 then slot_set_key ht i k False False else Some ht)
     = Some (ht\<lparr>ht_keys := (if ht_keys_offset ht \<noteq> 0 then (ht_keys ht)[i := sub_in k] else ht_keys ht)\<rparr>)"
  by (cases "ht_keys_offset ht = 0") (simp_all add: slot_set_key_free)

lemma inc_step: "(ht_counts_offset ht \<noteq> 0 \<Longrightarrow> i < length (ht_counts ht) \<and> ht_counts ht ! i = 0) \<Longrightarrow>
    (if ht_counts_offset ht \<noteq> 0 then CFBasicHashIncSlotCount ht i else Some ht)
     = Some (ht\<lparr>ht_counts := (if ht_counts_offset ht \<noteq> 0 then (ht_counts ht)[i := 1] else ht_counts ht)\<rparr>)"
  by (cases "ht_counts_offset ht = 0") (simp_all add: IncSlotCount_zero)

lemma hash_step: "(ht_hashes_offset ht \<noteq> 0 \<Longrightarrow> i < length (ht_hashes ht)) \<Longrightarrow>
    (if CFBasicHashHasHashCache ht
     then do { hashes \<leftarrow> wr (ht_hashes ht) i h; Some (ht\<lparr>ht_hashes := hashes\<rparr>) } else Some ht)
     = Some (ht\<lparr>ht_hashes := (if ht_hashes_offset ht \<noteq> 0 then (ht_hashes ht)[i := h] else ht_hashes ht)\<rparr>)"
  by (cases "ht_hashes_offset ht = 0") (simp_all add: CFBasicHashHasHashCache_def)

lemma fill_bucket_eq:
  assumes ok: "stores_ok ht" and p: "p < CFBasicHashGetNumBuckets ht"
    and free: "slot_at ht p = Empty \<or> slot_at ht p = Deleted"
  shows "\<exists>cs. fill_bucket ht p k v = Some ((write_bucket ht p (sub_in (imported_value ht v))
      (sub_in (imported_key ht k v)) 1 (CFBasicHashHashKey ht k))
      \<lparr>ht_calls := cs, ht_used_buckets := (ht_used_buckets ht + 1) mod 2 ^ 32\<rparr>)"
proof -
  note f = free_raw [OF ok p free]
  obtain v' cs where v: "CFBasicHashImportValue ht v = (v', cs)" by fastforce
  obtain k' cs' where k: "CFBasicHashImportKey ht k = (k', cs')" by fastforce
  have len: "length (ht_values ht) = CFBasicHashGetNumBuckets ht"
    "ht_keys_offset ht \<noteq> 0 \<Longrightarrow> length (ht_keys ht) = CFBasicHashGetNumBuckets ht"
    "ht_counts_offset ht \<noteq> 0 \<Longrightarrow> length (ht_counts ht) = CFBasicHashGetNumBuckets ht"
    "ht_hashes_offset ht \<noteq> 0 \<Longrightarrow> length (ht_hashes ht) = CFBasicHashGetNumBuckets ht"
    using ok by (simp_all add: stores_ok_def)
  have imp: "(if ht_keys_offset ht \<noteq> 0 then (k', cs') else (k, []))
    = (if ht_keys_offset ht \<noteq> 0 then k' else k, if ht_keys_offset ht \<noteq> 0 then cs' else [])" by simp
  define cs2 where "cs2 = ht_calls ht @ cs @ (if ht_keys_offset ht \<noteq> 0 then cs' else [])"
  have "fill_bucket ht p k v = Some ((write_bucket ht p (sub_in v') (sub_in k')  1 (CFBasicHashHashKey ht k))
      \<lparr>ht_calls := cs2, ht_used_buckets := (ht_used_buckets ht + 1) mod 2 ^ 32\<rparr>)"
    unfolding fill_bucket_def Let_def v k imp case_prod_conv cs2_def [symmetric]
    apply (subst slot_set_value_free)
      apply (use p f len in simp)
     apply (use p f len in simp)
    unfolding Option.bind.bind_lunit
    apply (subst set_key_step)
      apply (use p f len in simp)
     apply (use p f len in simp)
    unfolding Option.bind.bind_lunit
    apply (subst inc_step)
     apply (use p f len in simp)
    unfolding Option.bind.bind_lunit
    apply (subst hash_step)
     apply (use p f len in simp)
    by (simp add: write_bucket_def CFBasicHashHasHashCache_def)
  moreover have "write_bucket ht p (sub_in (imported_value ht v)) (sub_in (imported_key ht k v)) 1 h
      = write_bucket ht p (sub_in v') (sub_in k') 1 h" for h
    by (simp add: write_bucket_def imported_value_def imported_key_def v k)
  ultimately show ?thesis by auto
qed

lemma fill_bucket_law:
  assumes wf: "wf_table ht" and con: "contract ht" and args: "args_ok ht k v"
    and d: "d < CFBasicHashGetNumBuckets ht" "\<forall>e<d. slots ht ! key_probe ht k e \<noteq> Empty"
      "slots ht ! key_probe ht k d = Empty \<or> slots ht ! key_probe ht k d = Deleted"
    and absent: "\<forall>s\<in>set (slots ht). \<not> slot_matches (keyeq ht) k s"
    and used: "ht_used_buckets ht = size (entries (slots ht))"
      "ht_used_buckets ht + 1 \<le> CFBasicHashGetCapacity ht" "ht_used_buckets ht + 1 \<le> room_limit"
  obtains ht' where "fill_bucket ht (key_probe ht k d) k v = Some ht'" "hash_wf ht'" "config ht' = config ht"
    "entries (slots ht') = add_mset (imported_key ht k v, imported_value ht v, 1) (entries (slots ht))"
proof -
  let ?k = "imported_key ht k v" and ?v = "imported_value ht v"
  have ok: "stores_ok ht" using wf by (simp add: wf_table_def)
  have p: "key_probe ht k d < CFBasicHashGetNumBuckets ht" by (rule key_probe_less) (use d in simp)
  note cb = contractD [OF con]
  note im = imported_ok [OF con args]
  note same = callbacks_okD(3,4) [OF cb im(1)]
  have e: "entry_ok ht ?k ?v 1" using im half_count(2) by (simp add: entry_ok_def)
  have m: "slot_matches (keyeq ht) ?k s = slot_matches (keyeq ht) k s" for s
  proof (cases s)
    case (Live k'' v'' c)
    have "keyeq ht k'' ?k = keyeq ht k'' k"
      using callbacks_okD(2) [OF cb _ im(1), of k''] callbacks_okD(2) [OF cb _ callbacks_okD(1) [OF cb im(1)], of k'']
      by blast
    then show ?thesis by (simp add: Live)
  qed simp_all
  define w where "w = write_bucket ht (key_probe ht k d) (sub_in ?v) (sub_in ?k) 1 (CFBasicHashHashKey ht k)"
  have w: "wf_table w" "entries (slots w) = add_mset (?k, ?v, 1) (entries (slots ht))"
    using wf_table_fill [OF wf cb e d(1), of w] d absent m by (simp_all add: same w_def)
  obtain cs where fill: "fill_bucket ht (key_probe ht k d) k v
      = Some (w\<lparr>ht_calls := cs, ht_used_buckets := (ht_used_buckets ht + 1) mod 2 ^ 32\<rparr>)"
    using fill_bucket_eq [OF ok p, of k v] d(3) p unfolding w_def by auto
  let ?r = "w\<lparr>ht_calls := cs, ht_used_buckets := (ht_used_buckets ht + 1) mod 2 ^ 32\<rparr>"
  have cfg: "config ?r = config ht" by (simp add: w_def)
  have "wf_table ?r" using w(1) by simp
  then have "hash_wf ?r"
    using used w by (simp add: hash_wf_def room_limit_def CFBasicHashGetCapacity_def w_def)
  then show ?thesis using that fill cfg w(2) by simp
qed

lemma hash_wfD:
  assumes "hash_wf ht"
  shows "stores_ok ht" "wf_table ht" "table_ok (keyeq ht) (key_probe ht) (slots ht)"
    "ht_used_buckets ht = size (entries (slots ht))" "ht_used_buckets ht \<le> CFBasicHashGetCapacity ht"
    "ht_used_buckets ht \<le> room_limit" "ht_num_buckets_idx ht \<le> 44"
    "CFBasicHashGetCapacity ht \<le> CFBasicHashGetNumBuckets ht"
  using assms table_facts(1)
  by (auto simp: hash_wf_def wf_table_def stores_ok_def CFBasicHashGetCapacity_def
      CFBasicHashGetCapacityForNumBuckets_def CFBasicHashGetNumBuckets_def)

lemma vacancyD:
  assumes "vacancy (key_probe ht k) (slots ht) idx"
  obtains d where "d < CFBasicHashGetNumBuckets ht" "idx = int (key_probe ht k d)"
    "slots ht ! key_probe ht k d = Empty \<or> slots ht ! key_probe ht k d = Deleted"
    "\<forall>e<d. slots ht ! key_probe ht k e \<noteq> Empty"
  using assms by (auto simp: vacancy_def)

lemma Rehash_wf:
  assumes wf: "wf_table ht" and con: "contract ht" and used: "ht_used_buckets ht = size (entries (slots ht))"
    "ht_used_buckets ht \<le> room_limit"
    and idx: "rehash_index ht c = Some idx" "idx \<le> 44" "ht_used_buckets ht \<le> CFBasicHashTableCapacities ! idx"
  obtains ht' where "CFBasicHashRehash ht c = Some ht'" "hash_wf ht'" "undeleted ht'"
    "config ht' = config ht" "ht_num_buckets_idx ht' = idx" "ht_used_buckets ht' = ht_used_buckets ht"
    "ht_counts_width ht' = ht_counts_width ht" "entries (slots ht') = entries (slots ht)"
proof -
  have "size (entries (slots ht)) \<le> CFBasicHashTableSizes ! idx"
    using used idx table_facts(1) [OF idx(2)] by simp
  from Rehash_law [OF wf contractD [OF con] idx(1,2) this]
  obtain ht' where r: "CFBasicHashRehash ht c = Some ht'" "wf_table ht'" "undeleted ht'"
    "config ht' = config ht" "ht_num_buckets_idx ht' = idx" "ht_used_buckets ht' = ht_used_buckets ht"
    "ht_counts_width ht' = ht_counts_width ht" "entries (slots ht') = entries (slots ht)" .
  then have "hash_wf ht'"
    using used idx(3) by (simp add: hash_wf_def CFBasicHashGetCapacity_def CFBasicHashGetCapacityForNumBuckets_def)
  with r that show ?thesis by blast
qed

lemma matches_entries: "(\<forall>s\<in>set ss. \<not> slot_matches eq k s) \<longleftrightarrow> (\<forall>(k', v, c) \<in># entries ss. \<not> eq k' k)"
proof -
  have "(\<exists>s\<in>set ss. slot_matches eq k s) \<longleftrightarrow> (\<exists>k' v c. (k', v, c) \<in># entries ss \<and> eq k' k)"
  proof
    assume "\<exists>s\<in>set ss. slot_matches eq k s"
    then obtain i where "i < length ss" "slot_matches eq k (ss ! i)" by (auto simp: in_set_conv_nth)
    then show "\<exists>k' v c. (k', v, c) \<in># entries ss \<and> eq k' k"
      by (cases "ss ! i") (auto simp: in_entries)
  next
    assume "\<exists>k' v c. (k', v, c) \<in># entries ss \<and> eq k' k"
    then obtain i k' v c where "i < length ss" "ss ! i = Live k' v c" "eq k' k" by (auto simp: in_entries)
    then show "\<exists>s\<in>set ss. slot_matches eq k s" using nth_mem [of i ss] by (intro bexI [of _ "ss ! i"]) simp_all
  qed
  moreover have "(\<forall>(k', v, c) \<in># entries ss. \<not> eq k' k) \<longleftrightarrow> \<not> (\<exists>k' v c. (k', v, c) \<in># entries ss \<and> eq k' k)"
    by auto
  ultimately show ?thesis by blast
qed

lemma internal_AddValue_law:
  assumes wf: "hash_wf ht" and con: "contract ht" and args: "args_ok ht k v"
    and room: "ht_used_buckets ht < room_limit" and b: "absent ht k b"
  obtains ht' where "internal_AddValue ht (bk_idx b) k v = Some ht'" "hash_wf ht'" "config ht' = config ht"
    "entries (slots ht') = add_mset (imported_key ht k v, imported_value ht v, 1) (entries (slots ht))"
proof -
  let ?m = "ht\<lparr>ht_mutations := ht_mutations ht + 1\<rparr>"
  have absent: "\<forall>s\<in>set (slots ht). \<not> slot_matches (keyeq ht) k s" using b by (simp add: absent_def)
  note f = hash_wfD [OF wf]
  have m: "config ?m = config ht" by simp
  show ?thesis
  proof (cases "CFBasicHashGetCapacity ht < ht_used_buckets ht + 1")
    case True
    obtain idx where idx: "rehash_index ?m 1 = Some idx" "idx \<le> 44"
      "ht_used_buckets ?m + nat 1 \<le> CFBasicHashTableCapacities ! idx"
      by (rule rehash_index_grow [of ?m 1]) (use room in auto)
    obtain t where t: "CFBasicHashRehash ?m 1 = Some t" "hash_wf t" "undeleted t" "config t = config ?m"
      "ht_num_buckets_idx t = idx" "ht_used_buckets t = ht_used_buckets ?m"
      "entries (slots t) = entries (slots ?m)"
      by (rule Rehash_wf [of ?m 1 idx]) (use f idx con imported_cong(3) [OF m] in auto)
    note cfg = t(4) [unfolded m]
    note ft = hash_wfD [OF t(2)]
    have cap: "ht_used_buckets t + 1 \<le> CFBasicHashGetCapacity t"
      using idx t(5,6) by (simp add: CFBasicHashGetCapacity_def CFBasicHashGetCapacityForNumBuckets_def)
    have "size (entries (slots t)) < length (slots t)" using ft(4,8) cap by simp
    from free_slot [OF this] t(3) have free: "\<exists>i<CFBasicHashGetNumBuckets t. slots t ! i = Empty"
      by (metis length_slots nth_mem undeleted_def)
    obtain d where d: "CFBasicHashFindBucket_NoCollision t k 0 = Some (int (key_probe t k d))"
      "d < CFBasicHashGetNumBuckets t" "slots t ! key_probe t k d = Empty"
      "\<forall>e<d. slots t ! key_probe t k e \<noteq> Empty"
      by (rule FindBucket_NoCollision_law [OF ft(1) free, where k = k and key_hash = 0]) auto
    have absent': "\<forall>s\<in>set (slots t). \<not> slot_matches (keyeq t) k s"
      using absent unfolding matches_entries by (simp add: t(7) config_cong [OF cfg])
    obtain ht' where h: "fill_bucket t (key_probe t k d) k v = Some ht'" "hash_wf ht'" "config ht' = config t"
      "entries (slots ht') = add_mset (imported_key t k v, imported_value t v, 1) (entries (slots t))"
      by (rule fill_bucket_law [OF ft(2) _ _ d(2,4) disjI1 [OF d(3)] absent' ft(4) cap])
        (use con args room t(6) in \<open>auto simp: imported_cong [OF cfg]\<close>)
    have "internal_AddValue ht (bk_idx b) k v = Some ht'"
      using True t(1) d(1) h(1) by (simp add: internal_AddValue_def CFBasicHashGetCapacity_def store_index_def)
    with h cfg t(7) that show ?thesis by (simp add: imported_cong [OF cfg])
  next
    case False
    then have cap: "ht_used_buckets ht + 1 \<le> CFBasicHashGetCapacity ht" by simp
    with f(4,8) have "size (entries (slots ht)) \<noteq> CFBasicHashGetNumBuckets ht" by simp
    with b have "vacancy (key_probe ht k) (slots ht) (bk_idx b)" by (simp add: absent_def)
    then obtain d where d: "d < CFBasicHashGetNumBuckets ht" "bk_idx b = int (key_probe ht k d)"
      "slots ht ! key_probe ht k d = Empty \<or> slots ht ! key_probe ht k d = Deleted"
      "\<forall>e<d. slots ht ! key_probe ht k e \<noteq> Empty" by (rule vacancyD)
    let ?p = "key_probe ht k d"
    have p: "?p < CFBasicHashGetNumBuckets ht" by (rule key_probe_less) (use d in simp)
    define del where "del \<longleftrightarrow> ht_values ht ! ?p = -1"
    define t where "t = (if del then ?m\<lparr>ht_deleted := ht_deleted ?m - 1\<rparr> else ?m)"
    have isdel: "CFBasicHashIsDeleted ?m ?p = Some del"
      using p f(1) by (simp add: CFBasicHashIsDeleted_def del_def stores_ok_def)
    have cfg: "config t = config ht" and s: "slots t = slots ht" and u: "ht_used_buckets t = ht_used_buckets ht"
      and n: "CFBasicHashGetNumBuckets t = CFBasicHashGetNumBuckets ht" and w: "wf_table t"
      and c: "CFBasicHashGetCapacity t = CFBasicHashGetCapacity ht"
      using f(2) by (simp_all add: t_def CFBasicHashGetCapacity_def)
    note kp = key_probe_cong [OF cfg n]
    obtain ht' where h: "fill_bucket t (key_probe t k d) k v = Some ht'" "hash_wf ht'" "config ht' = config t"
      "entries (slots ht') = add_mset (imported_key t k v, imported_value t v, 1) (entries (slots t))"
      by (rule fill_bucket_law [OF w, of k v d])
        (use con args d absent f(4) cap room in \<open>auto simp: imported_cong [OF cfg] kp s u n c config_cong [OF cfg]\<close>)
    have "internal_AddValue ht (bk_idx b) k v = Some ht'"
      using False h(1) isdel
      by (simp add: internal_AddValue_def CFBasicHashGetCapacity_def store_index_def d(2) t_def kp [unfolded t_def])
    with h that show ?thesis by (simp add: imported_cong [OF cfg] s cfg)
  qed
qed

text \<open>Replacing the value (and key) of a live bucket.\<close>

lemma live_raw:
  assumes "stores_ok ht" "i < CFBasicHashGetNumBuckets ht" "slot_at ht i = Live k v c"
  shows "ht_values ht ! i \<noteq> 0" "ht_values ht ! i \<noteq> -1" "sub_out (ht_values ht ! i) = v"
    "ht_keys_offset ht \<noteq> 0 \<Longrightarrow> ht_keys ht ! i \<noteq> 0 \<and> ht_keys ht ! i \<noteq> -1 \<and> sub_out (ht_keys ht ! i) = k"
    "ht_counts_offset ht \<noteq> 0 \<Longrightarrow> ht_counts ht ! i = c"
    "ht_hashes_offset ht \<noteq> 0 \<Longrightarrow> ht_hashes ht ! i = CFBasicHashHashKey ht k"
proof -
  have b: "bucket_ok ht (ht_values ht ! i) (ht_keys ht ! i) (ht_counts ht ! i) (ht_hashes ht ! i)"
    using assms by (simp add: stores_ok_def)
  show v: "ht_values ht ! i \<noteq> 0" "ht_values ht ! i \<noteq> -1" "sub_out (ht_values ht ! i) = v"
    using assms(3) by (auto simp: slot_at_def slot_of_def split: if_splits)
  show "ht_keys ht ! i \<noteq> 0 \<and> ht_keys ht ! i \<noteq> -1 \<and> sub_out (ht_keys ht ! i) = k" if "ht_keys_offset ht \<noteq> 0"
    using that b v assms(3) by (auto simp: bucket_ok_def slot_at_def slot_of_def split: if_splits)
  show "ht_counts ht ! i = c" if "ht_counts_offset ht \<noteq> 0"
    using that assms(3) by (auto simp: slot_at_def slot_of_def split: if_splits)
  show "ht_hashes ht ! i = CFBasicHashHashKey ht k" if "ht_hashes_offset ht \<noteq> 0"
    using that b assms(3) by (auto simp: bucket_ok_def slot_at_def)
qed

definition released_value :: "CFBasicHash \<Rightarrow> u64 \<Rightarrow> hash_call list" where
  "released_value ht v = (if \<not> cb_releaseValue (ht_callbacks ht) \<or> ht_null_rc ht then [] else [Value_released v])"

definition released_key :: "CFBasicHash \<Rightarrow> u64 \<Rightarrow> hash_call list" where
  "released_key ht k = (if \<not> cb_releaseKey (ht_callbacks ht) \<or> ht_null_rc ht then [] else [Key_released k])"

lemma slot_set_value_live: "i < length (ht_values ht) \<Longrightarrow> ht_values ht ! i \<noteq> 0 \<Longrightarrow> ht_values ht ! i \<noteq> -1 \<Longrightarrow>
    slot_set_value ht i v False lit = Some (ht\<lparr>ht_values := (ht_values ht)[i := if lit then v else sub_in v],
      ht_calls := ht_calls ht @ released_value ht (sub_out (ht_values ht ! i))\<rparr>)"
  by (auto simp: slot_set_value_def Let_def CFBasicHashEjectValue_def released_value_def)

lemma set_key_step_live: "(ht_keys_offset ht \<noteq> 0 \<Longrightarrow> i < length (ht_keys ht)) \<Longrightarrow>
    (ht_keys_offset ht \<noteq> 0 \<Longrightarrow> ht_keys ht ! i \<noteq> 0 \<and> ht_keys ht ! i \<noteq> -1) \<Longrightarrow>
    (if ht_keys_offset ht \<noteq> 0 then slot_set_key ht i k False lit else Some ht)
     = Some (ht\<lparr>ht_keys := (if ht_keys_offset ht \<noteq> 0 then (ht_keys ht)[i := if lit then k else sub_in k] else ht_keys ht),
        ht_calls := ht_calls ht @ (if ht_keys_offset ht \<noteq> 0 then released_key ht (sub_out (ht_keys ht ! i)) else [])\<rparr>)"
  by (cases "ht_keys_offset ht = 0")
    (auto simp: slot_set_key_def Let_def CFBasicHashEjectKey_def released_key_def)

lemma internal_ReplaceValue_eq:
  assumes ok: "stores_ok ht" and p: "i < CFBasicHashGetNumBuckets ht" and l: "slot_at ht i = Live k0 v0 c"
  shows "\<exists>cs m. internal_ReplaceValue ht (int i) k v = Some ((write_bucket ht i (sub_in (imported_value ht v))
      (sub_in (imported_key ht k v)) c (CFBasicHashHashKey ht k0))\<lparr>ht_mutations := m, ht_calls := cs\<rparr>)"
proof -
  note f = live_raw [OF ok p l]
  obtain v' cs where v: "CFBasicHashImportValue (ht\<lparr>ht_mutations := ht_mutations ht + 1\<rparr>) v = (v', cs)" by fastforce
  obtain k' cs' where k: "CFBasicHashImportKey (ht\<lparr>ht_mutations := ht_mutations ht + 1\<rparr>) k = (k', cs')" by fastforce
  have cfg: "config (ht\<lparr>ht_mutations := ht_mutations ht + 1\<rparr>) = config ht" by simp
  have v1: "imported_value ht v = v'"
    by (simp only: imported_value_def config_cong(5) [OF cfg, symmetric] v fst_conv)
  have k1: "ht_keys_offset ht \<noteq> 0 \<Longrightarrow> imported_key ht k v = k'"
    by (simp only: imported_key_def config_cong(6) [OF cfg, symmetric] k fst_conv if_True not_False_eq_True)
  have len: "length (ht_values ht) = CFBasicHashGetNumBuckets ht"
    "ht_keys_offset ht \<noteq> 0 \<Longrightarrow> length (ht_keys ht) = CFBasicHashGetNumBuckets ht"
    using ok by (simp_all add: stores_ok_def)
  have same: "(if ht_counts_offset ht \<noteq> 0 then (ht_counts ht)[i := c] else ht_counts ht) = ht_counts ht"
    "(if ht_hashes_offset ht \<noteq> 0 then (ht_hashes ht)[i := CFBasicHashHashKey ht k0] else ht_hashes ht) = ht_hashes ht"
    using f(5,6) by (metis list_update_id)+
  have imp: "(if ht_keys_offset (ht\<lparr>ht_mutations := m\<rparr>) \<noteq> 0 then (k', cs') else (k, []))
    = (if ht_keys_offset ht \<noteq> 0 then k' else k, if ht_keys_offset ht \<noteq> 0 then cs' else [])" for m by simp
  have w: "write_bucket ht i (sub_in (imported_value ht v)) (sub_in (imported_key ht k v)) c (CFBasicHashHashKey ht k0)
    = ht\<lparr>ht_values := (ht_values ht)[i := sub_in v'],
        ht_keys := (if ht_keys_offset ht \<noteq> 0 then (ht_keys ht)[i := sub_in k'] else ht_keys ht)\<rparr>"
    unfolding write_bucket_def same v1 using k1 by (cases ht) simp
  have "store_index (int i) = Some i" by (simp add: store_index_def)
  then show ?thesis
    unfolding w internal_ReplaceValue_def Let_def v k imp case_prod_conv
    apply (simp only: Option.bind.bind_lunit)
    apply (subst slot_set_value_live)
       apply (use p f len in simp)
      apply (use p f len in simp)
     apply (use p f len in simp)
    unfolding Option.bind.bind_lunit
    apply (subst set_key_step_live)
      apply (use p f len in simp)
     apply (use p f len in simp)
    apply (cases ht)
    apply simp
    done
qed

lemma internal_ReplaceValue_law:
  assumes wf: "hash_wf ht" and con: "contract ht" and args: "args_ok ht k v"
    and i: "i < CFBasicHashGetNumBuckets ht" and l: "slot_at ht i = Live k0 v0 c" and eq: "keyeq ht k0 k"
  obtains ht' where "internal_ReplaceValue ht (int i) k v = Some ht'" "hash_wf ht'" "config ht' = config ht"
    "add_mset (k0, v0, c) (entries (slots ht'))
       = add_mset (imported_key ht k v, imported_value ht v, c) (entries (slots ht))"
proof -
  let ?k = "imported_key ht k v" and ?v = "imported_value ht v"
  note f = hash_wfD [OF wf] and cb = contractD [OF con] and im = imported_ok [OF con args]
  have kk: "keyeq ht ?k k0" by (rule callbacks_okD(2) [OF cb im(1) callbacks_okD(1) [OF cb eq]])
  have kk': "keyeq ht k0 ?k" by (rule callbacks_okD(1) [OF cb kk])
  note same = callbacks_okD(3,4) [OF cb kk]
  have e: "entry_ok ht ?k ?v c"
    using live_entry_ok [OF f(1) i l] im by (simp add: entry_ok_def)
  define w where "w = write_bucket ht i (sub_in ?v) (sub_in ?k) c (CFBasicHashHashKey ht ?k)"
  have w: "stores_ok w" "slots w = (slots ht)[i := Live ?k ?v c]"
    unfolding w_def by (rule put_ok [OF f(1) i e])+
  have cfg: "config w = config ht" by (simp add: w_def)
  have "keyeq ht x ?k = keyeq ht x k0" "keyeq ht ?k x = keyeq ht k0 x" for x
    using callbacks_okD(2) [OF cb] kk kk' by blast+
  then have "table_ok (keyeq ht) (key_probe ht) (slots w)"
    unfolding w(2) by (intro table_ok_rename [OF f(3), of i k0 v0 c]) (use i l same in auto)
  moreover have "key_probe w = key_probe ht" by (rule key_probe_cong [OF cfg]) (simp add: w_def)
  ultimately have "wf_table w" using w(1) by (simp add: wf_table_def config_cong [OF cfg])
  moreover have ent: "add_mset (k0, v0, c) (entries (slots w)) = add_mset (?k, ?v, c) (entries (slots ht))"
    unfolding w(2) by (rule entries_replace) (use i l in auto)
  then have "size (entries (slots w)) = size (entries (slots ht))"
    by (metis add_left_cancel size_add_mset nat.inject)
  ultimately have "hash_wf w" using f by (simp add: hash_wf_def w_def CFBasicHashGetCapacity_def)
  moreover obtain cs m where "internal_ReplaceValue ht (int i) k v = Some (w\<lparr>ht_mutations := m, ht_calls := cs\<rparr>)"
    using internal_ReplaceValue_eq [OF f(1) i l, of k v] same by (auto simp: w_def)
  ultimately show ?thesis using that cfg ent by simp
qed

section \<open>Counts\<close>

lemma self_update:
  assumes ok: "stores_ok ht" and p: "i < CFBasicHashGetNumBuckets ht"
  shows "ht_counts_offset ht \<noteq> 0 \<Longrightarrow> write_bucket ht i (ht_values ht ! i) (ht_keys ht ! i) c (ht_hashes ht ! i)
    = ht\<lparr>ht_counts := (ht_counts ht)[i := c]\<rparr>"
  by (cases ht) (simp add: write_bucket_def)

lemma live_slot_of: "slot_at ht i = Live k v c \<Longrightarrow> ht_counts_offset ht \<noteq> 0 \<Longrightarrow>
    slot_of ht (ht_values ht ! i) (ht_keys ht ! i) c' = Live k v c'"
  by (auto simp: slot_at_def slot_of_def split: if_splits)

lemma set_count_law:
  assumes ok: "stores_ok ht" and i: "i < CFBasicHashGetNumBuckets ht" and l: "slot_at ht i = Live k v c"
    and co: "ht_counts_offset ht \<noteq> 0" and c': "0 < c'" "c' < 2 ^ (count_bits (ht_counts_width ht) - 1)"
  shows "stores_ok (ht\<lparr>ht_counts := (ht_counts ht)[i := c']\<rparr>)"
    "slots (ht\<lparr>ht_counts := (ht_counts ht)[i := c']\<rparr>) = (slots ht)[i := Live k v c']"
proof -
  have b: "bucket_ok ht (ht_values ht ! i) (ht_keys ht ! i) (ht_counts ht ! i) (ht_hashes ht ! i)"
    using ok i by (simp add: stores_ok_def)
  have b': "bucket_ok ht (ht_values ht ! i) (ht_keys ht ! i) c' (ht_hashes ht ! i)"
    using b c' live_raw [OF ok i l] live_slot_of [OF l co] l unfolding bucket_ok_def by (simp add: slot_at_def)
  show "stores_ok (ht\<lparr>ht_counts := (ht_counts ht)[i := c']\<rparr>)"
    "slots (ht\<lparr>ht_counts := (ht_counts ht)[i := c']\<rparr>) = (slots ht)[i := Live k v c']"
    using write_bucket_ok [OF ok i b'] unfolding self_update [OF ok i co] live_slot_of [OF l co] .
qed

lemma count_bits_le: "w \<le> w' \<Longrightarrow> count_bits w \<le> count_bits w'"
  by (simp add: count_bits_def power_increasing)

lemma Bump_law:
  assumes ok: "stores_ok ht" and co: "ht_counts_offset ht \<noteq> 0" and w: "ht_counts_width ht < 3"
  shows "CFBasicHashBumpCounts ht = Some (ht\<lparr>ht_counts_width := Suc (ht_counts_width ht)\<rparr>)"
    "stores_ok (ht\<lparr>ht_counts_width := Suc (ht_counts_width ht)\<rparr>)"
    "slots (ht\<lparr>ht_counts_width := Suc (ht_counts_width ht)\<rparr>) = slots ht"
proof -
  let ?w = "ht_counts_width ht" and ?b = "ht\<lparr>ht_counts_width := Suc (ht_counts_width ht)\<rparr>"
  have up: "(2 :: nat) ^ (count_bits ?w - 1) \<le> 2 ^ (count_bits (?w + 1) - 1)"
    by (intro power_increasing diff_le_mono count_bits_le) simp_all
  have up': "(2 :: nat) ^ (count_bits (?w + 1) - 1) \<le> 2 ^ count_bits (?w + 1)"
    by (intro power_increasing) simp_all
  have up2: "c < 2 ^ (count_bits ?w - Suc 0) \<Longrightarrow> c < 2 ^ (count_bits (Suc ?w) - Suc 0)" for c :: nat
    using less_le_trans [OF _ up] by (simp only: One_nat_def add_Suc_right add_0_right)
  have len: "length (ht_counts ht) = CFBasicHashGetNumBuckets ht" using ok co by (simp add: stores_ok_def)
  have small: "ht_counts ht ! i < 2 ^ (count_bits ?w - 1)" if "i < CFBasicHashGetNumBuckets ht" for i
    using ok co that by (simp add: stores_ok_def bucket_ok_def)
  have "map (\<lambda>c. c mod 2 ^ count_bits (?w + 1)) (ht_counts ht) = ht_counts ht"
  proof (rule map_idI)
    fix c assume "c \<in> set (ht_counts ht)"
    then obtain i where i: "i < CFBasicHashGetNumBuckets ht" "c = ht_counts ht ! i"
      using len by (auto simp: in_set_conv_nth)
    from small [OF i(1)] up up' have "c < 2 ^ count_bits (?w + 1)" unfolding i(2) by linarith
    then show "c mod 2 ^ count_bits (?w + 1) = c" by simp
  qed
  then show "CFBasicHashBumpCounts ht = Some ?b"
    using w len by (cases ht) (simp add: CFBasicHashBumpCounts_def Let_def CFBasicHashGetNumBuckets_def)
  have cfg: "config ?b = config ht" by (simp add: config_def)
  have n: "CFBasicHashGetNumBuckets ?b = CFBasicHashGetNumBuckets ht" by (simp add: CFBasicHashGetNumBuckets_def)
  show "slots ?b = slots ht"
    unfolding slots_def n by (rule map_cong) (simp_all add: slot_at_def config_cong [OF cfg])
  have "bucket_ok ?b v k c h" if "bucket_ok ht v k c h" for v k c h
    using that up2 by (auto simp: bucket_ok_def config_cong [OF cfg])
  then show "stores_ok ?b" using ok w by (simp add: stores_ok_def n)
qed

lemma IncSlotCount_law:
  "stores_ok ht \<Longrightarrow> i < CFBasicHashGetNumBuckets ht \<Longrightarrow> slot_at ht i = Live k v c \<Longrightarrow>
   ht_counts_offset ht \<noteq> 0 \<Longrightarrow> c < LONG_MAX \<Longrightarrow>
   \<exists>ht'. CFBasicHashIncSlotCount ht i = Some ht' \<and> stores_ok ht' \<and> slots ht' = (slots ht)[i := Live k v (c + 1)]
     \<and> config ht' = config ht \<and> ht_used_buckets ht' = ht_used_buckets ht
     \<and> ht_num_buckets_idx ht' = ht_num_buckets_idx ht"
proof (induction "3 - ht_counts_width ht" arbitrary: ht)
  case (0 ht)
  then have w: "ht_counts_width ht = 3" by (simp add: stores_ok_def)
  note f = live_raw(5) [OF 0(2-4) 0(5)]
  have "c < 2 ^ (count_bits (ht_counts_width ht) - 1) - 1" using 0(6) by (simp add: w LONG_MAX_def count_bits_def)
  moreover have "i < length (ht_counts ht)" using 0 by (simp add: stores_ok_def)
  ultimately show ?case
    using set_count_law [OF 0(2-5), of "c + 1"] f
    by (simp add: CFBasicHashIncSlotCount.simps [of ht] config_def)
next
  case (Suc x ht)
  note f = live_raw(5) [OF Suc(3-5) Suc(6)]
  have len: "i < length (ht_counts ht)" using Suc(3,4,6) by (simp add: stores_ok_def)
  show ?case
  proof (cases "c < 2 ^ (count_bits (ht_counts_width ht) - 1) - 1")
    case True
    then show ?thesis
      using set_count_law [OF Suc(3-6), of "c + 1"] f len
      by (simp add: CFBasicHashIncSlotCount.simps [of ht] config_def)
  next
    case False
    have w: "ht_counts_width ht < 3" using Suc(2) by simp
    let ?b = "ht\<lparr>ht_counts_width := Suc (ht_counts_width ht)\<rparr>"
    note b = Bump_law [OF Suc(3,6) w]
    have n: "CFBasicHashGetNumBuckets ?b = CFBasicHashGetNumBuckets ht" by (simp add: CFBasicHashGetNumBuckets_def)
    have "slot_at ?b i = Live k v c" using b(3) Suc(4,5) n nth_slots [of i ht] nth_slots [of i ?b] by simp
    have "x = 3 - ht_counts_width ?b" using Suc(2) by simp
    from Suc(1) [OF this b(2) _ \<open>slot_at ?b i = _\<close> _ Suc(7)] b(3) Suc(4,6) n obtain ht' where
      "CFBasicHashIncSlotCount ?b i = Some ht'" "stores_ok ht'" "slots ht' = (slots ht)[i := Live k v (c + 1)]"
      "config ht' = config ?b" "ht_used_buckets ht' = ht_used_buckets ht"
      "ht_num_buckets_idx ht' = ht_num_buckets_idx ht" by auto
    with False f len b(1) show ?thesis
      by (simp add: CFBasicHashIncSlotCount.simps [of ht] config_def)
  qed
qed

lemma DecSlotCount_eq:
  assumes ok: "stores_ok ht" and i: "i < CFBasicHashGetNumBuckets ht" and l: "slot_at ht i = Live k v c"
    and co: "ht_counts_offset ht \<noteq> 0"
  shows "CFBasicHashDecSlotCount ht i = Some (ht\<lparr>ht_counts := (ht_counts ht)[i := c - 1]\<rparr>)"
proof -
  let ?b = "2 ^ count_bits (ht_counts_width ht) :: nat"
  note f = live_bucket(3,10) [OF ok i l]
  have "(2 :: nat) ^ (count_bits (ht_counts_width ht) - 1) \<le> ?b" by (intro power_increasing) simp_all
  then have c: "c < ?b" using f(2) [OF co] by (rule less_le_trans [rotated])
  obtain c' where c': "c = Suc c'" using f(1) by (cases c) auto
  then have "c + (?b - 1) = c' + ?b" by simp
  then have "(c + (?b - 1)) mod ?b = (c' + ?b) mod ?b" by (rule arg_cong)
  also have "\<dots> = c - 1" using c c' by simp
  finally have "(c + (?b - 1)) mod ?b = c - 1" .
  with live_raw(5) [OF ok i l co] i co ok show ?thesis
    by (simp add: CFBasicHashDecSlotCount_def Let_def stores_ok_def)
qed

lemma DecSlotCount_law:
  assumes ok: "stores_ok ht" and i: "i < CFBasicHashGetNumBuckets ht" and l: "slot_at ht i = Live k v c"
    and co: "ht_counts_offset ht \<noteq> 0" and c: "1 < c"
  shows "\<exists>ht'. CFBasicHashDecSlotCount ht i = Some ht' \<and> stores_ok ht' \<and> slots ht' = (slots ht)[i := Live k v (c - 1)]
     \<and> config ht' = config ht \<and> ht_used_buckets ht' = ht_used_buckets ht
     \<and> ht_num_buckets_idx ht' = ht_num_buckets_idx ht"
  using set_count_law [OF ok i l co, of "c - 1"] live_bucket(10) [OF ok i l co] c DecSlotCount_eq [OF ok i l co]
  by (simp add: config_def)

text \<open>A change of the count leaves the table well formed.\<close>

lemma recount_wf:
  assumes wf: "hash_wf ht" and i: "i < CFBasicHashGetNumBuckets ht" and l: "slot_at ht i = Live k v c"
    and t: "stores_ok t" "slots t = (slots ht)[i := Live k v c']" "config t = config ht"
      "ht_used_buckets t = ht_used_buckets ht" "ht_num_buckets_idx t = ht_num_buckets_idx ht"
  shows "hash_wf t" "add_mset (k, v, c) (entries (slots t)) = add_mset (k, v, c') (entries (slots ht))"
proof -
  note f = hash_wfD [OF wf]
  show e: "add_mset (k, v, c) (entries (slots t)) = add_mset (k, v, c') (entries (slots ht))"
    unfolding t(2) by (rule entries_replace) (use i l in auto)
  then have s: "size (entries (slots t)) = size (entries (slots ht))" by (metis size_add_mset nat.inject)
  have n: "CFBasicHashGetNumBuckets t = CFBasicHashGetNumBuckets ht"
    by (simp add: CFBasicHashGetNumBuckets_def t(5))
  have "table_ok (keyeq ht) (key_probe ht) (slots t)"
    unfolding t(2) by (rule table_ok_rename [OF f(3)]) (use i l in auto)
  then have "wf_table t"
    using t(1) by (simp add: wf_table_def config_cong [OF t(3)] key_probe_cong [OF t(3) n])
  with f s show "hash_wf t" by (simp add: hash_wf_def t CFBasicHashGetCapacity_def)
qed

section \<open>Removing\<close>

lemma set_count_step: "(ht_counts_offset ht \<noteq> 0 \<Longrightarrow> CFBasicHashDecSlotCount ht i = Some (ht\<lparr>ht_counts := cs\<rparr>)) \<Longrightarrow>
    (if ht_counts_offset ht \<noteq> 0 then CFBasicHashDecSlotCount ht i else Some ht)
     = Some (ht\<lparr>ht_counts := (if ht_counts_offset ht \<noteq> 0 then cs else ht_counts ht)\<rparr>)"
  by (cases "ht_counts_offset ht = 0") simp_all

lemma DecSlotCount_one:
  assumes "i < length (ht_counts ht)" "ht_counts ht ! i = 1" "ht_counts_width ht \<le> 3"
  shows "CFBasicHashDecSlotCount ht i = Some (ht\<lparr>ht_counts := (ht_counts ht)[i := 0]\<rparr>)"
proof -
  have "Suc 0 + (2 ^ count_bits (ht_counts_width ht) - Suc 0) = (2 :: nat) ^ count_bits (ht_counts_width ht)" by simp
  with assms show ?thesis by (simp add: CFBasicHashDecSlotCount_def Let_def del: add_Suc)
qed

definition shrink_step :: "CFBasicHash \<Rightarrow> CFBasicHash option" where
  "shrink_step ht = (if do_shrink ht then CFBasicHashRehash ht (-1)
     else if 0 = ht_deleted ht \<or> (20 \<le> CFBasicHashGetNumBuckets ht
         \<and> CFBasicHashGetNumBuckets ht div 4 \<le> unat (ht_deleted ht))
     then CFBasicHashRehash ht 0 else Some ht)"

lemma ex_arg_cong: "\<exists>a b c. x = y a b c \<Longrightarrow> \<exists>a b c. f x = f (y a b c)"
  by auto

lemma internal_RemoveValue_eq:
  assumes ok: "stores_ok ht" and p: "i < CFBasicHashGetNumBuckets ht" and l: "slot_at ht i = Live k v 1"
  shows "\<exists>cs m d. internal_RemoveValue ht (int i) = shrink_step ((write_bucket ht i (-1) (-1) 0 0)
      \<lparr>ht_mutations := m, ht_calls := cs, ht_used_buckets := (ht_used_buckets ht + (2 ^ 32 - 1)) mod 2 ^ 32,
       ht_deleted := d\<rparr>)"
proof -
  note f = live_raw [OF ok p l]
  have len: "length (ht_values ht) = CFBasicHashGetNumBuckets ht" "ht_counts_width ht \<le> 3"
    "ht_keys_offset ht \<noteq> 0 \<Longrightarrow> length (ht_keys ht) = CFBasicHashGetNumBuckets ht"
    "ht_counts_offset ht \<noteq> 0 \<Longrightarrow> length (ht_counts ht) = CFBasicHashGetNumBuckets ht"
    "ht_hashes_offset ht \<noteq> 0 \<Longrightarrow> length (ht_hashes ht) = CFBasicHashGetNumBuckets ht"
    using ok by (simp_all add: stores_ok_def)
  have idx: "store_index (int i) = Some i" by (simp add: store_index_def)
  show ?thesis
    unfolding internal_RemoveValue_def Let_def idx shrink_step_def [symmetric] Option.bind.bind_lunit
    apply (subst slot_set_value_live)
       apply (use p f len in simp)
      apply (use p f len in simp)
     apply (use p f len in simp)
    unfolding Option.bind.bind_lunit
    apply (subst set_key_step_live)
      apply (use p f len in simp)
     apply (use p f len in simp)
    unfolding Option.bind.bind_lunit
    apply (subst set_count_step [where cs = "(ht_counts ht)[i := 0]"])
     apply (subst DecSlotCount_one)
        apply (use p f len in simp)
       apply (use p f len in simp)
      apply (use p f len in simp)
     apply (use p f len in simp)
    unfolding Option.bind.bind_lunit
    apply (subst hash_step)
     apply (use p f len in simp)
    unfolding Option.bind.bind_lunit shrink_step_def [symmetric]
    apply (rule ex_arg_cong [where f = shrink_step])
    apply (cases ht)
    apply (simp add: write_bucket_def)
    done
qed

lemma shrink_step_law:
  assumes wf: "hash_wf ht" and con: "contract ht"
  obtains ht' where "shrink_step ht = Some ht'" "hash_wf ht'" "config ht' = config ht"
    "entries (slots ht') = entries (slots ht)"
proof -
  note f = hash_wfD [OF wf]
  have r1: "\<exists>ht'. CFBasicHashRehash ht (-1) = Some ht' \<and> hash_wf ht' \<and> config ht' = config ht
      \<and> entries (slots ht') = entries (slots ht)"
  proof -
    obtain idx where "rehash_index ht (-1) = Some idx" "idx \<le> 44"
      "ht_used_buckets ht \<le> CFBasicHashTableCapacities ! idx"
      by (rule rehash_index_shrink [of ht]) (use f(6) room_limit in auto)
    from Rehash_wf [OF f(2) con f(4,6) this] show ?thesis by metis
  qed
  have "rehash_index ht 0 = Some (ht_num_buckets_idx ht)" by (simp add: rehash_index_def)
  from Rehash_wf [OF f(2) con f(4,6) this f(7)] f(5)
  have r0: "\<exists>ht'. CFBasicHashRehash ht 0 = Some ht' \<and> hash_wf ht' \<and> config ht' = config ht
      \<and> entries (slots ht') = entries (slots ht)"
    by (metis CFBasicHashGetCapacity_def CFBasicHashGetCapacityForNumBuckets_def)
  have "\<exists>ht'. shrink_step ht = Some ht' \<and> hash_wf ht' \<and> config ht' = config ht
      \<and> entries (slots ht') = entries (slots ht)"
    unfolding shrink_step_def by (split if_split)+ (use r0 r1 wf in simp)
  with that show ?thesis by blast
qed

lemma internal_RemoveValue_law:
  assumes wf: "hash_wf ht" and con: "contract ht"
    and i: "i < CFBasicHashGetNumBuckets ht" and l: "slot_at ht i = Live k v 1"
  obtains ht' where "internal_RemoveValue ht (int i) = Some ht'" "hash_wf ht'" "config ht' = config ht"
    "add_mset (k, v, 1) (entries (slots ht')) = entries (slots ht)"
proof -
  note f = hash_wfD [OF wf]
  define w where "w = write_bucket ht i (-1) (-1) 0 0"
  have so: "slot_of ht (-1) (-1) 0 = Deleted" by (simp add: slot_of_def)
  have "bucket_ok ht (-1) (-1) 0 0" using so by (simp add: bucket_ok_def)
  note w = write_bucket_ok [OF f(1) i this, folded w_def, unfolded so]
  have cfg: "config w = config ht" by (simp add: w_def)
  have "table_ok (keyeq ht) (key_probe ht) (slots w)"
    unfolding w(2) by (rule table_ok_delete) (use f i in auto)
  moreover have "key_probe w = key_probe ht" by (rule key_probe_cong [OF cfg]) (simp add: w_def)
  ultimately have wfw: "wf_table w" using w(1) by (simp add: wf_table_def config_cong [OF cfg])
  have ent: "add_mset (k, v, 1) (entries (slots w)) = entries (slots ht)"
    unfolding w(2) by (rule entries_clear) (use i l in auto)
  then have size: "ht_used_buckets ht = Suc (size (entries (slots w)))" using f(4) by (metis size_add_mset)
  obtain cs m d where r: "internal_RemoveValue ht (int i) = shrink_step (w\<lparr>ht_mutations := m, ht_calls := cs,
      ht_used_buckets := (ht_used_buckets ht + (2 ^ 32 - 1)) mod 2 ^ 32, ht_deleted := d\<rparr>)"
    using internal_RemoveValue_eq [OF f(1) i l] unfolding w_def by blast
  let ?t = "w\<lparr>ht_mutations := m, ht_calls := cs,
      ht_used_buckets := (ht_used_buckets ht + (2 ^ 32 - 1)) mod 2 ^ 32, ht_deleted := d\<rparr>"
  have used: "(ht_used_buckets ht + (2 ^ 32 - 1)) mod 2 ^ 32 = size (entries (slots w))"
    using f(6) size by (simp add: room_limit_def)
  have wft: "hash_wf ?t"
    using wfw f(5,6) size unfolding used by (simp add: hash_wf_def CFBasicHashGetCapacity_def w_def)
  have c: "config ?t = config ht" using cfg by simp
  obtain ht' where "shrink_step ?t = Some ht'" "hash_wf ht'" "config ht' = config ?t"
    "entries (slots ht') = entries (slots ?t)"
    by (rule shrink_step_law [OF wft]) (use con imported_cong(3) [OF c] in auto)
  with r ent c that show ?thesis by simp
qed

end
