(* ===== verification/BasicHashMap.thy ===== *)
theory BasicHashMap
  imports BasicHashUpdates
begin

text \<open>
  The hash table as a finite map: \<open>content\<close> gives the entry stored under the keys equal to a key.
  Every public operation of \<open>CFBasicHash.c\<close> has its law on that map, and so have all histories of
  operations; then the reading operations, creation and the error cases.
\<close>

section \<open>The table as a map\<close>

text \<open>The abstract state: the entry (stored key, value and count) under the keys equal to a key.\<close>

definition content :: "CFBasicHash \<Rightarrow> u64 \<Rightarrow> entry option" where
  "content ht k = (case find (slot_matches (keyeq ht) k) (slots ht) of
     Some (Live k' v c) \<Rightarrow> Some (k', v, c) | _ \<Rightarrow> None)"

definition put :: "CFBasicHash \<Rightarrow> u64 \<Rightarrow> entry option \<Rightarrow> (u64 \<Rightarrow> entry option) \<Rightarrow> u64 \<Rightarrow> entry option" where
  "put ht k e m = (\<lambda>x. if keyeq ht x k then e else m x)"

definition entry_count :: "entry option \<Rightarrow> nat" where
  "entry_count e = (case e of None \<Rightarrow> 0 | Some (k, v, c) \<Rightarrow> c)"

lemma entry_option_eqI: "(\<And>k v c. x = Some (k, v, c) \<longleftrightarrow> y = Some (k, v, c)) \<Longrightarrow> x = y" for y :: "entry option"
  by (cases x; cases y) force+

lemma entry_unique:
  assumes wf: "hash_wf ht" and cb: "callbacks_ok ht" and a: "(k1, v1, c1) \<in># entries (slots ht)" "keyeq ht k1 k"
    and b: "(k2, v2, c2) \<in># entries (slots ht)" "keyeq ht k2 k"
  shows "(k1, v1, c1) = (k2, v2, c2)"
proof -
  obtain i where i: "i < length (slots ht)" "slots ht ! i = Live k1 v1 c1" using a(1) by (auto simp: in_entries)
  obtain j where j: "j < length (slots ht)" "slots ht ! j = Live k2 v2 c2" using b(1) by (auto simp: in_entries)
  have m: "slot_matches (keyeq ht) k (slots ht ! i)" "slot_matches (keyeq ht) k (slots ht ! j)"
    using i j a(2) b(2) by simp_all
  have "i = j"
    by (rule unique_match [OF hash_wfD(3) [OF wf] i(1) j(1) m callbacks_okD(1,2) [OF cb]])
  with i j show ?thesis by simp
qed

lemma content_Some:
  assumes wf: "hash_wf ht" and cb: "callbacks_ok ht"
  shows "content ht k = Some (k', v, c) \<longleftrightarrow> (k', v, c) \<in># entries (slots ht) \<and> keyeq ht k' k"
proof
  assume "content ht k = Some (k', v, c)"
  then have "find (slot_matches (keyeq ht) k) (slots ht) = Some (Live k' v c)"
    by (auto simp: content_def split: option.splits slot.splits)
  then obtain i where i: "i < length (slots ht)" "Live k' v c = slots ht ! i"
    "slot_matches (keyeq ht) k (slots ht ! i)" unfolding find_Some_iff by blast
  then have "keyeq ht k' k" by (metis slot_matches.simps(1))
  with i(1) i(2) [symmetric] show "(k', v, c) \<in># entries (slots ht) \<and> keyeq ht k' k" by (auto simp: in_entries)
next
  assume e: "(k', v, c) \<in># entries (slots ht) \<and> keyeq ht k' k"
  then obtain i where i: "i < length (slots ht)" "slots ht ! i = Live k' v c" by (auto simp: in_entries)
  then have "Live k' v c \<in> set (slots ht)" using nth_mem by metis
  then have "find (slot_matches (keyeq ht) k) (slots ht) \<noteq> None" using e by (auto simp: find_None_iff)
  then obtain s where s: "find (slot_matches (keyeq ht) k) (slots ht) = Some s" by auto
  then obtain j where j: "j < length (slots ht)" "slots ht ! j = s" "slot_matches (keyeq ht) k s"
    by (auto simp: find_Some_iff)
  then obtain k2 v2 c2 where l: "s = Live k2 v2 c2" "keyeq ht k2 k" by (cases s) auto
  with j have "(k2, v2, c2) \<in># entries (slots ht)" by (auto simp: in_entries)
  from entry_unique [OF wf cb this l(2)] e have "(k2, v2, c2) = (k', v, c)" by blast
  with s l show "content ht k = Some (k', v, c)" by (simp add: content_def)
qed

lemma content_None: "content ht k = None \<longleftrightarrow> (\<forall>s\<in>set (slots ht). \<not> slot_matches (keyeq ht) k s)"
proof -
  have "content ht k = None \<longleftrightarrow> find (slot_matches (keyeq ht) k) (slots ht) = None"
  proof (cases "find (slot_matches (keyeq ht) k) (slots ht)")
    case (Some s)
    then have "slot_matches (keyeq ht) k s" by (auto simp: find_Some_iff)
    with Some show ?thesis by (cases s) (auto simp: content_def)
  qed (simp add: content_def)
  then show ?thesis unfolding find_None_iff by blast
qed

lemma content_absent: "absent ht k b \<Longrightarrow> content ht k = None"
  by (simp add: content_None absent_def)

lemma content_found:
  assumes "hash_wf ht" "callbacks_ok ht" "found ht k b"
  obtains i k' v c where "i < CFBasicHashGetNumBuckets ht" "slot_at ht i = Live k' v c" "keyeq ht k' k"
    "b = live_bucket_at i k' v c" "content ht k = Some (k', v, c)"
proof -
  obtain i k' v c where i: "i < CFBasicHashGetNumBuckets ht" "slots ht ! i = Live k' v c" "keyeq ht k' k"
    "b = live_bucket_at i k' v c" using assms(3) by (auto simp: found_def)
  then have "(k', v, c) \<in># entries (slots ht)" by (auto simp: in_entries)
  then have "content ht k = Some (k', v, c)" using content_Some [OF assms(1,2)] i(3) by blast
  with i that show ?thesis by simp
qed

lemma content_same:
  assumes "hash_wf a" "hash_wf b" "callbacks_ok a" "config b = config a" "entries (slots b) = entries (slots a)"
  shows "content b = content a"
proof (rule ext)
  fix k
  have cb: "callbacks_ok b" using assms(3) callbacks_ok_config [OF assms(4)] by simp
  show "content b k = content a k"
    by (rule entry_option_eqI) (simp add: content_Some assms cb config_cong [OF assms(4)])
qed

text \<open>A change of the entries under one key is a change of the map there.\<close>

lemma content_put:
  assumes wf: "hash_wf a" "hash_wf b" and cb: "callbacks_ok a" and cfg: "config b = config a"
    and e: "e = None \<or> (\<exists>k' v c. e = Some (k', v, c) \<and> keyeq a k' k \<and> (k', v, c) \<in># entries (slots b))"
    and other: "\<And>k' v c. \<not> keyeq a k' k \<Longrightarrow>
      (k', v, c) \<in># entries (slots b) \<longleftrightarrow> (k', v, c) \<in># entries (slots a)"
    and none: "e = None \<Longrightarrow> (\<And>k' v c. (k', v, c) \<in># entries (slots b) \<Longrightarrow> \<not> keyeq a k' k)"
  shows "content b = put a k e (content a)"
proof (rule ext)
  fix x
  have cb': "callbacks_ok b" using cb callbacks_ok_config [OF cfg] by simp
  have ke: "keyeq b = keyeq a" by (rule config_cong [OF cfg])
  note eqs = callbacks_okD(1,2) [OF cb]
  have iff: "content b x = Some (k', v, c) \<longleftrightarrow> put a k e (content a) x = Some (k', v, c)" for k' v c
  proof (cases "keyeq a x k")
    case True
    have same: "keyeq a k' x \<longleftrightarrow> keyeq a k' k" using eqs True by blast
    show ?thesis
    proof (cases e)
      case None
      then show ?thesis using none same True by (auto simp: content_Some [OF wf(2) cb'] ke put_def)
    next
      case (Some e1)
      with e obtain k1 v1 c1 where 1: "e = Some (k1, v1, c1)" "keyeq a k1 k" "(k1, v1, c1) \<in># entries (slots b)" by auto
      have "(k', v, c) \<in># entries (slots b) \<and> keyeq a k' k \<longleftrightarrow> (k', v, c) = (k1, v1, c1)"
        using entry_unique [OF wf(2) cb', of k' v c k k1 v1 c1] 1 by (auto simp: ke)
      then show ?thesis using True 1 same by (auto simp: content_Some [OF wf(2) cb'] ke put_def)
    qed
  next
    case False
    then have "keyeq a k' x \<Longrightarrow> \<not> keyeq a k' k" using eqs by blast
    then show ?thesis using False other
      by (auto simp: content_Some [OF wf(2) cb'] content_Some [OF wf(1) cb] ke put_def)
  qed
  then show "content b x = put a k e (content a) x"
    by (rule entry_option_eqI)
qed

lemma content_add:
  assumes wf: "hash_wf a" "hash_wf b" and cb: "callbacks_ok a" and cfg: "config b = config a"
    and k': "keyeq a k' k" and e: "entries (slots b) = add_mset (k', v, c) (entries (slots a))"
  shows "content b = put a k (Some (k', v, c)) (content a)"
  by (rule content_put [OF wf cb cfg]) (use k' e in auto)

lemma content_swap:
  assumes wf: "hash_wf a" "hash_wf b" and cb: "callbacks_ok a" and cfg: "config b = config a"
    and k: "keyeq a k0 k" "keyeq a k' k"
    and e0: "(k0, v0, c0) \<in># entries (slots a)"
    and e: "add_mset (k0, v0, c0) (entries (slots b)) = add_mset (k', v, c) (entries (slots a))"
  shows "content b = put a k (Some (k', v, c)) (content a)"
proof -
  have "callbacks_ok b" using cb callbacks_ok_config [OF cfg] by simp
  have other: "(x, y, z) \<in># entries (slots b) \<longleftrightarrow> (x, y, z) \<in># entries (slots a)" if "\<not> keyeq a x k" for x y z
  proof -
    have "(x, y, z) \<in># add_mset (k0, v0, c0) (entries (slots b)) \<longleftrightarrow> (x, y, z) \<in># add_mset (k', v, c) (entries (slots a))"
      by (simp only: e)
    with that k show ?thesis by auto
  qed
  have "(k', v, c) \<in># entries (slots b)"
  proof (cases "(k', v, c) = (k0, v0, c0)")
    case True
    with e have "entries (slots b) = entries (slots a)" by simp
    with True e0 show ?thesis by simp
  next
    case False
    have "(k', v, c) \<in># add_mset (k0, v0, c0) (entries (slots b))" unfolding e by simp
    with False show ?thesis by auto
  qed
  with other k show ?thesis by (intro content_put [OF wf cb cfg]) auto
qed

lemma entry_once:
  assumes wf: "hash_wf ht" and e: "(k, v, c) \<in># entries (slots ht)"
    and c: "add_mset (k, v, c) es = entries (slots ht)"
  shows "(k, v, c) \<notin># es"
proof
  assume two: "(k, v, c) \<in># es"
  let ?ss = "slots ht"
  obtain i where i: "i < length ?ss" "?ss ! i = Live k v c" using e by (auto simp: in_entries)
  have "add_mset (k, v, c) (entries (?ss[i := Deleted])) = entries ?ss" by (rule entries_clear) (use i in auto)
  with c have "entries (?ss[i := Deleted]) = es" by (metis add_mset_add_mset_same_iff)
  with two have "(k, v, c) \<in># entries (?ss[i := Deleted])" by simp
  then obtain j where j: "j < length (?ss[i := Deleted])" "?ss[i := Deleted] ! j = Live k v c"
    unfolding in_entries by blast
  with i have "j \<noteq> i" "?ss ! j = Live k v c" by (auto simp: nth_list_update split: if_splits)
  moreover have "j < length ?ss" using j by simp
  moreover have "distinct_keys (keyeq ht) ?ss" using hash_wfD(3) [OF wf] by (simp add: table_ok_def)
  ultimately have "\<not> slot_matches (keyeq ht) k (?ss ! j)" using i j by (metis distinct_keysD)
  then show False using \<open>?ss ! j = Live k v c\<close> by simp
qed

lemma content_remove:
  assumes wf: "hash_wf a" "hash_wf b" and cb: "callbacks_ok a" and cfg: "config b = config a"
    and k: "keyeq a k0 k" and e: "add_mset (k0, v0, c0) (entries (slots b)) = entries (slots a)"
  shows "content b = put a k None (content a)"
proof -
  have e0: "(k0, v0, c0) \<in># entries (slots a)" by (simp add: e [symmetric])
  have other: "(x, y, z) \<in># entries (slots b) \<longleftrightarrow> (x, y, z) \<in># entries (slots a)" if "\<not> keyeq a x k" for x y z
    unfolding e [symmetric] using that k by auto
  have none: "\<not> keyeq a x k" if "(x, y, z) \<in># entries (slots b)" for x y z
  proof
    assume x: "keyeq a x k"
    have "(x, y, z) \<in># entries (slots a)" using that by (simp add: e [symmetric])
    from entry_unique [OF wf(1) cb this x e0 k] have "(x, y, z) = (k0, v0, c0)" .
    with that entry_once [OF wf(1) e0 e] show False by simp
  qed
  show ?thesis by (rule content_put [OF wf cb cfg disjI1 [OF refl]]) (use other none in blast)+
qed

section \<open>The public operations\<close>

definition usable :: "CFBasicHash \<Rightarrow> bool" where
  "usable ht \<longleftrightarrow> hash_wf ht \<and> contract ht \<and> ht_mutable ht"

lemma usable_result: "usable ht \<Longrightarrow> hash_wf ht' \<Longrightarrow> config ht' = config ht \<Longrightarrow> usable ht'"
  unfolding usable_def using imported_cong(3) [of ht' ht] configD(7) [of ht' ht] by blast

lemma used_swap: "hash_wf a \<Longrightarrow> hash_wf b \<Longrightarrow>
    add_mset e (entries (slots b)) = add_mset e' (entries (slots a)) \<Longrightarrow> ht_used_buckets b = ht_used_buckets a"
  by (metis hash_wfD(4) size_add_mset nat.inject)

lemma used_add: "hash_wf a \<Longrightarrow> hash_wf b \<Longrightarrow> entries (slots b) = add_mset e (entries (slots a)) \<Longrightarrow>
    ht_used_buckets b = Suc (ht_used_buckets a)"
  by (metis hash_wfD(4) size_add_mset)

lemma bucket_cases:
  assumes "hash_wf ht" "callbacks_ok ht"
  obtains (absent) b where "internal_FindBucket ht k = Some b" "absent ht k b" "bk_count b = 0" "content ht k = None"
  | (found) i k' v c where "internal_FindBucket ht k = Some (live_bucket_at i k' v c)" "0 < c"
      "i < CFBasicHashGetNumBuckets ht" "slot_at ht i = Live k' v c" "keyeq ht k' k"
      "content ht k = Some (k', v, c)" "(k', v, c) \<in># entries (slots ht)"
proof -
  obtain b where b: "internal_FindBucket ht k = Some b" "found ht k b \<or> absent ht k b"
    using FindBucket_law [OF hash_wfD(1) [OF assms(1)] assms(2) hash_wfD(3) [OF assms(1)]] by blast
  from b(2) show thesis
  proof
    assume "absent ht k b"
    with b content_absent show thesis by (intro absent) (auto simp: absent_def)
  next
    assume f: "found ht k b"
    show thesis
    proof (rule content_found [OF assms f])
      fix i k' v c
      assume *: "i < CFBasicHashGetNumBuckets ht" "slot_at ht i = Live k' v c" "keyeq ht k' k"
        "b = live_bucket_at i k' v c" "content ht k = Some (k', v, c)"
      then show thesis
        using found [of i k' v c] b(1) live_bucket(3) [OF hash_wfD(1) [OF assms(1)] *(1,2)]
          content_Some [OF assms] by blast
    qed
  qed
qed

lemma live_bucket_at_simps [simp]:
  "bk_idx (live_bucket_at i k v c) = int i" "bk_key (live_bucket_at i k v c) = Some k"
  "bk_value (live_bucket_at i k v c) = Some v" "bk_count (live_bucket_at i k v c) = c"
  "store_index (int i) = Some i"
  by (simp_all add: live_bucket_at_def store_index_def)

definition added_entry :: "CFBasicHash \<Rightarrow> u64 \<Rightarrow> u64 \<Rightarrow> entry option \<Rightarrow> entry" where
  "added_entry ht k v e = (case e of
     None \<Rightarrow> (imported_key ht k v, imported_value ht v, 1)
   | Some (k0, v0, c) \<Rightarrow> (k0, v0, if ht_counts_offset ht \<noteq> 0 \<and> c < LONG_MAX then c + 1 else c))"

lemma hash_AddValue_law:
  assumes u: "usable ht" and args: "args_ok ht k v" and room: "ht_used_buckets ht < room_limit"
  shows "\<exists>ht'. CFBasicHashAddValue ht k v
      = Some (ht', entry_count (content ht k) = 0 \<or> ht_counts_offset ht \<noteq> 0 \<and> entry_count (content ht k) < LONG_MAX)
    \<and> usable ht' \<and> config ht' = config ht
    \<and> content ht' = put ht k (Some (added_entry ht k v (content ht k))) (content ht)
    \<and> ht_used_buckets ht' \<le> Suc (ht_used_buckets ht)"
proof -
  have wf: "hash_wf ht" and con: "contract ht" and mut: "ht_mutable ht" using u by (simp_all add: usable_def)
  note cb = contractD [OF con]
  have magic: "\<not> is_magic k" "\<not> is_magic v" using args by (simp_all add: args_ok_def)
  from wf cb show ?thesis
  proof (cases rule: bucket_cases [where k = k])
    case (absent b)
    obtain ht' where h: "internal_AddValue ht (bk_idx b) k v = Some ht'" "hash_wf ht'" "config ht' = config ht"
      "entries (slots ht') = add_mset (imported_key ht k v, imported_value ht v, 1) (entries (slots ht))"
      by (rule internal_AddValue_law [OF wf con args room absent(2)])
    have "content ht' = put ht k (Some (added_entry ht k v (content ht k))) (content ht)"
      unfolding added_entry_def absent(4) option.case
      by (rule content_add [OF wf h(2) cb h(3) imported_ok(1) [OF con args] h(4)])
    moreover have "CFBasicHashAddValue ht k v = Some (ht', True)"
      using mut magic absent h(1) by (simp add: CFBasicHashAddValue_def)
    ultimately show ?thesis
      using usable_result [OF u h(2,3)] h(3) absent(4) used_add [OF wf h(2,4)] by (simp add: entry_count_def)
  next
    case (found i k' v0 c)
    let ?m = "ht\<lparr>ht_mutations := ht_mutations ht + 1\<rparr>"
    show ?thesis
    proof (cases "ht_counts_offset ht \<noteq> 0 \<and> c < LONG_MAX")
      case True
      have l: "slot_at ?m i = Live k' v0 c" using found(3,4) nth_slots [of i ?m] nth_slots [of i ht] by simp
      obtain t where t: "CFBasicHashIncSlotCount ?m i = Some t" "stores_ok t"
        "slots t = (slots ht)[i := Live k' v0 (c + 1)]" "config t = config ht"
        "ht_used_buckets t = ht_used_buckets ht" "ht_num_buckets_idx t = ht_num_buckets_idx ht"
        using IncSlotCount_law [of ?m i k' v0 c] hash_wfD(1) [OF wf] found(3) l True by auto
      note r = recount_wf [OF wf found(3,4) t(2-6)]
      have "CFBasicHashAddValue ht k v = Some (t, True)"
        using mut magic found(1,2) True t(1) by (simp add: CFBasicHashAddValue_def)
      moreover have "content t = put ht k (Some (added_entry ht k v (content ht k))) (content ht)"
        using content_swap [OF wf r(1) cb t(4) found(5,5,7) r(2)] True found(6) by (simp add: added_entry_def)
      ultimately show ?thesis
        using usable_result [OF u r(1) t(4)] t(4,5) True found(2,6) by (simp add: entry_count_def)
    next
      case False
      have "content ?m = content ht" by (rule content_same) (use wf cb in auto)
      moreover have "put ht k (content ht k) (content ht) = content ht"
      proof (rule ext)
        fix x show "put ht k (content ht k) (content ht) x = content ht x"
        proof (cases "keyeq ht x k")
          case True
          then have "keyeq ht k' x" using callbacks_okD(1,2) [OF cb] found(5) by blast
          then have "content ht x = Some (k', v0, c)" using content_Some [OF wf cb] found(7) by blast
          with True found(6) show ?thesis by (simp add: put_def)
        qed (simp add: put_def)
      qed
      moreover have "added_entry ht k v (content ht k) = (k', v0, c)" using False found(6) by (auto simp: added_entry_def)
      moreover have "CFBasicHashAddValue ht k v = Some (?m, False)"
        using mut magic found(1,2) False by (auto simp: CFBasicHashAddValue_def)
      ultimately show ?thesis using usable_result [OF u, of ?m] wf False found(2,6) by (auto simp: entry_count_def)
    qed
  qed
qed

definition set_entry :: "CFBasicHash \<Rightarrow> u64 \<Rightarrow> u64 \<Rightarrow> entry option \<Rightarrow> entry" where
  "set_entry ht k v e = (imported_key ht k v, imported_value ht v, max 1 (entry_count e))"

lemma Replace_bucket:
  assumes u: "usable ht" and args: "args_ok ht k v" and i: "i < CFBasicHashGetNumBuckets ht"
    and l: "slot_at ht i = Live k' v0 c" "keyeq ht k' k" "content ht k = Some (k', v0, c)"
      "(k', v0, c) \<in># entries (slots ht)" and c: "0 < c"
  shows "\<exists>ht'. internal_ReplaceValue ht (int i) k v = Some ht' \<and> usable ht' \<and> config ht' = config ht
    \<and> content ht' = put ht k (Some (set_entry ht k v (content ht k))) (content ht)
    \<and> ht_used_buckets ht' \<le> Suc (ht_used_buckets ht)"
proof -
  have wf: "hash_wf ht" and con: "contract ht" using u by (simp_all add: usable_def)
  note cb = contractD [OF con]
  obtain ht' where h: "internal_ReplaceValue ht (int i) k v = Some ht'" "hash_wf ht'" "config ht' = config ht"
    "add_mset (k', v0, c) (entries (slots ht')) = add_mset (imported_key ht k v, imported_value ht v, c) (entries (slots ht))"
    by (rule internal_ReplaceValue_law [OF wf con args i l(1,2)])
  have "content ht' = put ht k (Some (imported_key ht k v, imported_value ht v, c)) (content ht)"
    by (rule content_swap [OF wf h(2) cb h(3) l(2) imported_ok(1) [OF con args] l(4) h(4)])
  moreover have "set_entry ht k v (content ht k) = (imported_key ht k v, imported_value ht v, c)"
    using c l(3) by (simp add: set_entry_def entry_count_def)
  ultimately show ?thesis using h usable_result [OF u h(2,3)] used_swap [OF wf h(2,4)] by simp
qed

lemma SetValue_law:
  assumes u: "usable ht" and args: "args_ok ht k v" and room: "ht_used_buckets ht < room_limit"
  shows "\<exists>ht'. CFBasicHashSetValue ht k v = Some ht' \<and> usable ht' \<and> config ht' = config ht
    \<and> content ht' = put ht k (Some (set_entry ht k v (content ht k))) (content ht)
    \<and> ht_used_buckets ht' \<le> Suc (ht_used_buckets ht)"
proof -
  have wf: "hash_wf ht" and con: "contract ht" and mut: "ht_mutable ht" using u by (simp_all add: usable_def)
  note cb = contractD [OF con]
  have magic: "\<not> is_magic k" "\<not> is_magic v" using args by (simp_all add: args_ok_def)
  from wf cb show ?thesis
  proof (cases rule: bucket_cases [where k = k])
    case (absent b)
    obtain ht' where h: "internal_AddValue ht (bk_idx b) k v = Some ht'" "hash_wf ht'" "config ht' = config ht"
      "entries (slots ht') = add_mset (imported_key ht k v, imported_value ht v, 1) (entries (slots ht))"
      by (rule internal_AddValue_law [OF wf con args room absent(2)])
    have "content ht' = put ht k (Some (set_entry ht k v (content ht k))) (content ht)"
      unfolding set_entry_def absent(4)
      using content_add [OF wf h(2) cb h(3) imported_ok(1) [OF con args] h(4)] by (simp add: entry_count_def)
    moreover have "CFBasicHashSetValue ht k v = Some ht'"
      using mut magic absent h(1) by (simp add: CFBasicHashSetValue_def)
    ultimately show ?thesis using usable_result [OF u h(2,3)] h(3) used_add [OF wf h(2,4)] by simp
  next
    case (found i k' v0 c)
    with Replace_bucket [OF u args found(3-7) found(2)] mut magic show ?thesis
      by (simp add: CFBasicHashSetValue_def)
  qed
qed

lemma ReplaceValue_law:
  assumes u: "usable ht" and args: "args_ok ht k v"
  shows "\<exists>ht'. CFBasicHashReplaceValue ht k v = Some ht' \<and> usable ht' \<and> config ht' = config ht
    \<and> content ht' = (if content ht k = None then content ht
        else put ht k (Some (set_entry ht k v (content ht k))) (content ht))
    \<and> ht_used_buckets ht' \<le> Suc (ht_used_buckets ht)"
proof -
  have wf: "hash_wf ht" and con: "contract ht" and mut: "ht_mutable ht" using u by (simp_all add: usable_def)
  note cb = contractD [OF con]
  have magic: "\<not> is_magic k" "\<not> is_magic v" using args by (simp_all add: args_ok_def)
  from wf cb show ?thesis
  proof (cases rule: bucket_cases [where k = k])
    case (absent b)
    with u mut magic show ?thesis by (simp add: CFBasicHashReplaceValue_def)
  next
    case (found i k' v0 c)
    with Replace_bucket [OF u args found(3-7) found(2)] mut magic show ?thesis
      by (simp add: CFBasicHashReplaceValue_def)
  qed
qed

definition removed_entry :: "CFBasicHash \<Rightarrow> entry option \<Rightarrow> entry option" where
  "removed_entry ht e = (case e of None \<Rightarrow> None
   | Some (k, v, c) \<Rightarrow> if c = 1 then None else Some (k, v, if c < LONG_MAX then c - 1 else c))"

lemma remove_bucket_law:
  assumes u: "usable ht" and i: "i < CFBasicHashGetNumBuckets ht"
    and l: "slot_at ht i = Live k' v0 c" "keyeq ht k' k" "content ht k = Some (k', v0, c)"
      "(k', v0, c) \<in># entries (slots ht)" and c: "0 < c"
  shows "\<exists>ht'. remove_bucket ht (live_bucket_at i k' v0 c) = Some (ht', c) \<and> usable ht' \<and> config ht' = config ht
    \<and> content ht' = put ht k (removed_entry ht (content ht k)) (content ht)
    \<and> ht_used_buckets ht' \<le> Suc (ht_used_buckets ht)"
proof -
  have wf: "hash_wf ht" and con: "contract ht" using u by (simp_all add: usable_def)
  note cb = contractD [OF con]
  show ?thesis
  proof (cases "c = 1")
    case True
    obtain ht' where h: "internal_RemoveValue ht (int i) = Some ht'" "hash_wf ht'" "config ht' = config ht"
      "add_mset (k', v0, 1) (entries (slots ht')) = entries (slots ht)"
      by (rule internal_RemoveValue_law [OF wf con i l(1) [unfolded True]])
    from content_remove [OF wf h(2) cb h(3) l(2) h(4)] show ?thesis
      using h usable_result [OF u h(2,3)] True l(3) used_add [OF h(2) wf h(4) [symmetric]]
      by (simp add: remove_bucket_def removed_entry_def)
  next
    case False
    then have c1: "1 < c" using c by simp
    then have co: "ht_counts_offset ht \<noteq> 0" using live_bucket(11) [OF hash_wfD(1) [OF wf] i l(1)] by auto
    let ?m = "ht\<lparr>ht_mutations := ht_mutations ht + 1\<rparr>"
    have lm: "slot_at ?m i = Live k' v0 c" using i l(1) nth_slots [of i ?m] nth_slots [of i ht] by simp
    show ?thesis
    proof (cases "c < LONG_MAX")
      case True
      obtain t where t: "CFBasicHashDecSlotCount ?m i = Some t" "stores_ok t"
        "slots t = (slots ht)[i := Live k' v0 (c - 1)]" "config t = config ht"
        "ht_used_buckets t = ht_used_buckets ht" "ht_num_buckets_idx t = ht_num_buckets_idx ht"
        using DecSlotCount_law [of ?m i k' v0 c] hash_wfD(1) [OF wf] i lm co c1 by auto
      note r = recount_wf [OF wf i l(1) t(2-6)]
      from content_swap [OF wf r(1) cb t(4) l(2,2,4) r(2)] show ?thesis
        using t(1,4,5) usable_result [OF u r(1) t(4)] c1 co True l(3)
        by (simp add: remove_bucket_def removed_entry_def)
    next
      case False
      have "add_mset (k', v0, c) (entries (slots ?m)) = add_mset (k', v0, c) (entries (slots ht))" by simp
      from content_swap [OF wf _ cb _ l(2,2,4) this] have "content ?m = put ht k (Some (k', v0, c)) (content ht)"
        using wf by simp
      then show ?thesis
        using usable_result [OF u, of ?m] wf c1 False l(3) by (simp add: remove_bucket_def removed_entry_def)
    qed
  qed
qed

lemma RemoveValue_law:
  assumes u: "usable ht" and k: "\<not> is_magic k"
  shows "\<exists>ht'. CFBasicHashRemoveValue ht k = Some (ht', entry_count (content ht k)) \<and> usable ht'
    \<and> config ht' = config ht \<and> content ht' = put ht k (removed_entry ht (content ht k)) (content ht)
    \<and> ht_used_buckets ht' \<le> Suc (ht_used_buckets ht)"
proof -
  have wf: "hash_wf ht" and con: "contract ht" and mut: "ht_mutable ht" using u by (simp_all add: usable_def)
  note cb = contractD [OF con]
  from wf cb show ?thesis
  proof (cases rule: bucket_cases [where k = k])
    case (absent b)
    have "put ht k None (content ht) = content ht"
    proof (rule ext)
      fix x show "put ht k None (content ht) x = content ht x"
      proof (cases "keyeq ht x k")
        case True
        have "content ht x = None"
        proof (rule ccontr)
          assume "content ht x \<noteq> None"
          then obtain k' v c where "content ht x = Some (k', v, c)" by (cases "content ht x") auto
          then have e: "(k', v, c) \<in># entries (slots ht)" "keyeq ht k' x" by (simp_all add: content_Some [OF wf cb])
          then have "keyeq ht k' k" using True callbacks_okD(2) [OF cb] by blast
          with e content_Some [OF wf cb] absent(4) show False by (metis option.distinct(1))
        qed
        with True show ?thesis by (simp add: put_def)
      qed (simp add: put_def)
    qed
    with absent u mut k show ?thesis
      by (simp add: CFBasicHashRemoveValue_def remove_bucket_def removed_entry_def entry_count_def)
  next
    case (found i k' v0 c)
    with remove_bucket_law [OF u found(3-7) found(2)] mut k show ?thesis
      by (simp add: CFBasicHashRemoveValue_def entry_count_def)
  qed
qed

lemma usableD: "usable ht \<Longrightarrow> hash_wf ht" "usable ht \<Longrightarrow> contract ht" "usable ht \<Longrightarrow> callbacks_ok ht"
  "usable ht \<Longrightarrow> ht_mutable ht"
  by (simp_all add: usable_def contract_def)

lemma usable_off [simp]: "usable (ht\<lparr>ht_mutations := m\<rparr>) = usable ht" "usable (ht\<lparr>ht_calls := cs\<rparr>) = usable ht"
  by (simp_all add: usable_def imported_cong(3) [of "ht\<lparr>ht_mutations := m\<rparr>" ht]
      imported_cong(3) [of "ht\<lparr>ht_calls := cs\<rparr>" ht])

lemma SetCapacity_law:
  assumes u: "usable ht" and c: "capacity \<le> int room_limit"
  shows "\<exists>ht'. CFBasicHashSetCapacity ht capacity = Some ht' \<and> usable ht' \<and> config ht' = config ht
    \<and> content ht' = content ht \<and> ht_used_buckets ht' = ht_used_buckets ht
    \<and> capacity \<le> int (CFBasicHashGetCapacity ht')"
proof -
  note wf = usableD(1) [OF u]
  note f = hash_wfD [OF wf]
  show ?thesis
  proof (cases "int (ht_used_buckets ht) < capacity")
    case False
    with u f(5) show ?thesis by (simp add: CFBasicHashSetCapacity_def usable_def)
  next
    case True
    let ?m = "ht\<lparr>ht_mutations := ht_mutations ht + 1\<rparr>"
    let ?c = "capacity - int (ht_used_buckets ht)"
    obtain idx where i: "rehash_index ?m ?c = Some idx" "idx \<le> 44"
      "ht_used_buckets ?m + nat ?c \<le> CFBasicHashTableCapacities ! idx"
      by (rule rehash_index_grow [of ?m ?c]) (use True c in auto)
    have con: "contract ?m" using usableD(2) [OF u] imported_cong(3) [of ?m ht] by simp
    obtain t where t: "CFBasicHashRehash ?m ?c = Some t" "hash_wf t" "config t = config ?m"
      "ht_num_buckets_idx t = idx" "ht_used_buckets t = ht_used_buckets ?m"
      "entries (slots t) = entries (slots ?m)"
      by (rule Rehash_wf [OF _ con _ _ i(1,2)]) (use f i in auto)
    have "content t = content ht"
      by (rule content_same) (use wf t usableD(3) [OF u] in auto)
    with t i(3) True usable_result [OF u t(2)] show ?thesis
      by (simp add: CFBasicHashSetCapacity_def usableD(4) [OF u] CFBasicHashGetCapacity_def
          CFBasicHashGetCapacityForNumBuckets_def)
  qed
qed

lemma drain_loop_law: "set idxs \<subseteq> {..<length vs} \<Longrightarrow> (ht_keys_offset ht \<noteq> 0 \<Longrightarrow> length ks = length vs) \<Longrightarrow>
    \<exists>cs. drain_loop vs ks ht idxs = Some (ht\<lparr>ht_calls := cs\<rparr>)"
proof (induction idxs arbitrary: ht)
  case Nil
  show ?case by (rule exI [of _ "ht_calls ht"]) simp
next
  case (Cons i idxs)
  have e: "\<exists>cs. CFBasicHashEjectValue h v = h\<lparr>ht_calls := cs\<rparr>"
    "\<exists>cs. CFBasicHashEjectKey h v = h\<lparr>ht_calls := cs\<rparr>" for h v
  proof -
    have "h = h\<lparr>ht_calls := ht_calls h\<rparr>" by simp
    then show "\<exists>cs. CFBasicHashEjectValue h v = h\<lparr>ht_calls := cs\<rparr>" "\<exists>cs. CFBasicHashEjectKey h v = h\<lparr>ht_calls := cs\<rparr>"
      unfolding CFBasicHashEjectValue_def CFBasicHashEjectKey_def by (metis (full_types))+
  qed
  have "\<exists>cs. drain_bucket vs ks ht i = Some (ht\<lparr>ht_calls := cs\<rparr>)"
  proof -
    obtain cs where cs: "CFBasicHashEjectValue ht (sub_out (vs ! i)) = ht\<lparr>ht_calls := cs\<rparr>" using e by blast
    obtain cs' where cs': "CFBasicHashEjectKey (ht\<lparr>ht_calls := cs\<rparr>) (sub_out (ks ! i)) = ht\<lparr>ht_calls := cs'\<rparr>"
      using e(2) [of "ht\<lparr>ht_calls := cs\<rparr>"] by auto
    have self: "Some ht = Some (ht\<lparr>ht_calls := ht_calls ht\<rparr>)" by simp
    have i: "i < length vs" "ht_keys_offset ht \<noteq> 0 \<Longrightarrow> i < length ks" using Cons.prems by auto
    show ?thesis
    proof (cases "vs ! i \<noteq> 0 \<and> vs ! i \<noteq> -1")
      case True
      then have "drain_bucket vs ks ht i
          = Some (ht\<lparr>ht_calls := (if ht_keys_offset ht = 0 then cs else cs')\<rparr>)"
        using i by (simp add: drain_bucket_def cs cs')
      then show ?thesis by blast
    next
      case False
      then have "drain_bucket vs ks ht i = Some ht" using i by (auto simp: drain_bucket_def)
      then show ?thesis using self by metis
    qed
  qed
  then obtain cs where d: "drain_bucket vs ks ht i = Some (ht\<lparr>ht_calls := cs\<rparr>)" by blast
  with Cons.IH [of "ht\<lparr>ht_calls := cs\<rparr>"] Cons.prems show ?case by simp
qed

lemma empty_wf:
  assumes "ht_num_buckets_idx ht = 0" "ht_counts_width ht \<le> 3" "ht_hash_style ht = 1"
    "ht_keys_offset ht \<noteq> 0 \<longrightarrow> \<not> ht_indirect_keys ht" "ht_used_buckets ht = 0" "ht_values ht = []"
    "ht_keys_offset ht \<noteq> 0 \<longrightarrow> ht_keys ht = []" "ht_counts_offset ht \<noteq> 0 \<longrightarrow> ht_counts ht = []"
    "ht_hashes_offset ht \<noteq> 0 \<longrightarrow> ht_hashes ht = []"
  shows "hash_wf ht" "content ht = (\<lambda>k. None)"
proof -
  have n: "CFBasicHashGetNumBuckets ht = 0"
    by (simp add: CFBasicHashGetNumBuckets_def assms(1) CFBasicHashTableSizes_def)
  then have s: "slots ht = []" by (simp add: slots_def)
  have "stores_ok ht" using assms n by (simp add: stores_ok_def)
  moreover have "table_ok (keyeq ht) (key_probe ht) []" using table_ok_Empty [of _ _ 0] by simp
  ultimately show "hash_wf ht" using s assms by (simp add: hash_wf_def wf_table_def)
  show "content ht = (\<lambda>k. None)" by (simp add: content_def s fun_eq_iff)
qed

lemma RemoveAllValues_law:
  assumes u: "usable ht"
  shows "\<exists>ht'. CFBasicHashRemoveAllValues ht = Some ht' \<and> usable ht' \<and> config ht' = config ht
    \<and> content ht' = (\<lambda>k. None) \<and> ht_used_buckets ht' = 0"
proof -
  note wf = usableD(1) [OF u]
  note f = hash_wfD [OF wf]
  have s: "stores_ok ht" by (rule f(1))
  show ?thesis
  proof (cases "ht_num_buckets_idx ht = 0")
    case True
    then have n: "CFBasicHashGetNumBuckets ht = 0" using buckets_pos [OF s] by simp
    then have "ht_used_buckets ht = 0" using f(5,8) by simp
    moreover have "content ht = (\<lambda>k. None)"
      by (rule empty_wf) (use True s n calculation in \<open>auto simp: stores_ok_def\<close>)
    ultimately show ?thesis using True u by (simp add: CFBasicHashRemoveAllValues_def usable_def)
  next
    case False
    define t where "t = ht\<lparr>ht_values := [],
          ht_keys := (if ht_keys_offset ht \<noteq> 0 then [] else ht_keys ht),
          ht_counts := (if ht_counts_offset ht \<noteq> 0 then [] else ht_counts ht),
          ht_hashes := (if CFBasicHashHasHashCache ht then [] else ht_hashes ht),
          ht_mutations := ht_mutations ht + 1, ht_num_buckets_idx := 0,
          ht_used_buckets := 0, ht_deleted := 0\<rparr>"
    have cfg: "config t = config ht" by (simp add: t_def config_def)
    obtain cs where d: "drain_loop (ht_values ht) (ht_keys ht) t [0..<CFBasicHashGetNumBuckets ht]
        = Some (t\<lparr>ht_calls := cs\<rparr>)"
    proof -
      have "\<exists>cs. drain_loop (ht_values ht) (ht_keys ht) t [0..<CFBasicHashGetNumBuckets ht] = Some (t\<lparr>ht_calls := cs\<rparr>)"
        by (rule drain_loop_law) (use s in \<open>simp_all add: stores_ok_def configD [OF cfg] lessThan_atLeast0\<close>)
      with that show thesis by blast
    qed
    have w: "hash_wf (t\<lparr>ht_calls := cs\<rparr>)" "content (t\<lparr>ht_calls := cs\<rparr>) = (\<lambda>k. None)"
      by (rule empty_wf; use s in \<open>simp add: stores_ok_def t_def CFBasicHashHasHashCache_def\<close>)+
    have "CFBasicHashRemoveAllValues ht = Some (t\<lparr>ht_calls := cs\<rparr>)"
      unfolding CFBasicHashRemoveAllValues_def CFBasicHashDrain_def t_def [symmetric]
      using False d usableD(4) [OF u] by simp
    with w usable_result [OF u w(1)] cfg show ?thesis by (simp add: t_def)
  qed
qed

lemma if_SomeD: "(if P then None else Some x) = Some y \<Longrightarrow> y = x"
  by (cases P) simp_all

lemma Create_law:
  assumes c: "CFBasicHashCreate flags cb = Some ht" and style: "drop_bit 13 flags AND 3 = 1"
    and keys: "\<not> (bit flags 0 \<and> bit flags 12)" and con: "contract ht"
  shows "usable ht" "content ht = (\<lambda>k. None)" "ht_used_buckets ht = 0" "ht_callbacks ht = cb"
proof -
  note h = if_SomeD [OF c [unfolded CFBasicHashCreate_def Let_def]]
  have f: "ht_mutable ht" "ht_hash_style ht = 1" "ht_num_buckets_idx ht = 0" "ht_counts_width ht = 0"
    "ht_used_buckets ht = 0" "ht_values ht = []" "ht_keys ht = []" "ht_counts ht = []" "ht_hashes ht = []"
    "ht_keys_offset ht \<noteq> 0 \<longrightarrow> \<not> ht_indirect_keys ht" "ht_callbacks ht = cb"
    using keys style by (simp_all add: h)
  have w: "hash_wf ht" "content ht = (\<lambda>k. None)" by (rule empty_wf; simp add: f)+
  then show "usable ht" "content ht = (\<lambda>k. None)" using con f(1) by (simp_all add: usable_def)
  show "ht_used_buckets ht = 0" "ht_callbacks ht = cb" by (simp_all add: f)
qed

section \<open>Histories\<close>

datatype hash_op = Add u64 u64 | Set u64 u64 | Replace u64 u64 | Remove u64 | Remove_all | Capacity int

fun hash_step :: "CFBasicHash \<Rightarrow> hash_op \<Rightarrow> CFBasicHash option" where
  "hash_step ht (Add k v) = map_option fst (CFBasicHashAddValue ht k v)"
| "hash_step ht (Set k v) = CFBasicHashSetValue ht k v"
| "hash_step ht (Replace k v) = CFBasicHashReplaceValue ht k v"
| "hash_step ht (Remove k) = map_option fst (CFBasicHashRemoveValue ht k)"
| "hash_step ht Remove_all = CFBasicHashRemoveAllValues ht"
| "hash_step ht (Capacity c) = CFBasicHashSetCapacity ht c"

definition hash_run :: "CFBasicHash \<Rightarrow> hash_op list \<Rightarrow> CFBasicHash option" where
  "hash_run = run_steps hash_step"

text \<open>The same operations on the abstract map.\<close>

fun map_step :: "CFBasicHash \<Rightarrow> (u64 \<Rightarrow> entry option) \<Rightarrow> hash_op \<Rightarrow> u64 \<Rightarrow> entry option" where
  "map_step ht m (Add k v) = put ht k (Some (added_entry ht k v (m k))) m"
| "map_step ht m (Set k v) = put ht k (Some (set_entry ht k v (m k))) m"
| "map_step ht m (Replace k v) =
     (if m k = None then m else put ht k (Some (set_entry ht k v (m k))) m)"
| "map_step ht m (Remove k) = put ht k (removed_entry ht (m k)) m"
| "map_step ht m Remove_all = (\<lambda>k. None)"
| "map_step ht m (Capacity c) = m"

fun op_ok :: "CFBasicHash \<Rightarrow> hash_op \<Rightarrow> bool" where
  "op_ok ht (Add k v) = args_ok ht k v"
| "op_ok ht (Set k v) = args_ok ht k v"
| "op_ok ht (Replace k v) = args_ok ht k v"
| "op_ok ht (Remove k) = (\<not> is_magic k)"
| "op_ok ht Remove_all = True"
| "op_ok ht (Capacity c) = (c \<le> int room_limit)"

lemma hash_step_law:
  assumes u: "usable ht" and ok: "op_ok ht oper" and room: "ht_used_buckets ht < room_limit"
  shows "\<exists>ht'. hash_step ht oper = Some ht' \<and> usable ht' \<and> config ht' = config ht
    \<and> content ht' = map_step ht (content ht) oper \<and> ht_used_buckets ht' \<le> Suc (ht_used_buckets ht)"
proof (cases oper)
  case (Add k v) then show ?thesis using hash_AddValue_law [OF u _ room, of k v] ok by auto
next
  case (Set k v) then show ?thesis using SetValue_law [OF u _ room, of k v] ok by auto
next
  case (Replace k v) then show ?thesis using ReplaceValue_law [OF u, of k v] ok by auto
next
  case (Remove k) then show ?thesis using RemoveValue_law [OF u, of k] ok by auto
next
  case Remove_all then show ?thesis using RemoveAllValues_law [OF u] by auto
next
  case (Capacity c) then show ?thesis using SetCapacity_law [OF u, of c] ok by auto
qed

lemma map_step_cong:
  assumes "config a = config b"
  shows "map_step a m oper = map_step b m oper"
proof -
  have "put a = put b" "added_entry a = added_entry b" "set_entry a = set_entry b"
    "removed_entry a = removed_entry b"
    by (intro ext, simp only: put_def added_entry_def set_entry_def removed_entry_def
        imported_cong [OF assms] config_cong [OF assms] configD [OF assms])+
  then show ?thesis by (cases oper) simp_all
qed

lemma op_ok_cong:
  assumes "config a = config b"
  shows "op_ok a oper = op_ok b oper"
  by (cases oper) (simp_all only: op_ok.simps imported_cong [OF assms])

lemma config_idem [simp]: "config (config ht) = config ht"
  by (simp add: config_def)

lemma map_step_config [simp]: "map_step (config ht) = map_step ht"
  by (intro ext, rule fun_cong [OF map_step_cong]) simp

lemma op_ok_config [simp]: "op_ok (config ht) = op_ok ht"
  by (rule ext, rule op_ok_cong) simp

interpretation hash: history hash_step content usable config map_step op_ok "\<lambda>ht. room_limit - ht_used_buckets ht"
proof
  fix ht oper
  assume u: "usable ht" and ok: "op_ok (config ht) oper" and room: "0 < room_limit - ht_used_buckets ht"
  show "\<exists>ht'. hash_step ht oper = Some ht' \<and> usable ht' \<and> config ht' = config ht
      \<and> content ht' = map_step (config ht) (content ht) oper
      \<and> room_limit - ht_used_buckets ht \<le> Suc (room_limit - ht_used_buckets ht')"
    using hash_step_law [OF u, of oper] ok room by fastforce
qed

lemma hash_run_law:
  assumes "usable ht" "\<forall>oper\<in>set ops. op_ok ht oper" "ht_used_buckets ht + length ops \<le> room_limit"
  shows "\<exists>ht'. hash_run ht ops = Some ht' \<and> usable ht' \<and> config ht' = config ht
     \<and> content ht' = foldl (map_step ht) (content ht) ops"
proof -
  have "length ops \<le> room_limit - ht_used_buckets ht" using assms(3) by arith
  with hash.run_law [of ht ops] assms(1,2) show ?thesis by (auto simp: hash_run_def)
qed

section \<open>Reading the table\<close>

definition bucket_of :: "nat \<Rightarrow> slot \<Rightarrow> CFBasicHashBucket" where
  "bucket_of i s = (case s of Live k v c \<Rightarrow> live_bucket_at i k v c
   | _ \<Rightarrow> \<lparr>bk_idx = int i, bk_key = Some 0, bk_value = Some 0, bk_count = 0\<rparr>)"

lemma GetBucket_law:
  assumes ok: "stores_ok ht" and i: "i < CFBasicHashGetNumBuckets ht"
  shows "CFBasicHashGetBucket ht i = Some (bucket_of i (slot_at ht i))"
proof (cases "slot_at ht i")
  case (Live k v c)
  show ?thesis
    using live_bucket(1,2,5,6) [OF ok i Live] Live
    by (simp add: CFBasicHashGetBucket_def bucket_of_def live_bucket_at_def split del: if_split)
qed (use ok i slot_at_free [of ht i] in \<open>simp_all add: CFBasicHashGetBucket_def CFBasicHashIsEmptyOrDeleted_def
    bucket_of_def stores_ok_def\<close>)

lemma bucket_of_count: "stores_ok ht \<Longrightarrow> i < CFBasicHashGetNumBuckets ht \<Longrightarrow>
    0 < bk_count (bucket_of i (slot_at ht i)) \<longleftrightarrow> slot_at ht i \<noteq> Empty \<and> slot_at ht i \<noteq> Deleted"
  using live_bucket(3) [of ht i] by (cases "slot_at ht i") (auto simp: bucket_of_def)

fun slot_elements :: "slot \<Rightarrow> (u64 \<times> u64) list" where
  "slot_elements (Live k v c) = replicate c (v, k)"
| "slot_elements _ = []"

definition elements :: "CFBasicHash \<Rightarrow> (u64 \<times> u64) list" where
  "elements ht = concat (map slot_elements (slots ht))"

lemma no_entries: "entries ss = {#} \<Longrightarrow> s \<in> set ss \<Longrightarrow> s = Empty \<or> s = Deleted"
  using size_entries [of ss] by (auto simp: filter_empty_conv)

lemma drop_slots: "i < CFBasicHashGetNumBuckets ht \<Longrightarrow> drop i (slots ht) = slot_at ht i # drop (Suc i) (slots ht)"
  by (simp add: Cons_nth_drop_Suc [symmetric])

lemma get_elements_loop_law:
  assumes ok: "stores_ok ht"
  shows "i \<le> CFBasicHashGetNumBuckets ht \<Longrightarrow> used = size (entries (drop i (slots ht))) \<Longrightarrow>
    get_elements_loop ht len [i..<CFBasicHashGetNumBuckets ht] used (take len pre)
     = Some (take len (pre @ concat (map slot_elements (drop i (slots ht)))))"
proof (induction "CFBasicHashGetNumBuckets ht - i" arbitrary: i used pre)
  case 0
  then show ?case by simp
next
  case (Suc x)
  let ?n = "CFBasicHashGetNumBuckets ht"
  have i: "i < ?n" "x = ?n - Suc i" "Suc i \<le> ?n" using Suc.hyps(2) by simp_all
  have upt: "[i..<?n] = i # [Suc i..<?n]" using i by (simp add: upt_rec)
  show ?case
  proof (cases "0 < used \<and> length (take len pre) < len")
    case False
    then consider "used = 0" | "len \<le> length pre" by fastforce
    then show ?thesis
    proof cases
      case 1
      then have "entries (drop i (slots ht)) = {#}" using Suc.prems(2) by simp
      then have "slot_elements s = []" if "s \<in> set (drop i (slots ht))" for s
        using no_entries that by fastforce
      then have "concat (map slot_elements (drop i (slots ht))) = []" by simp
      then show ?thesis using 1 unfolding upt by simp
    next
      case 2
      then show ?thesis unfolding upt by simp
    qed
  next
    case True
    then have pre: "take len pre = pre" "length pre < len" by auto
    show ?thesis
    proof (cases "slot_at ht i")
      case (Live k v c)
      have c: "0 < c" by (rule live_bucket(3) [OF ok i(1) Live])
      have ent: "used - 1 = size (entries (drop (Suc i) (slots ht)))"
        using Suc.prems(2) Live by (simp add: drop_slots [OF i(1)])
      have "pre @ replicate (min c (len - length pre)) (v, k) = take len (pre @ replicate c (v, k))"
        using pre by (simp add: min.commute)
      with Suc.hyps(1) [OF i(2,3) ent, of "pre @ replicate c (v, k)"] show ?thesis
        using True pre Live c unfolding upt
        by (simp add: GetBucket_law [OF ok i(1)] bucket_of_def drop_slots [OF i(1)])
    qed (use Suc.hyps(1) [OF i(2,3), of used pre] Suc.prems(2) True upt in
        \<open>simp_all add: GetBucket_law [OF ok i(1)] bucket_of_def drop_slots [OF i(1)]\<close>)
  qed
qed

lemma GetElements_law:
  assumes "hash_wf ht"
  shows "CFBasicHashGetElements ht len = Some (take len (elements ht))"
  using get_elements_loop_law [OF hash_wfD(1) [OF assms], of 0 "ht_used_buckets ht" len "[]"] hash_wfD(4) [OF assms]
  by (simp add: CFBasicHashGetElements_def elements_def)

lemma apply_loop_law:
  assumes ok: "stores_ok ht"
  shows "i \<le> CFBasicHashGetNumBuckets ht \<Longrightarrow> used = size (entries (drop i (slots ht))) \<Longrightarrow>
    apply_loop_buckets ht (\<lambda>s b. do { v \<leftarrow> bk_value b; Some (g s v (bk_count b), True) })
      [i..<CFBasicHashGetNumBuckets ht] used s
     = Some (foldl (\<lambda>s t. case t of Live k v c \<Rightarrow> g s v c | _ \<Rightarrow> s) s (drop i (slots ht)))"
proof (induction "CFBasicHashGetNumBuckets ht - i" arbitrary: i used s)
  case 0
  then show ?case by simp
next
  case (Suc x)
  let ?n = "CFBasicHashGetNumBuckets ht"
  have i: "i < ?n" "x = ?n - Suc i" "Suc i \<le> ?n" using Suc.hyps(2) by simp_all
  have upt: "[i..<?n] = i # [Suc i..<?n]" using i by (simp add: upt_rec)
  show ?case
  proof (cases "0 < used")
    case False
    then have "entries (drop i (slots ht)) = {#}" using Suc.prems(2) by simp
    note free = no_entries [OF this]
    have "foldl (\<lambda>s t. case t of Live k v c \<Rightarrow> g s v c | _ \<Rightarrow> s) s ts = s"
      if "\<forall>t\<in>set ts. t = Empty \<or> t = Deleted" for ts
      using that by (induction ts) auto
    with free False show ?thesis unfolding upt by simp
  next
    case True
    show ?thesis
    proof (cases "slot_at ht i")
      case (Live k v c)
      have c: "0 < c" by (rule live_bucket(3) [OF ok i(1) Live])
      have ent: "used - 1 = size (entries (drop (Suc i) (slots ht)))"
        using Suc.prems(2) Live by (simp add: drop_slots [OF i(1)])
      from Suc.hyps(1) [OF i(2,3) ent, of "g s v c"] show ?thesis
        using True Live c unfolding upt
        by (simp add: GetBucket_law [OF ok i(1)] bucket_of_def drop_slots [OF i(1)])
    qed (use Suc.hyps(1) [OF i(2,3), of used s] Suc.prems(2) True upt in
        \<open>simp_all add: GetBucket_law [OF ok i(1)] bucket_of_def drop_slots [OF i(1)]\<close>)
  qed
qed

lemma foldl_sum_entries:
  "foldl (\<lambda>s t. case t of Live k v c \<Rightarrow> if P v then s + c else s | _ \<Rightarrow> s) s ss
    = s + (\<Sum>(k, v, c)\<in>#entries ss. if P v then c else 0)"
proof (induction ss arbitrary: s)
  case (Cons t ss)
  then show ?case by (cases t) (simp_all add: add.assoc)
qed simp

lemma GetCountOfValue_law:
  assumes wf: "hash_wf ht" and k: "ht_keys_offset ht \<noteq> 0" and v: "CFBasicHashSubABZero \<noteq> v"
  shows "CFBasicHashGetCountOfValue ht v
    = Some (\<Sum>(k', v', c)\<in>#entries (slots ht). if v = v' \<or> CFBasicHashTestEqualValue ht v' v then c else 0)"
proof -
  note f = hash_wfD [OF wf]
  have if_push: "(if P then total + n else total, True) = (\<lambda>s. (s, True)) (if P then total + n else total)"
    for P and total n :: nat by simp
  show ?thesis
  proof (cases "ht_used_buckets ht = 0")
    case True
    with f(4) v show ?thesis by (simp add: CFBasicHashGetCountOfValue_def)
  next
    case False
    have "CFBasicHashApply ht
        (\<lambda>total bkt. do { w \<leftarrow> bk_value bkt;
           Some (if v = w \<or> CFBasicHashTestEqualValue ht w v then total + bk_count bkt else total, True) }) 0
      = Some (foldl (\<lambda>s t. case t of Live k w c \<Rightarrow>
           if v = w \<or> CFBasicHashTestEqualValue ht w v then s + c else s | _ \<Rightarrow> s) 0 (slots ht))"
      unfolding CFBasicHashApply_def
      using apply_loop_law [OF f(1), of 0 "ht_used_buckets ht"
          "\<lambda>s w c. if v = w \<or> CFBasicHashTestEqualValue ht w v then s + c else s" 0] f(4) by simp
    with False k v show ?thesis
      by (simp add: CFBasicHashGetCountOfValue_def foldl_sum_entries)
  qed
qed

lemma GetCountOfKey_law:
  assumes wf: "hash_wf ht" and cb: "callbacks_ok ht" and k: "\<not> is_magic k"
  shows "CFBasicHashGetCountOfKey ht k = Some (entry_count (content ht k))"
proof (cases "ht_used_buckets ht = 0")
  case True
  then have "entries (slots ht) = {#}" using hash_wfD(4) [OF wf] by simp
  then have "content ht k = None" using content_Some [OF wf cb] by (cases "content ht k") auto
  with True k show ?thesis by (simp add: CFBasicHashGetCountOfKey_def entry_count_def)
next
  case False
  from wf cb show ?thesis
    by (cases rule: bucket_cases [where k = k])
      (use False k in \<open>simp_all add: CFBasicHashGetCountOfKey_def entry_count_def\<close>)
qed

lemma sum_slot_counts_law:
  assumes ok: "stores_ok ht" and co: "ht_counts_offset ht \<noteq> 0"
  shows "i \<le> CFBasicHashGetNumBuckets ht \<Longrightarrow> sum_slot_counts ht [i..<CFBasicHashGetNumBuckets ht]
    = Some (\<Sum>(k, v, c)\<in>#entries (drop i (slots ht)). c)"
proof (induction "CFBasicHashGetNumBuckets ht - i" arbitrary: i)
  case 0
  then show ?case by simp
next
  case (Suc x)
  let ?n = "CFBasicHashGetNumBuckets ht"
  have i: "i < ?n" "x = ?n - Suc i" "Suc i \<le> ?n" using Suc.hyps(2) by simp_all
  have upt: "[i..<?n] = i # [Suc i..<?n]" using i by (simp add: upt_rec)
  have b: "bucket_ok ht (ht_values ht ! i) (ht_keys ht ! i) (ht_counts ht ! i) (ht_hashes ht ! i)"
    "ht_counts_width ht \<le> 3" "i < length (ht_counts ht)"
    using ok i co by (simp_all add: stores_ok_def)
  then have "CFBasicHashGetSlotCount ht i = Some (ht_counts ht ! i)" by (simp add: CFBasicHashGetSlotCount_def)
  moreover have "ht_counts ht ! i = (\<Sum>(k, v, c)\<in>#slot_entries (slot_at ht i). c)"
  proof (cases "slot_at ht i")
    case (Live k v c)
    then show ?thesis using live_raw(5) [OF ok i(1) Live co] by simp
  qed (use b(1) co slot_at_free [of ht i] in \<open>simp_all add: bucket_ok_def\<close>)
  ultimately show ?case
    using Suc.hyps(1) [OF i(2,3)] unfolding upt drop_slots [OF i(1)] by simp
qed

lemma GetCount_law:
  assumes wf: "hash_wf ht"
  shows "CFBasicHashGetCount ht = Some (\<Sum>(k, v, c)\<in>#entries (slots ht). c)"
proof (cases "ht_counts_offset ht = 0")
  case False
  with sum_slot_counts_law [OF hash_wfD(1) [OF wf] False, of 0] show ?thesis by (simp add: CFBasicHashGetCount_def)
next
  case True
  have one: "c = 1" if e: "(k, v, c) \<in># entries (slots ht)" for k v c
  proof -
    obtain i where i: "i < CFBasicHashGetNumBuckets ht" "slot_at ht i = Live k v c"
      using e by (auto simp: in_entries)
    show ?thesis by (rule live_bucket(11) [OF hash_wfD(1) [OF wf] i True])
  qed
  have "(\<Sum>(k, v, c)\<in>#entries (slots ht). c) = (\<Sum>e\<in>#entries (slots ht). 1)"
  proof (rule arg_cong [of _ _ sum_mset], rule image_mset_cong)
    fix e assume "e \<in># entries (slots ht)"
    then show "(case e of (k, v, c) \<Rightarrow> c) = 1" using one [of "fst e" "fst (snd e)" "snd (snd e)"]
      by (simp add: case_prod_beta)
  qed
  also have "\<dots> = size (entries (slots ht))" by (rule size_eq_sum_mset [symmetric])
  finally show ?thesis using True hash_wfD(4) [OF wf] by (simp only: CFBasicHashGetCount_def) simp
qed

lemma entries_elements: "mset (map (\<lambda>(v, k). (k, v)) (concat (map slot_elements ss)))
    = (\<Sum>(k, v, c)\<in>#entries ss. replicate_mset c (k, v))"
proof (induction ss)
  case (Cons s ss)
  then show ?case by (cases s) simp_all
qed simp

section \<open>Properties\<close>

text \<open>C1. Refinement of a map: for every history of additions, settings, replacements, removals,
  clearings and capacity requests, of any length up to the room of the table, the hash table with
  linear probing never halts and ends in a well-formed table whose content is what the history
  gives on the abstract map: an addition stores the retained key and value with count one, or adds
  one to the count; a setting replaces the value; a removal takes one off the count and drops the
  entry at zero; clearing empties, and growing and shrinking change nothing.\<close>

theorem CFBasicHash_histories_refine:
  assumes "usable ht" "\<forall>oper\<in>set ops. op_ok ht oper" "ht_used_buckets ht + length ops \<le> room_limit"
  shows "\<exists>ht'. hash_run ht ops = Some ht' \<and> usable ht' \<and> config ht' = config ht
    \<and> content ht' = foldl (map_step ht) (content ht) ops"
  by (rule hash_run_law [OF assms])

text \<open>C19. Lookup: CFBasicHashFindBucket always returns, with the stored key, value and count of the
  entry under an equal key, or with count zero exactly when there is none; CFBasicHashGetCountOfKey
  returns that count, CFBasicHashGetCount the sum of all counts and CFBasicHashGetCountOfValue the
  sum over the entries with an equal value.\<close>

theorem CFBasicHash_lookup:
  assumes "hash_wf ht" "callbacks_ok ht" "\<not> is_magic k" "CFBasicHashSubABZero \<noteq> v"
  shows "(\<exists>b. CFBasicHashFindBucket ht k = Some b \<and> bk_count b = entry_count (content ht k)
      \<and> (case content ht k of None \<Rightarrow> True
         | Some (k', v', c) \<Rightarrow> 0 < c \<and> keyeq ht k' k \<and> bk_key b = Some k' \<and> bk_value b = Some v'))
    \<and> CFBasicHashGetCountOfKey ht k = Some (entry_count (content ht k))
    \<and> CFBasicHashGetCount ht = Some (\<Sum>(k', v', c)\<in>#entries (slots ht). c)
    \<and> (ht_keys_offset ht = 0 \<or> CFBasicHashGetCountOfValue ht v
        = Some (\<Sum>(k', v', c)\<in>#entries (slots ht). if v = v' \<or> CFBasicHashTestEqualValue ht v' v then c else 0))"
proof -
  from assms(1,2) have "\<exists>b. CFBasicHashFindBucket ht k = Some b \<and> bk_count b = entry_count (content ht k)
      \<and> (case content ht k of None \<Rightarrow> True
         | Some (k', v', c) \<Rightarrow> 0 < c \<and> keyeq ht k' k \<and> bk_key b = Some k' \<and> bk_value b = Some v')"
    by (cases rule: bucket_cases [where k = k])
      (use assms(3) in \<open>simp_all add: CFBasicHashFindBucket_def entry_count_def\<close>)
  then show ?thesis
    using GetCountOfKey_law [OF assms(1-3)] GetCount_law [OF assms(1)] GetCountOfValue_law [OF assms(1) _ assms(4)]
    by blast
qed

text \<open>C27. Bounds of CFBasicHashGetElements: it writes a prefix of the elements, never more than the
  buffers hold, and all of them, each as often as its count, when the buffers are large enough.\<close>

theorem CFBasicHashGetElements_bounds:
  assumes "hash_wf ht"
  shows "\<exists>es. CFBasicHashGetElements ht bufferslen = Some es
    \<and> length es = min bufferslen (the (CFBasicHashGetCount ht))
    \<and> mset (map (\<lambda>(v, k). (k, v)) es) \<subseteq># (\<Sum>(k, v, c)\<in>#entries (slots ht). replicate_mset c (k, v))
    \<and> (bufferslen < the (CFBasicHashGetCount ht)
        \<or> mset (map (\<lambda>(v, k). (k, v)) es) = (\<Sum>(k, v, c)\<in>#entries (slots ht). replicate_mset c (k, v)))"
proof -
  let ?es = "elements ht"
  have len: "length (concat (map slot_elements ss)) = (\<Sum>(k, v, c)\<in>#entries ss. c)" for ss
  proof (induction ss)
    case (Cons s ss)
    then show ?case by (cases s) simp_all
  qed simp
  have ms: "mset (map (\<lambda>(v, k). (k, v)) (take n ?es)) \<subseteq># mset (map (\<lambda>(v, k). (k, v)) ?es)" for n
    by (metis append_take_drop_id map_append mset_append mset_subset_eq_add_left)
  have "bufferslen < length ?es \<or> take bufferslen ?es = ?es" by auto
  then show ?thesis
    using GetElements_law [OF assms, of bufferslen] GetCount_law [OF assms] len [of "slots ht"]
      ms [of bufferslen] entries_elements [of "slots ht"]
    unfolding elements_def by (elim disjE) (simp_all add: min.commute)
qed

text \<open>C26. Error behaviour: on a well-formed table the updating operations halt exactly when the
  table is immutable or the key or the value given is one of the two reserved words; removal and
  clearing halt on an immutable table only.\<close>

theorem CFBasicHash_halts:
  assumes "hash_wf ht" "contract ht" "ht_used_buckets ht < room_limit"
    "ht_keys_offset ht = 0 \<Longrightarrow> k = value_key ht v"
  shows "(CFBasicHashAddValue ht k v = None \<longleftrightarrow> \<not> ht_mutable ht \<or> is_magic k \<or> is_magic v)
    \<and> (CFBasicHashSetValue ht k v = None \<longleftrightarrow> \<not> ht_mutable ht \<or> is_magic k \<or> is_magic v)
    \<and> (CFBasicHashReplaceValue ht k v = None \<longleftrightarrow> \<not> ht_mutable ht \<or> is_magic k \<or> is_magic v)
    \<and> (CFBasicHashRemoveValue ht k = None \<longleftrightarrow> \<not> ht_mutable ht)
    \<and> (CFBasicHashRemoveAllValues ht = None \<longleftrightarrow> \<not> ht_mutable ht)"
proof (cases "ht_mutable ht")
  case False
  then show ?thesis
    by (simp add: CFBasicHashAddValue_def CFBasicHashSetValue_def CFBasicHashReplaceValue_def
        CFBasicHashRemoveValue_def CFBasicHashRemoveAllValues_def)
next
  case True
  with assms have u: "usable ht" by (simp add: usable_def)
  have rem: "CFBasicHashRemoveValue ht k \<noteq> None"
    using RemoveValue_law [OF u, of k] True by (cases "is_magic k") (auto simp: CFBasicHashRemoveValue_def)
  have all: "CFBasicHashRemoveAllValues ht \<noteq> None" using RemoveAllValues_law [OF u] by auto
  show ?thesis
  proof (cases "is_magic k \<or> is_magic v")
    case True
    with rem all show ?thesis using \<open>ht_mutable ht\<close>
      by (auto simp: CFBasicHashAddValue_def CFBasicHashSetValue_def CFBasicHashReplaceValue_def)
  next
    case False
    then have args: "args_ok ht k v" using assms(4) by (auto simp: args_ok_def)
    show ?thesis
      using hash_AddValue_law [OF u args assms(3)] SetValue_law [OF u args assms(3)] ReplaceValue_law [OF u args]
        rem all True False by auto
  qed
qed

section \<open>Examples\<close>

text \<open>A counted dictionary of pointers with linear hashing, a cache of hash codes and no callbacks.\<close>

definition null_callbacks :: CFBasicHashCallbacks where
  "null_callbacks = \<lparr>cb_retainValue = None, cb_retainKey = None, cb_releaseValue = False,
     cb_releaseKey = False, cb_equateValues = None, cb_equateKeys = None, cb_hashKey = None,
     cb_getIndirectKey = None\<rparr>"

definition example_table :: CFBasicHash where
  "example_table = the (CFBasicHashCreate 0x2007 null_callbacks)"

lemma null_contract: "ht_callbacks ht = null_callbacks \<Longrightarrow> contract ht"
  by (auto simp: contract_def callbacks_ok_def keyeq_def CFBasicHashTestEqualKey_def imported_value_def
      CFBasicHashImportValue_def CFBasicHashImportKey_def null_callbacks_def)

lemma example_created: "CFBasicHashCreate 0x2007 null_callbacks = Some example_table"
  by (simp add: example_table_def CFBasicHashCreate_def Let_def)

lemma example_config: "ht_callbacks example_table = null_callbacks" "ht_keys_offset example_table = 1"
  "ht_counts_offset example_table = 2"
  by (simp_all add: example_table_def CFBasicHashCreate_def Let_def)

lemma hash_example_facts: "usable example_table" "content example_table = (\<lambda>k. None)"
  "ht_used_buckets example_table = 0"
  using Create_law [OF example_created _ _ null_contract [OF example_config(1)]] by simp_all

lemma example_imports: "keyeq example_table a b \<longleftrightarrow> a = b" "imported_key example_table k v = k"
  "imported_value example_table v = v"
  by (simp_all add: keyeq_def CFBasicHashTestEqualKey_def imported_key_def imported_value_def
      CFBasicHashImportKey_def CFBasicHashImportValue_def example_config null_callbacks_def)

lemma small_not_magic: "unat k < 1000 \<Longrightarrow> \<not> is_magic k"
  by (auto simp: is_magic_def CFBasicHashSubABZero_def CFBasicHashSubABOne_def)

theorem CFBasicHash_histories_refine_witness:
  "\<exists>ht'. hash_run example_table [Set 5 7, Add 5 8, Remove 6] = Some ht'
    \<and> content ht' 5 = Some (5, 7, 2) \<and> content ht' 6 = None"
proof -
  have ok: "\<forall>oper\<in>set [Set 5 7, Add 5 8, Remove 6]. op_ok example_table oper"
    by (simp add: args_ok_def small_not_magic example_config)
  have room: "ht_used_buckets example_table + length [Set 5 7, Add 5 8, Remove 6] \<le> room_limit"
    by (simp add: hash_example_facts room_limit_def)
  from CFBasicHash_histories_refine [OF hash_example_facts(1) ok room] show ?thesis
    by (auto simp: hash_example_facts(2) put_def example_imports set_entry_def added_entry_def removed_entry_def
        example_config LONG_MAX_def entry_count_def)
qed

theorem CFBasicHash_lookup_witness:
  "CFBasicHashGetCountOfKey example_table 5 = Some 0"
  using CFBasicHash_lookup [of example_table 5 7] usableD [OF hash_example_facts(1)]
  by (simp add: small_not_magic hash_example_facts(2) entry_count_def CFBasicHashSubABZero_def)

theorem CFBasicHashGetElements_bounds_witness:
  "\<exists>es. CFBasicHashGetElements example_table 4 = Some es \<and> length es \<le> 4"
  using CFBasicHashGetElements_bounds [of example_table 4] usableD(1) [OF hash_example_facts(1)] by auto

theorem CFBasicHash_halts_witness:
  "CFBasicHashAddValue example_table CFBasicHashSubABZero 1 = None \<and> CFBasicHashAddValue example_table 5 7 \<noteq> None"
proof -
  have u: "hash_wf example_table" "contract example_table" "ht_mutable example_table"
    "ht_used_buckets example_table < room_limit"
    using usableD [OF hash_example_facts(1)] by (simp_all add: hash_example_facts(3) room_limit_def)
  have z: "is_magic CFBasicHashSubABZero" by (simp add: is_magic_def)
  show ?thesis
    using CFBasicHash_halts [OF u(1,2,4), of CFBasicHashSubABZero 1] CFBasicHash_halts [OF u(1,2,4), of 5 7]
    by (simp add: z u(3) small_not_magic example_config)
qed

end
