(* ===== verification/HashCollections.thy ===== *)
theory HashCollections
  imports BasicHashMap
begin

text \<open>
  \<open>CFDictionary.c\<close>, \<open>CFSet.c\<close> and \<open>CFBag.c\<close>, three instances of one template over
  \<open>CFBasicHash\<close>: creation, copies, reading and updating, for collections of CoreFoundation and
  without the garbage collector.  A collection to copy may also be a Foundation object (\<open>Foreign\<close>),
  known by its elements.  The callbacks of the CF types, functions of the runtime, are parameters.
\<close>

section \<open>What the three files share\<close>

record CFHashKeyCallBacks =
  kc_retain :: "(u64 \<Rightarrow> u64) option"
  kc_release :: bool
  kc_equal :: "(u64 \<Rightarrow> u64 \<Rightarrow> bool) option"
  kc_hash :: "(u64 \<Rightarrow> u64) option"

record CFHashValueCallBacks =
  vc_retain :: "(u64 \<Rightarrow> u64) option"
  vc_release :: bool
  vc_equal :: "(u64 \<Rightarrow> u64 \<Rightarrow> bool) option"

datatype hash_object = Native CFBasicHash | Foreign "(u64 \<times> u64) list"

definition kCFBasicHashLinearHashing :: u64 where "kCFBasicHashLinearHashing = push_bit 13 1"
definition kCFBasicHashHasKeys :: u64 where "kCFBasicHashHasKeys = push_bit 0 1"
definition kCFBasicHashHasCounts :: u64 where "kCFBasicHashHasCounts = push_bit 1 1"

definition hash_callbacks :: "CFHashKeyCallBacks option \<Rightarrow> CFHashValueCallBacks option \<Rightarrow> bool
    \<Rightarrow> CFBasicHashCallbacks" where
  "hash_callbacks keyCallBacks valueCallBacks useValueCB =
     (let retainKey = Option.bind keyCallBacks kc_retain;
          releaseKey = (case keyCallBacks of Some cb \<Rightarrow> kc_release cb | None \<Rightarrow> False);
          equateKeys = Option.bind keyCallBacks kc_equal in
      \<lparr>cb_retainValue = (if useValueCB then Option.bind valueCallBacks vc_retain else retainKey),
        cb_retainKey = retainKey,
        cb_releaseValue = (if useValueCB
          then (case valueCallBacks of Some cb \<Rightarrow> vc_release cb | None \<Rightarrow> False) else releaseKey),
        cb_releaseKey = releaseKey,
        cb_equateValues = (if useValueCB then Option.bind valueCallBacks vc_equal else equateKeys),
        cb_equateKeys = equateKeys,
        cb_hashKey = Option.bind keyCallBacks kc_hash,
        cb_getIndirectKey = None\<rparr>)"

fun hash_add_values :: "CFBasicHash \<Rightarrow> u64 list \<Rightarrow> u64 list \<Rightarrow> nat list \<Rightarrow> CFBasicHash option" where
  "hash_add_values ht klist vlist [] = Some ht"
| "hash_add_values ht klist vlist (idx # idxs) =
     do { k \<leftarrow> rd klist idx; v \<leftarrow> rd vlist idx;
          (ht, added) \<leftarrow> CFBasicHashAddValue ht k v;
          hash_add_values ht klist vlist idxs }"

text \<open>The capacity request and the loop of additions of every creation function.\<close>

definition hash_fill :: "CFBasicHash \<Rightarrow> u64 list \<Rightarrow> u64 list \<Rightarrow> int \<Rightarrow> CFBasicHash option" where
  "hash_fill ht klist vlist numValues =
     do { ht \<leftarrow> (if 0 < numValues then CFBasicHashSetCapacity ht numValues else Some ht);
          hash_add_values ht klist vlist [0..<nat numValues] }"


section \<open>Laws of creation\<close>

lemma hash_add_values_run: "\<forall>i\<in>set idxs. i < length klist \<and> i < length vlist \<Longrightarrow>
    hash_add_values ht klist vlist idxs = hash_run ht (map (\<lambda>i. Add (klist ! i) (vlist ! i)) idxs)"
proof (induction idxs arbitrary: ht)
  case (Cons i idxs)
  then show ?case by (cases "CFBasicHashAddValue ht (klist ! i) (vlist ! i)") (auto simp: hash_run_def)
qed (simp add: hash_run_def)

lemma flip_mutable [simp]:
  "slots (ht\<lparr>ht_mutable := b\<rparr>) = slots ht" "keyeq (ht\<lparr>ht_mutable := b\<rparr>) = keyeq ht"
  "content (ht\<lparr>ht_mutable := b\<rparr>) = content ht" "hash_wf (ht\<lparr>ht_mutable := b\<rparr>) = hash_wf ht"
  "callbacks_ok (ht\<lparr>ht_mutable := b\<rparr>) = callbacks_ok ht" "contract (ht\<lparr>ht_mutable := b\<rparr>) = contract ht"
proof -
  have sl: "slot_at (ht\<lparr>ht_mutable := b\<rparr>) = slot_at ht" "slot_of (ht\<lparr>ht_mutable := b\<rparr>) = slot_of ht"
    by (simp_all add: fun_eq_iff slot_at_def slot_of_def value_key_def CFBasicHashGetIndirectKey_def)
  have n: "CFBasicHashGetNumBuckets (ht\<lparr>ht_mutable := b\<rparr>) = CFBasicHashGetNumBuckets ht"
    by (simp add: CFBasicHashGetNumBuckets_def)
  show s: "slots (ht\<lparr>ht_mutable := b\<rparr>) = slots ht" by (simp add: slots_def sl n)
  show k: "keyeq (ht\<lparr>ht_mutable := b\<rparr>) = keyeq ht" by (simp add: fun_eq_iff keyeq_def CFBasicHashTestEqualKey_def)
  show "content (ht\<lparr>ht_mutable := b\<rparr>) = content ht" by (simp add: fun_eq_iff content_def s k)
  have h: "CFBasicHashHashKey (ht\<lparr>ht_mutable := b\<rparr>) = CFBasicHashHashKey ht"
    by (simp add: fun_eq_iff CFBasicHashHashKey_def)
  have p: "key_probe (ht\<lparr>ht_mutable := b\<rparr>) = key_probe ht" by (simp add: fun_eq_iff key_probe_def n h)
  show "hash_wf (ht\<lparr>ht_mutable := b\<rparr>) = hash_wf ht"
    by (simp add: hash_wf_def wf_table_def stores_ok_def bucket_ok_def s k n h p sl CFBasicHashGetCapacity_def)
  show c: "callbacks_ok (ht\<lparr>ht_mutable := b\<rparr>) = callbacks_ok ht" by (simp add: callbacks_ok_def k h)
  have "imported_value (ht\<lparr>ht_mutable := b\<rparr>) = imported_value ht"
    "value_key (ht\<lparr>ht_mutable := b\<rparr>) = value_key ht"
    "CFBasicHashImportKey (ht\<lparr>ht_mutable := b\<rparr>) = CFBasicHashImportKey ht"
    by (simp_all add: fun_eq_iff imported_value_def CFBasicHashImportValue_def value_key_def
        CFBasicHashGetIndirectKey_def CFBasicHashImportKey_def split: option.split)
  then show "contract (ht\<lparr>ht_mutable := b\<rparr>) = contract ht" by (simp add: contract_def c k)
qed

lemma hash_fill_law:
  assumes u: "usable ht" "content ht = (\<lambda>k. None)" "ht_used_buckets ht = 0"
    and len: "nat n \<le> length klist" "nat n \<le> length vlist" "n \<le> int room_limit"
    and args: "\<forall>i<nat n. args_ok ht (klist ! i) (vlist ! i)"
  shows "\<exists>ht'. hash_fill ht klist vlist n = Some ht' \<and> usable ht' \<and> config ht' = config ht
    \<and> content ht' = foldl (map_step ht) (\<lambda>k. None) (map2 Add (take (nat n) klist) (take (nat n) vlist))"
proof -
  obtain t where t: "(if 0 < n then CFBasicHashSetCapacity ht n else Some ht) = Some t" "usable t"
    "config t = config ht" "content t = (\<lambda>k. None)" "ht_used_buckets t = 0"
  proof (cases "0 < n")
    case True
    with SetCapacity_law [OF u(1) len(3)] u(2,3) that show thesis by auto
  next
    case False with u that show thesis by simp
  qed
  let ?ops = "map (\<lambda>i. Add (klist ! i) (vlist ! i)) [0..<nat n]"
  have ops: "?ops = map2 Add (take (nat n) klist) (take (nat n) vlist)"
    by (rule nth_equalityI) (use len in auto)
  have ok: "\<forall>oper\<in>set ?ops. op_ok t oper" using args by (auto simp: imported_cong(4) [OF t(3)])
  have room: "ht_used_buckets t + length ?ops \<le> room_limit" using t(5) len(3) by simp
  have step: "map_step t = map_step ht" by (intro ext, rule fun_cong [OF map_step_cong [OF t(3)]])
  have "hash_add_values t klist vlist [0..<nat n] = hash_run t ?ops"
    by (rule hash_add_values_run) (use len in auto)
  with hash_run_law [OF t(2) ok room] t(1,3,4) show ?thesis
    unfolding ops by (auto simp: hash_fill_def step)
qed

text \<open>The first of the elements with an equal key decides the entry; the later ones only count.\<close>

definition keyed :: "CFBasicHash \<Rightarrow> (u64 \<Rightarrow> 'a) \<Rightarrow> bool" where
  "keyed ht m \<longleftrightarrow> (\<forall>a b. keyeq ht a b \<longrightarrow> m a = m b)"

fun added_all :: "CFBasicHash \<Rightarrow> entry option \<Rightarrow> (u64 \<times> u64) list \<Rightarrow> entry option" where
  "added_all ht e [] = e"
| "added_all ht e ((k, v) # kvs) = added_all ht (Some (added_entry ht k v e)) kvs"

lemma keyed_put: "callbacks_ok ht \<Longrightarrow> keyed ht m \<Longrightarrow> keyed ht (put ht k e m)"
  by (auto simp: keyed_def put_def dest: callbacks_okD(1,2))

lemma foldl_add:
  assumes cb: "callbacks_ok ht"
  shows "keyed ht m \<Longrightarrow> foldl (map_step ht) m (map (\<lambda>(k, v). Add k v) kvs) x
    = added_all ht (m x) (filter (\<lambda>(k, v). keyeq ht x k) kvs)"
proof (induction kvs arbitrary: m)
  case (Cons kv kvs)
  obtain k v where kv: "kv = (k, v)" by force
  have "keyeq ht x k \<Longrightarrow> m k = m x" using Cons.prems callbacks_okD(1) [OF cb] by (auto simp: keyed_def)
  with Cons.IH [OF keyed_put [OF cb Cons.prems, of k "Some (added_entry ht k v (m k))"]]
  show ?case by (simp add: kv put_def)
qed simp

lemma added_all_Some: "ht_counts_offset ht = 0 \<or> c + length kvs \<le> LONG_MAX \<Longrightarrow>
    added_all ht (Some (k, v, c)) kvs = Some (k, v, if ht_counts_offset ht = 0 then c else c + length kvs)"
  by (induction kvs arbitrary: c) (auto simp: added_entry_def)

lemma added_all_None: "ht_counts_offset ht = 0 \<or> length kvs \<le> LONG_MAX \<Longrightarrow>
    added_all ht None kvs = (case kvs of [] \<Rightarrow> None
      | (k, v) # _ \<Rightarrow> Some (imported_key ht k v, imported_value ht v, if ht_counts_offset ht = 0 then 1 else length kvs))"
  by (cases kvs) (auto simp: added_entry_def added_all_Some)

text \<open>What creation leaves in the table, by a search of the given elements.\<close>

lemma hash_fill_content:
  assumes u: "usable ht" "content ht = (\<lambda>k. None)" "ht_used_buckets ht = 0"
    and len: "nat n \<le> length klist" "nat n \<le> length vlist" "n \<le> int room_limit"
    and args: "\<forall>i<nat n. args_ok ht (klist ! i) (vlist ! i)"
  shows "\<exists>ht'. hash_fill ht klist vlist n = Some ht' \<and> usable ht' \<and> config ht' = config ht
    \<and> (\<forall>x. content ht' x = (case filter (\<lambda>(k, v). keyeq ht x k) (take (nat n) (zip klist vlist)) of [] \<Rightarrow> None
      | (k, v) # kvs \<Rightarrow> Some (imported_key ht k v, imported_value ht v,
          if ht_counts_offset ht = 0 then 1 else Suc (length kvs))))"
proof -
  have cb: "callbacks_ok ht" by (rule usableD(3) [OF u(1)])
  obtain ht' where ht': "hash_fill ht klist vlist n = Some ht'" "usable ht'" "config ht' = config ht"
    "content ht' = foldl (map_step ht) (\<lambda>k. None) (map2 Add (take (nat n) klist) (take (nat n) vlist))"
    using hash_fill_law [OF assms] by blast
  have "content ht' x = (case filter (\<lambda>(k, v). keyeq ht x k) (take (nat n) (zip klist vlist)) of [] \<Rightarrow> None
      | (k, v) # kvs \<Rightarrow> Some (imported_key ht k v, imported_value ht v,
          if ht_counts_offset ht = 0 then 1 else Suc (length kvs)))" for x
  proof -
    let ?kvs = "filter (\<lambda>(k, v). keyeq ht x k) (take (nat n) (zip klist vlist))"
    have "length ?kvs \<le> length (take (nat n) (zip klist vlist))" by (rule length_filter_le)
    then have "length ?kvs \<le> nat n" by (rule le_trans) simp
    then have "length ?kvs \<le> LONG_MAX" using len(3) by (simp add: room_limit_def LONG_MAX_def)
    moreover have "content ht' x = added_all ht None ?kvs"
      unfolding ht'(4) take_zip [symmetric] by (rule foldl_add [OF cb]) (simp add: keyed_def)
    ultimately show ?thesis by (simp only: added_all_None simp_thms) (simp split: list.split)
  qed
  with ht' show ?thesis by blast
qed

lemma Create_some: "CFBasicHashCreate kCFBasicHashLinearHashing cb \<noteq> None"
  "CFBasicHashCreate (kCFBasicHashLinearHashing OR kCFBasicHashHasKeys) cb \<noteq> None"
  "CFBasicHashCreate (kCFBasicHashLinearHashing OR kCFBasicHashHasCounts) cb \<noteq> None"
  by (simp_all add: CFBasicHashCreate_def Let_def kCFBasicHashLinearHashing_def kCFBasicHashHasKeys_def
      kCFBasicHashHasCounts_def)

text \<open>What the collections keep of the content: equal keys share an entry, its count is positive,
  and one without counts.\<close>

lemma content_keyed: "hash_wf ht \<Longrightarrow> callbacks_ok ht \<Longrightarrow> keyed ht (content ht)"
  unfolding keyed_def
proof (intro allI impI)
  fix a b
  assume wf: "hash_wf ht" and cb: "callbacks_ok ht" and eq: "keyeq ht a b"
  have "keyeq ht k a \<longleftrightarrow> keyeq ht k b" for k using eq callbacks_okD(1,2) [OF cb] by blast
  then show "content ht a = content ht b" by (intro entry_option_eqI) (simp add: content_Some [OF wf cb])
qed

lemma content_count:
  assumes wf: "hash_wf ht" and cb: "callbacks_ok ht" and e: "content ht x = Some (k, v, c)"
  shows "0 < c" "ht_counts_offset ht = 0 \<Longrightarrow> c = 1" "keyeq ht k x"
    "ht_keys_offset ht = 0 \<Longrightarrow> k = value_key ht v"
proof -
  have m: "(k, v, c) \<in># entries (slots ht)" "keyeq ht k x" using e by (simp_all add: content_Some [OF wf cb])
  then obtain i where i: "i < CFBasicHashGetNumBuckets ht" "slot_at ht i = Live k v c" by (auto simp: in_entries)
  show "0 < c" "ht_counts_offset ht = 0 \<Longrightarrow> c = 1" "ht_keys_offset ht = 0 \<Longrightarrow> k = value_key ht v"
    using live_bucket(3,8,11) [OF hash_wfD(1) [OF wf] i] by blast+
  show "keyeq ht k x" by (rule m(2))
qed

lemma FindBucket_content:
  assumes "hash_wf ht" "callbacks_ok ht" "\<not> is_magic k"
  shows "\<exists>b. CFBasicHashFindBucket ht k = Some b \<and> bk_count b = entry_count (content ht k)
    \<and> (\<forall>k' v c. content ht k = Some (k', v, c) \<longrightarrow> 0 < c \<and> bk_key b = Some k' \<and> bk_value b = Some v)"
  using assms(1,2)
  by (cases rule: bucket_cases [where k = k])
    (use assms(3) in \<open>simp_all add: CFBasicHashFindBucket_def entry_count_def\<close>)

lemma entry_count_pos:
  "hash_wf ht \<Longrightarrow> callbacks_ok ht \<Longrightarrow> 0 < entry_count (content ht k) \<longleftrightarrow> content ht k \<noteq> None"
  by (cases "content ht k") (auto simp: entry_count_def dest: content_count(1))

lemma find_by_filter: "find P xs = (case filter P xs of [] \<Rightarrow> None | x # _ \<Rightarrow> Some x)"
  by (induction xs) auto

lemma Create_callbacks: "CFBasicHashCreate flags cb = Some ht \<Longrightarrow> ht_callbacks ht = cb"
  unfolding CFBasicHashCreate_def Let_def by (drule if_SomeD) simp

lemma null_imports:
  assumes "ht_callbacks ht = null_callbacks"
  shows "keyeq ht a b \<longleftrightarrow> a = b" "imported_value ht v = v"
  using assms by (simp_all add: keyeq_def CFBasicHashTestEqualKey_def imported_value_def
      CFBasicHashImportValue_def null_callbacks_def)

lemma ex_take: "m \<le> length xs \<Longrightarrow> (\<exists>y\<in>set (take m xs). P y) \<longleftrightarrow> (\<exists>i<m. P (xs ! i))"
  by (auto simp: nth_image [symmetric])

section \<open>Collections without keys\<close>

text \<open>The updates that sets and bags share, as operations of the hash table on the member itself.\<close>

datatype member_op = MemberAdd u64 | MemberReplace u64 | MemberSet u64 | MemberRemove u64 | MemberRemoveAll

fun member_ok :: "member_op \<Rightarrow> bool" where
  "member_ok (MemberAdd k) \<longleftrightarrow> \<not> is_magic k"
| "member_ok (MemberReplace k) \<longleftrightarrow> \<not> is_magic k"
| "member_ok (MemberSet k) \<longleftrightarrow> \<not> is_magic k"
| "member_ok (MemberRemove k) \<longleftrightarrow> \<not> is_magic k"
| "member_ok MemberRemoveAll \<longleftrightarrow> True"

fun member_hash_op :: "member_op \<Rightarrow> hash_op" where
  "member_hash_op (MemberAdd k) = Add k k"
| "member_hash_op (MemberReplace k) = Replace k k"
| "member_hash_op (MemberSet k) = Set k k"
| "member_hash_op (MemberRemove k) = Remove k"
| "member_hash_op MemberRemoveAll = Remove_all"

definition keyless :: "CFBasicHash \<Rightarrow> bool" where
  "keyless ht \<longleftrightarrow> usable ht \<and> ht_keys_offset ht = 0 \<and> \<not> ht_indirect_keys ht"

lemma keyless_step:
  assumes k: "keyless ht" and ok: "member_ok oper" and room: "ht_used_buckets ht < room_limit"
  obtains ht' where "hash_step ht (member_hash_op oper) = Some ht'" "keyless ht'" "config ht' = config ht"
    "content ht' = map_step ht (content ht) (member_hash_op oper)" "ht_used_buckets ht' \<le> Suc (ht_used_buckets ht)"
proof -
  have u: "usable ht" using k by (simp add: keyless_def)
  have "op_ok ht (member_hash_op oper)" using ok k
    by (cases oper) (simp_all add: args_ok_def keyless_def value_key_def)
  then obtain ht' where h: "hash_step ht (member_hash_op oper) = Some ht'" "usable ht'" "config ht' = config ht"
    "content ht' = map_step ht (content ht) (member_hash_op oper)" "ht_used_buckets ht' \<le> Suc (ht_used_buckets ht)"
    using hash_step_law [OF u _ room] by blast
  have "keyless ht'" using h(2) configD(3,6) [OF h(3)] k by (simp add: keyless_def)
  with h show thesis by (intro that)
qed

lemma keyless_created:
  assumes c: "CFBasicHashCreate flags cb = Some ht" and con: "contract ht"
    and f: "drop_bit 13 flags AND 3 = 1" "\<not> bit flags 0" "\<not> bit flags 12"
  shows "keyless ht" "content ht = (\<lambda>k. None)" "ht_used_buckets ht = 0"
    "ht_counts_offset ht = (if bit flags 1 then 1 else 0)"
proof -
  have "ht_keys_offset ht = 0" "\<not> ht_indirect_keys ht"
    and counts: "ht_counts_offset ht = (if bit flags 1 then 1 else 0)"
    using if_SomeD [OF c [unfolded CFBasicHashCreate_def Let_def]] f(2,3) by simp_all
  with Create_law(1-3) [OF c f(1) _ con] f(2)
  show "keyless ht" "content ht = (\<lambda>k. None)" "ht_used_buckets ht = 0"
    "ht_counts_offset ht = (if bit flags 1 then 1 else 0)" by (simp_all add: keyless_def)
qed

text \<open>The immutable collection that creation makes of a list of members.\<close>

lemma keyless_fill:
  assumes k: "keyless ht" "content ht = (\<lambda>k. None)" "ht_used_buckets ht = 0"
    and len: "nat n \<le> length klist" "n \<le> int room_limit" and args: "\<forall>i<nat n. \<not> is_magic (klist ! i)"
  obtains ht' where "hash_fill ht klist klist n = Some ht'" "hash_wf (CFBasicHashMakeImmutable ht')"
    "callbacks_ok (CFBasicHashMakeImmutable ht')" "\<not> ht_mutable (CFBasicHashMakeImmutable ht')"
    "ht_counts_offset (CFBasicHashMakeImmutable ht') = ht_counts_offset ht"
    "\<And>x. entry_count (content (CFBasicHashMakeImmutable ht') x)
      = (let c = length (filter (keyeq ht x) (take (nat n) klist)) in if ht_counts_offset ht = 0 then min 1 c else c)"
proof -
  have u: "usable ht" using k(1) by (simp add: keyless_def)
  have args': "\<forall>i<nat n. args_ok ht (klist ! i) (klist ! i)"
    using args k(1) by (simp add: args_ok_def keyless_def value_key_def)
  obtain ht' where ht': "hash_fill ht klist klist n = Some ht'" "usable ht'" "config ht' = config ht"
    "\<And>x. content ht' x = (case filter (\<lambda>(k, v). keyeq ht x k) (take (nat n) (zip klist klist)) of [] \<Rightarrow> None
      | (k, v) # kvs \<Rightarrow> Some (imported_key ht k v, imported_value ht v, if ht_counts_offset ht = 0 then 1 else Suc (length kvs)))"
    using hash_fill_content [OF u k(2,3) len(1,1,2) args'] by blast
  let ?ht = "CFBasicHashMakeImmutable ht'"
  have "length (filter (\<lambda>(k, v). keyeq ht x k) (zip ys ys)) = length (filter (keyeq ht x) ys)" for x ys
    by (induction ys) auto
  note len_eq = this
  have "entry_count (content ?ht x)
      = (let c = length (filter (keyeq ht x) (take (nat n) klist)) in if ht_counts_offset ht = 0 then min 1 c else c)" for x
    unfolding len_eq [symmetric]
    by (auto simp: CFBasicHashMakeImmutable_def ht'(4) take_zip entry_count_def Let_def split: list.split)
  moreover have "hash_wf ?ht" "callbacks_ok ?ht" "\<not> ht_mutable ?ht" "ht_counts_offset ?ht = ht_counts_offset ht"
    using usableD [OF ht'(2)] configD(4) [OF ht'(3)] by (simp_all add: CFBasicHashMakeImmutable_def)
  ultimately show thesis using ht'(1) that by blast
qed

end
