(* ===== verification/Dictionary.thy ===== *)
theory Dictionary
  imports HashCollections
begin

text \<open>
  \<open>CFDictionary.c\<close> over the hash table: a key store and no counts.  The abstract dictionary is a
  function from keys to optional values, the same on equal keys.
\<close>

section \<open>Operations\<close>

definition CFDictionaryEqual :: "CFBasicHash \<Rightarrow> CFBasicHash \<Rightarrow> bool option" where
  "CFDictionaryEqual cf1 cf2 = CFBasicHashEqual cf1 cf2"

definition CFDictionaryHash :: "CFBasicHash \<Rightarrow> nat option" where
  "CFDictionaryHash cf = CFBasicHashHash cf"

definition CFDictionaryDeallocate :: "CFBasicHash \<Rightarrow> CFBasicHash option" where
  "CFDictionaryDeallocate cf = CFBasicHashDeallocate cf"

definition CFDictionaryCreateGeneric :: "CFHashKeyCallBacks option \<Rightarrow> CFHashValueCallBacks option \<Rightarrow> bool
    \<Rightarrow> CFBasicHash option" where
  "CFDictionaryCreateGeneric keyCallBacks valueCallBacks useValueCB =
     CFBasicHashCreate (kCFBasicHashLinearHashing OR kCFBasicHashHasKeys)
       (hash_callbacks keyCallBacks valueCallBacks useValueCB)"

definition CFDictionaryCreateTransfer :: "CFHashKeyCallBacks \<Rightarrow> CFHashValueCallBacks \<Rightarrow> u64 list \<Rightarrow> u64 list \<Rightarrow> int
    \<Rightarrow> CFBasicHash option" where
  "CFDictionaryCreateTransfer typeKeyCallBacks typeValueCallBacks klist vlist numValues =
     do { ht \<leftarrow> CFBasicHashCreate (kCFBasicHashLinearHashing OR kCFBasicHashHasKeys)
            (hash_callbacks (Some typeKeyCallBacks) (Some typeValueCallBacks) True);
          ht \<leftarrow> hash_fill (CFBasicHashSuppressRC ht) klist vlist numValues;
          Some (CFBasicHashMakeImmutable (CFBasicHashUnsuppressRC ht)) }"

definition CFDictionaryCreate :: "u64 list \<Rightarrow> u64 list \<Rightarrow> int \<Rightarrow> CFHashKeyCallBacks option \<Rightarrow> CFHashValueCallBacks option
    \<Rightarrow> CFBasicHash option" where
  "CFDictionaryCreate klist vlist numValues keyCallBacks valueCallBacks =
     do { ht \<leftarrow> CFDictionaryCreateGeneric keyCallBacks valueCallBacks True;
          ht \<leftarrow> hash_fill ht klist vlist numValues;
          Some (CFBasicHashMakeImmutable ht) }"

definition CFDictionaryCreateMutable :: "int \<Rightarrow> CFHashKeyCallBacks option \<Rightarrow> CFHashValueCallBacks option \<Rightarrow> CFBasicHash option" where
  "CFDictionaryCreateMutable capacity keyCallBacks valueCallBacks = CFDictionaryCreateGeneric keyCallBacks valueCallBacks True"

definition CFDictionaryCreateCopy :: "CFHashKeyCallBacks \<Rightarrow> CFHashValueCallBacks \<Rightarrow> (nat \<Rightarrow> u64)
    \<Rightarrow> hash_object \<Rightarrow> CFBasicHash option" where
  "CFDictionaryCreateCopy typeKeyCallBacks typeValueCallBacks fresh other =
     do { ht \<leftarrow> (case other of
            Foreign kvs \<Rightarrow>
              do { ht \<leftarrow> CFDictionaryCreateGeneric (Some typeKeyCallBacks) (Some typeValueCallBacks) True;
                   hash_fill ht (map fst kvs) (map snd kvs) (int (length kvs)) }
          | Native src_ht \<Rightarrow> CFBasicHashCreateCopy fresh src_ht);
          Some (CFBasicHashMakeImmutable ht) }"

definition CFDictionaryCreateMutableCopy :: "CFHashKeyCallBacks \<Rightarrow> CFHashValueCallBacks \<Rightarrow> (nat \<Rightarrow> u64)
    \<Rightarrow> int \<Rightarrow> hash_object \<Rightarrow> CFBasicHash option" where
  "CFDictionaryCreateMutableCopy typeKeyCallBacks typeValueCallBacks fresh capacity other =
          (case other of
            Foreign kvs \<Rightarrow>
              do { ht \<leftarrow> CFDictionaryCreateGeneric (Some typeKeyCallBacks) (Some typeValueCallBacks) True;
                   hash_fill ht (map fst kvs) (map snd kvs) (int (length kvs)) }
          | Native src_ht \<Rightarrow> CFBasicHashCreateCopy fresh src_ht)"

definition CFDictionaryGetCount :: "CFBasicHash \<Rightarrow> nat option" where
  "CFDictionaryGetCount hc = CFBasicHashGetCount hc"

definition CFDictionaryGetCountOfKey :: "CFBasicHash \<Rightarrow> u64 \<Rightarrow> nat option" where
  "CFDictionaryGetCountOfKey hc key = CFBasicHashGetCountOfKey hc key"

definition CFDictionaryContainsKey :: "CFBasicHash \<Rightarrow> u64 \<Rightarrow> bool option" where
  "CFDictionaryContainsKey hc key =
     do { cnt \<leftarrow> CFBasicHashGetCountOfKey hc key; Some (0 < cnt) }"

definition CFDictionaryGetValue :: "CFBasicHash \<Rightarrow> u64 \<Rightarrow> u64 option" where
  "CFDictionaryGetValue hc key =
     do { bkt \<leftarrow> CFBasicHashFindBucket hc key; if 0 < bk_count bkt then bk_value bkt else Some 0 }"

text \<open>The result is \<open>None\<close> inside when the function returns false.\<close>

definition CFDictionaryGetValueIfPresent :: "CFBasicHash \<Rightarrow> u64 \<Rightarrow> u64 option option" where
  "CFDictionaryGetValueIfPresent hc key =
     do { bkt \<leftarrow> CFBasicHashFindBucket hc key;
          if 0 < bk_count bkt then map_option Some (bk_value bkt) else Some None }"

definition CFDictionaryGetCountOfValue :: "CFBasicHash \<Rightarrow> u64 \<Rightarrow> nat option" where
  "CFDictionaryGetCountOfValue hc v = CFBasicHashGetCountOfValue hc v"

definition CFDictionaryContainsValue :: "CFBasicHash \<Rightarrow> u64 \<Rightarrow> bool option" where
  "CFDictionaryContainsValue hc v =
     do { cnt \<leftarrow> CFBasicHashGetCountOfValue hc v; Some (0 < cnt) }"

definition CFDictionaryGetKeyIfPresent :: "CFBasicHash \<Rightarrow> u64 \<Rightarrow> u64 option option" where
  "CFDictionaryGetKeyIfPresent hc key =
     do { bkt \<leftarrow> CFBasicHashFindBucket hc key;
          if 0 < bk_count bkt then map_option Some (bk_key bkt) else Some None }"

definition CFDictionaryGetKeysAndValues :: "CFBasicHash \<Rightarrow> (u64 \<times> u64) list option" where
  "CFDictionaryGetKeysAndValues hc =
     do { cnt \<leftarrow> CFDictionaryGetCount hc; es \<leftarrow> CFBasicHashGetElements hc cnt;
          Some (map (\<lambda>(v, k). (k, v)) es) }"

definition CFDictionaryApplyFunction :: "CFBasicHash \<Rightarrow> (u64 \<times> u64) list option" where
  "CFDictionaryApplyFunction hc =
     CFBasicHashApply hc (\<lambda>calls bkt. do { k \<leftarrow> bk_key bkt; v \<leftarrow> bk_value bkt;
       Some (calls @ [(k, v)], True) }) []"

definition CFDictionaryFastEnumeration :: "CFBasicHash \<Rightarrow> nat \<Rightarrow> nat \<Rightarrow> (nat \<times> u64 list) option" where
  "CFDictionaryFastEnumeration hc st cnt = CFBasicHashFastEnumeration hc st cnt"

definition CFDictionaryIsMutable :: "CFBasicHash \<Rightarrow> bool" where
  "CFDictionaryIsMutable hc = CFBasicHashIsMutable hc"

definition CFDictionarySetCapacity :: "CFBasicHash \<Rightarrow> int \<Rightarrow> CFBasicHash option" where
  "CFDictionarySetCapacity hc cap = CFBasicHashSetCapacity hc cap"

definition CFDictionaryGetKVOBit :: "CFBasicHash \<Rightarrow> int" where
  "CFDictionaryGetKVOBit hc = of_bool (ht_kvo hc)"

definition CFDictionarySetKVOBit :: "CFBasicHash \<Rightarrow> int \<Rightarrow> CFBasicHash" where
  "CFDictionarySetKVOBit hc b = hc\<lparr>ht_kvo := odd b\<rparr>"

definition CFDictionaryAddValue :: "CFBasicHash \<Rightarrow> u64 \<Rightarrow> u64 \<Rightarrow> CFBasicHash option" where
  "CFDictionaryAddValue hc key v = map_option fst (CFBasicHashAddValue hc key v)"

definition CFDictionaryReplaceValue :: "CFBasicHash \<Rightarrow> u64 \<Rightarrow> u64 \<Rightarrow> CFBasicHash option" where
  "CFDictionaryReplaceValue hc key v = CFBasicHashReplaceValue hc key v"

definition CFDictionarySetValue :: "CFBasicHash \<Rightarrow> u64 \<Rightarrow> u64 \<Rightarrow> CFBasicHash option" where
  "CFDictionarySetValue hc key v = CFBasicHashSetValue hc key v"

definition CFDictionaryRemoveValue :: "CFBasicHash \<Rightarrow> u64 \<Rightarrow> CFBasicHash option" where
  "CFDictionaryRemoveValue hc key = map_option fst (CFBasicHashRemoveValue hc key)"

definition CFDictionaryRemoveAllValues :: "CFBasicHash \<Rightarrow> CFBasicHash option" where
  "CFDictionaryRemoveAllValues hc = CFBasicHashRemoveAllValues hc"


section \<open>Laws\<close>

definition dictionary :: "CFBasicHash \<Rightarrow> bool" where
  "dictionary ht \<longleftrightarrow> usable ht \<and> ht_keys_offset ht \<noteq> 0 \<and> ht_counts_offset ht = 0"

definition dict_abs :: "CFBasicHash \<Rightarrow> u64 \<Rightarrow> u64 option" where
  "dict_abs ht x = map_option (\<lambda>(k, v, c). v) (content ht x)"

datatype dict_op = DictAdd u64 u64 | DictReplace u64 u64 | DictSet u64 u64 | DictRemove u64 | DictRemoveAll

fun dict_step :: "CFBasicHash \<Rightarrow> dict_op \<Rightarrow> CFBasicHash option" where
  "dict_step hc (DictAdd k v) = CFDictionaryAddValue hc k v"
| "dict_step hc (DictReplace k v) = CFDictionaryReplaceValue hc k v"
| "dict_step hc (DictSet k v) = CFDictionarySetValue hc k v"
| "dict_step hc (DictRemove k) = CFDictionaryRemoveValue hc k"
| "dict_step hc DictRemoveAll = CFDictionaryRemoveAllValues hc"

definition dict_run :: "CFBasicHash \<Rightarrow> dict_op list \<Rightarrow> CFBasicHash option" where
  "dict_run = run_steps dict_step"

text \<open>The operations on the abstract dictionary, for an equality of keys and a retain of values.\<close>

fun dict_spec :: "(u64 \<Rightarrow> u64 \<Rightarrow> bool) \<Rightarrow> (u64 \<Rightarrow> u64) \<Rightarrow> (u64 \<Rightarrow> u64 option) \<Rightarrow> dict_op \<Rightarrow> u64 \<Rightarrow> u64 option" where
  "dict_spec eq imp m (DictAdd k v) = (\<lambda>x. if eq x k \<and> m x = None then Some (imp v) else m x)"
| "dict_spec eq imp m (DictReplace k v) = (\<lambda>x. if eq x k \<and> m x \<noteq> None then Some (imp v) else m x)"
| "dict_spec eq imp m (DictSet k v) = (\<lambda>x. if eq x k then Some (imp v) else m x)"
| "dict_spec eq imp m (DictRemove k) = (\<lambda>x. if eq x k then None else m x)"
| "dict_spec eq imp m DictRemoveAll = (\<lambda>x. None)"

fun dict_ok :: "dict_op \<Rightarrow> bool" where
  "dict_ok (DictAdd k v) \<longleftrightarrow> \<not> is_magic k \<and> \<not> is_magic v"
| "dict_ok (DictReplace k v) \<longleftrightarrow> \<not> is_magic k \<and> \<not> is_magic v"
| "dict_ok (DictSet k v) \<longleftrightarrow> \<not> is_magic k \<and> \<not> is_magic v"
| "dict_ok (DictRemove k) \<longleftrightarrow> \<not> is_magic k"
| "dict_ok DictRemoveAll \<longleftrightarrow> True"

fun dict_hash_op :: "dict_op \<Rightarrow> hash_op" where
  "dict_hash_op (DictAdd k v) = Add k v"
| "dict_hash_op (DictReplace k v) = Replace k v"
| "dict_hash_op (DictSet k v) = Set k v"
| "dict_hash_op (DictRemove k) = Remove k"
| "dict_hash_op DictRemoveAll = Remove_all"

lemma dict_step_hash: "dict_step ht oper = hash_step ht (dict_hash_op oper)"
  by (cases oper) (simp_all add: CFDictionaryAddValue_def CFDictionaryReplaceValue_def CFDictionarySetValue_def
      CFDictionaryRemoveValue_def CFDictionaryRemoveAllValues_def)

lemma dict_map_step:
  assumes "dictionary ht"
  shows "map_option (\<lambda>(k, v, c). v) (map_step ht (content ht) (dict_hash_op oper) x)
    = dict_spec (keyeq ht) (imported_value ht) (dict_abs ht) oper x"
proof -
  have wf: "hash_wf ht" and cb: "callbacks_ok ht" and co: "ht_counts_offset ht = 0"
    using assms usableD(1,3) by (simp_all add: dictionary_def)
  have same: "keyeq ht x k \<Longrightarrow> content ht k = content ht x" for k
    using content_keyed [OF wf cb] unfolding keyed_def by metis
  have one: "content ht k = Some (k', v, c) \<Longrightarrow> c = 1" for k k' v c by (rule content_count(2) [OF wf cb _ co])
  show ?thesis
    by (cases oper)
      (auto simp: put_def dict_abs_def added_entry_def set_entry_def removed_entry_def dest: same one split: option.splits)
qed

lemma dict_step_law:
  assumes d: "dictionary ht" and ok: "dict_ok oper" and room: "ht_used_buckets ht < room_limit"
  shows "\<exists>ht'. dict_step ht oper = Some ht' \<and> dictionary ht' \<and> config ht' = config ht
    \<and> dict_abs ht' = dict_spec (keyeq ht) (imported_value ht) (dict_abs ht) oper
    \<and> ht_used_buckets ht' \<le> Suc (ht_used_buckets ht)"
proof -
  have u: "usable ht" using d by (simp add: dictionary_def)
  have "op_ok ht (dict_hash_op oper)" using ok d by (cases oper) (simp_all add: args_ok_def dictionary_def)
  then obtain ht' where h: "hash_step ht (dict_hash_op oper) = Some ht'" "usable ht'" "config ht' = config ht"
    "content ht' = map_step ht (content ht) (dict_hash_op oper)" "ht_used_buckets ht' \<le> Suc (ht_used_buckets ht)"
    using hash_step_law [OF u _ room] by blast
  have "dictionary ht'" using h(2) configD(3,4) [OF h(3)] d by (simp add: dictionary_def)
  moreover have "dict_abs ht' = dict_spec (keyeq ht) (imported_value ht) (dict_abs ht) oper"
    by (rule ext) (simp add: dict_abs_def [of ht'] h(4) dict_map_step [OF d])
  ultimately show ?thesis using h(1,3,5) by (auto simp: dict_step_hash)
qed

interpretation dict: history dict_step dict_abs dictionary config
  "\<lambda>c. dict_spec (keyeq c) (imported_value c)" "\<lambda>c. dict_ok" "\<lambda>ht. room_limit - ht_used_buckets ht"
proof
  fix ht oper
  assume d: "dictionary ht" and ok: "dict_ok oper" and room: "0 < room_limit - ht_used_buckets ht"
  have c: "keyeq (config ht) = keyeq ht" "imported_value (config ht) = imported_value ht"
    by (rule ext, simp add: config_cong [OF config_idem]) (rule imported_cong(1) [OF config_idem])
  show "\<exists>ht'. dict_step ht oper = Some ht' \<and> dictionary ht' \<and> config ht' = config ht
      \<and> dict_abs ht' = dict_spec (keyeq (config ht)) (imported_value (config ht)) (dict_abs ht) oper
      \<and> room_limit - ht_used_buckets ht \<le> Suc (room_limit - ht_used_buckets ht')"
    unfolding c using dict_step_law [OF d ok] room by fastforce
qed

lemma Generic_law:
  assumes c: "CFDictionaryCreateGeneric kcb vcb True = Some ht" and con: "contract ht"
  shows "dictionary ht" "content ht = (\<lambda>k. None)" "ht_used_buckets ht = 0"
proof -
  note create = c [unfolded CFDictionaryCreateGeneric_def]
  have "usable ht" "content ht = (\<lambda>k. None)" "ht_used_buckets ht = 0"
    using Create_law [OF create _ _ con]
    by (simp_all add: kCFBasicHashLinearHashing_def kCFBasicHashHasKeys_def)
  moreover have "ht_keys_offset ht \<noteq> 0" "ht_counts_offset ht = 0"
    using if_SomeD [OF create [unfolded CFBasicHashCreate_def Let_def]]
    by (simp_all add: kCFBasicHashLinearHashing_def kCFBasicHashHasKeys_def)
  ultimately show "dictionary ht" "content ht = (\<lambda>k. None)" "ht_used_buckets ht = 0"
    by (simp_all add: dictionary_def)
qed

lemma dict_reads:
  assumes "hash_wf ht" "callbacks_ok ht" "ht_counts_offset ht = 0" "\<not> is_magic k"
  shows "CFDictionaryGetValueIfPresent ht k = Some (dict_abs ht k)"
    "CFDictionaryGetValue ht k = Some (case dict_abs ht k of None \<Rightarrow> 0 | Some v \<Rightarrow> v)"
    "CFDictionaryContainsKey ht k = Some (dict_abs ht k \<noteq> None)"
    "CFDictionaryGetCountOfKey ht k = Some (if dict_abs ht k = None then 0 else 1)"
proof -
  obtain b where b: "CFBasicHashFindBucket ht k = Some b" "bk_count b = entry_count (content ht k)"
    "\<forall>k' v c. content ht k = Some (k', v, c) \<longrightarrow> 0 < c \<and> bk_key b = Some k' \<and> bk_value b = Some v"
    using FindBucket_content [OF assms(1,2,4)] by blast
  note n = GetCountOfKey_law [OF assms(1,2,4)]
  have one: "content ht k = Some (k', v, c) \<Longrightarrow> c = 1" for k' v c
    by (rule content_count(2) [OF assms(1,2) _ assms(3)])
  show "CFDictionaryGetValueIfPresent ht k = Some (dict_abs ht k)"
    "CFDictionaryGetValue ht k = Some (case dict_abs ht k of None \<Rightarrow> 0 | Some v \<Rightarrow> v)"
    "CFDictionaryContainsKey ht k = Some (dict_abs ht k \<noteq> None)"
    "CFDictionaryGetCountOfKey ht k = Some (if dict_abs ht k = None then 0 else 1)"
    using b n one by (cases "content ht k"; auto simp: CFDictionaryGetValueIfPresent_def CFDictionaryGetValue_def
        CFDictionaryContainsKey_def CFDictionaryGetCountOfKey_def dict_abs_def entry_count_def)+
qed

section \<open>Properties\<close>

text \<open>C3. Refinement of a dictionary: a mutable dictionary made with callbacks that keep the contract
  never halts on a history of additions, replacements, settings, removals and clearings, of any
  length up to the room of the table, and afterwards every lookup (the value, the flag of presence,
  the count) answers as the same history on a function from keys to values: an addition does not
  overwrite, a replacement does nothing for an absent key, a setting does both.\<close>

theorem CFDictionary_histories_refine:
  assumes "CFDictionaryCreateMutable capacity kcb vcb = Some ht0" "contract ht0"
    "\<forall>oper\<in>set ops. dict_ok oper" "length ops \<le> room_limit"
  defines "m \<equiv> foldl (dict_spec (keyeq ht0) (imported_value ht0)) (\<lambda>k. None) ops"
  shows "\<exists>ht. dict_run ht0 ops = Some ht \<and> CFDictionaryIsMutable ht \<and>
    (\<forall>k. \<not> is_magic k \<longrightarrow> CFDictionaryGetValueIfPresent ht k = Some (m k)
      \<and> CFDictionaryGetValue ht k = Some (case m k of None \<Rightarrow> 0 | Some v \<Rightarrow> v)
      \<and> CFDictionaryContainsKey ht k = Some (m k \<noteq> None)
      \<and> CFDictionaryGetCountOfKey ht k = Some (if m k = None then 0 else 1))"
proof -
  note g = Generic_law [OF assms(1) [unfolded CFDictionaryCreateMutable_def] assms(2)]
  have c: "keyeq (config ht0) = keyeq ht0" "imported_value (config ht0) = imported_value ht0"
    by (rule ext, simp add: config_cong [OF config_idem]) (rule imported_cong(1) [OF config_idem])
  have abs0: "dict_abs ht0 = (\<lambda>k. None)" by (rule ext) (simp add: dict_abs_def g(2))
  obtain ht where ht: "dict_run ht0 ops = Some ht" "dictionary ht" "dict_abs ht = m"
    using dict.run_law [OF g(1), of ops] assms(3,4) by (auto simp: dict_run_def m_def abs0 c g(3))
  then have w: "hash_wf ht" "callbacks_ok ht" "ht_counts_offset ht = 0" "ht_mutable ht"
    using usableD [of ht] by (simp_all add: dictionary_def)
  show ?thesis using ht(1,3) dict_reads [OF w(1-3)] w(4)
    by (auto simp: CFDictionaryIsMutable_def CFBasicHashIsMutable_def)
qed

text \<open>C36. Creation from lists: CFDictionaryCreate succeeds, the dictionary is well formed and immutable
  (every update halts), and a key is bound to the retained value of the first pair whose key is equal
  to it; later pairs with that key change nothing.\<close>

theorem CFDictionaryCreate_first_wins:
  assumes "CFDictionaryCreateGeneric kcb vcb True = Some ht0" "contract ht0"
    "nat n \<le> length klist" "nat n \<le> length vlist" "n \<le> int room_limit"
    "\<forall>i<nat n. \<not> is_magic (klist ! i) \<and> \<not> is_magic (vlist ! i)"
  shows "\<exists>ht. CFDictionaryCreate klist vlist n kcb vcb = Some ht \<and> hash_wf ht
    \<and> CFDictionaryAddValue ht k v = None \<and> CFDictionaryRemoveAllValues ht = None
    \<and> (is_magic k \<or> CFDictionaryGetValueIfPresent ht k
        = Some (map_option (\<lambda>(k', v'). imported_value ht0 v')
            (find (\<lambda>(k', v'). keyeq ht0 k k') (take (nat n) (zip klist vlist)))))"
proof -
  note g = Generic_law [OF assms(1,2)]
  have u: "usable ht0" and keys: "ht_keys_offset ht0 \<noteq> 0" and co: "ht_counts_offset ht0 = 0"
    using g(1) by (simp_all add: dictionary_def)
  have args: "\<forall>i<nat n. args_ok ht0 (klist ! i) (vlist ! i)" using assms(6) keys by (simp add: args_ok_def)
  let ?kvs = "take (nat n) (zip klist vlist)"
  obtain ht where ht: "hash_fill ht0 klist vlist n = Some ht" "usable ht" "config ht = config ht0"
    "\<And>x. content ht x = (case filter (\<lambda>(k, v). keyeq ht0 x k) ?kvs of [] \<Rightarrow> None
      | (k, v) # kvs \<Rightarrow> Some (imported_key ht0 k v, imported_value ht0 v, if ht_counts_offset ht0 = 0 then 1 else Suc (length kvs)))"
    using hash_fill_content [OF u g(2,3) assms(3-5) args] by blast
  let ?ht = "CFBasicHashMakeImmutable ht"
  have w: "hash_wf ?ht" "callbacks_ok ?ht" "ht_counts_offset ?ht = 0" "\<not> ht_mutable ?ht" "content ?ht = content ht"
    using usableD [OF ht(2)] configD(4) [OF ht(3)] co by (simp_all add: CFBasicHashMakeImmutable_def)
  have "CFDictionaryCreate klist vlist n kcb vcb = Some ?ht"
    by (simp add: CFDictionaryCreate_def assms(1) ht(1))
  moreover have "CFDictionaryAddValue ?ht k v = None" "CFDictionaryRemoveAllValues ?ht = None"
    using w(4) by (simp_all add: CFDictionaryAddValue_def CFBasicHashAddValue_def CFDictionaryRemoveAllValues_def
        CFBasicHashRemoveAllValues_def)
  moreover have "dict_abs ?ht k = map_option (\<lambda>(k', v'). imported_value ht0 v') (find (\<lambda>(k', v'). keyeq ht0 k k') ?kvs)"
    unfolding dict_abs_def w(5) ht(4) by (simp add: find_by_filter split: list.split)
  ultimately show ?thesis using w(1) dict_reads(1) [OF w(1-3), of k] by auto
qed

section \<open>Examples\<close>

text \<open>Dictionaries of bare words, with no callbacks.\<close>

definition example_dictionary :: CFBasicHash where
  "example_dictionary = the (CFDictionaryCreateGeneric None None True)"

lemma example_dictionary: "CFDictionaryCreateGeneric None None True = Some example_dictionary"
  using Create_some(2) by (simp add: example_dictionary_def CFDictionaryCreateGeneric_def)

lemma example_dictionary_callbacks: "ht_callbacks example_dictionary = null_callbacks"
  using Create_callbacks [OF example_dictionary [unfolded CFDictionaryCreateGeneric_def]]
  by (simp add: hash_callbacks_def null_callbacks_def)

theorem CFDictionary_histories_refine_witness:
  "\<exists>ht. dict_run example_dictionary [DictAdd 5 7, DictAdd 5 8, DictSet 6 9, DictReplace 4 1, DictRemove 6] = Some ht
    \<and> CFDictionaryGetValueIfPresent ht 5 = Some (Some 7) \<and> CFDictionaryGetValueIfPresent ht 6 = Some None"
proof -
  let ?ops = "[DictAdd 5 7, DictAdd 5 8, DictSet 6 9, DictReplace 4 1, DictRemove 6]"
  have ok: "\<forall>oper\<in>set ?ops. dict_ok oper" by (simp add: small_not_magic)
  have room: "length ?ops \<le> room_limit" by (simp add: room_limit_def)
  note i = null_imports [OF example_dictionary_callbacks]
  obtain ht where ht: "dict_run example_dictionary ?ops = Some ht"
    "\<forall>k. \<not> is_magic k \<longrightarrow> CFDictionaryGetValueIfPresent ht k
      = Some (foldl (dict_spec (keyeq example_dictionary) (imported_value example_dictionary)) (\<lambda>k. None) ?ops k)"
    using CFDictionary_histories_refine [of 0 None None, unfolded CFDictionaryCreateMutable_def,
        OF example_dictionary null_contract [OF example_dictionary_callbacks] ok room] by blast
  show ?thesis
    by (rule exI [of _ ht], intro conjI, rule ht(1), simp_all add: ht(2) small_not_magic i)
qed

theorem CFDictionaryCreate_first_wins_witness:
  "\<exists>ht. CFDictionaryCreate [5, 6, 5] [7, 8, 9] 3 None None = Some ht
    \<and> CFDictionaryGetValueIfPresent ht 5 = Some (Some 7) \<and> CFDictionaryAddValue ht 5 1 = None"
proof -
  note i = null_imports [OF example_dictionary_callbacks]
  have args: "\<forall>i<nat 3. \<not> is_magic ([5, 6, 5] ! i) \<and> \<not> is_magic ([7, 8, 9] ! i)"
    by (simp add: numeral_3_eq_3 All_less_Suc small_not_magic)
  show ?thesis
    using CFDictionaryCreate_first_wins [OF example_dictionary null_contract [OF example_dictionary_callbacks] _ _ _ args,
        of 5 1]
    by (auto simp: room_limit_def i small_not_magic numeral_3_eq_3)
qed

end
