(* ===== verification/SetCollection.thy ===== *)
theory SetCollection
  imports HashCollections
begin

text \<open>
  \<open>CFSet.c\<close> over the hash table: neither keys nor counts, a member is its own key.  The abstract set
  is closed under the equality of the callbacks.
\<close>

section \<open>Operations\<close>

definition CFSetEqual :: "CFBasicHash \<Rightarrow> CFBasicHash \<Rightarrow> bool option" where
  "CFSetEqual cf1 cf2 = CFBasicHashEqual cf1 cf2"

definition CFSetHash :: "CFBasicHash \<Rightarrow> nat option" where
  "CFSetHash cf = CFBasicHashHash cf"

definition CFSetDeallocate :: "CFBasicHash \<Rightarrow> CFBasicHash option" where
  "CFSetDeallocate cf = CFBasicHashDeallocate cf"

definition CFSetCreateGeneric :: "CFHashKeyCallBacks option \<Rightarrow> CFHashValueCallBacks option \<Rightarrow> bool
    \<Rightarrow> CFBasicHash option" where
  "CFSetCreateGeneric keyCallBacks valueCallBacks useValueCB =
     CFBasicHashCreate (kCFBasicHashLinearHashing)
       (hash_callbacks keyCallBacks valueCallBacks useValueCB)"

definition CFSetCreateTransfer :: "CFHashKeyCallBacks \<Rightarrow> u64 list \<Rightarrow> int
    \<Rightarrow> CFBasicHash option" where
  "CFSetCreateTransfer typeKeyCallBacks klist numValues =
     do { ht \<leftarrow> CFBasicHashCreate (kCFBasicHashLinearHashing)
            (hash_callbacks (Some typeKeyCallBacks) None False);
          ht \<leftarrow> hash_fill (CFBasicHashSuppressRC ht) klist klist numValues;
          Some (CFBasicHashMakeImmutable (CFBasicHashUnsuppressRC ht)) }"

definition CFSetCreate :: "u64 list \<Rightarrow> int \<Rightarrow> CFHashKeyCallBacks option
    \<Rightarrow> CFBasicHash option" where
  "CFSetCreate klist numValues keyCallBacks =
     do { ht \<leftarrow> CFSetCreateGeneric keyCallBacks None False;
          ht \<leftarrow> hash_fill ht klist klist numValues;
          Some (CFBasicHashMakeImmutable ht) }"

definition CFSetCreateMutable :: "int \<Rightarrow> CFHashKeyCallBacks option \<Rightarrow> CFBasicHash option" where
  "CFSetCreateMutable capacity keyCallBacks = CFSetCreateGeneric keyCallBacks None False"

definition CFSetCreateCopy :: "CFHashKeyCallBacks \<Rightarrow> (nat \<Rightarrow> u64)
    \<Rightarrow> hash_object \<Rightarrow> CFBasicHash option" where
  "CFSetCreateCopy typeKeyCallBacks fresh other =
     do { ht \<leftarrow> (case other of
            Foreign kvs \<Rightarrow>
              do { ht \<leftarrow> CFSetCreateGeneric (Some typeKeyCallBacks) None False;
                   hash_fill ht (map fst kvs) (map fst kvs) (int (length kvs)) }
          | Native src_ht \<Rightarrow> CFBasicHashCreateCopy fresh src_ht);
          Some (CFBasicHashMakeImmutable ht) }"

definition CFSetCreateMutableCopy :: "CFHashKeyCallBacks \<Rightarrow> (nat \<Rightarrow> u64)
    \<Rightarrow> int \<Rightarrow> hash_object \<Rightarrow> CFBasicHash option" where
  "CFSetCreateMutableCopy typeKeyCallBacks fresh capacity other =
          (case other of
            Foreign kvs \<Rightarrow>
              do { ht \<leftarrow> CFSetCreateGeneric (Some typeKeyCallBacks) None False;
                   hash_fill ht (map fst kvs) (map fst kvs) (int (length kvs)) }
          | Native src_ht \<Rightarrow> CFBasicHashCreateCopy fresh src_ht)"

definition CFSetGetCount :: "CFBasicHash \<Rightarrow> nat option" where
  "CFSetGetCount hc = CFBasicHashGetCount hc"

definition CFSetGetCountOfValue :: "CFBasicHash \<Rightarrow> u64 \<Rightarrow> nat option" where
  "CFSetGetCountOfValue hc key = CFBasicHashGetCountOfKey hc key"

definition CFSetContainsValue :: "CFBasicHash \<Rightarrow> u64 \<Rightarrow> bool option" where
  "CFSetContainsValue hc key =
     do { cnt \<leftarrow> CFBasicHashGetCountOfKey hc key; Some (0 < cnt) }"

definition CFSetGetValue :: "CFBasicHash \<Rightarrow> u64 \<Rightarrow> u64 option" where
  "CFSetGetValue hc key =
     do { bkt \<leftarrow> CFBasicHashFindBucket hc key; if 0 < bk_count bkt then bk_value bkt else Some 0 }"

text \<open>The result is \<open>None\<close> inside when the function returns false.\<close>

definition CFSetGetValueIfPresent :: "CFBasicHash \<Rightarrow> u64 \<Rightarrow> u64 option option" where
  "CFSetGetValueIfPresent hc key =
     do { bkt \<leftarrow> CFBasicHashFindBucket hc key;
          if 0 < bk_count bkt then map_option Some (bk_value bkt) else Some None }"

definition CFSetGetValues :: "CFBasicHash \<Rightarrow> u64 list option" where
  "CFSetGetValues hc =
     do { cnt \<leftarrow> CFSetGetCount hc; es \<leftarrow> CFBasicHashGetElements hc cnt; Some (map snd es) }"

definition CFSetApplyFunction :: "CFBasicHash \<Rightarrow> u64 list option" where
  "CFSetApplyFunction hc =
     CFBasicHashApply hc (\<lambda>calls bkt. do { v \<leftarrow> bk_value bkt; Some (calls @ [v], True) }) []"

definition CFSetFastEnumeration :: "CFBasicHash \<Rightarrow> nat \<Rightarrow> nat \<Rightarrow> (nat \<times> u64 list) option" where
  "CFSetFastEnumeration hc st cnt = CFBasicHashFastEnumeration hc st cnt"

definition CFSetIsMutable :: "CFBasicHash \<Rightarrow> bool" where
  "CFSetIsMutable hc = CFBasicHashIsMutable hc"

definition CFSetSetCapacity :: "CFBasicHash \<Rightarrow> int \<Rightarrow> CFBasicHash option" where
  "CFSetSetCapacity hc cap = CFBasicHashSetCapacity hc cap"

definition CFSetGetKVOBit :: "CFBasicHash \<Rightarrow> int" where
  "CFSetGetKVOBit hc = of_bool (ht_kvo hc)"

definition CFSetSetKVOBit :: "CFBasicHash \<Rightarrow> int \<Rightarrow> CFBasicHash" where
  "CFSetSetKVOBit hc b = hc\<lparr>ht_kvo := odd b\<rparr>"

definition CFSetAddValue :: "CFBasicHash \<Rightarrow> u64 \<Rightarrow> CFBasicHash option" where
  "CFSetAddValue hc key = map_option fst (CFBasicHashAddValue hc key key)"

definition CFSetReplaceValue :: "CFBasicHash \<Rightarrow> u64 \<Rightarrow> CFBasicHash option" where
  "CFSetReplaceValue hc key = CFBasicHashReplaceValue hc key key"

definition CFSetSetValue :: "CFBasicHash \<Rightarrow> u64 \<Rightarrow> CFBasicHash option" where
  "CFSetSetValue hc key = CFBasicHashSetValue hc key key"

definition CFSetRemoveValue :: "CFBasicHash \<Rightarrow> u64 \<Rightarrow> CFBasicHash option" where
  "CFSetRemoveValue hc key = map_option fst (CFBasicHashRemoveValue hc key)"

definition CFSetRemoveAllValues :: "CFBasicHash \<Rightarrow> CFBasicHash option" where
  "CFSetRemoveAllValues hc = CFBasicHashRemoveAllValues hc"


section \<open>Laws\<close>

definition set_coll :: "CFBasicHash \<Rightarrow> bool" where
  "set_coll ht \<longleftrightarrow> keyless ht \<and> ht_counts_offset ht = 0"

definition members :: "CFBasicHash \<Rightarrow> u64 set" where
  "members ht = {x. content ht x \<noteq> None}"

fun set_step :: "CFBasicHash \<Rightarrow> member_op \<Rightarrow> CFBasicHash option" where
  "set_step hc (MemberAdd k) = CFSetAddValue hc k"
| "set_step hc (MemberReplace k) = CFSetReplaceValue hc k"
| "set_step hc (MemberSet k) = CFSetSetValue hc k"
| "set_step hc (MemberRemove k) = CFSetRemoveValue hc k"
| "set_step hc MemberRemoveAll = CFSetRemoveAllValues hc"

definition set_run :: "CFBasicHash \<Rightarrow> member_op list \<Rightarrow> CFBasicHash option" where
  "set_run = run_steps set_step"

text \<open>The operations on the abstract set, closed under the equality of the callbacks.\<close>

fun set_spec :: "(u64 \<Rightarrow> u64 \<Rightarrow> bool) \<Rightarrow> u64 set \<Rightarrow> member_op \<Rightarrow> u64 set" where
  "set_spec eq S (MemberAdd k) = S \<union> {x. eq x k}"
| "set_spec eq S (MemberReplace k) = S"
| "set_spec eq S (MemberSet k) = S \<union> {x. eq x k}"
| "set_spec eq S (MemberRemove k) = S - {x. eq x k}"
| "set_spec eq S MemberRemoveAll = {}"

lemma set_step_hash: "set_step ht oper = hash_step ht (member_hash_op oper)"
  by (cases oper) (simp_all add: CFSetAddValue_def CFSetReplaceValue_def CFSetSetValue_def CFSetRemoveValue_def
      CFSetRemoveAllValues_def)

lemma set_step_law:
  assumes s: "set_coll ht" and ok: "member_ok oper" and room: "ht_used_buckets ht < room_limit"
  shows "\<exists>ht'. set_step ht oper = Some ht' \<and> set_coll ht' \<and> config ht' = config ht
    \<and> members ht' = set_spec (keyeq ht) (members ht) oper \<and> ht_used_buckets ht' \<le> Suc (ht_used_buckets ht)"
proof -
  have k: "keyless ht" and co: "ht_counts_offset ht = 0" using s by (simp_all add: set_coll_def)
  have wf: "hash_wf ht" and cb: "callbacks_ok ht" using k usableD(1,3) by (simp_all add: keyless_def)
  have same: "keyeq ht x k \<Longrightarrow> content ht k = content ht x" for x k
    using content_keyed [OF wf cb] unfolding keyed_def by metis
  have one: "content ht k = Some (k', v, c) \<Longrightarrow> c = 1" for k k' v c by (rule content_count(2) [OF wf cb _ co])
  obtain ht' where h: "hash_step ht (member_hash_op oper) = Some ht'" "keyless ht'" "config ht' = config ht"
    "content ht' = map_step ht (content ht) (member_hash_op oper)" "ht_used_buckets ht' \<le> Suc (ht_used_buckets ht)"
    by (rule keyless_step [OF k ok room])
  have "members ht' = set_spec (keyeq ht) (members ht) oper"
    unfolding members_def h(4) by (cases oper)
      (auto simp: put_def added_entry_def set_entry_def removed_entry_def dest: same one split: option.splits if_splits)
  then show ?thesis using h(1,2,3,5) configD(4) [OF h(3)] co by (simp add: set_step_hash set_coll_def)
qed

interpretation set_hist: history set_step members set_coll config "\<lambda>c. set_spec (keyeq c)" "\<lambda>c. member_ok"
  "\<lambda>ht. room_limit - ht_used_buckets ht"
proof
  fix ht oper
  assume d: "set_coll ht" and ok: "member_ok oper" and room: "0 < room_limit - ht_used_buckets ht"
  have c: "keyeq (config ht) = keyeq ht" by (rule config_cong [OF config_idem])
  show "\<exists>ht'. set_step ht oper = Some ht' \<and> set_coll ht' \<and> config ht' = config ht
      \<and> members ht' = set_spec (keyeq (config ht)) (members ht) oper
      \<and> room_limit - ht_used_buckets ht \<le> Suc (room_limit - ht_used_buckets ht')"
    unfolding c using set_step_law [OF d ok] room by fastforce
qed

lemma set_created:
  assumes "CFSetCreateGeneric kcb None False = Some ht" "contract ht"
  shows "set_coll ht" "content ht = (\<lambda>k. None)" "ht_used_buckets ht = 0" "keyless ht"
  using keyless_created [OF assms(1) [unfolded CFSetCreateGeneric_def] assms(2)]
  by (simp_all add: set_coll_def kCFBasicHashLinearHashing_def)

lemma set_reads:
  assumes "hash_wf ht" "callbacks_ok ht" "\<not> is_magic x"
  shows "CFSetContainsValue ht x = Some (x \<in> members ht)"
    "x \<notin> members ht \<Longrightarrow> CFSetGetValueIfPresent ht x = Some None"
    "x \<in> members ht \<Longrightarrow> ht_keys_offset ht = 0 \<Longrightarrow> \<not> ht_indirect_keys ht \<Longrightarrow>
      \<exists>v. CFSetGetValueIfPresent ht x = Some (Some v) \<and> keyeq ht v x"
proof -
  obtain b where b: "CFBasicHashFindBucket ht x = Some b" "bk_count b = entry_count (content ht x)"
    "\<forall>k' v c. content ht x = Some (k', v, c) \<longrightarrow> 0 < c \<and> bk_key b = Some k' \<and> bk_value b = Some v"
    using FindBucket_content [OF assms] by blast
  show "CFSetContainsValue ht x = Some (x \<in> members ht)"
    using entry_count_pos [OF assms(1,2), of x]
    by (simp add: CFSetContainsValue_def GetCountOfKey_law [OF assms] members_def)
  show "x \<notin> members ht \<Longrightarrow> CFSetGetValueIfPresent ht x = Some None"
    using b by (cases "content ht x") (auto simp: CFSetGetValueIfPresent_def members_def entry_count_def)
  assume m: "x \<in> members ht" "ht_keys_offset ht = 0" "\<not> ht_indirect_keys ht"
  then obtain k v c where e: "content ht x = Some (k, v, c)" by (auto simp: members_def)
  with m(2,3) have "keyeq ht v x" using content_count(3,4) [OF assms(1,2) e] by (simp add: value_key_def)
  with b e show "\<exists>v. CFSetGetValueIfPresent ht x = Some (Some v) \<and> keyeq ht v x"
    by (auto simp: CFSetGetValueIfPresent_def entry_count_def)
qed

section \<open>Properties\<close>

text \<open>C20. Refinement of a set: a mutable set made with callbacks that keep the contract never halts on
  a history of additions, settings, replacements, removals and clearings, and afterwards the test of
  membership answers as the same history on a mathematical set closed under the equality of the
  callbacks, and a member found is one equal to the value asked for.  A set made from a list is
  immutable and contains exactly the values equal to one in the list.\<close>

theorem CFSet_histories_refine:
  assumes "CFSetCreateMutable capacity kcb = Some ht0" "contract ht0"
    "\<forall>oper\<in>set ops. member_ok oper" "length ops \<le> room_limit"
    "nat n \<le> length klist" "n \<le> int room_limit" "\<forall>i<nat n. \<not> is_magic (klist ! i)" "\<not> is_magic x"
  defines "S \<equiv> foldl (set_spec (keyeq ht0)) {} ops"
  shows "(\<exists>ht. set_run ht0 ops = Some ht \<and> CFSetContainsValue ht x = Some (x \<in> S)
      \<and> (if x \<in> S then \<exists>v. CFSetGetValueIfPresent ht x = Some (Some v) \<and> keyeq ht0 v x
         else CFSetGetValueIfPresent ht x = Some None))
    \<and> (\<exists>ht. CFSetCreate klist n kcb = Some ht \<and> \<not> CFSetIsMutable ht
      \<and> CFSetContainsValue ht x = Some (\<exists>i<nat n. keyeq ht0 x (klist ! i)))"
proof -
  note g = set_created [OF assms(1) [unfolded CFSetCreateMutable_def] assms(2)]
  have c: "keyeq (config ht0) = keyeq ht0" by (rule config_cong [OF config_idem])
  have abs0: "members ht0 = {}" by (simp add: members_def g(2))
  obtain ht where ht: "set_run ht0 ops = Some ht" "set_coll ht" "members ht = S" "config ht = config ht0"
    using set_hist.run_law [OF g(1), of ops] assms(3,4) by (auto simp: set_run_def S_def abs0 c g(3))
  then have w: "hash_wf ht" "callbacks_ok ht" "ht_keys_offset ht = 0" "\<not> ht_indirect_keys ht"
    using usableD [of ht] by (simp_all add: set_coll_def keyless_def)
  note r = set_reads [OF w(1,2) assms(8)]
  have k: "keyeq ht = keyeq ht0" by (rule config_cong [OF ht(4)])
  have part1: "\<exists>ht. set_run ht0 ops = Some ht \<and> CFSetContainsValue ht x = Some (x \<in> S)
      \<and> (if x \<in> S then \<exists>v. CFSetGetValueIfPresent ht x = Some (Some v) \<and> keyeq ht0 v x
         else CFSetGetValueIfPresent ht x = Some None)"
    using ht(1,3) r w(3,4) k by auto
  obtain t where t: "hash_fill ht0 klist klist n = Some t" "hash_wf (CFBasicHashMakeImmutable t)"
    "callbacks_ok (CFBasicHashMakeImmutable t)" "\<not> ht_mutable (CFBasicHashMakeImmutable t)"
    "entry_count (content (CFBasicHashMakeImmutable t) x) = min 1 (length (filter (keyeq ht0 x) (take (nat n) klist)))"
    by (rule keyless_fill [OF g(4,2,3) assms(5-7)]) (use g(1) in \<open>simp_all add: set_coll_def Let_def\<close>)
  have "0 < entry_count (content (CFBasicHashMakeImmutable t) x) \<longleftrightarrow> (\<exists>i<nat n. keyeq ht0 x (klist ! i))"
    unfolding t(5) ex_take [OF assms(5), symmetric] by (auto simp: filter_empty_conv)
  moreover have "CFSetCreate klist n kcb = Some (CFBasicHashMakeImmutable t)"
    using assms(1) t(1) by (simp add: CFSetCreate_def CFSetCreateMutable_def)
  ultimately have "CFSetCreate klist n kcb = Some (CFBasicHashMakeImmutable t) \<and> \<not> CFSetIsMutable (CFBasicHashMakeImmutable t)
      \<and> CFSetContainsValue (CFBasicHashMakeImmutable t) x = Some (\<exists>i<nat n. keyeq ht0 x (klist ! i))"
    using t(4) by (simp add: CFSetIsMutable_def CFBasicHashIsMutable_def CFSetContainsValue_def
        GetCountOfKey_law [OF t(2,3) assms(8)])
  with part1 show ?thesis by blast
qed

section \<open>Examples\<close>

definition example_set :: CFBasicHash where
  "example_set = the (CFSetCreateGeneric None None False)"

lemma example_set: "CFSetCreateMutable 0 None = Some example_set"
  using Create_some(1) by (simp add: example_set_def CFSetCreateMutable_def CFSetCreateGeneric_def)

lemma example_set_callbacks: "ht_callbacks example_set = null_callbacks"
  using Create_callbacks [OF example_set [unfolded CFSetCreateMutable_def CFSetCreateGeneric_def]]
  by (simp add: hash_callbacks_def null_callbacks_def)

theorem CFSet_histories_refine_witness:
  "(\<exists>ht. set_run example_set [MemberAdd 5, MemberReplace 7, MemberRemove 5, MemberSet 5] = Some ht
      \<and> CFSetContainsValue ht 5 = Some True)
    \<and> (\<exists>ht. CFSetCreate [4, 5, 4] 2 None = Some ht \<and> CFSetContainsValue ht 5 = Some True)"
proof -
  let ?ops = "[MemberAdd 5, MemberReplace 7, MemberRemove 5, MemberSet 5]"
  note i = null_imports [OF example_set_callbacks]
  have m: "\<not> is_magic 4" "\<not> is_magic 5" "\<not> is_magic 7" by (simp_all add: small_not_magic)
  have ok: "\<forall>oper\<in>set ?ops. member_ok oper" "length ?ops \<le> room_limit" by (simp_all add: m room_limit_def)
  have args: "nat 2 \<le> length [4, 5, 4 :: u64]" "2 \<le> int room_limit" by (simp_all add: room_limit_def)
  have args': "\<forall>i<nat 2. \<not> is_magic ([4, 5, 4] ! i)" using m by (auto simp: numeral_2_eq_2 less_Suc_eq)
  show ?thesis
    using CFSet_histories_refine [OF example_set null_contract [OF example_set_callbacks] ok args args' m(2)]
    by (auto simp: i numeral_2_eq_2 Ex_less_Suc)
qed

end
