(* ===== verification/BagCollection.thy ===== *)
theory BagCollection
  imports HashCollections
begin

text \<open>
  \<open>CFBag.c\<close> over the hash table: counts and no keys.  The abstract bag is a function from values to
  their multiplicity, the same on equal values; the stored counts stop at the largest \<open>CFIndex\<close>.
\<close>

section \<open>Operations\<close>

definition CFBagEqual :: "CFBasicHash \<Rightarrow> CFBasicHash \<Rightarrow> bool option" where
  "CFBagEqual cf1 cf2 = CFBasicHashEqual cf1 cf2"

definition CFBagHash :: "CFBasicHash \<Rightarrow> nat option" where
  "CFBagHash cf = CFBasicHashHash cf"

definition CFBagDeallocate :: "CFBasicHash \<Rightarrow> CFBasicHash option" where
  "CFBagDeallocate cf = CFBasicHashDeallocate cf"

definition CFBagCreateGeneric :: "CFHashKeyCallBacks option \<Rightarrow> CFHashValueCallBacks option \<Rightarrow> bool
    \<Rightarrow> CFBasicHash option" where
  "CFBagCreateGeneric keyCallBacks valueCallBacks useValueCB =
     CFBasicHashCreate (kCFBasicHashLinearHashing OR kCFBasicHashHasCounts)
       (hash_callbacks keyCallBacks valueCallBacks useValueCB)"

definition CFBagCreateTransfer :: "CFHashKeyCallBacks \<Rightarrow> u64 list \<Rightarrow> int
    \<Rightarrow> CFBasicHash option" where
  "CFBagCreateTransfer typeKeyCallBacks klist numValues =
     do { ht \<leftarrow> CFBasicHashCreate (kCFBasicHashLinearHashing OR kCFBasicHashHasCounts)
            (hash_callbacks (Some typeKeyCallBacks) None False);
          ht \<leftarrow> hash_fill (CFBasicHashSuppressRC ht) klist klist numValues;
          Some (CFBasicHashMakeImmutable (CFBasicHashUnsuppressRC ht)) }"

definition CFBagCreate :: "u64 list \<Rightarrow> int \<Rightarrow> CFHashKeyCallBacks option
    \<Rightarrow> CFBasicHash option" where
  "CFBagCreate klist numValues keyCallBacks =
     do { ht \<leftarrow> CFBagCreateGeneric keyCallBacks None False;
          ht \<leftarrow> hash_fill ht klist klist numValues;
          Some (CFBasicHashMakeImmutable ht) }"

definition CFBagCreateMutable :: "int \<Rightarrow> CFHashKeyCallBacks option \<Rightarrow> CFBasicHash option" where
  "CFBagCreateMutable capacity keyCallBacks = CFBagCreateGeneric keyCallBacks None False"

definition CFBagCreateCopy :: "CFHashKeyCallBacks \<Rightarrow> (nat \<Rightarrow> u64)
    \<Rightarrow> hash_object \<Rightarrow> CFBasicHash option" where
  "CFBagCreateCopy typeKeyCallBacks fresh other =
     do { ht \<leftarrow> (case other of
            Foreign kvs \<Rightarrow>
              do { ht \<leftarrow> CFBagCreateGeneric (Some typeKeyCallBacks) None False;
                   hash_fill ht (map fst kvs) (map fst kvs) (int (length kvs)) }
          | Native src_ht \<Rightarrow> CFBasicHashCreateCopy fresh src_ht);
          Some (CFBasicHashMakeImmutable ht) }"

definition CFBagCreateMutableCopy :: "CFHashKeyCallBacks \<Rightarrow> (nat \<Rightarrow> u64)
    \<Rightarrow> int \<Rightarrow> hash_object \<Rightarrow> CFBasicHash option" where
  "CFBagCreateMutableCopy typeKeyCallBacks fresh capacity other =
          (case other of
            Foreign kvs \<Rightarrow>
              do { ht \<leftarrow> CFBagCreateGeneric (Some typeKeyCallBacks) None False;
                   hash_fill ht (map fst kvs) (map fst kvs) (int (length kvs)) }
          | Native src_ht \<Rightarrow> CFBasicHashCreateCopy fresh src_ht)"

definition CFBagGetCount :: "CFBasicHash \<Rightarrow> nat option" where
  "CFBagGetCount hc = CFBasicHashGetCount hc"

definition CFBagGetCountOfValue :: "CFBasicHash \<Rightarrow> u64 \<Rightarrow> nat option" where
  "CFBagGetCountOfValue hc key = CFBasicHashGetCountOfKey hc key"

definition CFBagContainsValue :: "CFBasicHash \<Rightarrow> u64 \<Rightarrow> bool option" where
  "CFBagContainsValue hc key =
     do { cnt \<leftarrow> CFBasicHashGetCountOfKey hc key; Some (0 < cnt) }"

definition CFBagGetValue :: "CFBasicHash \<Rightarrow> u64 \<Rightarrow> u64 option" where
  "CFBagGetValue hc key =
     do { bkt \<leftarrow> CFBasicHashFindBucket hc key; if 0 < bk_count bkt then bk_value bkt else Some 0 }"

text \<open>The result is \<open>None\<close> inside when the function returns false.\<close>

definition CFBagGetValueIfPresent :: "CFBasicHash \<Rightarrow> u64 \<Rightarrow> u64 option option" where
  "CFBagGetValueIfPresent hc key =
     do { bkt \<leftarrow> CFBasicHashFindBucket hc key;
          if 0 < bk_count bkt then map_option Some (bk_value bkt) else Some None }"

definition CFBagGetValues :: "CFBasicHash \<Rightarrow> u64 list option" where
  "CFBagGetValues hc =
     do { cnt \<leftarrow> CFBagGetCount hc; es \<leftarrow> CFBasicHashGetElements hc cnt; Some (map snd es) }"

definition CFBagApplyFunction :: "CFBasicHash \<Rightarrow> u64 list option" where
  "CFBagApplyFunction hc =
     CFBasicHashApply hc (\<lambda>calls bkt. do { v \<leftarrow> bk_value bkt; Some (calls @ replicate (bk_count bkt) v, True) }) []"

definition CFBagFastEnumeration :: "CFBasicHash \<Rightarrow> nat \<Rightarrow> nat \<Rightarrow> (nat \<times> u64 list) option" where
  "CFBagFastEnumeration hc st cnt = CFBasicHashFastEnumeration hc st cnt"

definition CFBagIsMutable :: "CFBasicHash \<Rightarrow> bool" where
  "CFBagIsMutable hc = CFBasicHashIsMutable hc"

definition CFBagSetCapacity :: "CFBasicHash \<Rightarrow> int \<Rightarrow> CFBasicHash option" where
  "CFBagSetCapacity hc cap = CFBasicHashSetCapacity hc cap"

definition CFBagGetKVOBit :: "CFBasicHash \<Rightarrow> int" where
  "CFBagGetKVOBit hc = of_bool (ht_kvo hc)"

definition CFBagSetKVOBit :: "CFBasicHash \<Rightarrow> int \<Rightarrow> CFBasicHash" where
  "CFBagSetKVOBit hc b = hc\<lparr>ht_kvo := odd b\<rparr>"

definition CFBagAddValue :: "CFBasicHash \<Rightarrow> u64 \<Rightarrow> CFBasicHash option" where
  "CFBagAddValue hc key = map_option fst (CFBasicHashAddValue hc key key)"

definition CFBagReplaceValue :: "CFBasicHash \<Rightarrow> u64 \<Rightarrow> CFBasicHash option" where
  "CFBagReplaceValue hc key = CFBasicHashReplaceValue hc key key"

definition CFBagSetValue :: "CFBasicHash \<Rightarrow> u64 \<Rightarrow> CFBasicHash option" where
  "CFBagSetValue hc key = CFBasicHashSetValue hc key key"

definition CFBagRemoveValue :: "CFBasicHash \<Rightarrow> u64 \<Rightarrow> CFBasicHash option" where
  "CFBagRemoveValue hc key = map_option fst (CFBasicHashRemoveValue hc key)"

definition CFBagRemoveAllValues :: "CFBasicHash \<Rightarrow> CFBasicHash option" where
  "CFBagRemoveAllValues hc = CFBasicHashRemoveAllValues hc"


section \<open>Laws\<close>

definition bag_coll :: "CFBasicHash \<Rightarrow> bool" where
  "bag_coll ht \<longleftrightarrow> keyless ht \<and> ht_counts_offset ht \<noteq> 0"

definition multiplicity :: "CFBasicHash \<Rightarrow> u64 \<Rightarrow> nat" where
  "multiplicity ht x = entry_count (content ht x)"

fun bag_step :: "CFBasicHash \<Rightarrow> member_op \<Rightarrow> CFBasicHash option" where
  "bag_step hc (MemberAdd k) = CFBagAddValue hc k"
| "bag_step hc (MemberReplace k) = CFBagReplaceValue hc k"
| "bag_step hc (MemberSet k) = CFBagSetValue hc k"
| "bag_step hc (MemberRemove k) = CFBagRemoveValue hc k"
| "bag_step hc MemberRemoveAll = CFBagRemoveAllValues hc"

definition bag_run :: "CFBasicHash \<Rightarrow> member_op list \<Rightarrow> CFBasicHash option" where
  "bag_run = run_steps bag_step"

text \<open>The operations on multiplicities; at the largest count additions and removals stick.\<close>

fun bag_spec :: "(u64 \<Rightarrow> u64 \<Rightarrow> bool) \<Rightarrow> (u64 \<Rightarrow> nat) \<Rightarrow> member_op \<Rightarrow> u64 \<Rightarrow> nat" where
  "bag_spec eq m (MemberAdd k) = (\<lambda>x. if eq x k \<and> m x < LONG_MAX then m x + 1 else m x)"
| "bag_spec eq m (MemberReplace k) = m"
| "bag_spec eq m (MemberSet k) = (\<lambda>x. if eq x k then max 1 (m x) else m x)"
| "bag_spec eq m (MemberRemove k) = (\<lambda>x. if eq x k \<and> m x < LONG_MAX then m x - 1 else m x)"
| "bag_spec eq m MemberRemoveAll = (\<lambda>x. 0)"

lemma bag_step_hash: "bag_step ht oper = hash_step ht (member_hash_op oper)"
  by (cases oper) (simp_all add: CFBagAddValue_def CFBagReplaceValue_def CFBagSetValue_def CFBagRemoveValue_def
      CFBagRemoveAllValues_def)

lemma LONG_MAX_big: "1 < LONG_MAX" "0 < LONG_MAX" by (simp_all add: LONG_MAX_def)

lemma bag_step_law:
  assumes s: "bag_coll ht" and ok: "member_ok oper" and room: "ht_used_buckets ht < room_limit"
  shows "\<exists>ht'. bag_step ht oper = Some ht' \<and> bag_coll ht' \<and> config ht' = config ht
    \<and> multiplicity ht' = bag_spec (keyeq ht) (multiplicity ht) oper \<and> ht_used_buckets ht' \<le> Suc (ht_used_buckets ht)"
proof -
  have k: "keyless ht" and co: "ht_counts_offset ht \<noteq> 0" using s by (simp_all add: bag_coll_def)
  have wf: "hash_wf ht" and cb: "callbacks_ok ht" using k usableD(1,3) by (simp_all add: keyless_def)
  have same: "keyeq ht x k \<Longrightarrow> content ht k = content ht x" for x k
    using content_keyed [OF wf cb] unfolding keyed_def by metis
  have pos: "content ht k = Some (k', v, c) \<Longrightarrow> 0 < c" for k k' v c by (rule content_count(1) [OF wf cb])
  obtain ht' where h: "hash_step ht (member_hash_op oper) = Some ht'" "keyless ht'" "config ht' = config ht"
    "content ht' = map_step ht (content ht) (member_hash_op oper)" "ht_used_buckets ht' \<le> Suc (ht_used_buckets ht)"
    by (rule keyless_step [OF k ok room])
  have "multiplicity ht' x = bag_spec (keyeq ht) (multiplicity ht) oper x" for x
  proof (cases "\<exists>k. oper = MemberReplace k")
    case True
    then obtain k where "oper = MemberReplace k" by blast
    then show ?thesis using same [of x k] pos [of x]
      by (cases "content ht x") (auto simp: multiplicity_def h(4) put_def set_entry_def entry_count_def max_def Suc_le_eq)
  next
    case False
    then show ?thesis unfolding multiplicity_def h(4) using LONG_MAX_big
      by (cases oper; cases "content ht x")
        (auto simp: put_def added_entry_def set_entry_def removed_entry_def entry_count_def co dest: same pos
          split: option.splits if_splits)
  qed
  then show ?thesis using h(1,2,3,5) configD(4) [OF h(3)] co by (simp add: bag_step_hash bag_coll_def fun_eq_iff)
qed

interpretation bag_hist: history bag_step multiplicity bag_coll config "\<lambda>c. bag_spec (keyeq c)" "\<lambda>c. member_ok"
  "\<lambda>ht. room_limit - ht_used_buckets ht"
proof
  fix ht oper
  assume d: "bag_coll ht" and ok: "member_ok oper" and room: "0 < room_limit - ht_used_buckets ht"
  have c: "keyeq (config ht) = keyeq ht" by (rule config_cong [OF config_idem])
  show "\<exists>ht'. bag_step ht oper = Some ht' \<and> bag_coll ht' \<and> config ht' = config ht
      \<and> multiplicity ht' = bag_spec (keyeq (config ht)) (multiplicity ht) oper
      \<and> room_limit - ht_used_buckets ht \<le> Suc (room_limit - ht_used_buckets ht')"
    unfolding c using bag_step_law [OF d ok] room by fastforce
qed

lemma bag_created:
  assumes "CFBagCreateGeneric kcb None False = Some ht" "contract ht"
  shows "bag_coll ht" "content ht = (\<lambda>k. None)" "ht_used_buckets ht = 0" "keyless ht"
  using keyless_created [OF assms(1) [unfolded CFBagCreateGeneric_def] assms(2)]
  by (simp_all add: bag_coll_def kCFBasicHashLinearHashing_def kCFBasicHashHasCounts_def)

section \<open>Properties\<close>

text \<open>C21. Refinement of a bag: a mutable bag made with callbacks that keep the contract never halts on
  a history of additions, settings, replacements, removals and clearings, and afterwards the count of
  every value is the one the same history gives on multiplicities: an addition counts one more, a
  removal one less, a setting at least one.  A bag made from a list is immutable and counts how many
  values of the list are equal to the one asked for.\<close>

theorem CFBag_histories_refine:
  assumes "CFBagCreateMutable capacity kcb = Some ht0" "contract ht0"
    "\<forall>oper\<in>set ops. member_ok oper" "length ops \<le> room_limit"
    "nat n \<le> length klist" "n \<le> int room_limit" "\<forall>i<nat n. \<not> is_magic (klist ! i)" "\<not> is_magic x"
  defines "m \<equiv> foldl (bag_spec (keyeq ht0)) (\<lambda>x. 0) ops"
  shows "(\<exists>ht. bag_run ht0 ops = Some ht \<and> CFBagGetCountOfValue ht x = Some (m x)
      \<and> CFBagContainsValue ht x = Some (0 < m x))
    \<and> (\<exists>ht. CFBagCreate klist n kcb = Some ht \<and> \<not> CFBagIsMutable ht
      \<and> CFBagGetCountOfValue ht x = Some (length (filter (keyeq ht0 x) (take (nat n) klist))))"
proof -
  note g = bag_created [OF assms(1) [unfolded CFBagCreateMutable_def] assms(2)]
  have c: "keyeq (config ht0) = keyeq ht0" by (rule config_cong [OF config_idem])
  have abs0: "multiplicity ht0 = (\<lambda>x. 0)" by (simp add: fun_eq_iff multiplicity_def entry_count_def g(2))
  obtain ht where ht: "bag_run ht0 ops = Some ht" "bag_coll ht" "multiplicity ht = m"
    using bag_hist.run_law [OF g(1), of ops] assms(3,4) by (auto simp: bag_run_def m_def abs0 c g(3))
  then have w: "hash_wf ht" "callbacks_ok ht" using usableD [of ht] by (simp_all add: bag_coll_def keyless_def)
  have part1: "CFBagGetCountOfValue ht x = Some (m x) \<and> CFBagContainsValue ht x = Some (0 < m x)"
    by (simp add: CFBagGetCountOfValue_def CFBagContainsValue_def GetCountOfKey_law [OF w assms(8)]
        ht(3) [symmetric] multiplicity_def)
  obtain t where t: "hash_fill ht0 klist klist n = Some t" "hash_wf (CFBasicHashMakeImmutable t)"
    "callbacks_ok (CFBasicHashMakeImmutable t)" "\<not> ht_mutable (CFBasicHashMakeImmutable t)"
    "entry_count (content (CFBasicHashMakeImmutable t) x) = length (filter (keyeq ht0 x) (take (nat n) klist))"
    by (rule keyless_fill [OF g(4,2,3) assms(5-7)]) (use g(1) in \<open>simp_all add: bag_coll_def Let_def\<close>)
  have "CFBagCreate klist n kcb = Some (CFBasicHashMakeImmutable t)"
    using assms(1) t(1) by (simp add: CFBagCreate_def CFBagCreateMutable_def)
  then have "CFBagCreate klist n kcb = Some (CFBasicHashMakeImmutable t) \<and> \<not> CFBagIsMutable (CFBasicHashMakeImmutable t)
      \<and> CFBagGetCountOfValue (CFBasicHashMakeImmutable t) x = Some (length (filter (keyeq ht0 x) (take (nat n) klist)))"
    using t(4,5) by (simp add: CFBagIsMutable_def CFBasicHashIsMutable_def CFBagGetCountOfValue_def
        GetCountOfKey_law [OF t(2,3) assms(8)])
  with part1 ht(1) show ?thesis by blast
qed

section \<open>Examples\<close>

definition example_bag :: CFBasicHash where
  "example_bag = the (CFBagCreateGeneric None None False)"

lemma example_bag: "CFBagCreateMutable 0 None = Some example_bag"
  using Create_some(3) by (simp add: example_bag_def CFBagCreateMutable_def CFBagCreateGeneric_def)

lemma example_bag_callbacks: "ht_callbacks example_bag = null_callbacks"
  using Create_callbacks [OF example_bag [unfolded CFBagCreateMutable_def CFBagCreateGeneric_def]]
  by (simp add: hash_callbacks_def null_callbacks_def)

theorem CFBag_histories_refine_witness:
  "(\<exists>ht. bag_run example_bag [MemberAdd 5, MemberAdd 5, MemberSet 5, MemberAdd 5, MemberRemove 5] = Some ht
      \<and> CFBagGetCountOfValue ht 5 = Some 2)
    \<and> (\<exists>ht. CFBagCreate [5, 4, 5, 5] 3 None = Some ht \<and> CFBagGetCountOfValue ht 5 = Some 2)"
proof -
  let ?ops = "[MemberAdd 5, MemberAdd 5, MemberSet 5, MemberAdd 5, MemberRemove 5]"
  note i = null_imports [OF example_bag_callbacks]
  have m: "\<not> is_magic 4" "\<not> is_magic 5" by (simp_all add: small_not_magic)
  have ok: "\<forall>oper\<in>set ?ops. member_ok oper" "length ?ops \<le> room_limit" by (simp_all add: m room_limit_def)
  have args: "nat 3 \<le> length [5, 4, 5, 5 :: u64]" "3 \<le> int room_limit" by (simp_all add: room_limit_def)
  have args': "\<forall>i<nat 3. \<not> is_magic ([5, 4, 5, 5] ! i)" using m by (auto simp: numeral_3_eq_3 less_Suc_eq)
  have spec: "foldl (bag_spec (keyeq example_bag)) (\<lambda>x. 0) ?ops 5 = 2" by (simp add: i LONG_MAX_def)
  show ?thesis
    using CFBag_histories_refine [OF example_bag null_contract [OF example_bag_callbacks] ok args args' m(2)]
    unfolding spec by (auto simp: i numeral_3_eq_3)
qed

end
