(* ===== verification/LinkList.thy ===== *)
theory LinkList
  imports LinkedPaths "HOL-Library.Monad_Syntax"
begin

text \<open>
  The linked lists of the demo: the stack of \<open>Stack.c\<close> and the C functions of
  \<open>LinkListViewController.m\<close>.  Nodes live in a store from addresses to records; an access through
  NULL or to an address with no node is \<open>None\<close>, and so is a loop that does not end (the loops are
  \<open>partial_function (option)\<close>).  Counters are unbounded integers, exact for lists shorter than
  \<open>INT_MAX\<close>; printed values are collected in a list.
\<close>

section \<open>Nodes\<close>

record ListNode =
  nd_value :: int
  nd_next :: u64

type_synonym nodes = "u64 \<Rightarrow> ListNode option"

definition node_at :: "nodes \<Rightarrow> u64 \<Rightarrow> ListNode option" where
  "node_at h p = (if p = NULL then None else h p)"

definition next_of :: "nodes \<Rightarrow> u64 \<Rightarrow> u64 option" where
  "next_of h p = map_option nd_next (node_at h p)"

definition value_of :: "nodes \<Rightarrow> u64 \<Rightarrow> int option" where
  "value_of h p = map_option nd_value (node_at h p)"

definition set_next :: "nodes \<Rightarrow> u64 \<Rightarrow> u64 \<Rightarrow> nodes option" where
  "set_next h p q = do { n \<leftarrow> node_at h p; Some (h(p \<mapsto> n\<lparr>nd_next := q\<rparr>)) }"

section \<open>The stack\<close>

record ListStack =
  sk_top :: u64
  sk_bottom :: u64

text \<open>\<open>initStack\<close>, with the allocated stack as its result.\<close>

definition initStack :: ListStack where
  "initStack = \<lparr>sk_top = NULL, sk_bottom = NULL\<rparr>"

definition stack_push :: "nodes \<Rightarrow> ListStack \<Rightarrow> u64 \<Rightarrow> (nodes \<times> ListStack) option" where
  "stack_push h stack node =
     (if node = NULL then Some (h, stack)
      else if sk_top stack = NULL
      then Some (h, stack\<lparr>sk_bottom := node, sk_top := node\<rparr>)
      else do { h \<leftarrow> set_next h node (sk_top stack); Some (h, stack\<lparr>sk_top := node\<rparr>) })"

text \<open>A stack pointer may be NULL (\<open>None\<close>).\<close>

definition stack_pop :: "nodes \<Rightarrow> ListStack option \<Rightarrow> (ListStack option \<times> u64) option" where
  "stack_pop h stack = (case stack of
     None \<Rightarrow> Some (None, NULL)
   | Some s \<Rightarrow> do { q \<leftarrow> next_of h (sk_top s);
                    Some (Some (if q = NULL then s\<lparr>sk_bottom := NULL\<rparr> else s), sk_top s) })"

definition stack_empty :: "ListStack option \<Rightarrow> bool" where
  "stack_empty stack = (case stack of None \<Rightarrow> True | Some s \<Rightarrow> sk_top s = sk_bottom s)"

partial_function (option) stack_lenth_loop :: "nodes \<Rightarrow> u64 \<Rightarrow> u64 \<Rightarrow> int \<Rightarrow> int option" where
  "stack_lenth_loop h tp bottom len =
     (if tp = bottom then Some len
      else do { tp \<leftarrow> next_of h tp; stack_lenth_loop h tp bottom (len + 1) })"

definition stack_lenth :: "nodes \<Rightarrow> ListStack option \<Rightarrow> int option" where
  "stack_lenth h stack = (case stack of
     None \<Rightarrow> Some 0 | Some s \<Rightarrow> stack_lenth_loop h (sk_top s) (sk_bottom s) 0)"

text \<open>Freed nodes leave the store; the pointers of the stack are not reset.\<close>

partial_function (option) stack_clear_loop :: "nodes \<Rightarrow> u64 \<Rightarrow> nodes option" where
  "stack_clear_loop h node =
     (if node = NULL then Some h
      else do { q \<leftarrow> next_of h node; stack_clear_loop (h(node := None)) q })"

definition stack_clear :: "nodes \<Rightarrow> ListStack option \<Rightarrow> nodes option" where
  "stack_clear h stack = (case stack of None \<Rightarrow> Some h | Some s \<Rightarrow> stack_clear_loop h (sk_top s))"

section \<open>Printing in opposite order\<close>

partial_function (option) push_all :: "nodes \<Rightarrow> ListStack \<Rightarrow> u64 \<Rightarrow> (nodes \<times> ListStack) option" where
  "push_all h stack node =
     (if node = NULL then Some (h, stack)
      else do { (h, stack) \<leftarrow> stack_push h stack node;
                node \<leftarrow> next_of h node;
                push_all h stack node })"

partial_function (option) pop_all :: "nodes \<Rightarrow> ListStack option \<Rightarrow> int list \<Rightarrow> int list option" where
  "pop_all h stack out =
     (if stack_empty stack then Some out
      else do { (stack, topNode) \<leftarrow> stack_pop h stack;
                v \<leftarrow> value_of h topNode;
                pop_all h stack (out @ [v]) })"

definition printLinkListWithOppositeSort :: "nodes \<Rightarrow> u64 \<Rightarrow> int list option" where
  "printLinkListWithOppositeSort h header =
     (if header = NULL then Some []
      else do { (h, stack) \<leftarrow> push_all h initStack header; pop_all h (Some stack) [] })"

partial_function (option) recursivlyprintLinkListWithOppositeSort :: "nodes \<Rightarrow> u64 \<Rightarrow> int list option" where
  "recursivlyprintLinkListWithOppositeSort h header =
     (if header = NULL then Some []
      else do { q \<leftarrow> next_of h header;
                out \<leftarrow> (if q = NULL then Some [] else recursivlyprintLinkListWithOppositeSort h q);
                v \<leftarrow> value_of h header;
                Some (out @ [v]) })"

section \<open>Operations on lists\<close>

partial_function (option) getNodeNum_loop :: "nodes \<Rightarrow> u64 \<Rightarrow> int \<Rightarrow> int option" where
  "getNodeNum_loop h header num =
     (if header = NULL then Some num
      else do { header \<leftarrow> next_of h header; getNodeNum_loop h header (num + 1) })"

definition getNodeNum :: "nodes \<Rightarrow> u64 \<Rightarrow> int option" where
  "getNodeNum h header = getNodeNum_loop h header 0"

partial_function (option) print_values :: "nodes \<Rightarrow> u64 \<Rightarrow> int list \<Rightarrow> int list option" where
  "print_values h node out =
     (if node = NULL then Some out
      else do { v \<leftarrow> value_of h node; q \<leftarrow> next_of h node; print_values h q (out @ [v]) })"

partial_function (option) invert_loop :: "nodes \<Rightarrow> u64 \<Rightarrow> u64 \<Rightarrow> int list \<Rightarrow> (nodes \<times> int list) option" where
  "invert_loop h currentHeadNode newHeaderNode out =
     (if currentHeadNode = NULL then Some (h, out)
      else do { h \<leftarrow> set_next h currentHeadNode newHeaderNode;
                q \<leftarrow> next_of h currentHeadNode;
                out \<leftarrow> print_values h currentHeadNode out;
                invert_loop h q currentHeadNode out })"

definition invertListNode :: "nodes \<Rightarrow> u64 \<Rightarrow> (nodes \<times> int list) option" where
  "invertListNode h header =
     (if header = NULL then Some (h, [])
      else do { q \<leftarrow> next_of h header;
                if q = NULL then Some (h, []) else invert_loop h header NULL [] })"

text \<open>At most \<open>k\<close> steps along the list, with the steps that are left.\<close>

fun skip_nodes :: "nodes \<Rightarrow> u64 \<Rightarrow> nat \<Rightarrow> (u64 \<times> nat) option" where
  "skip_nodes h p 0 = Some (p, 0)"
| "skip_nodes h p (Suc k) =
     (if p = NULL then Some (p, Suc k) else do { p \<leftarrow> next_of h p; skip_nodes h p k })"

text \<open>Two pointers move together until the first one is at the end.\<close>

partial_function (option) advance_both :: "nodes \<Rightarrow> u64 \<Rightarrow> u64 \<Rightarrow> u64 option" where
  "advance_both h p q =
     (if p = NULL then Some q
      else do { p \<leftarrow> next_of h p; q \<leftarrow> next_of h q; advance_both h p q })"

definition lastKNode :: "nodes \<Rightarrow> u64 \<Rightarrow> int \<Rightarrow> u64 option" where
  "lastKNode h header k =
     (if k < 0 \<or> header = NULL then Some NULL
      else do { (tempHeader, left) \<leftarrow> skip_nodes h header (nat k);
                if 0 < left then Some NULL else advance_both h tempHeader header })"

partial_function (option) middle_loop :: "nodes \<Rightarrow> u64 \<Rightarrow> u64 \<Rightarrow> u64 option" where
  "middle_loop h before behind =
     do { q \<leftarrow> next_of h before;
          if q = NULL then Some behind
          else do { behind \<leftarrow> next_of h behind;
                    before \<leftarrow> next_of h q;
                    middle_loop h before behind } }"

definition middleNode :: "nodes \<Rightarrow> u64 \<Rightarrow> u64 option" where
  "middleNode h header =
     (if header = NULL then Some NULL
      else do { q \<leftarrow> next_of h header;
                if q = NULL then Some header
                else do { r \<leftarrow> next_of h q;
                          if r = NULL then Some header else middle_loop h header header } })"

text \<open>The merge: the list built so far ends in \<open>tempNode\<close>.\<close>

partial_function (option) merge_lists_loop :: "nodes \<Rightarrow> u64 \<Rightarrow> u64 \<Rightarrow> u64 \<Rightarrow> (nodes \<times> u64 \<times> u64 \<times> u64) option" where
  "merge_lists_loop h header1 header2 tempNode =
     do { q1 \<leftarrow> next_of h header1;
          q2 \<leftarrow> (if q1 = NULL then Some NULL else next_of h header2);
          if q1 = NULL \<or> q2 = NULL then Some (h, header1, header2, tempNode)
          else do {
            v1 \<leftarrow> value_of h header1;
            v2 \<leftarrow> value_of h header2;
            if v1 < v2 then do { h \<leftarrow> set_next h tempNode header1;
              header1' \<leftarrow> next_of h header1;
              merge_lists_loop h header1' header2 header1 }
            else if v1 > v2 then do { h \<leftarrow> set_next h tempNode header2;
              header2' \<leftarrow> next_of h header2;
              merge_lists_loop h header1 header2' header2 }
            else do { h \<leftarrow> set_next h tempNode header1;
              header1' \<leftarrow> next_of h header1;
              h \<leftarrow> set_next h header1 header2;
              header2' \<leftarrow> next_of h header2;
              merge_lists_loop h header1' header2' header2 } } }"

definition mergeTwoSortList :: "nodes \<Rightarrow> u64 \<Rightarrow> u64 \<Rightarrow> (nodes \<times> u64) option" where
  "mergeTwoSortList h header1 header2 =
     (if header1 = NULL then Some (h, header2)
      else if header2 = NULL then Some (h, header1)
      else do {
        v1 \<leftarrow> value_of h header1;
        v2 \<leftarrow> value_of h header2;
        (h, newHeader, header1, header2) \<leftarrow>
          (if v1 < v2 then do { q \<leftarrow> next_of h header1; Some (h, header1, q, header2) }
           else if v1 > v2 then do { q \<leftarrow> next_of h header2; Some (h, header2, header1, q) }
           else do { h \<leftarrow> set_next h header1 header2;
                     q1 \<leftarrow> next_of h header1; q2 \<leftarrow> next_of h header2;
                     Some (h, header1, q1, q2) });
        (h, header1, header2, tempNode) \<leftarrow> merge_lists_loop h header1 header2 newHeader;
        h \<leftarrow> (if header1 \<noteq> NULL then set_next h tempNode header1 else Some h);
        h \<leftarrow> (if header2 \<noteq> NULL then set_next h tempNode header2 else Some h);
        Some (h, newHeader) })"

section \<open>Cycles\<close>

partial_function (option) circle_loop :: "nodes \<Rightarrow> u64 \<Rightarrow> u64 \<Rightarrow> (bool \<times> u64) option" where
  "circle_loop h before behind =
     (if before = NULL then Some (False, before)
      else do { before \<leftarrow> next_of h before;
                before \<leftarrow> (if before \<noteq> NULL then next_of h before else Some before);
                behind \<leftarrow> next_of h behind;
                if before = behind then Some (True, before) else circle_loop h before behind })"

definition nodeHasCircle :: "nodes \<Rightarrow> u64 \<Rightarrow> bool option" where
  "nodeHasCircle h header =
     (if header = NULL then Some False else map_option fst (circle_loop h header header))"

partial_function (option) last_node :: "nodes \<Rightarrow> u64 \<Rightarrow> u64 option" where
  "last_node h header =
     do { q \<leftarrow> next_of h header; if q = NULL then Some header else last_node h q }"

definition nodeCross :: "nodes \<Rightarrow> u64 \<Rightarrow> u64 \<Rightarrow> bool option" where
  "nodeCross h node1 node2 =
     (if node1 = NULL \<or> node2 = NULL then Some False
      else do { header1 \<leftarrow> last_node h node1; header2 \<leftarrow> last_node h node2;
                Some (header1 = header2) })"

partial_function (option) cross_loop :: "nodes \<Rightarrow> u64 \<Rightarrow> u64 \<Rightarrow> u64 option" where
  "cross_loop h node1 node2 =
     (if node1 = NULL \<or> node2 = NULL then Some NULL
      else if node1 = node2 then Some node1
      else do { node2 \<leftarrow> next_of h node2; node1 \<leftarrow> next_of h node1; cross_loop h node1 node2 })"

fun walk_nodes :: "nodes \<Rightarrow> u64 \<Rightarrow> nat \<Rightarrow> u64 option" where
  "walk_nodes h p 0 = Some p"
| "walk_nodes h p (Suc k) = do { p \<leftarrow> next_of h p; walk_nodes h p k }"

definition crossNode :: "nodes \<Rightarrow> u64 \<Rightarrow> u64 \<Rightarrow> u64 option" where
  "crossNode h node1 node2 =
     (if node1 = NULL \<or> node2 = NULL then Some NULL
      else do {
        len1 \<leftarrow> getNodeNum_loop h node1 0;
        len2 \<leftarrow> getNodeNum_loop h node2 0;
        let k = (if len1 < len2 then len2 - len1 else len1 - len2);
        if len1 < len2
        then do { node2 \<leftarrow> walk_nodes h node2 (nat k); cross_loop h node1 node2 }
        else do { node1 \<leftarrow> walk_nodes h node1 (nat k); cross_loop h node1 node2 } })"

partial_function (option) start_loop :: "nodes \<Rightarrow> u64 \<Rightarrow> u64 \<Rightarrow> u64 option" where
  "start_loop h startNode meetNode =
     (if startNode = NULL then Some NULL
      else if startNode = meetNode then Some startNode
      else do { startNode \<leftarrow> next_of h startNode; meetNode \<leftarrow> next_of h meetNode;
                start_loop h startNode meetNode })"

definition circleStartNode :: "nodes \<Rightarrow> u64 \<Rightarrow> u64 option" where
  "circleStartNode h header =
     (if header = NULL then Some NULL
      else do { (flag, before) \<leftarrow> circle_loop h header header;
                if flag then start_loop h header before else Some NULL })"

section \<open>Laws of the loops\<close>

lemma next_of_NULL [simp]: "next_of h NULL = None" "value_of h NULL = None"
  by (simp_all add: next_of_def value_of_def node_at_def)

lemma next_node: "next_of h p = Some q \<Longrightarrow> \<exists>n. node_at h p = Some n \<and> nd_next n = q \<and> value_of h p = Some (nd_value n)"
  by (auto simp: next_of_def value_of_def)

definition values_of :: "nodes \<Rightarrow> u64 list \<Rightarrow> int list" where
  "values_of h xs = map (\<lambda>p. the (value_of h p)) xs"

lemma getNodeNum_law: "path (next_of h) x xs NULL \<Longrightarrow> getNodeNum_loop h x num = Some (num + int (length xs))"
proof (induction xs arbitrary: x num)
  case Nil
  then show ?case by (simp add: getNodeNum_loop.simps)
next
  case (Cons z zs)
  then show ?case by (subst getNodeNum_loop.simps) auto
qed

lemma path_tail: "path f x (z # zs) y \<Longrightarrow> \<exists>w. x = z \<and> z \<noteq> NULL \<and> f z = Some w \<and> path f w zs y"
  by simp

text \<open>The address after \<open>k\<close> steps, the end of the list included.\<close>

definition at_step :: "u64 list \<Rightarrow> nat \<Rightarrow> u64" where
  "at_step xs k = (xs @ [NULL]) ! k"

lemma at_step_simps [simp]: "at_step (x # xs) 0 = x" "at_step (x # xs) (Suc k) = at_step xs k" "at_step [] 0 = NULL"
  by (simp_all add: at_step_def)

lemma at_step_length [simp]: "at_step xs (length xs) = NULL"
  by (simp add: at_step_def nth_append)

lemma at_step_nth: "k < length xs \<Longrightarrow> at_step xs k = xs ! k"
  by (simp add: at_step_def nth_append)

lemma path_start: "path f x xs NULL \<Longrightarrow> at_step xs 0 = x"
  by (cases xs) simp_all

lemma path_drop: "path f x xs NULL \<Longrightarrow> k \<le> length xs \<Longrightarrow> path f (at_step xs k) (drop k xs) NULL"
proof (induction xs arbitrary: x k)
  case (Cons z zs)
  then show ?case by (cases k) auto
qed simp

lemma skip_nodes_law: "path (next_of h) x xs NULL \<Longrightarrow>
    skip_nodes h x k = Some (if k \<le> length xs then (at_step xs k, 0) else (NULL, k - length xs))"
proof (induction xs arbitrary: x k)
  case Nil
  then show ?case by (cases k) simp_all
next
  case (Cons z zs)
  then show ?case by (cases k) auto
qed

lemma walk_nodes_law: "path (next_of h) x xs NULL \<Longrightarrow> k \<le> length xs \<Longrightarrow> walk_nodes h x k = Some (at_step xs k)"
proof (induction xs arbitrary: x k)
  case (Cons z zs)
  then show ?case by (cases k) auto
qed simp

lemma advance_both_law: "path (next_of h) p xs NULL \<Longrightarrow> path (next_of h) q ys NULL \<Longrightarrow> length xs \<le> length ys \<Longrightarrow>
    advance_both h p q = Some (at_step ys (length xs))"
proof (induction xs arbitrary: p q ys)
  case Nil
  then show ?case by (simp add: advance_both.simps path_start)
next
  case (Cons z zs)
  then obtain y ys' where "ys = y # ys'" by (cases ys) auto
  with Cons show ?case by (subst advance_both.simps) auto
qed

lemma lastKNode_law:
  assumes "path (next_of h) header xs NULL"
  shows "lastKNode h header k = Some (if 0 < k \<and> k \<le> int (length xs) then xs ! (length xs - nat k) else NULL)"
proof (cases "k < 0 \<or> header = NULL \<or> int (length xs) < k")
  case True
  have "header = NULL \<Longrightarrow> xs = []" using assms by simp
  then show ?thesis using True skip_nodes_law [OF assms, of "nat k"] by (auto simp: lastKNode_def)
next
  case False
  then have k: "nat k \<le> length xs" by auto
  have "advance_both h (at_step xs (nat k)) header = Some (at_step xs (length (drop (nat k) xs)))"
    by (rule advance_both_law [OF path_drop [OF assms k] assms]) simp
  then have "lastKNode h header k = Some (at_step xs (length xs - nat k))"
    using False k skip_nodes_law [OF assms, of "nat k"] by (simp add: lastKNode_def)
  moreover have "at_step xs (length xs - nat k) = (if 0 < k then xs ! (length xs - nat k) else NULL)"
    using False k by (auto simp: at_step_nth)
  ultimately show ?thesis using False k by auto
qed

lemma middle_loop_law: "path (next_of h) before xs NULL \<Longrightarrow> path (next_of h) behind ys NULL \<Longrightarrow>
    length xs \<le> length ys \<Longrightarrow>
    middle_loop h before behind = (if odd (length xs) then Some (at_step ys (length xs div 2)) else None)"
proof (induction "length xs" arbitrary: before behind xs ys rule: less_induct)
  case less
  show ?case
  proof (cases xs)
    case Nil
    with less show ?thesis by (subst middle_loop.simps) simp
  next
    case (Cons x xs1)
    show ?thesis
    proof (cases xs1)
      case Nil
      with Cons less.prems show ?thesis by (subst middle_loop.simps) (auto simp: path_start)
    next
      case c2: (Cons x' xs2)
      obtain y ys1 where ys: "ys = y # ys1" using less.prems Cons by (cases ys) auto
      obtain q where q: "next_of h behind = Some q" "path (next_of h) q ys1 NULL" using less.prems(2) ys by auto
      obtain p where p: "next_of h before = Some x'" "x' \<noteq> NULL" "next_of h x' = Some p" "path (next_of h) p xs2 NULL"
        using less.prems(1) Cons c2 by auto
      have "middle_loop h p q = (if odd (length xs2) then Some (at_step ys1 (length xs2 div 2)) else None)"
        by (rule less.hyps [OF _ p(4) q(2)]) (use less.prems(3) Cons c2 ys in simp_all)
      with p q show ?thesis by (subst middle_loop.simps) (simp add: Cons c2 ys)
    qed
  qed
qed

lemma middleNode_law:
  assumes "path (next_of h) header xs NULL"
  shows "middleNode h header = (if length xs \<le> 2 then Some header
    else if odd (length xs) then Some (xs ! (length xs div 2)) else None)"
proof (cases xs rule: remdups_adj.cases)
  case (3 x y zs)
  show ?thesis
  proof (cases zs)
    case Nil
    with assms 3 show ?thesis by (auto simp: middleNode_def)
  next
    case (Cons z zs')
    have "middleNode h header = middle_loop h header header"
      using assms 3 Cons by (auto simp: middleNode_def)
    also have "\<dots> = (if odd (length xs) then Some (at_step xs (length xs div 2)) else None)"
      by (rule middle_loop_law [OF assms assms]) simp
    finally show ?thesis using 3 Cons by (simp add: at_step_nth)
  qed
qed (use assms in \<open>auto simp: middleNode_def\<close>)

lemma invertListNode_law:
  assumes "path (next_of h) header xs NULL" "1 < length xs"
  shows "\<exists>n. h header = Some n \<and> invertListNode h header = Some (h(header \<mapsto> n\<lparr>nd_next := NULL\<rparr>), [nd_value n])"
proof -
  obtain x y ys where xs: "xs = x # y # ys" using assms(2) by (cases xs rule: remdups_adj.cases) auto
  then obtain n where n: "header \<noteq> NULL" "h header = Some n" "nd_next n = y" "y \<noteq> NULL"
    using assms(1) by (auto simp: next_of_def node_at_def)
  let ?n = "n\<lparr>nd_next := NULL\<rparr>"
  let ?h = "h(header \<mapsto> ?n)"
  have "next_of ?h header = Some NULL" "value_of ?h header = Some (nd_value n)" "set_next h header NULL = Some ?h"
    using n by (simp_all add: next_of_def value_of_def node_at_def set_next_def)
  moreover from this have "print_values ?h header [] = Some [nd_value n]"
    using n(1) by (subst print_values.simps, simp) (subst print_values.simps, simp)
  ultimately have "invert_loop h header NULL [] = Some (?h, [nd_value n])"
    using n(1) by (subst invert_loop.simps, simp) (subst invert_loop.simps, simp)
  with n show ?thesis by (simp add: invertListNode_def next_of_def node_at_def)
qed

lemma recursivlyprint_law: "path (next_of h) header xs NULL \<Longrightarrow>
    recursivlyprintLinkListWithOppositeSort h header = Some (rev (values_of h xs))"
proof (induction xs arbitrary: header)
  case Nil
  then show ?case by (subst recursivlyprintLinkListWithOppositeSort.simps) (simp add: values_of_def)
next
  case (Cons z zs)
  then obtain w where w: "header = z" "z \<noteq> NULL" "next_of h z = Some w" "path (next_of h) w zs NULL" by auto
  moreover obtain v where "value_of h z = Some v" using next_node [OF w(3)] by blast
  ultimately show ?case using Cons.IH [OF w(4)]
    by (subst recursivlyprintLinkListWithOppositeSort.simps) (cases "w = NULL", auto simp: values_of_def)
qed

section \<open>Printing never ends\<close>

text \<open>Once two nodes are on the stack, each push makes the node that comes next the one below it.\<close>

lemma push_all_diverges:
  assumes "node \<noteq> NULL" "sk_top s \<noteq> NULL" "sk_top s \<noteq> node" "h node \<noteq> None" "h (sk_top s) \<noteq> None"
  shows "push_all h s node = None"
proof (rule ccontr)
  assume "push_all h s node \<noteq> None"
  then obtain r where "push_all h s node = Some r" by blast
  then have "\<not> (node \<noteq> NULL \<and> sk_top s \<noteq> NULL \<and> sk_top s \<noteq> node \<and> h node \<noteq> None \<and> h (sk_top s) \<noteq> None)"
  proof (rule push_all.raw_induct [where P = "\<lambda>h s node r. \<not> (node \<noteq> NULL \<and> sk_top s \<noteq> NULL
      \<and> sk_top s \<noteq> node \<and> h node \<noteq> None \<and> h (sk_top s) \<noteq> None)", rotated])
    fix f h s node r
    assume IH: "\<And>h s node r. f h s node = Some r \<Longrightarrow> \<not> (node \<noteq> NULL \<and> sk_top s \<noteq> NULL
        \<and> sk_top s \<noteq> node \<and> h node \<noteq> None \<and> h (sk_top s) \<noteq> None)"
      and step: "(if node = NULL then Some (h, s)
        else do { (h, s) \<leftarrow> stack_push h s node; node \<leftarrow> next_of h node; f h s node }) = Some r"
    show "\<not> (node \<noteq> NULL \<and> sk_top s \<noteq> NULL \<and> sk_top s \<noteq> node \<and> h node \<noteq> None \<and> h (sk_top s) \<noteq> None)"
    proof
      assume a: "node \<noteq> NULL \<and> sk_top s \<noteq> NULL \<and> sk_top s \<noteq> node \<and> h node \<noteq> None \<and> h (sk_top s) \<noteq> None"
      then obtain n where n: "h node = Some n" by blast
      let ?h = "h(node \<mapsto> n\<lparr>nd_next := sk_top s\<rparr>)"
      have "f ?h (s\<lparr>sk_top := node\<rparr>) (sk_top s) = Some r"
        using step a n by (simp add: stack_push_def set_next_def next_of_def node_at_def)
      from IH [OF this] a show False by auto
    qed
  qed
  with assms show False by blast
qed

lemma printLinkList_diverges:
  assumes "path (next_of h) header xs NULL" "1 < length xs"
  shows "printLinkListWithOppositeSort h header = None"
proof -
  obtain x y ys where xs: "xs = x # y # ys" using assms(2) by (cases xs rule: remdups_adj.cases) auto
  then obtain n where n: "header = x" "x \<noteq> NULL" "h x = Some n" "nd_next n = y" "y \<noteq> NULL" "h y \<noteq> None"
    using assms(1) by (auto simp: next_of_def node_at_def)
  have xy: "x \<noteq> y" using path_distinct [OF assms(1)] xs by auto
  have "push_all h (initStack\<lparr>sk_bottom := x, sk_top := x\<rparr>) y = None"
    by (rule push_all_diverges) (use n xy in auto)
  then have "push_all h initStack header = None"
    using n by (subst push_all.simps) (simp add: stack_push_def initStack_def next_of_def node_at_def)
  with n show ?thesis by (simp add: printLinkListWithOppositeSort_def)
qed

section \<open>Lists that cross\<close>

lemma last_node_law: "path (next_of h) x xs NULL \<Longrightarrow> xs \<noteq> [] \<Longrightarrow> last_node h x = Some (last xs)"
proof (induction xs arbitrary: x)
  case (Cons z zs)
  then show ?case by (subst last_node.simps) (cases zs, auto)
qed simp

text \<open>Two lists in one store that meet have the same tail.\<close>

lemma common_tail:
  assumes "path f x (as @ z # bs) NULL" "path f y (cs @ z # ds) NULL"
  shows "bs = ds"
proof -
  have "path f z (z # bs) NULL" "path f z (z # ds) NULL" using assms by auto
  from path_unique [OF this] show ?thesis by simp
qed

lemma nodeCross_law:
  assumes p1: "path (next_of h) n1 xs NULL" and p2: "path (next_of h) n2 ys NULL"
  shows "nodeCross h n1 n2 = Some (set xs \<inter> set ys \<noteq> {})"
proof (cases "xs = [] \<or> ys = []")
  case True
  with p1 p2 show ?thesis by (auto simp: nodeCross_def)
next
  case False
  then have ne: "n1 \<noteq> NULL" "n2 \<noteq> NULL" using p1 p2 by auto
  have "last xs = last ys \<longleftrightarrow> set xs \<inter> set ys \<noteq> {}"
  proof
    assume "last xs = last ys"
    with False show "set xs \<inter> set ys \<noteq> {}" using last_in_set [of xs] last_in_set [of ys] by auto
  next
    assume "set xs \<inter> set ys \<noteq> {}"
    then obtain z where "z \<in> set xs" "z \<in> set ys" by blast
    then obtain as bs cs ds where s: "xs = as @ z # bs" "ys = cs @ z # ds" by (meson split_list)
    with common_tail p1 p2 have "bs = ds" by blast
    with s show "last xs = last ys" by simp
  qed
  with ne False show ?thesis by (simp add: nodeCross_def last_node_law [OF p1] last_node_law [OF p2])
qed

text \<open>From equally many nodes before the end, the two walks are at the first common node together.\<close>

lemma cross_loop_law: "path (next_of h) n1 xs NULL \<Longrightarrow> path (next_of h) n2 ys NULL \<Longrightarrow> length xs = length ys \<Longrightarrow>
    cross_loop h n1 n2 = Some (case find (\<lambda>p. p \<in> set ys) xs of None \<Rightarrow> NULL | Some p \<Rightarrow> p)"
proof (induction xs arbitrary: n1 n2 ys)
  case Nil
  then show ?case by (subst cross_loop.simps) simp
next
  case (Cons x xs')
  obtain y ys' where ys: "ys = y # ys'" using Cons.prems(3) by (cases ys) auto
  obtain w where w: "n1 = x" "x \<noteq> NULL" "next_of h x = Some w" "path (next_of h) w xs' NULL" using Cons.prems(1) by auto
  obtain v where v: "n2 = y" "y \<noteq> NULL" "next_of h y = Some v" "path (next_of h) v ys' NULL" using Cons.prems(2) ys by auto
  show ?case
  proof (cases "x = y")
    case True
    with w v ys show ?thesis by (subst cross_loop.simps) simp
  next
    case False
    have len: "length xs' = length ys'" using Cons.prems(3) ys by simp
    have notx: "x \<notin> set ys'"
    proof
      assume "x \<in> set ys'"
      then obtain as bs where s: "ys' = as @ x # bs" by (meson split_list)
      have "xs' = bs" by (rule common_tail [of "next_of h" n1 "[]" x xs' n2 "y # as"]) (use Cons.prems ys s in auto)
      with len s show False by simp
    qed
    have noty: "y \<notin> set xs'"
    proof
      assume "y \<in> set xs'"
      then obtain as bs where s: "xs' = as @ y # bs" by (meson split_list)
      have "ys' = bs" by (rule common_tail [of "next_of h" n2 "[]" y ys' n1 "x # as"]) (use Cons.prems ys s in auto)
      with len s show False by simp
    qed
    have "find (\<lambda>p. p = y \<or> p \<in> set ys') xs' = find (\<lambda>p. p \<in> set ys') xs'"
      by (rule find_cong) (use noty in auto)
    with Cons.IH [OF w(4) v(4) len] False notx w v show ?thesis
      by (subst cross_loop.simps) (simp add: ys)
  qed
qed

lemma find_drop: "find P xs = (case find P (take k xs) of None \<Rightarrow> find P (drop k xs) | Some x \<Rightarrow> Some x)"
proof (induction xs arbitrary: k)
  case (Cons x xs)
  show ?case
  proof (cases k)
    case (Suc j)
    then show ?thesis using Cons.IH [of j] by (auto split: option.split)
  qed simp
qed simp

lemma crossNode_law:
  assumes p1: "path (next_of h) n1 xs NULL" and p2: "path (next_of h) n2 ys NULL"
  shows "crossNode h n1 n2 = Some (case find (\<lambda>p. p \<in> set ys) xs of None \<Rightarrow> NULL | Some p \<Rightarrow> p)"
proof -
  define k where "k = length ys - length xs"
  define l where "l = length xs - length ys"
  text \<open>Nodes before the last ones of equal number are not common.\<close>
  have front: "\<forall>p\<in>set (take l xs). p \<notin> set ys"
  proof (intro ballI notI)
    fix p assume "p \<in> set (take l xs)" "p \<in> set ys"
    then obtain as bs cs ds where s: "take l xs = as @ p # bs" "ys = cs @ p # ds" by (meson split_list)
    have "xs = as @ p # (bs @ drop l xs)" using append_take_drop_id [of l xs] s(1) by simp
    with common_tail p1 p2 s(2) have "bs @ drop l xs = ds" by metis
    moreover have "length (drop l xs) = length xs - l" "length ds < length ys" using s(2) by simp_all
    moreover have "0 < l" using s(1) by (cases l) auto
    ultimately show False unfolding l_def by (auto dest: arg_cong [of _ _ length])
  qed
  have front': "\<forall>p\<in>set (take k ys). p \<notin> set xs"
  proof (intro ballI notI)
    fix p assume "p \<in> set (take k ys)" "p \<in> set xs"
    then obtain as bs cs ds where s: "take k ys = as @ p # bs" "xs = cs @ p # ds" by (meson split_list)
    have "ys = as @ p # (bs @ drop k ys)" using append_take_drop_id [of k ys] s(1) by simp
    with common_tail p1 p2 s(2) have "bs @ drop k ys = ds" by metis
    moreover have "length (drop k ys) = length ys - k" "length ds < length xs" using s(2) by simp_all
    moreover have "0 < k" using s(1) by (cases k) auto
    ultimately show False unfolding k_def by (auto dest: arg_cong [of _ _ length])
  qed
  show ?thesis
  proof (cases "n1 = NULL \<or> n2 = NULL")
    case True
    then have "xs = [] \<or> ys = []" using p1 p2 by auto
    with True show ?thesis by (auto simp: crossNode_def find_Some_iff split: option.split)
  next
    case False
    show ?thesis
    proof (cases "length xs < length ys")
      case True
      have w: "walk_nodes h n2 k = Some (at_step ys k)" "path (next_of h) (at_step ys k) (drop k ys) NULL"
        using walk_nodes_law [OF p2] path_drop [OF p2] True by (simp_all add: k_def)
      have "find (\<lambda>p. p \<in> set (drop k ys)) xs = find (\<lambda>p. p \<in> set ys) xs"
      proof (rule find_cong)
        fix p assume "p \<in> set xs"
        with front' show "p \<in> set (drop k ys) \<longleftrightarrow> p \<in> set ys"
          by (metis Un_iff append_take_drop_id set_append)
      qed simp
      with cross_loop_law [OF p1 w(2)] True have "cross_loop h n1 (at_step ys k)
          = Some (case find (\<lambda>p. p \<in> set ys) xs of None \<Rightarrow> NULL | Some p \<Rightarrow> p)" by (simp add: k_def)
      with False True w(1) show ?thesis
        by (simp add: crossNode_def getNodeNum_law [OF p1] getNodeNum_law [OF p2] Let_def k_def nat_diff_distrib)
    next
      case le: False
      have w: "walk_nodes h n1 l = Some (at_step xs l)" "path (next_of h) (at_step xs l) (drop l xs) NULL"
        using walk_nodes_law [OF p1] path_drop [OF p1] le by (simp_all add: l_def)
      have "find (\<lambda>p. p \<in> set ys) (take l xs) = None" using front by (simp add: find_None_iff)
      then have "find (\<lambda>p. p \<in> set ys) (drop l xs) = find (\<lambda>p. p \<in> set ys) xs"
        using find_drop [of "\<lambda>p. p \<in> set ys" xs l] by simp
      with cross_loop_law [OF w(2) p2] le have "cross_loop h (at_step xs l) n2
          = Some (case find (\<lambda>p. p \<in> set ys) xs of None \<Rightarrow> NULL | Some p \<Rightarrow> p)" by (simp add: l_def)
      with False le w(1) show ?thesis
        by (simp add: crossNode_def getNodeNum_law [OF p1] getNodeNum_law [OF p2] Let_def l_def nat_diff_distrib)
    qed
  qed
qed

section \<open>The hare and the tortoise\<close>

text \<open>A list with a cycle: the links lead through \<open>us\<close>, then around \<open>cs\<close>.  \<open>orbit\<close> is the address
  after a number of steps.\<close>

definition circular :: "nodes \<Rightarrow> u64 \<Rightarrow> u64 list \<Rightarrow> u64 list \<Rightarrow> bool" where
  "circular h header us cs \<longleftrightarrow> path (next_of h) header (us @ cs) (hd cs) \<and> cs \<noteq> [] \<and> distinct (us @ cs)"

definition orbit :: "u64 list \<Rightarrow> u64 list \<Rightarrow> nat \<Rightarrow> u64" where
  "orbit us cs i = (if i < length us then us ! i else cs ! ((i - length us) mod length cs))"

lemma path_nth: "path f x xs y \<Longrightarrow> i < length xs \<Longrightarrow>
    xs ! i \<noteq> NULL \<and> f (xs ! i) = Some (if Suc i < length xs then xs ! Suc i else y)"
proof (induction xs arbitrary: x i)
  case (Cons z zs)
  show ?case
  proof (cases i)
    case 0
    with Cons.prems show ?thesis by (cases zs) auto
  next
    case (Suc j)
    with Cons show ?thesis by auto
  qed
qed simp

lemma orbit_step:
  assumes "circular h header us cs"
  shows "orbit us cs i \<noteq> NULL" "next_of h (orbit us cs i) = Some (orbit us cs (Suc i))"
proof -
  let ?m = "length us" and ?l = "length cs"
  have p: "path (next_of h) header (us @ cs) (hd cs)" and ne: "cs \<noteq> []" using assms by (simp_all add: circular_def)
  define j where "j = (if i < ?m then i else ?m + (i - ?m) mod ?l)"
  have j: "j < length (us @ cs)" "orbit us cs i = (us @ cs) ! j"
    using ne by (auto simp: j_def orbit_def nth_append)
  have "(if Suc j < length (us @ cs) then (us @ cs) ! Suc j else hd cs) = orbit us cs (Suc i)"
  proof (cases "i < ?m")
    case True
    with ne show ?thesis by (auto simp: j_def orbit_def nth_append hd_conv_nth)
  next
    case False
    then have si: "Suc i - ?m = Suc (i - ?m)" by simp
    have "(i - ?m) mod ?l < ?l" using ne by simp
    then consider "Suc ((i - ?m) mod ?l) < ?l" | "Suc ((i - ?m) mod ?l) = ?l" by linarith
    then show ?thesis using False ne
      by cases (auto simp: j_def orbit_def nth_append mod_Suc hd_conv_nth si)
  qed
  with path_nth [OF p j(1)] show "orbit us cs i \<noteq> NULL" "next_of h (orbit us cs i) = Some (orbit us cs (Suc i))"
    by (simp_all add: j(2))
qed

lemma mod_shift: "(t + a) mod l = a mod l \<longleftrightarrow> l dvd t" for t a l :: nat
  using mod_eq_dvd_iff_nat [of a "t + a" l] by simp

lemma orbit_meets:
  assumes "circular h header us cs" "0 < t"
  shows "orbit us cs (t + i) = orbit us cs i \<longleftrightarrow> length us \<le> i \<and> length cs dvd t"
proof -
  let ?m = "length us" and ?l = "length cs"
  have d: "distinct us" "distinct cs" "set us \<inter> set cs = {}" and ne: "0 < ?l" using assms(1) by (auto simp: circular_def)
  show ?thesis
  proof (cases "i < ?m")
    case True
    have "orbit us cs (t + i) \<noteq> us ! i"
    proof (cases "t + i < ?m")
      case True
      with d assms(2) show ?thesis by (simp add: orbit_def nth_eq_iff_index_eq)
    next
      case False
      then have "orbit us cs (t + i) \<in> set cs" using ne by (simp add: orbit_def)
      moreover have "us ! i \<in> set us" using True by simp
      then have "us ! i \<notin> set cs" using d(3) by blast
      ultimately show ?thesis by metis
    qed
    with True show ?thesis by (simp add: orbit_def)
  next
    case False
    define a where "a = i - ?m"
    have i: "i = ?m + a" using False by (simp add: a_def)
    have o: "orbit us cs (?m + b) = cs ! (b mod ?l)" for b by (simp add: orbit_def)
    have "t + i = ?m + (t + a)" by (simp add: i)
    then have "orbit us cs (t + i) = orbit us cs i \<longleftrightarrow> cs ! ((t + a) mod ?l) = cs ! (a mod ?l)" by (simp only: i o)
    also have "\<dots> \<longleftrightarrow> (t + a) mod ?l = a mod ?l" using ne d(2) by (simp add: nth_eq_iff_index_eq)
    also have "\<dots> \<longleftrightarrow> ?l dvd t" by (rule mod_shift)
    finally show ?thesis using False by simp
  qed
qed

lemma circle_loop_circular:
  assumes c: "circular h header us cs"
  shows "t < m \<Longrightarrow> orbit us cs (m + m) = orbit us cs m \<Longrightarrow>
    \<exists>k. 0 < k \<and> length us \<le> k \<and> length cs dvd k
      \<and> circle_loop h (orbit us cs (t + t)) (orbit us cs t) = Some (True, orbit us cs k)"
proof (induction "m - t" arbitrary: t)
  case (Suc d)
  note step = orbit_step [OF c]
  show ?case
  proof (cases "orbit us cs (Suc t + Suc t) = orbit us cs (Suc t)")
    case True
    have "circle_loop h (orbit us cs (t + t)) (orbit us cs t) = Some (True, orbit us cs (Suc t))"
      using True by (subst circle_loop.simps) (simp add: step)
    moreover have "length us \<le> Suc t \<and> length cs dvd Suc t"
      using True orbit_meets [OF c, of "Suc t" "Suc t"] by simp
    ultimately show ?thesis by blast
  next
    case False
    have "circle_loop h (orbit us cs (t + t)) (orbit us cs t)
        = circle_loop h (orbit us cs (Suc t + Suc t)) (orbit us cs (Suc t))"
      using False by (subst circle_loop.simps) (simp add: step)
    moreover have "Suc t < m"
    proof (rule ccontr)
      assume "\<not> Suc t < m"
      then have "m = Suc t" using Suc.prems(1) by simp
      with False Suc.prems(2) show False by simp
    qed
    ultimately show ?thesis using Suc.hyps(1) [of "Suc t"] Suc.hyps(2) Suc.prems(2) by simp
  qed
qed simp

lemma orbit_0:
  assumes "circular h header us cs"
  shows "orbit us cs 0 = header" "orbit us cs (length us) = hd cs"
  using assms by (cases us; cases cs; simp add: circular_def orbit_def)+

lemma circle_found:
  assumes c: "circular h header us cs"
  obtains k where "0 < k" "length us \<le> k" "length cs dvd k" "circle_loop h header header = Some (True, orbit us cs k)"
proof -
  let ?t = "length cs * Suc (length us)"
  have pos: "0 < length cs" using c by (simp add: circular_def)
  have "length us \<le> ?t" using pos by (cases "length cs") auto
  then have "orbit us cs (?t + ?t) = orbit us cs ?t" using orbit_meets [OF c, of ?t ?t] pos by simp
  with circle_loop_circular [OF c, of 0 ?t] pos that show thesis by (auto simp: orbit_0(1) [OF c])
qed

lemma start_loop_law:
  assumes c: "circular h header us cs" and k: "0 < k" "length cs dvd k"
  shows "i \<le> length us \<Longrightarrow> start_loop h (orbit us cs i) (orbit us cs (k + i)) = Some (hd cs)"
proof (induction "length us - i" arbitrary: i)
  case 0
  then have i: "i = length us" by simp
  then have "orbit us cs (k + i) = orbit us cs i" using orbit_meets [OF c k(1), of i] k(2) by simp
  with i show ?case by (subst start_loop.simps) (simp add: orbit_step(1) [OF c] orbit_0(2) [OF c])
next
  case (Suc d)
  then have "orbit us cs i \<noteq> orbit us cs (k + i)" using orbit_meets [OF c k(1), of i] by auto
  with Suc.hyps(1) [of "Suc i"] Suc.hyps(2) show ?case by (subst start_loop.simps) (simp add: orbit_step [OF c])
qed

lemma circle_loop_ends: "path (next_of h) before xs NULL \<Longrightarrow> path (next_of h) behind ys NULL \<Longrightarrow>
    length xs < length ys \<Longrightarrow> circle_loop h before behind = Some (False, NULL)"
proof (induction "length xs" arbitrary: before behind xs ys rule: less_induct)
  case less
  obtain y ys' q where y: "ys = y # ys'" "next_of h behind = Some q" "path (next_of h) q ys' NULL"
    using less.prems by (cases ys) auto
  show ?case
  proof (cases xs rule: remdups_adj.cases)
    case 1
    with less.prems show ?thesis by (subst circle_loop.simps) simp
  next
    case (2 x)
    then obtain z zs where ys': "ys' = z # zs" using less.prems(3) y(1) by (cases ys') auto
    have b: "before \<noteq> NULL" "next_of h before = Some NULL" using less.prems(1) 2 by auto
    have "q \<noteq> NULL" using y(3) ys' by auto
    note b = b this
    have "circle_loop h NULL q = Some (False, NULL)" by (subst circle_loop.simps) simp
    with b y(2) show ?thesis by (subst circle_loop.simps) simp
  next
    case (3 x x' zs)
    then obtain r where b: "before \<noteq> NULL" "next_of h before = Some x'" "x' \<noteq> NULL" "next_of h x' = Some r"
      "path (next_of h) r zs NULL" using less.prems by auto
    have len: "length zs < length ys'" using 3 y less.prems(3) by simp
    then have "r \<noteq> q" using path_unique [OF b(5)] y(3) by auto
    moreover have "circle_loop h r q = Some (False, NULL)" by (rule less.hyps [OF _ b(5) y(3) len]) (simp add: 3)
    ultimately show ?thesis using b y(2) by (subst circle_loop.simps) simp
  qed
qed

lemma circle_loop_acyclic:
  assumes p: "path (next_of h) header xs NULL" and ne: "xs \<noteq> []"
  shows "circle_loop h header header = Some (length xs = 1, NULL)"
proof (cases xs rule: remdups_adj.cases)
  case (2 x)
  with p show ?thesis by (subst circle_loop.simps) auto
next
  case (3 x y zs)
  then obtain r where b: "header \<noteq> NULL" "next_of h header = Some y" "y \<noteq> NULL" "next_of h y = Some r"
    "path (next_of h) r zs NULL" "path (next_of h) y (y # zs) NULL" using p by auto
  have "r \<noteq> y"
  proof
    assume "r = y"
    with b(5) have "path (next_of h) y zs NULL" by simp
    from path_unique [OF this b(6)] show False by simp
  qed
  moreover have "circle_loop h r y = Some (False, NULL)" by (rule circle_loop_ends [OF b(5,6)]) simp
  ultimately show ?thesis using b 3 by (subst circle_loop.simps) simp
qed (use ne in simp)

section \<open>What the faulty functions do\<close>

text \<open>\<open>stack_pop\<close> never unlinks a node, so popping again gives the same node; a stack of one node is
  already empty for \<open>stack_empty\<close>, and an empty one cannot be popped.\<close>

lemma stack_pop_twice:
  "stack_pop h (Some s) = Some (s', p) \<Longrightarrow> \<exists>s''. stack_pop h s' = Some (s'', p)"
  by (auto simp: stack_pop_def Option.bind_eq_Some_conv split: option.splits)

lemma stack_single: "node \<noteq> NULL \<Longrightarrow> stack_push h initStack node = Some (h, s) \<Longrightarrow> stack_empty (Some s)"
  by (auto simp: stack_push_def initStack_def stack_empty_def)

lemma stack_pop_empty: "stack_pop h (Some initStack) = None"
  by (simp add: stack_pop_def initStack_def)

text \<open>\<open>mergeTwoSortList\<close> reads through NULL when the smaller first element is alone in its list.\<close>

lemma mergeTwoSortList_single:
  assumes "header1 \<noteq> NULL" "header2 \<noteq> NULL" "h header1 = Some \<lparr>nd_value = v1, nd_next = NULL\<rparr>"
    "h header2 = Some n2" "v1 < nd_value n2"
  shows "mergeTwoSortList h header1 header2 = None"
proof -
  have "merge_lists_loop h NULL header2 header1 = None" by (subst merge_lists_loop.simps) simp
  with assms show ?thesis by (simp add: mergeTwoSortList_def value_of_def next_of_def node_at_def)
qed

section \<open>Properties\<close>

text \<open>C11. The search for a cycle ends on every finite list.  On a list with a cycle nodeHasCircle is
  true and circleStartNode returns the node where the cycle is entered; on a list that ends,
  nodeHasCircle is true for a list of one node only (where it should not be), and circleStartNode
  returns NULL, except that it reads through NULL for a list of one node.\<close>

theorem circleStartNode_entry:
  assumes "path (next_of h) header xs NULL \<or> circular h header us cs"
  shows "if header \<noteq> NULL \<and> circular h header us cs
    then nodeHasCircle h header = Some True \<and> circleStartNode h header = Some (hd cs)
    else nodeHasCircle h header = Some (length xs = 1)
      \<and> circleStartNode h header = (if length xs = 1 then None else Some NULL)"
proof (cases "circular h header us cs")
  case True
  obtain k where k: "0 < k" "length us \<le> k" "length cs dvd k" "circle_loop h header header = Some (True, orbit us cs k)"
    by (rule circle_found [OF True])
  have "header \<noteq> NULL" using orbit_step(1) [OF True, of 0] orbit_0(1) [OF True] by simp
  then show ?thesis
    using True k(4) start_loop_law [OF True k(1,3), of 0]
    by (simp add: nodeHasCircle_def circleStartNode_def orbit_0(1) [OF True])
next
  case False
  with assms have p: "path (next_of h) header xs NULL" by blast
  show ?thesis
  proof (cases "xs = []")
    case True
    with p False show ?thesis by (simp add: nodeHasCircle_def circleStartNode_def)
  next
    case ne: False
    have h0: "header \<noteq> NULL" using p ne by auto
    have "length xs = 1 \<Longrightarrow> start_loop h header NULL = None"
      using p h0 by (subst start_loop.simps) (auto simp: length_Suc_conv)
    with circle_loop_acyclic [OF p ne] False h0 show ?thesis
      by (simp add: nodeHasCircle_def circleStartNode_def)
  qed
qed

text \<open>Crossing lists: for two lists that end, nodeCross says whether they share a node, and crossNode
  returns the first node of the first list that is on the second one, or NULL.\<close>

theorem crossNode_first_common:
  assumes "path (next_of h) n1 xs NULL" "path (next_of h) n2 ys NULL"
  shows "nodeCross h n1 n2 = Some (set xs \<inter> set ys \<noteq> {})
    \<and> crossNode h n1 n2 = Some (case find (\<lambda>p. p \<in> set ys) xs of None \<Rightarrow> NULL | Some p \<Rightarrow> p)"
  using nodeCross_law [OF assms] crossNode_law [OF assms] by blast

text \<open>Positions in a list that ends: _getNodeNum counts its nodes, lastKNode returns the k-th node
  from the end, or NULL when there is none; middleNode returns the middle of an odd list, the first
  of at most two nodes, and reads through NULL for every longer list of even length.\<close>

lemma lastKNode_middleNode:
  assumes "path (next_of h) header xs NULL"
  shows "getNodeNum h header = Some (int (length xs))
    \<and> lastKNode h header k = Some (if 0 < k \<and> k \<le> int (length xs) then xs ! (length xs - nat k) else NULL)
    \<and> middleNode h header = (if length xs \<le> 2 then Some header
        else if odd (length xs) then Some (xs ! (length xs div 2)) else None)"
  using getNodeNum_law [OF assms] lastKNode_law [OF assms] middleNode_law [OF assms] by (simp add: getNodeNum_def)

text \<open>C39. Printing in opposite order: the recursive version ends with the values in reverse; the version
  with the stack never returns for a list of two nodes or more, because a push overwrites the link
  that the loop follows next; and invertListNode only cuts the list after its first node and
  prints that one.\<close>

theorem printLinkList_reversed:
  assumes "path (next_of h) header xs NULL" "1 < length xs"
  shows "recursivlyprintLinkListWithOppositeSort h header = Some (rev (values_of h xs))
    \<and> printLinkListWithOppositeSort h header = None
    \<and> invertListNode h header
        = Some (h(header \<mapsto> (the (h header))\<lparr>nd_next := NULL\<rparr>), [nd_value (the (h header))])"
  using recursivlyprint_law [OF assms(1)] printLinkList_diverges [OF assms] invertListNode_law [OF assms] by auto

section \<open>Examples\<close>

definition list_example :: nodes where
  "list_example = [1 \<mapsto> \<lparr>nd_value = 10, nd_next = 2\<rparr>, 2 \<mapsto> \<lparr>nd_value = 20, nd_next = 3\<rparr>,
     3 \<mapsto> \<lparr>nd_value = 30, nd_next = 0\<rparr>, 4 \<mapsto> \<lparr>nd_value = 40, nd_next = 2\<rparr>,
     5 \<mapsto> \<lparr>nd_value = 50, nd_next = 6\<rparr>, 6 \<mapsto> \<lparr>nd_value = 60, nd_next = 7\<rparr>, 7 \<mapsto> \<lparr>nd_value = 70, nd_next = 6\<rparr>]"

lemma example_list_paths: "path (next_of list_example) 1 [1, 2, 3] NULL" "path (next_of list_example) 4 [4, 2, 3] NULL"
  "circular list_example 5 [5] [6, 7]"
  by (simp_all add: list_example_def next_of_def node_at_def circular_def)

lemma circleStartNode_entry_witness:
  "nodeHasCircle list_example 5 = Some True \<and> circleStartNode list_example 5 = Some 6"
  using circleStartNode_entry [OF disjI2 [OF example_list_paths(3)], of "[]"] example_list_paths(3) by simp

lemma crossNode_first_common_witness:
  "nodeCross list_example 1 4 = Some True \<and> crossNode list_example 1 4 = Some 2"
  using crossNode_first_common [OF example_list_paths(1,2)] by simp

lemma lastKNode_middleNode_witness:
  "getNodeNum list_example 1 = Some 3 \<and> lastKNode list_example 1 1 = Some 3 \<and> middleNode list_example 1 = Some 2"
  using lastKNode_middleNode [OF example_list_paths(1), of 1] by simp

lemma printLinkList_reversed_witness:
  "recursivlyprintLinkListWithOppositeSort list_example 1 = Some [30, 20, 10]
    \<and> printLinkListWithOppositeSort list_example 1 = None"
  using printLinkList_reversed [OF example_list_paths(1)]
  by (simp add: values_of_def value_of_def node_at_def list_example_def)

text \<open>The lists of \<open>_test_merge_sortList\<close>: after the merge the node with the value 8 is lost.\<close>

definition merge_example :: nodes where
  "merge_example = [1 \<mapsto> \<lparr>nd_value = 1, nd_next = 2\<rparr>, 2 \<mapsto> \<lparr>nd_value = 2, nd_next = 3\<rparr>,
     3 \<mapsto> \<lparr>nd_value = 3, nd_next = 4\<rparr>, 4 \<mapsto> \<lparr>nd_value = 6, nd_next = 5\<rparr>, 5 \<mapsto> \<lparr>nd_value = 8, nd_next = 0\<rparr>,
     11 \<mapsto> \<lparr>nd_value = 3, nd_next = 12\<rparr>, 12 \<mapsto> \<lparr>nd_value = 5, nd_next = 13\<rparr>,
     13 \<mapsto> \<lparr>nd_value = 7, nd_next = 14\<rparr>, 14 \<mapsto> \<lparr>nd_value = 9, nd_next = 15\<rparr>,
     15 \<mapsto> \<lparr>nd_value = 10, nd_next = 0\<rparr>]"

lemma mergeTwoSortList_loses:
  "do { (h, p) \<leftarrow> mergeTwoSortList merge_example 1 11; recursivlyprintLinkListWithOppositeSort h p }
    = Some (rev [1, 2, 3, 3, 5, 6, 7, 9, 10])"
  by (simp add: mergeTwoSortList_def merge_example_def merge_lists_loop.simps
      recursivlyprintLinkListWithOppositeSort.simps value_of_def next_of_def node_at_def set_next_def)

end
