(* ===== verification/ArrayAlgorithms.thy ===== *)
theory ArrayAlgorithms
  imports DecimalDigits "HOL-Library.Monad_Syntax"
begin

text \<open>
  The C functions on arrays, strings and numbers of the demo's view controllers
  (\<open>SortViewController.m\<close>, \<open>StringArrayViewController.m\<close>, \<open>StringViewController.m\<close>).  An \<open>int\<close> is an
  integer checked against its 32 bits after every operation that may leave them; an overflow, an
  access outside an array and a loop that does not end are \<open>None\<close>.
\<close>

section \<open>Integers and arrays\<close>

definition INT_MAX :: int where "INT_MAX = 2147483647"
definition INT_MIN :: int where "INT_MIN = -2147483648"

definition c_int :: "int \<Rightarrow> int option" where
  "c_int x = (if INT_MIN \<le> x \<and> x \<le> INT_MAX then Some x else None)"

definition c_longlong :: "int \<Rightarrow> int option" where
  "c_longlong x = (if - (2 ^ 63) \<le> x \<and> x < 2 ^ 63 then Some x else None)"

section \<open>Sorting and searching\<close>

definition swap_at :: "int list \<Rightarrow> int \<Rightarrow> int \<Rightarrow> int list option" where
  "swap_at a i j = do { temp \<leftarrow> rd_at a i; b \<leftarrow> rd_at a j; a \<leftarrow> wr_at a i b; wr_at a j temp }"

fun partion_loop :: "int list \<Rightarrow> int \<Rightarrow> int \<Rightarrow> int list \<Rightarrow> (int list \<times> int) option" where
  "partion_loop a key i [] = Some (a, i)"
| "partion_loop a key i (j # js) =
     do { x \<leftarrow> rd_at a j;
          if x \<le> key then do { a \<leftarrow> swap_at a (i + 1) j; partion_loop a key (i + 1) js }
          else partion_loop a key i js }"

definition partion :: "int list \<Rightarrow> int \<Rightarrow> int \<Rightarrow> (int list \<times> int) option" where
  "partion a l0 ln =
     do { key \<leftarrow> rd_at a ln;
          (a, i) \<leftarrow> partion_loop a key (l0 - 1) [l0..ln - 1];
          a \<leftarrow> swap_at a ln i;
          Some (a, i) }"

partial_function (option) quickSort :: "int list \<Rightarrow> int \<Rightarrow> int \<Rightarrow> int list option" where
  "quickSort a a0 al =
     do { x \<leftarrow> rd_at a a0; y \<leftarrow> rd_at a al;
          if x < y
          then do { (a, q) \<leftarrow> partion a a0 al;
                    a \<leftarrow> quickSort a a0 (q - 1);
                    quickSort a (q + 1) al }
          else Some a }"

text \<open>\<open>timesOfAges\<close> has 100 elements, the last of which is not initialised (\<open>junk\<close>).\<close>

fun count_ages :: "int list \<Rightarrow> int \<Rightarrow> int list \<Rightarrow> (int list \<times> int) option" where
  "count_ages timesOfAges smallestAge [] = Some (timesOfAges, smallestAge)"
| "count_ages timesOfAges smallestAge (age # ages) =
     do { t \<leftarrow> rd_at timesOfAges age;
          t \<leftarrow> c_int (t + 1);
          timesOfAges \<leftarrow> wr_at timesOfAges age t;
          count_ages timesOfAges (if age < smallestAge then age else smallestAge) ages }"

fun put_age :: "int list \<Rightarrow> nat \<Rightarrow> int \<Rightarrow> nat \<Rightarrow> (int list \<times> nat) option" where
  "put_age ages totalIndex i 0 = Some (ages, totalIndex)"
| "put_age ages totalIndex i (Suc j) =
     do { ages \<leftarrow> wr ages totalIndex i; put_age ages (totalIndex + 1) i j }"

fun write_ages :: "int list \<Rightarrow> int list \<Rightarrow> int list \<Rightarrow> nat \<Rightarrow> int list option" where
  "write_ages ages timesOfAges [] totalIndex = Some ages"
| "write_ages ages timesOfAges (i # ks) totalIndex =
     do { t \<leftarrow> rd_at timesOfAges i;
          (ages, totalIndex) \<leftarrow> put_age ages totalIndex i (nat t);
          write_ages ages timesOfAges ks totalIndex }"

definition sortAges :: "int \<Rightarrow> int list \<Rightarrow> int list option" where
  "sortAges junk ages =
     (if ages = [] then Some ages
      else do { (timesOfAges, smallestAge) \<leftarrow> count_ages (replicate 99 0 @ [junk]) (hd ages) ages;
                write_ages ages timesOfAges [smallestAge..98] 0 })"

partial_function (option) smalletItem_loop :: "int list \<Rightarrow> int \<Rightarrow> int \<Rightarrow> int option" where
  "smalletItem_loop a index1 index2 =
     (if index2 - index1 = 1 then Some index1
      else do { let mid = index1 + (index2 - index1) div 2;
                m \<leftarrow> rd_at a mid; x \<leftarrow> rd_at a index1; y \<leftarrow> rd_at a index2;
                if x \<le> m then smalletItem_loop a mid index2
                else if m \<le> y then smalletItem_loop a index1 mid
                else smalletItem_loop a index1 index2 })"

definition smalletItem :: "int list \<Rightarrow> int option" where
  "smalletItem a = (if a = [] then Some (-1) else smalletItem_loop a 0 (int (length a) - 1))"

fun Fibonacci_loop :: "nat \<Rightarrow> int \<Rightarrow> int \<Rightarrow> int \<Rightarrow> int option" where
  "Fibonacci_loop 0 fibMinusOne fibMinusTwo fibN = Some fibN"
| "Fibonacci_loop (Suc left) fibMinusOne fibMinusTwo fibN =
     do { fibN \<leftarrow> c_longlong (fibMinusOne + fibMinusTwo);
          Fibonacci_loop left fibN fibMinusOne fibN }"

definition Fibonacci :: "nat \<Rightarrow> int option" where
  "Fibonacci n = (if n < 2 then Some (int n) else Fibonacci_loop (n - 2) 0 1 0)"

section \<open>Arrays and strings\<close>

text \<open>A matrix in rows; the search starts in the upper right corner.\<close>

function search_matrix :: "int list list \<Rightarrow> int \<Rightarrow> nat \<Rightarrow> nat \<Rightarrow> (nat \<times> nat) option option" where
  "search_matrix metrix val row column =
     (if row < length metrix \<and> 0 < column
      then do { r \<leftarrow> rd metrix row;
                tempValue \<leftarrow> rd r column;
                if tempValue = val then Some (Some (row, column))
                else if val < tempValue then search_matrix metrix val row (column - 1)
                else search_matrix metrix val (row + 1) column }
      else Some None)"
  by auto
termination
  by (relation "measure (\<lambda>(metrix, val, row, column). length metrix - row + column)") auto

declare search_matrix.simps [simp del]

definition getValueIndexForMetrix :: "int \<Rightarrow> (nat \<times> nat) option option" where
  "getValueIndexForMetrix val =
     search_matrix [[1, 2, 8, 9], [2, 4, 9, 12], [4, 7, 10, 13], [6, 8, 11, 15]] val 0 3"

text \<open>The length of the string and its number of blanks, up to the terminating NUL.\<close>

fun count_blanks :: "string \<Rightarrow> int \<Rightarrow> int \<Rightarrow> (int \<times> int) option" where
  "count_blanks [] strLength blankNum = None"
| "count_blanks (c # cs) strLength blankNum =
     (if c = CHR 0x00 then Some (strLength, blankNum)
      else count_blanks cs (strLength + 1) (if c = CHR '' '' then blankNum + 1 else blankNum))"

function replace_blanks :: "string \<Rightarrow> int \<Rightarrow> int \<Rightarrow> string option" where
  "replace_blanks str strLength newStrLength =
     (if 0 < strLength \<and> strLength < newStrLength
      then do { c \<leftarrow> rd_at str (strLength - 1);
                if c \<noteq> CHR '' ''
                then do { str \<leftarrow> wr_at str (newStrLength - 1) c;
                          replace_blanks str (strLength - 1) (newStrLength - 1) }
                else do { str \<leftarrow> wr_at str (newStrLength - 1) (CHR ''0'');
                          str \<leftarrow> wr_at str (newStrLength - 2) (CHR ''2'');
                          str \<leftarrow> wr_at str (newStrLength - 3) (CHR ''%'');
                          replace_blanks str (strLength - 1) (newStrLength - 3) } }
      else Some str)"
  by auto
termination
  by (relation "measure (\<lambda>(str, strLength, newStrLength). nat strLength)") auto

declare replace_blanks.simps [simp del]

definition replaceBlankToANSCIIString :: "string \<Rightarrow> string option" where
  "replaceBlankToANSCIIString str =
     do { (strLength, blankNum) \<leftarrow> count_blanks str 0 0;
          replace_blanks str strLength (strLength + 2 * blankNum) }"

function mergeTwoSortArray_loop :: "int list \<Rightarrow> int \<Rightarrow> int list \<Rightarrow> int \<Rightarrow> int \<Rightarrow> int list option" where
  "mergeTwoSortArray_loop a1 length1 a2 length2 totalLength =
     (if 0 \<le> length1 \<and> 0 \<le> length2
      then do { x \<leftarrow> rd_at a1 (length1 - 1); y \<leftarrow> rd_at a2 (length2 - 1);
                if y < x
                then do { a1 \<leftarrow> wr_at a1 (totalLength - 1) x;
                          mergeTwoSortArray_loop a1 (length1 - 1) a2 length2 (totalLength - 1) }
                else if x < y
                then do { a1 \<leftarrow> wr_at a1 (totalLength - 1) y;
                          mergeTwoSortArray_loop a1 length1 a2 (length2 - 1) (totalLength - 1) }
                else do { a1 \<leftarrow> wr_at a1 (totalLength - 1) x;
                          mergeTwoSortArray_loop a1 (length1 - 1) a2 (length2 - 1) (totalLength - 2) } }
      else Some a1)"
  by auto
termination
  by (relation "measure (\<lambda>(a1, length1, a2, length2, totalLength). nat (length1 + 1) + nat (length2 + 1))") auto

declare mergeTwoSortArray_loop.simps [simp del]

definition mergeTwoSortArray :: "int list \<Rightarrow> int \<Rightarrow> int list \<Rightarrow> int \<Rightarrow> int list option" where
  "mergeTwoSortArray a1 length1 a2 length2 = mergeTwoSortArray_loop a1 length1 a2 length2 (length1 + length2)"

section \<open>\<open>strToInt\<close>\<close>

text \<open>The string is read up to its terminating NUL, which is the end of the list.  The \<open>int\<close> that counts the
  position, \<open>cIndex\<close>, is not part of the model: strings are shorter than \<open>INT_MAX\<close>.\<close>

primrec strToInt_loop :: "string \<Rightarrow> int \<Rightarrow> int \<Rightarrow> bool \<Rightarrow> bool \<Rightarrow> int option" where
  "strToInt_loop [] result negSign hasCount hasSign = c_int (negSign * result)"
| "strToInt_loop (c # cs) result negSign hasCount hasSign =
     (if c = CHR '' ''
      then if hasCount then c_int (negSign * result) else strToInt_loop cs result negSign hasCount hasSign
      else if c = CHR ''+'' \<or> c = CHR ''-''
      then if hasCount \<or> hasSign then c_int (negSign * result)
           else strToInt_loop cs result (if c = CHR ''-'' then -1 else negSign) hasCount True
      else if isdigit c
      then let val = int (digit_of_char c); boundry = INT_MAX div 10; boundryLastValue = INT_MAX mod 10 in
           if negSign = -1 \<and> (boundry < result \<or> result = boundry \<and> boundryLastValue < val) then Some INT_MIN
           else if negSign \<noteq> -1 \<and> (boundry < result \<or> result = boundry \<and> boundryLastValue \<le> val) then Some INT_MAX
           else do { r \<leftarrow> c_int (result * 10); r \<leftarrow> c_int (r + val);
                     strToInt_loop cs r negSign True hasSign }
      else c_int (negSign * result))"

definition strToInt :: "string \<Rightarrow> int option" where
  "strToInt str = strToInt_loop str 0 1 False False"

section \<open>Checked access\<close>

lemma at_index [simp]: "rd_at xs (int i) = rd xs i" "wr_at xs (int i) v = wr xs i v"
  by (simp_all add: rd_at_def wr_at_def)

section \<open>\<open>strToInt\<close> saturates\<close>

definition clamp :: "int \<Rightarrow> int" where
  "clamp x = max INT_MIN (min INT_MAX x)"

text \<open>The number a string starts with: blanks, a sign, blanks, digits.\<close>

definition unsign :: "string \<Rightarrow> int \<times> string" where
  "unsign str = (let s = dropWhile (\<lambda>c. c = CHR '' '') str in
     case s of c # cs \<Rightarrow> if c = CHR ''-'' then (-1, dropWhile (\<lambda>c. c = CHR '' '') cs)
         else if c = CHR ''+'' then (1, dropWhile (\<lambda>c. c = CHR '' '') cs) else (1, s)
     | [] \<Rightarrow> (1, s))"

definition leading_number :: "string \<Rightarrow> int" where
  "leading_number str = (case unsign str of (neg, s) \<Rightarrow> neg * int (digits_value (takeWhile isdigit s)))"

text \<open>The value read after \<open>r\<close>.\<close>

definition more_digits :: "nat \<Rightarrow> string \<Rightarrow> nat" where
  "more_digits r s = foldl (\<lambda>v c. 10 * v + digit_of_char c) r (takeWhile isdigit s)"

lemma more_digits_Cons: "isdigit c \<Longrightarrow> more_digits r (c # cs) = more_digits (10 * r + digit_of_char c) cs"
  by (simp add: more_digits_def)

lemma more_digits_stop: "s = [] \<or> \<not> isdigit (hd s) \<Longrightarrow> more_digits r s = r"
  by (cases s) (simp_all add: more_digits_def)

lemma more_digits_ge: "r \<le> more_digits r s"
proof (induction s arbitrary: r)
  case (Cons c cs)
  have "r \<le> 10 * r + digit_of_char c" by simp
  also have "\<dots> \<le> more_digits (10 * r + digit_of_char c) cs" by (rule Cons.IH)
  finally show ?case by (cases "isdigit c") (simp_all add: more_digits_Cons more_digits_stop)
qed (simp add: more_digits_def)

lemma clamp_simps:
  "INT_MAX \<le> x \<Longrightarrow> clamp x = INT_MAX" "x \<le> INT_MIN \<Longrightarrow> clamp x = INT_MIN"
  "INT_MIN \<le> x \<Longrightarrow> x \<le> INT_MAX \<Longrightarrow> clamp x = x"
  by (simp_all add: clamp_def INT_MAX_def INT_MIN_def)

lemma c_int_in: "INT_MIN \<le> x \<Longrightarrow> x \<le> INT_MAX \<Longrightarrow> c_int x = Some x"
  by (simp add: c_int_def)

lemma not_digits: "\<not> isdigit (CHR '' '')" "\<not> isdigit (CHR ''+'')" "\<not> isdigit (CHR ''-'')"
  by (simp_all add: isdigit_def)

lemma strToInt_digit:
  assumes d: "isdigit c" and r: "int r \<le> INT_MAX" and n: "neg = 1 \<or> neg = -1"
    and IH: "\<And>r. int r \<le> INT_MAX \<Longrightarrow> strToInt_loop cs (int r) neg True hs = Some (clamp (neg * int (more_digits r cs)))"
  shows "strToInt_loop (c # cs) (int r) neg hc hs = Some (clamp (neg * int (more_digits r (c # cs))))"
proof -
  have ne: "c \<noteq> CHR '' ''" "c \<noteq> CHR ''+''" "c \<noteq> CHR ''-''" using d not_digits by auto
  have v: "digit_of_char c < 10" by (rule digit_of_char_less [OF d])
  let ?v = "int (digit_of_char c)" and ?s = "10 * r + digit_of_char c"
  have big: "int ?s \<le> int (more_digits ?s cs)" using more_digits_ge [of ?s cs] by (simp only: of_nat_le_iff)
  have bounds: "INT_MAX div 10 = 214748364" "INT_MAX mod 10 = 7" by (simp_all add: INT_MAX_def)
  have unfold: "strToInt_loop (c # cs) (int r) neg hc hs =
      (if neg = -1 \<and> (214748364 < int r \<or> int r = 214748364 \<and> 7 < ?v) then Some INT_MIN
       else if neg \<noteq> -1 \<and> (214748364 < int r \<or> int r = 214748364 \<and> 7 \<le> ?v) then Some INT_MAX
       else do { r \<leftarrow> c_int (int r * 10); r \<leftarrow> c_int (r + ?v); strToInt_loop cs r neg True hs })"
    using ne d by (simp add: Let_def bounds)
  show ?thesis
  proof (cases "214748364 < int r \<or> int r = 214748364 \<and> 7 < ?v")
    case True
    then have "INT_MAX < int ?s" by (auto simp: INT_MAX_def)
    then have "INT_MAX < int (more_digits ?s cs)" using big by simp
    then have "clamp (neg * int (more_digits ?s cs)) = (if neg = -1 then INT_MIN else INT_MAX)"
      using n by (auto simp: clamp_def INT_MAX_def INT_MIN_def)
    moreover have "strToInt_loop (c # cs) (int r) neg hc hs = Some (if neg = -1 then INT_MIN else INT_MAX)"
      unfolding unfold using True n by auto
    ultimately show ?thesis by (simp only: more_digits_Cons [OF d])
  next
    case False
    then have s: "int r * 10 \<le> INT_MAX" "int ?s \<le> INT_MAX" using v by (auto simp: INT_MAX_def)
    have step: "do { r \<leftarrow> c_int (int r * 10); r \<leftarrow> c_int (r + ?v); strToInt_loop cs r neg True hs }
        = Some (clamp (neg * int (more_digits ?s cs)))"
    proof -
      have "c_int (int r * 10) = Some (int r * 10)" "c_int (int r * 10 + ?v) = Some (int ?s)"
        using s by (simp_all add: c_int_def INT_MIN_def)
      then show ?thesis using IH [OF s(2)] by simp
    qed
    show ?thesis
    proof (cases "neg = 1 \<and> int r = 214748364 \<and> 7 \<le> ?v")
      case True
      then have "INT_MAX \<le> int ?s" by (auto simp: INT_MAX_def)
      with big have "clamp (neg * int (more_digits ?s cs)) = INT_MAX" using True by (simp add: clamp_simps(1))
      then show ?thesis unfolding unfold using True by (simp add: more_digits_Cons [OF d])
    next
      case no: False
      then have "strToInt_loop (c # cs) (int r) neg hc hs
          = do { r \<leftarrow> c_int (int r * 10); r \<leftarrow> c_int (r + ?v); strToInt_loop cs r neg True hs }"
        unfolding unfold using False n by auto
      then show ?thesis unfolding step by (simp only: more_digits_Cons [OF d])
    qed
  qed
qed

lemma strToInt_stop:
  assumes "int r \<le> INT_MAX" "neg = 1 \<or> neg = -1"
  shows "c_int (neg * int r) = Some (clamp (neg * int r))"
proof -
  have "INT_MIN \<le> neg * int r" "neg * int r \<le> INT_MAX" using assms by (auto simp: INT_MAX_def INT_MIN_def)
  then show ?thesis by (simp only: c_int_in clamp_simps(3))
qed

lemma strToInt_counting:
  assumes n: "neg = 1 \<or> neg = -1"
  shows "int r \<le> INT_MAX \<Longrightarrow> strToInt_loop cs (int r) neg True hs = Some (clamp (neg * int (more_digits r cs)))"
proof (induction cs arbitrary: r)
  case Nil
  then show ?case using strToInt_stop [OF _ n] by (simp add: more_digits_stop)
next
  case (Cons c cs)
  show ?case
  proof (cases "isdigit c")
    case True
    show ?thesis by (rule strToInt_digit [OF True Cons.prems n Cons.IH])
  next
    case False
    then show ?thesis using strToInt_stop [OF Cons.prems n] by (simp add: more_digits_stop)
  qed
qed

lemma strToInt_start:
  assumes n: "neg = 1 \<or> neg = -1"
  shows "strToInt_loop cs 0 neg False True
    = Some (clamp (neg * int (more_digits 0 (dropWhile (\<lambda>c. c = CHR '' '') cs))))"
proof (induction cs)
  case Nil
  then show ?case by (simp add: more_digits_def c_int_def clamp_def INT_MAX_def INT_MIN_def)
next
  case (Cons c cs)
  have z: "int 0 \<le> INT_MAX" by (simp add: INT_MAX_def)
  show ?case
  proof (cases "isdigit c")
    case True
    have "strToInt_loop (c # cs) (int 0) neg False True = Some (clamp (neg * int (more_digits 0 (c # cs))))"
      by (rule strToInt_digit [OF True z n strToInt_counting [OF n]])
    then show ?thesis using True not_digits by auto
  next
    case False
    have "c_int (neg * int 0) = Some (clamp (neg * int 0))" by (rule strToInt_stop [OF z n])
    then show ?thesis using Cons.IH False by (auto simp: more_digits_stop)
  qed
qed

lemma strToInt_law: "strToInt str = Some (clamp (leading_number str))"
proof (induction str)
  case Nil
  then show ?case
    by (simp add: strToInt_def leading_number_def unsign_def c_int_def clamp_def INT_MAX_def INT_MIN_def)
next
  case (Cons c cs)
  have z: "int 0 \<le> INT_MAX" by (simp add: INT_MAX_def)
  have more: "int (digits_value (takeWhile isdigit s)) = int (more_digits 0 s)" for s
    by (simp add: more_digits_def digits_value_def)
  consider "c = CHR '' ''" | "c = CHR ''+''" | "c = CHR ''-''" | "isdigit c"
    | "c \<noteq> CHR '' ''" "c \<noteq> CHR ''+''" "c \<noteq> CHR ''-''" "\<not> isdigit c" by blast
  then show ?case
  proof cases
    case 1
    then show ?thesis using Cons.IH by (simp add: strToInt_def leading_number_def unsign_def)
  next
    case 2
    then show ?thesis using strToInt_start [of 1 cs]
      by (simp add: strToInt_def leading_number_def unsign_def Let_def more)
  next
    case 3
    then show ?thesis using strToInt_start [of "-1" cs]
      by (simp add: strToInt_def leading_number_def unsign_def Let_def more)
  next
    case 4
    then have ne: "c \<noteq> CHR '' ''" "c \<noteq> CHR ''+''" "c \<noteq> CHR ''-''" using not_digits by auto
    have "strToInt_loop (c # cs) (int 0) 1 False False = Some (clamp (1 * int (more_digits 0 (c # cs))))"
      by (rule strToInt_digit [OF 4 z _ strToInt_counting]) simp_all
    with ne show ?thesis by (simp add: strToInt_def leading_number_def unsign_def Let_def more del: strToInt_loop.simps)
  next
    case 5
    then show ?thesis
      by (simp add: strToInt_def leading_number_def unsign_def Let_def c_int_def clamp_def INT_MAX_def INT_MIN_def)
  qed
qed

section \<open>Counting sort of the ages\<close>

text \<open>\<open>tally xs i\<close> is the number of elements equal to \<open>i\<close>.\<close>

definition tally :: "int list \<Rightarrow> nat \<Rightarrow> int" where
  "tally xs i = int (count (mset xs) (int i))"

lemma count_ages_law:
  assumes "\<forall>a\<in>set ages. 0 \<le> a \<and> a \<le> 98" "length pre + length ages \<le> nat INT_MAX" "0 \<le> m"
  shows "count_ages (map (tally pre) [0..<99] @ [junk]) m ages
    = Some (map (tally (pre @ ages)) [0..<99] @ [junk], fold min ages m)"
  using assms
proof (induction ages arbitrary: pre m)
  case (Cons a ages)
  let ?t = "map (tally pre) [0..<99] @ [junk]"
  obtain i where i: "a = int i" "i < 99" by (rule that [of "nat a"]) (use Cons.prems(1) in auto)
  have "count (mset pre) a \<le> length pre" by (induction pre) auto
  then have "tally pre i + 1 \<le> INT_MAX" "INT_MIN \<le> tally pre i + 1"
    using Cons.prems(2) by (simp_all add: tally_def i(1) INT_MAX_def INT_MIN_def)
  then have c: "c_int (tally pre i + 1) = Some (tally pre i + 1)" by (simp add: c_int_in)
  have upd: "?t[i := tally pre i + 1] = map (tally (pre @ [a])) [0..<99] @ [junk]"
    by (rule nth_equalityI) (use i in \<open>auto simp: nth_append nth_list_update tally_def\<close>)
  have "count_ages ?t m (a # ages) = count_ages (map (tally (pre @ [a])) [0..<99] @ [junk]) (if a < m then a else m) ages"
    unfolding upd [symmetric] using i c by (simp add: nth_append)
  also have "(if a < m then a else m) = min a m" by simp
  finally show ?case using Cons.IH [of "pre @ [a]" "min a m"] Cons.prems by simp
qed simp

lemma put_age_law: "n \<le> length rest \<Longrightarrow>
    put_age (pre @ rest) (length pre) i n = Some (pre @ replicate n i @ drop n rest, length pre + n)"
proof (induction n arbitrary: pre rest)
  case (Suc n)
  then obtain r rs where r: "rest = r # rs" by (cases rest) auto
  with Suc.prems Suc.IH [of rs "pre @ [i]"] show ?case by (simp add: replicate_app_Cons_same)
qed simp

lemma write_ages_law: "\<forall>i\<in>set ks. 0 \<le> i \<and> nat i < length tms \<and> 0 \<le> tms ! nat i \<Longrightarrow>
    length (concat (map (\<lambda>i. replicate (nat (tms ! nat i)) i) ks)) \<le> length rest \<Longrightarrow>
    write_ages (pre @ rest) tms ks (length pre)
      = Some (pre @ concat (map (\<lambda>i. replicate (nat (tms ! nat i)) i) ks)
          @ drop (length (concat (map (\<lambda>i. replicate (nat (tms ! nat i)) i) ks))) rest)"
proof (induction ks arbitrary: pre rest)
  case (Cons k ks)
  let ?n = "nat (tms ! nat k)"
  have r: "rd_at tms k = Some (tms ! nat k)" using Cons.prems(1) by (simp add: rd_at_def)
  have n: "?n \<le> length rest" using Cons.prems(2) by simp
  have p: "put_age (pre @ rest) (length pre) k ?n
      = Some ((pre @ replicate ?n k) @ drop ?n rest, length (pre @ replicate ?n k))"
    using put_age_law [OF n] by simp
  have l: "length (concat (map (\<lambda>i. replicate (nat (tms ! nat i)) i) ks)) \<le> length (drop ?n rest)"
    using Cons.prems(2) by simp
  show ?case
    unfolding write_ages.simps r p Option.bind.bind_lunit prod.case
    by (subst Cons.IH [OF _ l]) (use Cons.prems(1) in \<open>simp_all add: add.commute\<close>)
qed simp

lemma sortAges_law:
  assumes ages: "\<forall>a\<in>set ages. 0 \<le> a \<and> a \<le> 98" and len: "length ages \<le> nat INT_MAX"
  shows "sortAges junk ages = Some (sort ages)"
proof (cases "ages = []")
  case True
  then show ?thesis by (simp add: sortAges_def)
next
  case False
  define m where "m = fold min ages (hd ages)"
  define out where "out = concat (map (\<lambda>i. replicate (count (mset ages) i) i) [m..98])"
  let ?t = "map (tally ages) [0..<99] @ [junk]"
  have z: "replicate 99 0 @ [junk] = map (tally []) [0..<99] @ [junk]"
    by (rule nth_equalityI) (auto simp: tally_def nth_append)
  have hd: "0 \<le> hd ages" using ages False by (cases ages) auto
  have cnt: "count_ages (replicate 99 0 @ [junk]) (hd ages) ages = Some (?t, m)"
    unfolding z m_def using count_ages_law [OF ages, of "[]" "hd ages" junk] len hd by simp
  have fm: "fold min xs y \<le> y \<and> (\<forall>x\<in>set xs. fold min xs y \<le> x) \<and> fold min xs y \<in> insert y (set xs)" for xs and y :: int
  proof (induction xs arbitrary: y)
    case (Cons x xs)
    have "min x y = x \<or> min x y = y" by linarith
    then show ?case using Cons.IH [of "min x y"] by auto
  qed simp
  have m: "\<forall>x\<in>set ages. m \<le> x" "0 \<le> m" using fm [of ages "hd ages"] ages False hd by (auto simp: m_def)
  have val: "nat (?t ! nat i) = count (mset ages) i" "0 \<le> ?t ! nat i" if "i \<in> {m..98}" for i
    using that m(2) by (auto simp: nth_append tally_def)
  have out: "concat (map (\<lambda>i. replicate (nat (?t ! nat i)) i) [m..98]) = out"
    unfolding out_def by (rule arg_cong [of _ _ concat], rule map_cong) (use val in auto)
  have cs: "count (mset (concat (map (\<lambda>i. replicate (f i) i) ks))) x = (if x \<in> set ks then f x else 0)"
    if "distinct ks" for f and ks :: "int list" and x
    using that by (induction ks) auto
  have "mset out = mset ages"
  proof (rule multiset_eqI)
    fix x
    have "x \<in> set ages \<Longrightarrow> x \<in> {m..98}" using m(1) ages by auto
    then show "count (mset out) x = count (mset ages) x"
      using cs [of "[m..98]" "\<lambda>i. count (mset ages) i" x] count_mset_0_iff [of ages x] by (auto simp: out_def)
  qed
  moreover have "sorted (concat (map (\<lambda>i. replicate (f i) i) [k..98]))" for f and k :: int
  proof (induction "nat (99 - k)" arbitrary: k)
    case 0
    then show ?case by simp
  next
    case (Suc d)
    then have "[k..98] = k # [k + 1..98]" by (simp add: upto_rec1)
    with Suc.hyps(1) [of "k + 1"] Suc.hyps(2) show ?case by (auto simp: sorted_append)
  qed
  ultimately have sorted: "out = sort ages" unfolding out_def by (simp add: properties_for_sort)
  have "\<forall>i\<in>{m..98}. nat i < 100" by auto
  then have "write_ages ages ?t [m..98] 0 = Some out"
    using write_ages_law [of "[m..98]" ?t ages "[]"] m(2) val mset_eq_length [OF \<open>mset out = mset ages\<close>]
    by (simp add: out)
  with False cnt sorted show ?thesis by (simp add: sortAges_def)
qed

section \<open>Replacing blanks\<close>

definition escaped :: "string \<Rightarrow> string" where
  "escaped s = concat (map (\<lambda>c. if c = CHR '' '' then ''%20'' else [c]) s)"

definition blanks :: "string \<Rightarrow> nat" where
  "blanks s = length (filter (\<lambda>c. c = CHR '' '') s)"

lemma length_escaped: "length (escaped s) = length s + 2 * blanks s"
  by (induction s) (auto simp: escaped_def blanks_def)

lemma count_blanks_law: "CHR 0x00 \<notin> set s \<Longrightarrow>
    count_blanks (s @ CHR 0x00 # rest) n b = Some (n + int (length s), b + int (blanks s))"
  by (induction s arbitrary: n b) (auto simp: blanks_def)

text \<open>The characters behind the new end stay, those before the old one are moved up.\<close>

lemma replace_blanks_law:
  "length str = length (escaped s) + length rest \<Longrightarrow> take (length s) str = s \<Longrightarrow>
   drop (length (escaped s)) str = rest \<Longrightarrow>
   replace_blanks str (int (length s)) (int (length (escaped s))) = Some (escaped s @ rest)"
proof (induction s arbitrary: str rest rule: rev_induct)
  case Nil
  then show ?case by (subst replace_blanks.simps) (simp add: escaped_def)
next
  case (snoc c s)
  let ?n = "length s" and ?m = "length (escaped s)"
  have le: "?n \<le> ?m" by (simp add: length_escaped)
  have n: "?n < length str" using snoc.prems(1) by (simp add: length_escaped)
  have "take (Suc ?n) str = s @ [c]" using snoc.prems(2) by simp
  then have tk: "take ?n str = s" and nth: "str ! ?n = c" "?n < length str"
    using n by (simp_all add: take_Suc_conv_app_nth)
  show ?case
  proof (cases "blanks (s @ [c]) = 0")
    case True
    then have "escaped (s @ [c]) = s @ [c]" by (induction s) (auto simp: escaped_def blanks_def split: if_splits)
    then show ?thesis using snoc.prems
      by (subst replace_blanks.simps) (metis append_take_drop_id less_irrefl option.inject)
  next
    case False
    show ?thesis
    proof (cases "c = CHR '' ''")
      case True
      then have e: "escaped (s @ [c]) = escaped s @ ''%20''" by (simp add: escaped_def)
      let ?str = "str[?m + 2 := CHR ''0'', ?m + 1 := CHR ''2'', ?m := CHR ''%'']"
      have len: "?m + 3 \<le> length str" using snoc.prems(1) by (simp add: e)
      have "replace_blanks ?str (int ?n) (int ?m) = Some (escaped s @ drop ?m ?str)"
        by (rule snoc.IH) (use le tk len in \<open>simp_all add: take_update_cancel\<close>)
      moreover have "drop ?m ?str = ''%20'' @ rest"
      proof -
        have "drop ?m str = str ! ?m # str ! (?m + 1) # str ! (?m + 2) # drop (?m + 3) str"
          using len by (simp add: Cons_nth_drop_Suc [symmetric] numeral_3_eq_3)
        then show ?thesis using snoc.prems(3) len by (simp add: drop_update_swap e numeral_3_eq_3)
      qed
      moreover have "replace_blanks str (int (length (s @ [c]))) (int (length (escaped (s @ [c]))))
          = replace_blanks ?str (int ?n) (int ?m)"
        unfolding e using nth True le len by (subst replace_blanks.simps) (simp add: rd_at_def wr_at_def nat_add_distrib)
      ultimately show ?thesis by (simp add: e)
    next
      case no: False
      then have e: "escaped (s @ [c]) = escaped s @ [c]" by (simp add: escaped_def)
      let ?str = "str[?m := c]"
      have lt: "?n < ?m" using False no by (simp add: length_escaped blanks_def)
      have len: "?m < length str" using snoc.prems(1) by (simp add: e)
      have "replace_blanks ?str (int ?n) (int ?m) = Some (escaped s @ drop ?m ?str)"
        by (rule snoc.IH) (use le tk len in \<open>simp_all add: take_update_cancel\<close>)
      moreover have "drop ?m ?str = c # rest"
        using snoc.prems(3) len by (simp add: drop_update_swap e Cons_nth_drop_Suc [symmetric])
      moreover have "replace_blanks str (int (length (s @ [c]))) (int (length (escaped (s @ [c]))))
          = replace_blanks ?str (int ?n) (int ?m)"
        unfolding e using nth no lt len by (subst replace_blanks.simps) (simp add: rd_at_def wr_at_def)
      ultimately show ?thesis by (simp add: e)
    qed
  qed
qed

lemma replaceBlank_law:
  assumes "CHR 0x00 \<notin> set s" "length (escaped s) \<le> length (s @ CHR 0x00 # rest)"
  shows "replaceBlankToANSCIIString (s @ CHR 0x00 # rest)
    = Some (escaped s @ drop (length (escaped s)) (s @ CHR 0x00 # rest))"
  using replace_blanks_law [of "s @ CHR 0x00 # rest" s "drop (length (escaped s)) (s @ CHR 0x00 # rest)"] assms
  by (simp add: replaceBlankToANSCIIString_def count_blanks_law length_escaped)

section \<open>What the faulty functions do\<close>

text \<open>\<open>mergeTwoSortArray\<close> goes on while both lengths are at least 0, so it always reads before the start
  of one of the arrays.\<close>

lemma merge_arrays_None: "0 \<le> length1 \<Longrightarrow> 0 \<le> length2 \<Longrightarrow>
    mergeTwoSortArray_loop a1 length1 a2 length2 totalLength = None"
proof (induction "nat (length1 + length2)" arbitrary: a1 length1 length2 totalLength rule: less_induct)
  case less
  show ?case
  proof (cases "length1 = 0 \<or> length2 = 0")
    case True
    then have "rd_at a1 (length1 - 1) = None \<or> rd_at a2 (length2 - 1) = None" by (auto simp: rd_at_def)
    then show ?thesis using less.prems
      by (subst mergeTwoSortArray_loop.simps) (cases "rd_at a1 (length1 - 1)", auto)
  next
    case False
    with less.prems have pos: "0 \<le> length1 - 1" "0 \<le> length2 - 1" by simp_all
    have IH: "mergeTwoSortArray_loop a (length1 - 1) a2 length2 t = None"
      "mergeTwoSortArray_loop a length1 a2 (length2 - 1) t = None"
      "mergeTwoSortArray_loop a (length1 - 1) a2 (length2 - 1) t = None" for a t
      by (rule less.hyps; use pos in simp)+
    then show ?thesis using less.prems
      by (subst mergeTwoSortArray_loop.simps)
        (cases "rd_at a1 (length1 - 1)"; cases "rd_at a2 (length2 - 1)"; simp)
  qed
qed

lemma mergeTwoSortArray_out_of_bounds: "0 \<le> length1 \<Longrightarrow> 0 \<le> length2 \<Longrightarrow> mergeTwoSortArray a1 length1 a2 length2 = None"
  by (simp add: mergeTwoSortArray_def merge_arrays_None)

text \<open>\<open>Fibonacci n\<close> is the number before the previous one in the sequence it starts with.\<close>

fun fib :: "nat \<Rightarrow> nat" where
  "fib 0 = 0" | "fib (Suc 0) = 1" | "fib (Suc (Suc n)) = fib (Suc n) + fib n"

lemma fib_le: "fib n \<le> 2 ^ n"
proof (induction n rule: fib.induct)
  case (3 n)
  have "fib (Suc (Suc n)) \<le> 2 ^ Suc n + 2 ^ n" using 3 by simp
  then show ?case by simp
qed simp_all

lemma Fibonacci_loop_law: "k + j \<le> 61 \<Longrightarrow>
    Fibonacci_loop k (int (fib (Suc j))) (int (fib j)) (int (fib (Suc j))) = Some (int (fib (Suc (j + k))))"
proof (induction k arbitrary: j)
  case (Suc k)
  have "fib (Suc (Suc j)) \<le> 2 ^ Suc (Suc j)" by (rule fib_le)
  also have "\<dots> \<le> 2 ^ 62" using Suc.prems by (intro power_increasing) simp_all
  finally have "c_longlong (int (fib (Suc j)) + int (fib j)) = Some (int (fib (Suc (Suc j))))"
    by (simp add: c_longlong_def)
  with Suc.IH [of "Suc j"] Suc.prems show ?case by simp
qed simp

lemma Fibonacci_shifted:
  assumes "2 \<le> n" "n \<le> 64"
  shows "Fibonacci n = Some (int (fib (n - 2)))"
proof (cases "n = 2")
  case False
  define k where "k = n - 3"
  have n: "n - 2 = Suc k" "k \<le> 61" using assms False by (simp_all add: k_def)
  show ?thesis using Fibonacci_loop_law [of k 0] n assms(1) by (simp add: Fibonacci_def c_longlong_def)
qed (simp add: Fibonacci_def)

text \<open>The array of \<open>viewDidLoad\<close>: \<open>quickSort\<close> leaves it unsorted.\<close>

lemma quickSort_unsorted: "quickSort [1, 3, 5, 4, 2, 8] 0 5 = Some [1, 4, 5, 3, 8, 2]"
  by (simp add: quickSort.simps partion_def swap_at_def rd_at_def wr_at_def upto.simps)

text \<open>\<open>smalletItem\<close> returns the index of the largest element; it does not return for an array of one
  element.\<close>

lemma smalletItem_largest: "smalletItem [3, 4, 5, 0, 1, 2, 3] = Some 2"
  by (simp add: smalletItem_def smalletItem_loop.simps rd_at_def)

text \<open>The search of the matrix never looks at the first column, which holds 1, 4 and 6.\<close>

lemma search_matrix_first_column:
  "getValueIndexForMetrix 7 = Some (Some (2, 1))" "getValueIndexForMetrix 6 = Some None"
  by (simp_all add: getValueIndexForMetrix_def search_matrix.simps)

text \<open>An age of 99 is counted in an element that is never written out.\<close>

lemma sortAges_99: "sortAges 0 [99, 5] = Some [5, 5]"
  by code_simp

section \<open>Properties\<close>

text \<open>C12. strToInt never overflows and returns, for every string, the number it starts with (blanks, at
  most one sign, blanks, then digits up to the first other character) when that fits in an int, and
  otherwise the nearest of INT_MIN and INT_MAX; a string without digits there gives 0.\<close>

theorem strToInt_saturates: "strToInt str = Some (clamp (leading_number str))"
  by (rule strToInt_law)

text \<open>C40. sortAges sorts every array of ages from 0 to 98 in place, never leaves the arrays, and does not
  depend on the element of its table that it forgets to initialise.\<close>

theorem sortAges_sorts:
  assumes "\<forall>a\<in>set ages. 0 \<le> a \<and> a \<le> 98" "length ages \<le> nat INT_MAX"
  shows "sortAges junk ages = Some (sort ages)"
  by (rule sortAges_law [OF assms])

lemma sortAges_sorts_witness: "sortAges 7 [30, 21, 25, 21] = Some [21, 21, 25, 30]"
  using sortAges_sorts [of "[30, 21, 25, 21]" 7] by (simp add: INT_MAX_def)

end
