(* ===== verification/PointerArray.thy ===== *)
theory PointerArray
  imports CF_Prelude "HOL-Library.Monad_Syntax"
begin

text \<open>
  \<open>CFArray.c\<close>: arrays of pointers, immutable ones with their values inline and mutable ones over a
  deque, a block of buckets used from \<open>_leftIdx\<close> on.  Indexes and lengths are the signed \<open>CFIndex\<close>;
  an access outside the buckets, a NULL deque and \<open>1 << flsl(capacity)\<close> from bit 31 on (a shift of an
  \<open>int\<close>) are \<open>None\<close>.  The assertions are those of a release build, which checks nothing.  The
  callbacks carry their addresses, which creation and \<open>__CFArrayEqual\<close> compare; the calls of retain
  and release are logged.  There is no garbage collector, allocation succeeds and gives arbitrary
  memory (\<open>fresh\<close>), and arrays of Foundation are not considered.
\<close>

section \<open>State\<close>

record CFArrayCallBacks =
  ac_retain :: "(u64 \<times> (u64 \<Rightarrow> u64)) option"
  ac_release :: "u64 option"
  ac_copyDescription :: "u64 option"
  ac_equal :: "(u64 \<times> (u64 \<Rightarrow> u64 \<Rightarrow> bool)) option"

datatype array_call = Item_retained u64 | Item_released u64

record CFArrayDeque =
  dq_leftIdx :: int
  dq_capacity :: int
  dq_buckets :: "u64 list"

text \<open>\<open>ar_callbacks\<close> is what \<open>__CFArrayGetCallBacks\<close> finds; \<open>ar_items\<close> are the buckets of an
  immutable array, \<open>ar_store\<close> the deque of a mutable one.\<close>

record CFArray =
  ar_mutable :: bool
  ar_count :: int
  ar_mutations :: nat
  ar_callbacks :: CFArrayCallBacks
  ar_items :: "u64 list"
  ar_store :: "CFArrayDeque option"
  ar_calls :: "array_call list"

section \<open>Memory\<close>

definition memmove :: "'a list \<Rightarrow> int \<Rightarrow> 'a list \<Rightarrow> int \<Rightarrow> int \<Rightarrow> 'a list option" where
  "memmove dst d src s n = (if 0 \<le> d \<and> 0 \<le> s \<and> 0 \<le> n
     then Option.bind (rd_block src (nat s) (nat n)) (wr_block dst (nat d)) else None)"

definition memset_zero :: "u64 list \<Rightarrow> int \<Rightarrow> int \<Rightarrow> u64 list option" where
  "memset_zero dst d n =
     (if 0 \<le> d \<and> 0 \<le> n then wr_block dst (nat d) (replicate (nat n) 0) else None)"

definition array_range :: "int \<Rightarrow> int \<Rightarrow> int list" where
  "array_range location n = map (\<lambda>idx. location + int idx) [0..<nat n]"

section \<open>Buckets\<close>

definition CFArrayDequeRoundUpCapacity :: "int \<Rightarrow> int option" where
  "CFArrayDequeRoundUpCapacity capacity =
     (if capacity < 4 then Some 4
      else if flsl (nat capacity) < 31 then Some (min (2 ^ flsl (nat capacity)) (2 ^ 63 - 1)) else None)"

definition CFArrayGetCount :: "CFArray \<Rightarrow> int" where
  "CFArrayGetCount array = ar_count array"

text \<open>The buckets and the offset of the first value in them.\<close>

definition CFArrayGetBucketsPtr :: "CFArray \<Rightarrow> (u64 list \<times> int) option" where
  "CFArrayGetBucketsPtr array = (if ar_mutable array
     then do { deque \<leftarrow> ar_store array; Some (dq_buckets deque, dq_leftIdx deque) }
     else Some (ar_items array, 0))"

text \<open>Reading and writing through \<open>__CFArrayGetBucketAtIndex\<close>.\<close>

definition CFArrayGetBucketAtIndex :: "CFArray \<Rightarrow> int \<Rightarrow> u64 option" where
  "CFArrayGetBucketAtIndex array idx =
     do { (buckets, first) \<leftarrow> CFArrayGetBucketsPtr array; rd_at buckets (first + idx) }"

definition set_bucket :: "CFArray \<Rightarrow> int \<Rightarrow> u64 \<Rightarrow> CFArray option" where
  "set_bucket array idx v =
     do { (buckets, first) \<leftarrow> CFArrayGetBucketsPtr array;
          buckets \<leftarrow> wr_at buckets (first + idx) v;
          Some (if ar_mutable array
            then array\<lparr>ar_store := map_option (\<lambda>deque. deque\<lparr>dq_buckets := buckets\<rparr>) (ar_store array)\<rparr>
            else array\<lparr>ar_items := buckets\<rparr>) }"

definition array_log :: "CFArray \<Rightarrow> array_call list \<Rightarrow> CFArray" where
  "array_log array calls = array\<lparr>ar_calls := ar_calls array @ calls\<rparr>"

section \<open>Releasing\<close>

fun release_loop :: "bool \<Rightarrow> CFArray \<Rightarrow> int list \<Rightarrow> CFArray option" where
  "release_loop release array [] = Some array"
| "release_loop release array (idx # idxs) =
     do { array \<leftarrow> (if release
            then do { item \<leftarrow> CFArrayGetBucketAtIndex array idx; Some (array_log array [Item_released item]) }
            else Some array);
          array \<leftarrow> set_bucket array idx 0;
          release_loop release array idxs }"

definition CFArrayReleaseValues :: "CFArray \<Rightarrow> int \<Rightarrow> int \<Rightarrow> bool \<Rightarrow> CFArray option" where
  "CFArrayReleaseValues array location n releaseStorageIfPossible =
     (let release = ac_release (ar_callbacks array) \<noteq> None in
      if \<not> ar_mutable array
      then (if release \<and> 0 < n then release_loop True array (array_range location n) else Some array)
      else do { array \<leftarrow> (if 0 < n \<and> ar_store array \<noteq> None
                  then release_loop release array (array_range location n) else Some array);
                Some (if releaseStorageIfPossible \<and> 0 = location \<and> ar_count array = n
                  then array\<lparr>ar_count := 0, ar_store := None\<rparr> else array) })"

section \<open>Repositioning the regions of a deque\<close>

text \<open>The branches of \<open>__CFArrayRepositionDequeRegions\<close>: the regions A before and C after the replaced
  range are moved so that \<open>newCount\<close> values fit between them.\<close>

definition realloc_regions :: "(nat \<Rightarrow> u64) \<Rightarrow> CFArrayDeque \<Rightarrow> int \<Rightarrow> int \<Rightarrow> int \<Rightarrow> int \<Rightarrow> int \<Rightarrow> int
    \<Rightarrow> CFArrayDeque option" where
  "realloc_regions fresh deque A B C newCount futureCnt wiggle =
     do { capacity \<leftarrow> CFArrayDequeRoundUpCapacity (futureCnt + wiggle);
          let newBuckets = map fresh [0..<nat capacity];
          let oldL = dq_leftIdx deque;
          let newL = (capacity - futureCnt) sdiv 2;
          let oldC0 = oldL + A + B;
          let newC0 = newL + A + newCount;
          newBuckets \<leftarrow> (if 0 < A then memmove newBuckets newL (dq_buckets deque) oldL A else Some newBuckets);
          newBuckets \<leftarrow> (if 0 < C then memmove newBuckets newC0 (dq_buckets deque) oldC0 C else Some newBuckets);
          Some \<lparr>dq_leftIdx = newL, dq_capacity = capacity, dq_buckets = newBuckets\<rparr> }"

definition move_right_region :: "CFArrayDeque \<Rightarrow> int \<Rightarrow> int \<Rightarrow> int \<Rightarrow> int \<Rightarrow> CFArrayDeque option" where
  "move_right_region deque A B C newCount =
     (let L = dq_leftIdx deque; oldC0 = L + A + B; newC0 = L + A + newCount; buckets = dq_buckets deque in
      do { buckets \<leftarrow> (if 0 < C then memmove buckets newC0 buckets oldC0 C else Some buckets);
           buckets \<leftarrow> (if oldC0 > newC0 then memset_zero buckets (newC0 + C) (oldC0 - newC0) else Some buckets);
           Some (deque\<lparr>dq_buckets := buckets\<rparr>) })"

definition move_left_region :: "CFArrayDeque \<Rightarrow> int \<Rightarrow> int \<Rightarrow> CFArrayDeque option" where
  "move_left_region deque A numNewElems =
     (let oldL = dq_leftIdx deque; newL = oldL - numNewElems; buckets = dq_buckets deque in
      do { buckets \<leftarrow> (if 0 < A then memmove buckets newL buckets oldL A else Some buckets);
           buckets \<leftarrow> (if newL > oldL then memset_zero buckets oldL (newL - oldL) else Some buckets);
           Some (deque\<lparr>dq_leftIdx := newL, dq_buckets := buckets\<rparr>) })"

definition recenter_regions :: "CFArrayDeque \<Rightarrow> int \<Rightarrow> int \<Rightarrow> int \<Rightarrow> int \<Rightarrow> int \<Rightarrow> int \<Rightarrow> CFArrayDeque option" where
  "recenter_regions deque A B C R newCount numNewElems =
     (let oldL = dq_leftIdx deque; newL = (oldL + R - numNewElems) sdiv 2; newL = newL - newL sdiv 2;
          oldC0 = oldL + A + B; newC0 = newL + A + newCount; buckets = dq_buckets deque in
      do { buckets \<leftarrow> (if newL < oldL
             then do { buckets \<leftarrow> (if 0 < A then memmove buckets newL buckets oldL A else Some buckets);
                       buckets \<leftarrow> (if 0 < C then memmove buckets newC0 buckets oldC0 C else Some buckets);
                       if oldC0 > newC0 then memset_zero buckets (newC0 + C) (oldC0 - newC0) else Some buckets }
             else do { buckets \<leftarrow> (if 0 < C then memmove buckets newC0 buckets oldC0 C else Some buckets);
                       buckets \<leftarrow> (if 0 < A then memmove buckets newL buckets oldL A else Some buckets);
                       if newL > oldL then memset_zero buckets oldL (newL - oldL) else Some buckets });
           Some (deque\<lparr>dq_leftIdx := newL, dq_buckets := buckets\<rparr>) })"

definition CFArrayRepositionDequeRegions :: "(nat \<Rightarrow> u64) \<Rightarrow> CFArray \<Rightarrow> int \<Rightarrow> int \<Rightarrow> int \<Rightarrow> CFArray option" where
  "CFArrayRepositionDequeRegions fresh array location n newCount =
     do { deque \<leftarrow> ar_store array;
          let cnt = ar_count array;
          let futureCnt = cnt - n + newCount;
          let L = dq_leftIdx deque;
          let A = location;
          let B = n;
          let C = cnt - B - A;
          let R = dq_capacity deque - cnt - L;
          let numNewElems = newCount - B;
          let wiggle = dq_capacity deque div 2 ^ 17;
          let wiggle = (if wiggle < 4 then 4 else wiggle);
          deque \<leftarrow>
            (if dq_capacity deque < futureCnt mod 2 ^ 32 \<or> (cnt < futureCnt \<and> L + R < wiggle)
             then realloc_regions fresh deque A B C newCount futureCnt wiggle
             else if (numNewElems < 0 \<and> C < A) \<or> (numNewElems \<le> R \<and> C < A)
             then move_right_region deque A B C newCount
             else if numNewElems < 0 \<or> (numNewElems \<le> L \<and> A \<le> C)
             then move_left_region deque A numNewElems
             else recenter_regions deque A B C R newCount numNewElems);
          Some (array\<lparr>ar_store := Some deque\<rparr>) }"

section \<open>Replacing values\<close>

definition retain_values :: "CFArrayCallBacks \<Rightarrow> u64 list \<Rightarrow> int \<Rightarrow> (u64 list \<times> array_call list) option" where
  "retain_values cb newValues newCount = (case ac_retain cb of
     Some (addr, retain) \<Rightarrow>
       do { values \<leftarrow> rd_block newValues 0 (nat newCount);
            Some (map retain values, map (\<lambda>v. Item_retained (retain v)) values) }
   | None \<Rightarrow> Some (newValues, []))"

definition copy_in_values :: "CFArray \<Rightarrow> int \<Rightarrow> u64 list \<Rightarrow> int \<Rightarrow> CFArray option" where
  "copy_in_values array location newv newCount =
     (if 0 < newCount
      then do { deque \<leftarrow> ar_store array;
                buckets \<leftarrow> memmove (dq_buckets deque) (dq_leftIdx deque + location) newv 0 newCount;
                Some (array\<lparr>ar_store := Some (deque\<lparr>dq_buckets := buckets\<rparr>)\<rparr>) }
      else Some array)"

definition replace_values :: "(nat \<Rightarrow> u64) \<Rightarrow> CFArray \<Rightarrow> int \<Rightarrow> int \<Rightarrow> u64 list \<Rightarrow> int \<Rightarrow> CFArray option" where
  "replace_values fresh array location n newValues newCount =
     (let cnt = ar_count array; futureCnt = cnt - n + newCount in
      do { (newv, calls) \<leftarrow> retain_values (ar_callbacks array) newValues newCount;
           let array = (array_log array calls)\<lparr>ar_mutations := ar_mutations array + 1\<rparr>;
           array \<leftarrow> (if 0 < n then CFArrayReleaseValues array location n False else Some array);
           array \<leftarrow>
             (if ar_store array = None
              then if 0 \<le> futureCnt
                then do { capacity \<leftarrow> CFArrayDequeRoundUpCapacity futureCnt;
                          Some (array\<lparr>ar_store := Some \<lparr>dq_leftIdx = (capacity - newCount) sdiv 2,
                            dq_capacity = capacity, dq_buckets = map fresh [0..<nat capacity]\<rparr>\<rparr>) }
                else Some array
              else if n \<noteq> newCount then CFArrayRepositionDequeRegions fresh array location n newCount
              else Some array);
           array \<leftarrow> copy_in_values array location newv newCount;
           Some (array\<lparr>ar_count := futureCnt\<rparr>) })"

definition CFArrayReplaceValues :: "(nat \<Rightarrow> u64) \<Rightarrow> CFArray \<Rightarrow> int \<Rightarrow> int \<Rightarrow> u64 list \<Rightarrow> int \<Rightarrow> CFArray option" where
  "CFArrayReplaceValues fresh array location n newValues newCount =
     replace_values fresh array location n newValues newCount"

definition CFArrayAppendValue :: "(nat \<Rightarrow> u64) \<Rightarrow> CFArray \<Rightarrow> u64 \<Rightarrow> CFArray option" where
  "CFArrayAppendValue fresh array v = replace_values fresh array (ar_count array) 0 [v] 1"

definition CFArrayInsertValueAtIndex :: "(nat \<Rightarrow> u64) \<Rightarrow> CFArray \<Rightarrow> int \<Rightarrow> u64 \<Rightarrow> CFArray option" where
  "CFArrayInsertValueAtIndex fresh array idx v = replace_values fresh array idx 0 [v] 1"

definition CFArrayRemoveValueAtIndex :: "(nat \<Rightarrow> u64) \<Rightarrow> CFArray \<Rightarrow> int \<Rightarrow> CFArray option" where
  "CFArrayRemoveValueAtIndex fresh array idx = replace_values fresh array idx 1 [] 0"

definition CFArraySetValueAtIndex :: "(nat \<Rightarrow> u64) \<Rightarrow> CFArray \<Rightarrow> int \<Rightarrow> u64 \<Rightarrow> CFArray option" where
  "CFArraySetValueAtIndex fresh array idx v =
     (if idx = ar_count array then replace_values fresh array idx 0 [v] 1
      else do { (newv, calls) \<leftarrow> retain_values (ar_callbacks array) [v] 1;
                new \<leftarrow> rd newv 0;
                let array = array_log array calls;
                old_value \<leftarrow> CFArrayGetBucketAtIndex array idx;
                array \<leftarrow> set_bucket array idx new;
                let array = (if ac_release (ar_callbacks array) \<noteq> None
                  then array_log array [Item_released old_value] else array);
                Some (array\<lparr>ar_mutations := ar_mutations array + 1\<rparr>) })"

definition CFArrayExchangeValuesAtIndices :: "CFArray \<Rightarrow> int \<Rightarrow> int \<Rightarrow> CFArray option" where
  "CFArrayExchangeValuesAtIndices array idx1 idx2 =
     do { tmp \<leftarrow> CFArrayGetBucketAtIndex array idx1;
          item2 \<leftarrow> CFArrayGetBucketAtIndex array idx2;
          array \<leftarrow> set_bucket array idx1 item2;
          array \<leftarrow> set_bucket array idx2 tmp;
          Some (array\<lparr>ar_mutations := ar_mutations array + 1\<rparr>) }"

definition CFArrayRemoveAllValues :: "CFArray \<Rightarrow> CFArray option" where
  "CFArrayRemoveAllValues array =
     do { array \<leftarrow> CFArrayReleaseValues array 0 (ar_count array) True;
          Some (array\<lparr>ar_count := 0, ar_mutations := ar_mutations array + 1\<rparr>) }"

text \<open>\<open>_CFArraySetCapacity\<close> copies all the old buckets, whatever the new capacity.\<close>

definition CFArraySetCapacity :: "(nat \<Rightarrow> u64) \<Rightarrow> CFArray \<Rightarrow> int \<Rightarrow> CFArray option" where
  "CFArraySetCapacity fresh array cap =
     (if ar_mutable array
      then do { capacity \<leftarrow> CFArrayDequeRoundUpCapacity cap;
                let new = map fresh [0..<nat capacity];
                deque \<leftarrow> (case ar_store array of
                    None \<Rightarrow> Some \<lparr>dq_leftIdx = capacity sdiv 2, dq_capacity = capacity, dq_buckets = new\<rparr>
                  | Some olddeque \<Rightarrow>
                      do { buckets \<leftarrow> memmove new 0 (dq_buckets olddeque) 0 (dq_capacity olddeque);
                           Some \<lparr>dq_leftIdx = dq_leftIdx olddeque, dq_capacity = capacity, dq_buckets = buckets\<rparr> });
                Some (array\<lparr>ar_store := Some deque\<rparr>) }
      else Some array)"

section \<open>Creation\<close>

definition kCFNullArrayCallBacks :: CFArrayCallBacks where
  "kCFNullArrayCallBacks = \<lparr>ac_retain = None, ac_release = None, ac_copyDescription = None, ac_equal = None\<rparr>"

definition CFArrayCallBacksMatchNull :: "CFArrayCallBacks option \<Rightarrow> bool" where
  "CFArrayCallBacksMatchNull c = (case c of None \<Rightarrow> True | Some c \<Rightarrow>
     map_option fst (ac_retain c) = None \<and> ac_release c = None \<and> ac_copyDescription c = None \<and>
     map_option fst (ac_equal c) = None)"

text \<open>\<open>cftype\<close> are the callbacks \<open>kCFTypeArrayCallBacks\<close>, of functions of the runtime.\<close>

definition CFArrayCallBacksMatchCFType :: "CFArrayCallBacks \<Rightarrow> CFArrayCallBacks \<Rightarrow> bool" where
  "CFArrayCallBacksMatchCFType cftype c \<longleftrightarrow>
     map_option fst (ac_retain c) = map_option fst (ac_retain cftype) \<and> ac_release c = ac_release cftype \<and>
     ac_copyDescription c = ac_copyDescription cftype \<and>
     map_option fst (ac_equal c) = map_option fst (ac_equal cftype)"

text \<open>The size is a \<open>UInt32\<close>: 48 bytes of header, 40 of custom callbacks and 8 for each bucket, less
  the 16 of the base, which the allocation adds.\<close>

definition CFArrayGetSizeOfType :: "bool \<Rightarrow> int" where
  "CFArrayGetSizeOfType custom = 48 + (if custom then 40 else 0)"

definition CFArrayInit :: "CFArrayCallBacks \<Rightarrow> bool \<Rightarrow> int \<Rightarrow> CFArrayCallBacks option \<Rightarrow> CFArray" where
  "CFArrayInit cftype immutable capacity callBacks =
     (let (cb, custom) = (if CFArrayCallBacksMatchNull callBacks then (kCFNullArrayCallBacks, False)
            else if CFArrayCallBacksMatchCFType cftype (the callBacks) then (cftype, False)
            else (the callBacks, True));
          header = CFArrayGetSizeOfType custom - 16;
          size = (if immutable then (header + capacity * 8) mod 2 ^ 32 else header) in
      \<lparr>ar_mutable = \<not> immutable, ar_count = 0, ar_mutations = (if immutable then 0 else 1), ar_callbacks = cb,
       ar_items = replicate (nat ((size - header) div 8)) 0, ar_store = None, ar_calls = []\<rparr>)"

definition CFArrayCreateTransfer :: "CFArrayCallBacks \<Rightarrow> u64 list \<Rightarrow> int \<Rightarrow> CFArray option" where
  "CFArrayCreateTransfer cftype values numValues =
     (let header = CFArrayGetSizeOfType False - 16; size = (header + numValues * 8) mod 2 ^ 32;
          items = replicate (nat ((size - header) div 8)) 0 in
      do { items \<leftarrow> memmove items 0 values 0 numValues;
           Some \<lparr>ar_mutable = False, ar_count = numValues, ar_mutations = 0, ar_callbacks = cftype,
             ar_items = items, ar_store = None, ar_calls = []\<rparr> })"

fun init_items :: "CFArray \<Rightarrow> u64 list \<Rightarrow> nat list \<Rightarrow> CFArray option" where
  "init_items array values [] = Some array"
| "init_items array values (idx # idxs) =
     do { v \<leftarrow> rd values idx;
          let (v, calls) = (case ac_retain (ar_callbacks array) of
            Some (addr, retain) \<Rightarrow> (retain v, [Item_retained (retain v)]) | None \<Rightarrow> (v, []));
          items \<leftarrow> wr (ar_items array) idx v;
          init_items (array_log (array\<lparr>ar_items := items\<rparr>) calls) values idxs }"

definition CFArrayCreate :: "CFArrayCallBacks \<Rightarrow> u64 list \<Rightarrow> int \<Rightarrow> CFArrayCallBacks option \<Rightarrow> CFArray option" where
  "CFArrayCreate cftype values numValues callBacks =
     do { result \<leftarrow> init_items (CFArrayInit cftype True numValues callBacks) values [0..<nat numValues];
          Some (result\<lparr>ar_count := numValues\<rparr>) }"

definition CFArrayCreateMutable :: "CFArrayCallBacks \<Rightarrow> int \<Rightarrow> CFArrayCallBacks option \<Rightarrow> CFArray" where
  "CFArrayCreateMutable cftype capacity callBacks = CFArrayInit cftype False capacity callBacks"

definition CFArrayGetValueAtIndex :: "CFArray \<Rightarrow> int \<Rightarrow> u64 option" where
  "CFArrayGetValueAtIndex array idx = CFArrayGetBucketAtIndex array idx"

fun copy_items :: "CFArray \<Rightarrow> CFArray \<Rightarrow> nat list \<Rightarrow> CFArray option" where
  "copy_items array result [] = Some result"
| "copy_items array result (idx # idxs) =
     do { v \<leftarrow> CFArrayGetValueAtIndex array (int idx);
          let (v, calls) = (case ac_retain (ar_callbacks result) of
            Some (addr, retain) \<Rightarrow> (retain v, [Item_retained (retain v)]) | None \<Rightarrow> (v, []));
          items \<leftarrow> wr (ar_items result) idx v;
          copy_items array (array_log (result\<lparr>ar_items := items\<rparr>) calls) idxs }"

definition CFArrayCreateCopy :: "CFArrayCallBacks \<Rightarrow> CFArray \<Rightarrow> CFArray option" where
  "CFArrayCreateCopy cftype array =
     (let numValues = CFArrayGetCount array in
      do { result \<leftarrow> copy_items array (CFArrayInit cftype True numValues (Some (ar_callbacks array)))
             [0..<nat numValues];
           Some (result\<lparr>ar_count := numValues\<rparr>) })"

fun append_values :: "(nat \<Rightarrow> u64) \<Rightarrow> CFArray \<Rightarrow> CFArray \<Rightarrow> int list \<Rightarrow> CFArray option" where
  "append_values fresh array other [] = Some array"
| "append_values fresh array other (idx # idxs) =
     do { v \<leftarrow> CFArrayGetValueAtIndex other idx;
          array \<leftarrow> CFArrayAppendValue fresh array v;
          append_values fresh array other idxs }"

definition CFArrayCreateMutableCopy :: "(nat \<Rightarrow> u64) \<Rightarrow> CFArrayCallBacks \<Rightarrow> int \<Rightarrow> CFArray \<Rightarrow> CFArray option" where
  "CFArrayCreateMutableCopy fresh cftype capacity array =
     (let numValues = CFArrayGetCount array;
          result = CFArrayInit cftype False capacity (Some (ar_callbacks array)) in
      do { result \<leftarrow> (if 0 = capacity then CFArraySetCapacity fresh result numValues else Some result);
           append_values fresh result array (array_range 0 numValues) })"

definition CFArrayAppendArray :: "(nat \<Rightarrow> u64) \<Rightarrow> CFArray \<Rightarrow> CFArray \<Rightarrow> int \<Rightarrow> int \<Rightarrow> CFArray option" where
  "CFArrayAppendArray fresh array otherArray location n =
     append_values fresh array otherArray (array_range location n)"

definition CFArrayDeallocate :: "CFArray \<Rightarrow> CFArray option" where
  "CFArrayDeallocate array = CFArrayReleaseValues array 0 (ar_count array) True"

section \<open>Reading\<close>

fun array_equal_loop :: "(u64 \<times> (u64 \<Rightarrow> u64 \<Rightarrow> bool)) option \<Rightarrow> CFArray \<Rightarrow> CFArray \<Rightarrow> int list \<Rightarrow> bool option" where
  "array_equal_loop eq array1 array2 [] = Some True"
| "array_equal_loop eq array1 array2 (idx # idxs) =
     do { val1 \<leftarrow> CFArrayGetBucketAtIndex array1 idx;
          val2 \<leftarrow> CFArrayGetBucketAtIndex array2 idx;
          if val1 \<noteq> val2
          then (case eq of None \<Rightarrow> Some False
                | Some (addr, equal) \<Rightarrow>
                    if \<not> equal val1 val2 then Some False else array_equal_loop eq array1 array2 idxs)
          else array_equal_loop eq array1 array2 idxs }"

text \<open>For two objects; one object is equal to itself at once, as by these steps.\<close>

definition CFArrayEqual :: "CFArray \<Rightarrow> CFArray \<Rightarrow> bool option" where
  "CFArrayEqual array1 array2 =
     (let cnt = ar_count array1 in
      if cnt \<noteq> ar_count array2 then Some False
      else if map_option fst (ac_equal (ar_callbacks array1)) \<noteq> map_option fst (ac_equal (ar_callbacks array2))
      then Some False
      else if 0 = cnt then Some True
      else array_equal_loop (ac_equal (ar_callbacks array1)) array1 array2 (array_range 0 cnt))"

definition CFArrayHash :: "CFArray \<Rightarrow> u64" where
  "CFArrayHash array = word_of_int (ar_count array)"

text \<open>The test \<open>value == item || (cb->equal && cb->equal(value, item))\<close> of the searches.\<close>

definition array_matches :: "CFArray \<Rightarrow> u64 \<Rightarrow> u64 \<Rightarrow> bool" where
  "array_matches array v item \<longleftrightarrow> v = item \<or>
     (case ac_equal (ar_callbacks array) of Some (addr, equal) \<Rightarrow> equal v item | None \<Rightarrow> False)"

fun count_of_value :: "CFArray \<Rightarrow> u64 \<Rightarrow> int list \<Rightarrow> int \<Rightarrow> int option" where
  "count_of_value array v [] found = Some found"
| "count_of_value array v (idx # idxs) found =
     do { item \<leftarrow> CFArrayGetValueAtIndex array idx;
          count_of_value array v idxs (if array_matches array v item then found + 1 else found) }"

definition CFArrayGetCountOfValue :: "CFArray \<Rightarrow> int \<Rightarrow> int \<Rightarrow> u64 \<Rightarrow> int option" where
  "CFArrayGetCountOfValue array location n v = count_of_value array v (array_range location n) 0"

text \<open>The index of the first value found among some indexes, \<open>kCFNotFound\<close> if none is.\<close>

fun index_of_value :: "CFArray \<Rightarrow> u64 \<Rightarrow> int list \<Rightarrow> int option" where
  "index_of_value array v [] = Some (- 1)"
| "index_of_value array v (idx # idxs) =
     do { item \<leftarrow> CFArrayGetValueAtIndex array idx;
          if array_matches array v item then Some idx else index_of_value array v idxs }"

definition CFArrayGetFirstIndexOfValue :: "CFArray \<Rightarrow> int \<Rightarrow> int \<Rightarrow> u64 \<Rightarrow> int option" where
  "CFArrayGetFirstIndexOfValue array location n v = index_of_value array v (array_range location n)"

definition CFArrayGetLastIndexOfValue :: "CFArray \<Rightarrow> int \<Rightarrow> int \<Rightarrow> u64 \<Rightarrow> int option" where
  "CFArrayGetLastIndexOfValue array location n v = index_of_value array v (rev (array_range location n))"

fun contains_value :: "CFArray \<Rightarrow> u64 \<Rightarrow> int list \<Rightarrow> bool option" where
  "contains_value array v [] = Some False"
| "contains_value array v (idx # idxs) =
     do { item \<leftarrow> CFArrayGetValueAtIndex array idx;
          if array_matches array v item then Some True else contains_value array v idxs }"

definition CFArrayContainsValue :: "CFArray \<Rightarrow> int \<Rightarrow> int \<Rightarrow> u64 \<Rightarrow> bool option" where
  "CFArrayContainsValue array location n v = contains_value array v (array_range location n)"

text \<open>Out of bounds \<open>_CFArrayCheckAndGetValueAtIndex\<close> returns the pointer with all bits set.\<close>

definition CFArrayCheckAndGetValueAtIndex :: "CFArray \<Rightarrow> int \<Rightarrow> u64 option" where
  "CFArrayCheckAndGetValueAtIndex array idx =
     (if 0 \<le> idx \<and> idx < ar_count array then CFArrayGetBucketAtIndex array idx else Some (- 1))"

definition CFArrayGetValues :: "CFArray \<Rightarrow> int \<Rightarrow> int \<Rightarrow> u64 list \<Rightarrow> u64 list option" where
  "CFArrayGetValues array location n values =
     (if 0 < n
      then do { (buckets, first) \<leftarrow> CFArrayGetBucketsPtr array;
                memmove values 0 buckets (first + location) n }
      else Some values)"

fun array_apply :: "(u64 \<Rightarrow> 's \<Rightarrow> 's) \<Rightarrow> CFArray \<Rightarrow> int list \<Rightarrow> 's \<Rightarrow> 's option" where
  "array_apply applier array [] s = Some s"
| "array_apply applier array (idx # idxs) s =
     do { item \<leftarrow> CFArrayGetValueAtIndex array idx; array_apply applier array idxs (applier item s) }"

definition CFArrayApplyFunction :: "(u64 \<Rightarrow> 's \<Rightarrow> 's) \<Rightarrow> CFArray \<Rightarrow> int \<Rightarrow> int \<Rightarrow> 's \<Rightarrow> 's option" where
  "CFArrayApplyFunction applier array location n = array_apply applier array (array_range location n)"

text \<open>Fast enumeration gives all values in the first call: the new state, the number of values, the
  buckets with the offset of the first value, and the number of mutations to compare with.\<close>

definition CFArrayFastEnumeration :: "CFArray \<Rightarrow> nat
    \<Rightarrow> (nat \<times> int \<times> (u64 list \<times> int) option \<times> nat option)" where
  "CFArrayFastEnumeration array st =
     (if ar_count array = 0 then (st, 0, None, None)
      else if st = 0
      then (1, ar_count array, CFArrayGetBucketsPtr array,
        Some (if ar_mutable array then ar_mutations array else 1))
      else (st, 0, None, None))"

end
