(* ===== verification/PointerArrayLaws.thy ===== *)
theory PointerArrayLaws
  imports PointerArray
begin

text \<open>
  What the operations of \<open>CFArray.c\<close> do to the list of values of an array.  \<open>gap\<close> describes a deque
  around a replaced range, and each way of repositioning its regions keeps them; \<open>array_rep\<close> relates an
  array to its values.  \<open>guarded_history\<close> is interpreted on the updating operations, so that a
  history of them does what it does on a list, as long as its indexes are in range.
\<close>

section \<open>Cells of memory\<close>

definition cell :: "'a list \<Rightarrow> int \<Rightarrow> 'a" where
  "cell xs i = xs ! nat i"

lemma memmove_cells:
  assumes "0 \<le> d" "0 \<le> s" "0 \<le> n" "s + n \<le> int (length src)" "d + n \<le> int (length dst)"
  obtains ys where "memmove dst d src s n = Some ys" "length ys = length dst"
    "\<And>i. 0 \<le> i \<Longrightarrow> i < int (length dst) \<Longrightarrow>
      cell ys i = (if d \<le> i \<and> i < d + n then cell src (s + (i - d)) else cell dst i)"
proof -
  let ?b = "take (nat n) (drop (nat s) src)"
  let ?ys = "take (nat d) dst @ ?b @ drop (nat d + nat n) dst"
  have len: "length ?b = nat n" "nat s + nat n \<le> length src" "nat d + nat n \<le> length dst" using assms by auto
  have "memmove dst d src s n = Some ?ys" using assms(1-3) len by (simp add: memmove_def)
  moreover have "length ?ys = length dst" using len by simp
  moreover have "cell ?ys i = (if d \<le> i \<and> i < d + n then cell src (s + (i - d)) else cell dst i)"
    if i: "0 \<le> i" "i < int (length dst)" for i
  proof -
    consider "i < d" | "d \<le> i" "i < d + n" | "d + n \<le> i" by linarith
    then show ?thesis
    proof cases
      case 1
      with i assms len show ?thesis by (simp add: cell_def nth_append nat_less_iff)
    next
      case 2
      have "nat i - nat d = nat (i - d)" "nat s + nat (i - d) = nat (s + (i - d))" using assms 2 i by auto
      moreover have "min (length dst) (nat d) = nat d" "\<not> nat i < nat d" "nat (i - d) < nat n" using assms 2 i len by auto
      ultimately show ?thesis using assms 2 i len by (simp add: cell_def nth_append)
    next
      case 3
      have "min (length dst) (nat d) = nat d" "\<not> nat i < nat d" "\<not> nat i - nat d < nat n"
        "nat d + nat n + (nat i - nat d - nat n) = nat i" using assms 3 i len by auto
      then show ?thesis using assms 3 i len by (simp add: cell_def nth_append)
    qed
  qed
  ultimately show thesis using that by blast
qed

lemma memset_cells:
  assumes "0 \<le> d" "0 \<le> n" "d + n \<le> int (length dst)"
  obtains ys where "memset_zero dst d n = Some ys" "length ys = length dst"
    "\<And>i. 0 \<le> i \<Longrightarrow> i < int (length dst) \<Longrightarrow> cell ys i = (if d \<le> i \<and> i < d + n then 0 else cell dst i)"
proof -
  have eq: "memset_zero dst d n = memmove dst d (replicate (nat n) 0) 0 n"
    using assms by (simp add: memset_zero_def memmove_def)
  from assms have "0 + n \<le> int (length (replicate (nat n) (0::u64)))" by simp
  from memmove_cells [OF assms(1) order.refl assms(2) this assms(3)] obtain ys where
    ys: "memset_zero dst d n = Some ys" "length ys = length dst"
    "\<And>i. 0 \<le> i \<Longrightarrow> i < int (length dst) \<Longrightarrow>
      cell ys i = (if d \<le> i \<and> i < d + n then cell (replicate (nat n) 0) (0 + (i - d)) else cell dst i)"
    using eq by auto
  show thesis
  proof (rule that [OF ys(1,2)])
    fix i assume i: "0 \<le> i" "i < int (length dst)"
    have "cell (replicate (nat n) (0::u64)) (0 + (i - d)) = 0" if "d \<le> i \<and> i < d + n"
      using that by (simp add: cell_def)
    with ys(3) [OF i] show "cell ys i = (if d \<le> i \<and> i < d + n then 0 else cell dst i)" by simp
  qed
qed

lemma RoundUpCapacity_law:
  assumes "n < 2 ^ 30"
  obtains c where "CFArrayDequeRoundUpCapacity n = Some c" "n \<le> c" "4 \<le> c" "c \<le> 2 ^ 30"
proof (cases "n < 4")
  case False
  let ?k = "flsl (nat n)"
  have "nat n < 2 ^ 30" using assms by (simp add: nat_less_iff)
  then have k: "?k \<le> 30" by (rule flsl_le)
  have "nat n < 2 ^ ?k" by (rule flsl_bound)
  then have n: "n < 2 ^ ?k" using False by (simp add: nat_less_iff)
  have "(2::int) ^ ?k \<le> 2 ^ 30" using k by (rule power_increasing) simp
  with False k n that [of "2 ^ ?k"] show thesis by (simp add: CFArrayDequeRoundUpCapacity_def min_def)
qed (use that [of 4] in \<open>simp add: CFArrayDequeRoundUpCapacity_def\<close>)

lemma half_sdiv [simp]: "0 \<le> a \<Longrightarrow> a sdiv 2 = a div 2" for a :: int
  by (simp add: signed_divide_int_def sgn_if)

section \<open>The regions of a deque\<close>

text \<open>A deque holds \<open>pre\<close>, then \<open>n\<close> buckets of any content, then \<open>post\<close>.\<close>

definition gap :: "CFArrayDeque \<Rightarrow> u64 list \<Rightarrow> int \<Rightarrow> u64 list \<Rightarrow> bool" where
  "gap d pre n post \<longleftrightarrow> dq_capacity d = int (length (dq_buckets d)) \<and> dq_capacity d \<le> 2 ^ 30 \<and>
     0 \<le> dq_leftIdx d \<and> 0 \<le> n \<and> dq_leftIdx d + int (length pre) + n + int (length post) \<le> dq_capacity d \<and>
     (\<forall>i. 0 \<le> i \<and> i < int (length pre) \<longrightarrow> cell (dq_buckets d) (dq_leftIdx d + i) = cell pre i) \<and>
     (\<forall>i. 0 \<le> i \<and> i < int (length post) \<longrightarrow>
       cell (dq_buckets d) (dq_leftIdx d + int (length pre) + n + i) = cell post i)"

lemma gapD:
  assumes "gap d pre n post"
  shows "dq_capacity d = int (length (dq_buckets d))" "dq_capacity d \<le> 2 ^ 30" "0 \<le> dq_leftIdx d" "0 \<le> n"
    "dq_leftIdx d + int (length pre) + n + int (length post) \<le> int (length (dq_buckets d))"
    "\<And>i. 0 \<le> i \<Longrightarrow> i < int (length pre) \<Longrightarrow> cell (dq_buckets d) (dq_leftIdx d + i) = cell pre i"
    "\<And>i. 0 \<le> i \<Longrightarrow> i < int (length post) \<Longrightarrow>
      cell (dq_buckets d) (dq_leftIdx d + int (length pre) + n + i) = cell post i"
  using assms by (simp_all add: gap_def)

text \<open>Moving a region that may be empty.\<close>

lemma move_cells:
  assumes "0 \<le> d" "0 \<le> s" "0 \<le> n" "s + n \<le> int (length src)" "d + n \<le> int (length dst)"
  obtains ys where "(if 0 < n then memmove dst d src s n else Some dst) = Some ys" "length ys = length dst"
    "\<And>i. 0 \<le> i \<Longrightarrow> i < int (length dst) \<Longrightarrow>
      cell ys i = (if d \<le> i \<and> i < d + n then cell src (s + (i - d)) else cell dst i)"
proof (cases "0 < n")
  case True
  with that memmove_cells [OF assms] show thesis by (smt (verit))
next
  case False
  show thesis by (rule that [of dst]) (use False assms(3) in auto)
qed

lemma zero_cells:
  assumes "m < n \<Longrightarrow> 0 \<le> d" "m < n \<Longrightarrow> d + (n - m) \<le> int (length dst)"
  obtains ys where "(if n > m then memset_zero dst d (n - m) else Some dst) = Some ys" "length ys = length dst"
    "\<And>i. 0 \<le> i \<Longrightarrow> i < int (length dst) \<Longrightarrow> \<not> (d \<le> i \<and> i < d + (n - m)) \<Longrightarrow> cell ys i = cell dst i"
proof (cases "m < n")
  case True
  then have "0 \<le> n - m" by simp
  from memset_cells [OF assms(1) [OF True] this assms(2) [OF True]] True that show thesis by (smt (verit))
next
  case False
  with that [of dst] show thesis by simp
qed

lemma realloc_gap:
  assumes g: "gap d pre B post" and n: "0 \<le> n" "4 \<le> w"
    and f: "f = int (length pre) + n + int (length post)" "f + w < 2 ^ 30"
  shows "\<exists>d'. realloc_regions fresh d (int (length pre)) B (int (length post)) n f w = Some d' \<and> gap d' pre n post"
proof -
  note g = gapD [OF g]
  obtain c where c: "CFArrayDequeRoundUpCapacity (f + w) = Some c" "f + w \<le> c" "4 \<le> c" "c \<le> 2 ^ 30"
    by (rule RoundUpCapacity_law [OF f(2)])
  define L where "L = (c - f) sdiv 2"
  have L: "0 \<le> L" "L + f \<le> c" using c n by (simp_all add: L_def)
  let ?b = "map fresh [0..<nat c]"
  obtain b1 where b1: "(if 0 < int (length pre) then memmove ?b L (dq_buckets d) (dq_leftIdx d) (int (length pre)) else Some ?b) = Some b1"
    "length b1 = length ?b" "\<And>i. 0 \<le> i \<Longrightarrow> i < int (length ?b) \<Longrightarrow> cell b1 i = (if L \<le> i \<and> i < L + int (length pre)
        then cell (dq_buckets d) (dq_leftIdx d + (i - L)) else cell ?b i)"
    by (rule move_cells [of L "dq_leftIdx d" "int (length pre)" "dq_buckets d" ?b]) (use g L f n c in auto)
  let ?s = "dq_leftIdx d + int (length pre) + B" and ?t = "L + int (length pre) + n"
  obtain b2 where b2: "(if 0 < int (length post) then memmove b1 ?t (dq_buckets d) ?s (int (length post)) else Some b1) = Some b2"
    "length b2 = length b1" "\<And>i. 0 \<le> i \<Longrightarrow> i < int (length b1) \<Longrightarrow> cell b2 i = (if ?t \<le> i \<and> i < ?t + int (length post)
        then cell (dq_buckets d) (?s + (i - ?t)) else cell b1 i)"
    by (rule move_cells [of ?t ?s "int (length post)" "dq_buckets d" b1]) (use g L f n c b1 in auto)
  have "realloc_regions fresh d (int (length pre)) B (int (length post)) n f w =
      Some \<lparr>dq_leftIdx = L, dq_capacity = c, dq_buckets = b2\<rparr>"
    by (simp only: realloc_regions_def c(1) Option.bind_lunit Let_def L_def [symmetric] b1(1) b2(1))
  moreover have "gap \<lparr>dq_leftIdx = L, dq_capacity = c, dq_buckets = b2\<rparr> pre n post"
    using b1 b2 g L f n c unfolding gap_def by auto
  ultimately show ?thesis by blast
qed

lemma move_right_gap:
  assumes g: "gap d pre B post" and n: "0 \<le> n"
    and fit: "dq_leftIdx d + int (length pre) + n + int (length post) \<le> dq_capacity d"
  shows "\<exists>d'. move_right_region d (int (length pre)) B (int (length post)) n = Some d' \<and> gap d' pre n post"
proof -
  note g = gapD [OF g]
  let ?b = "dq_buckets d" and ?s = "dq_leftIdx d + int (length pre) + B" and ?t = "dq_leftIdx d + int (length pre) + n"
  obtain b1 where b1: "(if 0 < int (length post) then memmove ?b ?t ?b ?s (int (length post)) else Some ?b) = Some b1"
    "length b1 = length ?b" "\<And>i. 0 \<le> i \<Longrightarrow> i < int (length ?b) \<Longrightarrow> cell b1 i = (if ?t \<le> i \<and> i < ?t + int (length post)
        then cell ?b (?s + (i - ?t)) else cell ?b i)"
    by (rule move_cells [of ?t ?s "int (length post)" ?b ?b]) (use g n fit in auto)
  obtain b2 where b2: "(if ?s > ?t then memset_zero b1 (?t + int (length post)) (?s - ?t) else Some b1) = Some b2"
    "length b2 = length b1" "\<And>i. 0 \<le> i \<Longrightarrow> i < int (length b1) \<Longrightarrow>
      \<not> (?t + int (length post) \<le> i \<and> i < ?t + int (length post) + (?s - ?t)) \<Longrightarrow> cell b2 i = cell b1 i"
    by (rule zero_cells [of ?t ?s "?t + int (length post)" b1]) (use g n fit b1 in auto)
  have "move_right_region d (int (length pre)) B (int (length post)) n = Some (d\<lparr>dq_buckets := b2\<rparr>)"
    by (simp only: move_right_region_def Option.bind_lunit Let_def b1(1) b2(1))
  moreover have "gap (d\<lparr>dq_buckets := b2\<rparr>) pre n post"
    using b1 b2 g n fit unfolding gap_def by auto
  ultimately show ?thesis by blast
qed

lemma move_left_gap:
  assumes g: "gap d pre B post" and n: "0 \<le> n" and fit: "n - B \<le> dq_leftIdx d"
  shows "\<exists>d'. move_left_region d (int (length pre)) (n - B) = Some d' \<and> gap d' pre n post"
proof -
  note g = gapD [OF g]
  let ?b = "dq_buckets d" and ?s = "dq_leftIdx d" and ?t = "dq_leftIdx d - (n - B)"
  obtain b1 where b1: "(if 0 < int (length pre) then memmove ?b ?t ?b ?s (int (length pre)) else Some ?b) = Some b1"
    "length b1 = length ?b" "\<And>i. 0 \<le> i \<Longrightarrow> i < int (length ?b) \<Longrightarrow> cell b1 i = (if ?t \<le> i \<and> i < ?t + int (length pre)
        then cell ?b (?s + (i - ?t)) else cell ?b i)"
    by (rule move_cells [of ?t ?s "int (length pre)" ?b ?b]) (use g n fit in auto)
  obtain b2 where b2: "(if ?t > ?s then memset_zero b1 ?s (?t - ?s) else Some b1) = Some b2"
    "length b2 = length b1" "\<And>i. 0 \<le> i \<Longrightarrow> i < int (length b1) \<Longrightarrow>
      \<not> (?s \<le> i \<and> i < ?s + (?t - ?s)) \<Longrightarrow> cell b2 i = cell b1 i"
    by (rule zero_cells [of ?s ?t ?s b1]) (use g n fit b1 in auto)
  have "move_left_region d (int (length pre)) (n - B) = Some (d\<lparr>dq_leftIdx := ?t, dq_buckets := b2\<rparr>)"
    by (simp only: move_left_region_def Option.bind_lunit Let_def b1(1) b2(1))
  moreover have "gap (d\<lparr>dq_leftIdx := ?t, dq_buckets := b2\<rparr>) pre n post"
    using b1 b2 g n fit unfolding gap_def by (auto simp: algebra_simps)
  ultimately show ?thesis by blast
qed

lemma recenter_gap:
  assumes g: "gap d pre B post" and n: "B \<le> n"
    and fit: "int (length pre) + n + int (length post) \<le> dq_capacity d"
    and R: "R = dq_capacity d - (int (length pre) + B + int (length post)) - dq_leftIdx d"
  shows "\<exists>d'. recenter_regions d (int (length pre)) B (int (length post)) R n (n - B) = Some d' \<and> gap d' pre n post"
proof -
  note g = gapD [OF g]
  define h where "h = (dq_leftIdx d + R - (n - B)) sdiv 2"
  define t where "t = h - h sdiv 2"
  have h: "0 \<le> h" "2 * h \<le> dq_leftIdx d + R - (n - B)" using R fit by (simp_all add: h_def)
  then have t: "0 \<le> t" "t + int (length pre) + n + int (length post) \<le> dq_capacity d" using R by (simp_all add: t_def)
  let ?b = "dq_buckets d" and ?s = "dq_leftIdx d" and ?p = "int (length pre)" and ?q = "int (length post)"
  let ?c = "dq_leftIdx d + ?p + B" and ?c' = "t + ?p + n"
  obtain b where b: "(if t < ?s
       then do { buckets \<leftarrow> (if 0 < ?p then memmove ?b t ?b ?s ?p else Some ?b);
                 buckets \<leftarrow> (if 0 < ?q then memmove buckets ?c' buckets ?c ?q else Some buckets);
                 if ?c > ?c' then memset_zero buckets (?c' + ?q) (?c - ?c') else Some buckets }
       else do { buckets \<leftarrow> (if 0 < ?q then memmove ?b ?c' ?b ?c ?q else Some ?b);
                 buckets \<leftarrow> (if 0 < ?p then memmove buckets t buckets ?s ?p else Some buckets);
                 if t > ?s then memset_zero buckets ?s (t - ?s) else Some buckets }) = Some b"
    and "length b = length ?b" "\<And>i. 0 \<le> i \<Longrightarrow> i < ?p \<Longrightarrow> cell b (t + i) = cell ?b (?s + i)"
      "\<And>i. 0 \<le> i \<Longrightarrow> i < ?q \<Longrightarrow> cell b (?c' + i) = cell ?b (?c + i)"
  proof (cases "t < ?s")
    case True
    obtain b1 where b1: "(if 0 < ?p then memmove ?b t ?b ?s ?p else Some ?b) = Some b1" "length b1 = length ?b"
      "\<And>i. 0 \<le> i \<Longrightarrow> i < int (length ?b) \<Longrightarrow> cell b1 i = (if t \<le> i \<and> i < t + ?p then cell ?b (?s + (i - t)) else cell ?b i)"
      by (rule move_cells [of t ?s ?p ?b ?b]) (use g t n in auto)
    obtain b2 where b2: "(if 0 < ?q then memmove b1 ?c' b1 ?c ?q else Some b1) = Some b2" "length b2 = length b1"
      "\<And>i. 0 \<le> i \<Longrightarrow> i < int (length b1) \<Longrightarrow> cell b2 i = (if ?c' \<le> i \<and> i < ?c' + ?q then cell b1 (?c + (i - ?c')) else cell b1 i)"
      by (rule move_cells [of ?c' ?c ?q b1 b1]) (use g t n b1 in auto)
    obtain b3 where b3: "(if ?c > ?c' then memset_zero b2 (?c' + ?q) (?c - ?c') else Some b2) = Some b3" "length b3 = length b2"
      "\<And>i. 0 \<le> i \<Longrightarrow> i < int (length b2) \<Longrightarrow> \<not> (?c' + ?q \<le> i \<and> i < ?c' + ?q + (?c - ?c')) \<Longrightarrow> cell b3 i = cell b2 i"
      by (rule zero_cells [of ?c' ?c "?c' + ?q" b2]) (use g t n b1 b2 in auto)
    show thesis
    proof (rule that [of b3])
      show "cell b3 (t + i) = cell ?b (?s + i)" if "0 \<le> i" "i < ?p" for i
        using that b3(2,3) b2(2,3) b1(2,3) g(1,3,4,5) t n True by simp
      show "cell b3 (?c' + i) = cell ?b (?c + i)" if "0 \<le> i" "i < ?q" for i
        using that b3(2,3) b2(2,3) b1(2,3) g(1,3,4,5) t n True by simp
    qed (use b1 b2 b3 True in \<open>simp_all only: if_True Option.bind_lunit\<close>)
  next
    case False
    obtain b1 where b1: "(if 0 < ?q then memmove ?b ?c' ?b ?c ?q else Some ?b) = Some b1" "length b1 = length ?b"
      "\<And>i. 0 \<le> i \<Longrightarrow> i < int (length ?b) \<Longrightarrow> cell b1 i = (if ?c' \<le> i \<and> i < ?c' + ?q then cell ?b (?c + (i - ?c')) else cell ?b i)"
      by (rule move_cells [of ?c' ?c ?q ?b ?b]) (use g t n in auto)
    obtain b2 where b2: "(if 0 < ?p then memmove b1 t b1 ?s ?p else Some b1) = Some b2" "length b2 = length b1"
      "\<And>i. 0 \<le> i \<Longrightarrow> i < int (length b1) \<Longrightarrow> cell b2 i = (if t \<le> i \<and> i < t + ?p then cell b1 (?s + (i - t)) else cell b1 i)"
      by (rule move_cells [of t ?s ?p b1 b1]) (use g t n b1 in auto)
    obtain b3 where b3: "(if t > ?s then memset_zero b2 ?s (t - ?s) else Some b2) = Some b3" "length b3 = length b2"
      "\<And>i. 0 \<le> i \<Longrightarrow> i < int (length b2) \<Longrightarrow> \<not> (?s \<le> i \<and> i < ?s + (t - ?s)) \<Longrightarrow> cell b3 i = cell b2 i"
      by (rule zero_cells [of ?s t ?s b2]) (use g t n b1 b2 False in auto)
    show thesis
    proof (rule that [of b3])
      show "cell b3 (t + i) = cell ?b (?s + i)" if "0 \<le> i" "i < ?p" for i
        using that b3(2,3) b2(2,3) b1(2,3) g(1,3,4,5) t n False by simp
      show "cell b3 (?c' + i) = cell ?b (?c + i)" if "0 \<le> i" "i < ?q" for i
        using that b3(2,3) b2(2,3) b1(2,3) g(1,3,4,5) t n False by simp
    qed (use b1 b2 b3 False in \<open>simp_all only: if_False Option.bind_lunit\<close>)
  qed
  note cells = this
  have "recenter_regions d ?p B ?q R n (n - B) = Some (d\<lparr>dq_leftIdx := t, dq_buckets := b\<rparr>)"
    by (simp only: recenter_regions_def Let_def h_def [symmetric] t_def [symmetric] cells(1) Option.bind_lunit)
  moreover have "gap (d\<lparr>dq_leftIdx := t, dq_buckets := b\<rparr>) pre n post"
    using cells g t n unfolding gap_def by auto
  ultimately show ?thesis by blast
qed

section \<open>The values of an array\<close>

definition array_rep :: "CFArray \<Rightarrow> u64 list \<Rightarrow> bool" where
  "array_rep array xs \<longleftrightarrow> ar_count array = int (length xs) \<and>
     (if ar_mutable array then (case ar_store array of None \<Rightarrow> xs = [] | Some d \<Rightarrow> gap d xs 0 [])
      else ar_items array = xs)"

text \<open>What the operations on single buckets do not touch.\<close>

definition array_frame :: "CFArray \<Rightarrow> bool \<times> CFArrayCallBacks \<times> int \<times> nat" where
  "array_frame array = (ar_mutable array, ar_callbacks array, ar_count array, ar_mutations array)"

lemma array_rep_count: "array_rep array xs \<Longrightarrow> ar_count array = int (length xs)"
  by (simp add: array_rep_def)

lemma array_rep_log [simp]: "array_rep (array_log array calls) xs = array_rep array xs"
  "array_frame (array_log array calls) = array_frame array" "ar_store (array_log array calls) = ar_store array"
  "ar_calls (array_log array calls) = ar_calls array @ calls" "ar_mutable (array_log array calls) = ar_mutable array"
  "ar_callbacks (array_log array calls) = ar_callbacks array" "ar_count (array_log array calls) = ar_count array"
  "ar_mutations (array_log array calls) = ar_mutations array"
  by (simp_all add: array_rep_def array_log_def array_frame_def)

lemma cell_Some: "0 \<le> i \<Longrightarrow> i < int (length xs) \<Longrightarrow> rd_at xs i = Some (cell xs i)"
  by (simp add: rd_at_def cell_def nat_less_iff)

lemma bucket_value:
  assumes "array_rep array xs" "0 \<le> i" "i < int (length xs)"
  shows "CFArrayGetBucketAtIndex array i = Some (cell xs i)"
proof (cases "ar_mutable array")
  case True
  with assms obtain d where d: "ar_store array = Some d" "gap d xs 0 []"
    by (auto simp: array_rep_def split: option.splits)
  note g = gapD [OF d(2)]
  from g assms(2,3) have "rd_at (dq_buckets d) (dq_leftIdx d + i) = Some (cell (dq_buckets d) (dq_leftIdx d + i))"
    by (intro cell_Some) auto
  with g(6) [OF assms(2,3)] d True show ?thesis
    by (simp add: CFArrayGetBucketAtIndex_def CFArrayGetBucketsPtr_def)
next
  case False
  with assms show ?thesis
    by (simp add: CFArrayGetBucketAtIndex_def CFArrayGetBucketsPtr_def array_rep_def cell_Some)
qed

lemma cell_update: "0 \<le> i \<Longrightarrow> i < int (length xs) \<Longrightarrow> 0 \<le> j \<Longrightarrow> cell (xs[nat i := v]) j = (if j = i then v else cell xs j)"
  by (auto simp: cell_def nth_list_update nat_less_iff)

lemma set_bucket_law:
  assumes rep: "array_rep array xs" and i: "0 \<le> i" "i < int (length xs)"
  shows "\<exists>array'. set_bucket array i v = Some array' \<and> array_rep array' (xs[nat i := v]) \<and>
    array_frame array' = array_frame array \<and> ar_calls array' = ar_calls array \<and>
    (ar_store array' = None) = (ar_store array = None)"
proof (cases "ar_mutable array")
  case True
  with rep i obtain d where d: "ar_store array = Some d" "gap d xs 0 []"
    by (auto simp: array_rep_def split: option.splits)
  note g = gapD [OF d(2)]
  let ?j = "dq_leftIdx d + i"
  have j: "0 \<le> ?j" "?j < int (length (dq_buckets d))" using g i by auto
  have "gap (d\<lparr>dq_buckets := (dq_buckets d)[nat ?j := v]\<rparr>) (xs[nat i := v]) 0 []"
    using g i j unfolding gap_def by (auto simp: cell_update)
  then show ?thesis using d True rep j
    by (auto simp: set_bucket_def CFArrayGetBucketsPtr_def wr_at_def array_rep_def array_frame_def nat_less_iff)
next
  case False
  with rep i show ?thesis
    by (auto simp: set_bucket_def CFArrayGetBucketsPtr_def wr_at_def array_rep_def array_frame_def nat_less_iff)
qed

section \<open>Releasing values\<close>

lemma release_loop_law:
  "array_rep array xs \<Longrightarrow> \<forall>i\<in>set idxs. 0 \<le> i \<and> i < int (length xs) \<Longrightarrow> distinct idxs \<Longrightarrow>
   \<exists>array' ys. release_loop release array idxs = Some array' \<and> array_rep array' ys \<and> length ys = length xs \<and>
     (\<forall>i. 0 \<le> i \<and> i \<notin> set idxs \<longrightarrow> cell ys i = cell xs i) \<and> array_frame array' = array_frame array \<and>
     ar_calls array' = ar_calls array @ (if release then map (\<lambda>i. Item_released (cell xs i)) idxs else []) \<and>
     (ar_store array' = None) = (ar_store array = None)"
proof (induction idxs arbitrary: array xs)
  case (Cons i idxs)
  have i: "0 \<le> i" "i < int (length xs)" using Cons.prems(2) by auto
  let ?a = "if release then array_log array [Item_released (cell xs i)] else array"
  have "array_rep ?a xs" using Cons.prems(1) by simp
  from set_bucket_law [OF this i, of 0] obtain b where b: "set_bucket ?a i 0 = Some b"
    "array_rep b (xs[nat i := 0])" "array_frame b = array_frame ?a" "ar_calls b = ar_calls ?a"
    "(ar_store b = None) = (ar_store ?a = None)" by (elim exE conjE) (rule that)
  have "\<forall>j\<in>set idxs. 0 \<le> j \<and> j < int (length (xs[nat i := 0]))" "distinct idxs" using Cons.prems(2,3) by auto
  from Cons.IH [OF b(2) this] obtain array' ys where l: "release_loop release b idxs = Some array'"
    "array_rep array' ys" "length ys = length (xs[nat i := 0])"
    "\<forall>j. 0 \<le> j \<and> j \<notin> set idxs \<longrightarrow> cell ys j = cell (xs[nat i := 0]) j" "array_frame array' = array_frame b"
    "ar_calls array' = ar_calls b @ (if release then map (\<lambda>j. Item_released (cell (xs[nat i := 0]) j)) idxs else [])"
    "(ar_store array' = None) = (ar_store b = None)" by (elim exE conjE) (rule that)
  have same: "cell (xs[nat i := 0]) j = cell xs j" if "j \<in> set idxs" for j
    using that Cons.prems(2,3) i by (auto simp: cell_update)
  then have m: "map (\<lambda>j. Item_released (cell (xs[nat i := 0]) j)) idxs = map (\<lambda>j. Item_released (cell xs j)) idxs"
    by simp
  have "release_loop release array (i # idxs) = Some array'"
    using b(1) l(1) bucket_value [OF Cons.prems(1) i] by (cases release) simp_all
  moreover have "\<forall>j. 0 \<le> j \<and> j \<notin> set (i # idxs) \<longrightarrow> cell ys j = cell xs j" using l(4) i by (auto simp: cell_update)
  moreover have "ar_calls array' = ar_calls array @
      (if release then map (\<lambda>j. Item_released (cell xs j)) (i # idxs) else [])"
    using l(6) b(4) m by (cases release) simp_all
  ultimately show ?case using l(2,3,5,7) b(3,5) by (cases release) auto
qed force

lemma array_range_set: "set (array_range l n) = {i. l \<le> i \<and> i < l + n}"
proof -
  have "i \<in> set (array_range l n)" if "l \<le> i" "i < l + n" for i
    using that by (auto simp: array_range_def image_iff intro!: bexI [of _ "nat (i - l)"])
  then show ?thesis by (auto simp: array_range_def)
qed

lemma array_range_distinct: "distinct (array_range l n)"
  by (simp add: array_range_def distinct_map inj_on_def)

lemma map_cell_range:
  assumes "0 \<le> l" "l + n \<le> int (length xs)"
  shows "map (cell xs) (array_range l n) = take (nat n) (drop (nat l) xs)"
proof (rule nth_equalityI)
  fix i assume "i < length (map (cell xs) (array_range l n))"
  then have i: "i < nat n" by (simp add: array_range_def)
  then have "nat (l + int i) = nat l + i" using assms by simp
  with i assms show "map (cell xs) (array_range l n) ! i = take (nat n) (drop (nat l) xs) ! i"
    by (simp add: array_range_def cell_def)
qed (use assms in \<open>auto simp: array_range_def\<close>)

lemma ReleaseValues_law:
  assumes rep: "array_rep array xs" and r: "0 \<le> l" "0 < n" "l + n \<le> int (length xs)" and m: "ar_mutable array"
  shows "\<exists>array' ys. CFArrayReleaseValues array l n False = Some array' \<and> array_rep array' ys \<and>
    length ys = length xs \<and> (\<forall>i. 0 \<le> i \<and> \<not> (l \<le> i \<and> i < l + n) \<longrightarrow> cell ys i = cell xs i) \<and>
    array_frame array' = array_frame array \<and> (ar_store array' = None) = (ar_store array = None) \<and>
    ar_calls array' = ar_calls array @ (if ac_release (ar_callbacks array) \<noteq> None
      then map Item_released (take (nat n) (drop (nat l) xs)) else [])"
proof -
  have "xs \<noteq> []" using r by auto
  then have store: "ar_store array \<noteq> None" using rep m by (cases "ar_store array") (simp_all add: array_rep_def)
  have idxs: "\<forall>i\<in>set (array_range l n). 0 \<le> i \<and> i < int (length xs)" using r by (auto simp: array_range_set)
  from release_loop_law [OF rep idxs array_range_distinct, of "ac_release (ar_callbacks array) \<noteq> None"]
  obtain array' ys where l: "release_loop (ac_release (ar_callbacks array) \<noteq> None) array (array_range l n) = Some array'"
    "array_rep array' ys" "length ys = length xs" "\<forall>i. 0 \<le> i \<and> i \<notin> set (array_range l n) \<longrightarrow> cell ys i = cell xs i"
    "array_frame array' = array_frame array" "ar_calls array' = ar_calls array @ (if ac_release (ar_callbacks array) \<noteq> None
      then map (\<lambda>i. Item_released (cell xs i)) (array_range l n) else [])"
    "(ar_store array' = None) = (ar_store array = None)" by (elim exE conjE) (rule that)
  have "map (\<lambda>i. Item_released (cell xs i)) (array_range l n) = map Item_released (take (nat n) (drop (nat l) xs))"
    unfolding map_cell_range [OF r(1,3), symmetric] by simp
  moreover have "CFArrayReleaseValues array l n False = Some array'"
    using l(1) r m store by (simp add: CFArrayReleaseValues_def Let_def)
  ultimately show ?thesis using l array_range_set [of l n] by auto
qed

lemma ReleaseValues_all:
  assumes rep: "array_rep array xs" and m: "ar_mutable array"
  shows "\<exists>array'. CFArrayReleaseValues array 0 (ar_count array) True = Some array' \<and> array_rep array' [] \<and>
    ar_store array' = None \<and> ar_mutable array' \<and> ar_callbacks array' = ar_callbacks array \<and>
    ar_mutations array' = ar_mutations array \<and>
    ar_calls array' = ar_calls array @ (if ac_release (ar_callbacks array) \<noteq> None then map Item_released xs else [])"
proof (cases "xs = []")
  case True
  with rep m show ?thesis by (simp add: CFArrayReleaseValues_def Let_def array_rep_def)
next
  case False
  have c: "ar_count array = int (length xs)" using rep by (rule array_rep_count)
  from ReleaseValues_law [OF rep order.refl _ _ m, of "int (length xs)"] False obtain array' ys where
    a: "CFArrayReleaseValues array 0 (int (length xs)) False = Some array'" "array_rep array' ys"
    "array_frame array' = array_frame array" "ar_calls array' = ar_calls array @
      (if ac_release (ar_callbacks array) \<noteq> None then map Item_released xs else [])" by auto
  have t: "CFArrayReleaseValues array 0 (int (length xs)) True =
      Option.bind (CFArrayReleaseValues array 0 (int (length xs)) False)
        (\<lambda>a. Some (if ar_count a = int (length xs) then a\<lparr>ar_count := 0, ar_store := None\<rparr> else a))"
    using m by (simp add: CFArrayReleaseValues_def Let_def)
  from a(1,3,4) c m show ?thesis
    by (simp add: t c array_frame_def array_rep_def)
qed

section \<open>Replacing values\<close>

definition retained :: "CFArrayCallBacks \<Rightarrow> u64 \<Rightarrow> u64" where
  "retained cb v = (case ac_retain cb of Some (addr, retain) \<Rightarrow> retain v | None \<Rightarrow> v)"

definition retain_calls :: "CFArrayCallBacks \<Rightarrow> u64 list \<Rightarrow> array_call list" where
  "retain_calls cb vs = (if ac_retain cb = None then [] else map (\<lambda>v. Item_retained (retained cb v)) vs)"

definition release_calls :: "CFArrayCallBacks \<Rightarrow> u64 list \<Rightarrow> array_call list" where
  "release_calls cb xs = (if ac_release cb = None then [] else map Item_released xs)"

lemma retain_values_law:
  "retain_values cb vs (int (length vs)) = Some (map (retained cb) vs, retain_calls cb vs)"
  by (auto simp: retain_values_def retained_def [abs_def] retain_calls_def split: option.split)

lemma gap_split:
  assumes g: "gap d xs 0 []" and l: "0 \<le> l" "0 \<le> n" "l + n \<le> int (length xs)"
  shows "gap d (take (nat l) xs) n (drop (nat (l + n)) xs)"
proof -
  note g = gapD [OF g]
  have len: "int (length (take (nat l) xs)) = l" "int (length (drop (nat (l + n)) xs)) = int (length xs) - (l + n)"
    using l by (auto simp: min_def)
  have "cell (dq_buckets d) (dq_leftIdx d + l + n + i) = cell (drop (nat (l + n)) xs) i"
    if "0 \<le> i" "i < int (length xs) - (l + n)" for i
  proof -
    have "cell (dq_buckets d) (dq_leftIdx d + (l + n + i)) = cell xs (l + n + i)" using g(6) that l by simp
    moreover have "cell xs (l + n + i) = cell (drop (nat (l + n)) xs) i"
      using that l by (simp add: cell_def nat_add_distrib)
    ultimately show ?thesis by (simp add: algebra_simps)
  qed
  moreover have "cell (dq_buckets d) (dq_leftIdx d + i) = cell (take (nat l) xs) i" if "0 \<le> i" "i < l" for i
    using that l g(6) [of i] by (simp add: cell_def nat_less_iff)
  ultimately show ?thesis using g l unfolding gap_def len by auto
qed

lemma gap_same:
  assumes "gap d pre n post" "length pre' = length pre" "length post' = length post"
    "\<And>i. 0 \<le> i \<Longrightarrow> i < int (length pre) \<Longrightarrow> cell pre' i = cell pre i"
    "\<And>i. 0 \<le> i \<Longrightarrow> i < int (length post) \<Longrightarrow> cell post' i = cell post i"
  shows "gap d pre' n post'"
  using assms by (simp add: gap_def)

lemma gap_fill:
  assumes g: "gap d pre (int (length vs)) post"
  obtains b where "memmove (dq_buckets d) (dq_leftIdx d + int (length pre)) vs 0 (int (length vs)) = Some b"
    "gap (d\<lparr>dq_buckets := b\<rparr>) (pre @ vs @ post) 0 []"
proof -
  note g = gapD [OF g]
  let ?t = "dq_leftIdx d + int (length pre)"
  obtain b where b: "memmove (dq_buckets d) ?t vs 0 (int (length vs)) = Some b" "length b = length (dq_buckets d)"
    "\<And>i. 0 \<le> i \<Longrightarrow> i < int (length (dq_buckets d)) \<Longrightarrow> cell b i =
      (if ?t \<le> i \<and> i < ?t + int (length vs) then cell vs (0 + (i - ?t)) else cell (dq_buckets d) i)"
    by (rule memmove_cells [of ?t 0 "int (length vs)" vs "dq_buckets d"]) (use g in auto)
  have "cell b (dq_leftIdx d + i) = cell (pre @ vs @ post) i"
    if i: "0 \<le> i" "i < int (length (pre @ vs @ post))" for i
  proof -
    consider "i < int (length pre)" | "int (length pre) \<le> i" "i < int (length pre) + int (length vs)"
      | "int (length pre) + int (length vs) \<le> i" by linarith
    then show ?thesis
    proof cases
      case 1
      with i have "cell (pre @ vs @ post) i = cell pre i" by (simp add: cell_def nth_append nat_less_iff)
      with 1 i b(3) g show ?thesis by simp
    next
      case 2
      then have "cell (pre @ vs @ post) i = cell vs (i - int (length pre))"
        by (auto simp: cell_def nth_append nat_less_iff nat_diff_distrib)
      with 2 i b(3) g show ?thesis by (simp add: algebra_simps)
    next
      case 3
      let ?k = "i - int (length pre) - int (length vs)"
      have "cell (pre @ vs @ post) i = cell post ?k"
        using 3 by (auto simp: cell_def nth_append nat_less_iff nat_diff_distrib)
      moreover have "cell (dq_buckets d) (dq_leftIdx d + i) = cell post ?k" using g(7) [of ?k] 3 i by (simp add: algebra_simps)
      ultimately show ?thesis using 3 i b(3) g by simp
    qed
  qed
  then have "gap (d\<lparr>dq_buckets := b\<rparr>) (pre @ vs @ post) 0 []" using b(2) g by (auto simp: gap_def)
  with b(1) that show thesis by blast
qed

lemma reposition_law:
  assumes d: "ar_store array = Some d" and g: "gap d pre B post"
    and cnt: "ar_count array = int (length pre) + B + int (length post)"
    and n: "0 \<le> n" and small: "int (length pre) + n + int (length post) < 2 ^ 30 - 2 ^ 13"
  shows "\<exists>d'. CFArrayRepositionDequeRegions fresh array (int (length pre)) B n = Some (array\<lparr>ar_store := Some d'\<rparr>)
    \<and> gap d' pre n post"
proof -
  let ?p = "int (length pre)" and ?q = "int (length post)"
  let ?f = "?p + B + ?q - B + n" and ?R = "dq_capacity d - (?p + B + ?q) - dq_leftIdx d"
  let ?w = "if dq_capacity d div 2 ^ 17 < 4 then 4 else dq_capacity d div 2 ^ 17"
  have c: "ar_count array - B - ?p = ?q" "ar_count array - B + n = ?f" using cnt by simp_all
  note g' = gapD [OF g]
  have w: "4 \<le> ?w" "?w \<le> 2 ^ 13" using g'(2) zdiv_mono1 [of "dq_capacity d" "2 ^ 30" "2 ^ 17"] by simp_all
  have f: "?f = ?p + n + ?q" "?f mod 2 ^ 32 = ?f" "?f + ?w < 2 ^ 30" using small n w by simp_all
  let ?d = "if dq_capacity d < ?f mod 2 ^ 32 \<or> (?p + B + ?q < ?f \<and> dq_leftIdx d + ?R < ?w)
     then realloc_regions fresh d ?p B ?q n ?f ?w
     else if (n - B < 0 \<and> ?q < ?p) \<or> (n - B \<le> ?R \<and> ?q < ?p) then move_right_region d ?p B ?q n
     else if n - B < 0 \<or> (n - B \<le> dq_leftIdx d \<and> ?p \<le> ?q) then move_left_region d ?p (n - B)
     else recenter_regions d ?p B ?q ?R n (n - B)"
  have "\<exists>d'. ?d = Some d' \<and> gap d' pre n post"
  proof (cases "dq_capacity d < ?f mod 2 ^ 32 \<or> (?p + B + ?q < ?f \<and> dq_leftIdx d + ?R < ?w)")
    case True
    with realloc_gap [OF g n w(1) f(1,3)] show ?thesis by (simp only: if_True)
  next
    case False
    then have fit: "?p + n + ?q \<le> dq_capacity d" using f by simp
    note step = if_False [symmetric] False
    consider "(n - B < 0 \<and> ?q < ?p) \<or> (n - B \<le> ?R \<and> ?q < ?p)"
      | "\<not> ((n - B < 0 \<and> ?q < ?p) \<or> (n - B \<le> ?R \<and> ?q < ?p))" "n - B < 0 \<or> (n - B \<le> dq_leftIdx d \<and> ?p \<le> ?q)"
      | "\<not> ((n - B < 0 \<and> ?q < ?p) \<or> (n - B \<le> ?R \<and> ?q < ?p))" "\<not> (n - B < 0 \<or> (n - B \<le> dq_leftIdx d \<and> ?p \<le> ?q))"
      by blast
    then show ?thesis
    proof cases
      case 1
      then have "dq_leftIdx d + ?p + n + ?q \<le> dq_capacity d" using g'(1,5) by auto
      from move_right_gap [OF g n this] False 1 show ?thesis by (simp only: if_False if_True)
    next
      case 2
      then have "n - B \<le> dq_leftIdx d" using g'(3) by auto
      from move_left_gap [OF g n this] False 2 show ?thesis by (simp only: if_False if_True)
    next
      case 3
      then have "B \<le> n" by auto
      from recenter_gap [OF g this fit refl] False 3 show ?thesis by (simp only: if_False)
    qed
  qed
  then obtain d' where d': "?d = Some d'" "gap d' pre n post" by blast
  have "CFArrayRepositionDequeRegions fresh array ?p B n = Some (array\<lparr>ar_store := Some d'\<rparr>)"
    unfolding CFArrayRepositionDequeRegions_def d Option.bind_lunit Let_def c unfolding cnt d'(1) Option.bind_lunit ..
  with d'(2) show ?thesis by blast
qed

lemma copy_in_law:
  assumes d: "ar_store array = Some d" and g: "gap d pre (int (length vs)) post"
  shows "\<exists>d'. copy_in_values array (int (length pre)) vs (int (length vs)) = Some (array\<lparr>ar_store := Some d'\<rparr>)
    \<and> gap d' (pre @ vs @ post) 0 []"
proof -
  obtain b where b: "memmove (dq_buckets d) (dq_leftIdx d + int (length pre)) vs 0 (int (length vs)) = Some b"
    "gap (d\<lparr>dq_buckets := b\<rparr>) (pre @ vs @ post) 0 []" by (rule gap_fill [OF g])
  show ?thesis
  proof (cases "vs = []")
    case True
    have "b = dq_buckets d" using b(1) gapD(3,5) [OF g] True by (simp add: memmove_def)
    then have "gap d (pre @ vs @ post) 0 []" using b(2) by simp
    moreover have "array\<lparr>ar_store := Some d\<rparr> = array" using d by simp
    ultimately show ?thesis using True by (intro exI [of _ d]) (simp add: copy_in_values_def)
  next
    case False
    then show ?thesis using b d by (intro exI [of _ "d\<lparr>dq_buckets := b\<rparr>"]) (simp add: copy_in_values_def)
  qed
qed

text \<open>Making room: a new deque, or the regions of the old one moved apart.\<close>

lemma make_room_law:
  assumes rep: "array_rep array ys" and m: "ar_mutable array"
    and r: "0 \<le> l" "0 \<le> n" "l + n \<le> int (length ys)" "0 \<le> k" "int (length ys) - n + k < 2 ^ 30 - 2 ^ 13"
  shows "\<exists>d'. (if ar_store array = None
      then if 0 \<le> int (length ys) - n + k
        then do { capacity \<leftarrow> CFArrayDequeRoundUpCapacity (int (length ys) - n + k);
                  Some (array\<lparr>ar_store := Some \<lparr>dq_leftIdx = (capacity - k) sdiv 2,
                    dq_capacity = capacity, dq_buckets = map fresh [0..<nat capacity]\<rparr>\<rparr>) }
        else Some array
      else if n \<noteq> k then CFArrayRepositionDequeRegions fresh array l n k
      else Some array) = Some (array\<lparr>ar_store := Some d'\<rparr>) \<and> gap d' (take (nat l) ys) k (drop (nat (l + n)) ys)"
proof (cases "ar_store array")
  case None
  with rep m have "ys = []" by (simp add: array_rep_def)
  with r have z: "ys = []" "l = 0" "n = 0" by simp_all
  have "k < 2 ^ 30" using r(5) z by simp
  then obtain c where c: "CFArrayDequeRoundUpCapacity k = Some c" "k \<le> c" "4 \<le> c" "c \<le> 2 ^ 30"
    by (rule RoundUpCapacity_law)
  then show ?thesis using None z r(4)
    by (intro exI [of _ "\<lparr>dq_leftIdx = (c - k) sdiv 2, dq_capacity = c, dq_buckets = map fresh [0..<nat c]\<rparr>"])
      (auto simp: gap_def)
next
  case (Some d)
  with rep m have g: "gap d ys 0 []" by (simp add: array_rep_def)
  from gap_split [OF g r(1-3)] have s: "gap d (take (nat l) ys) n (drop (nat (l + n)) ys)" .
  have len: "int (length (take (nat l) ys)) = l" "int (length (drop (nat (l + n)) ys)) = int (length ys) - (l + n)"
    using r by (auto simp: min_def)
  show ?thesis
  proof (cases "n = k")
    case True
    then show ?thesis using Some s by (intro exI [of _ d]) simp
  next
    case False
    have cnt: "ar_count array = int (length (take (nat l) ys)) + n + int (length (drop (nat (l + n)) ys))"
      using array_rep_count [OF rep] unfolding len by simp
    have "int (length (take (nat l) ys)) + k + int (length (drop (nat (l + n)) ys)) < 2 ^ 30 - 2 ^ 13"
      using r(5) unfolding len by simp
    from reposition_law [OF Some s cnt r(4) this, of fresh] False Some show ?thesis unfolding len by simp
  qed
qed

lemma cell_take_eq: "length ys = length xs \<Longrightarrow> \<forall>i. 0 \<le> i \<and> \<not> (l \<le> i \<and> i < l + n) \<longrightarrow> cell ys i = cell xs i \<Longrightarrow>
    0 \<le> l \<Longrightarrow> 0 \<le> n \<Longrightarrow> take (nat l) ys = take (nat l) xs \<and> drop (nat (l + n)) ys = drop (nat (l + n)) xs"
proof
  assume a: "length ys = length xs" "\<forall>i. 0 \<le> i \<and> \<not> (l \<le> i \<and> i < l + n) \<longrightarrow> cell ys i = cell xs i" "0 \<le> l" "0 \<le> n"
  have e: "ys ! i = xs ! i" if "\<not> (l \<le> int i \<and> int i < l + n)" for i
    using a(2)[rule_format, of "int i"] that by (simp add: cell_def)
  show "take (nat l) ys = take (nat l) xs" by (rule nth_equalityI) (auto simp: a(1) intro!: e)
  show "drop (nat (l + n)) ys = drop (nat (l + n)) xs"
    by (rule nth_equalityI) (use a(3,4) in \<open>auto simp: a(1) intro!: e split: if_splits\<close>)
qed

lemma replace_law:
  assumes rep: "array_rep array xs" and m: "ar_mutable array" and r: "0 \<le> l" "0 \<le> n" "l + n \<le> int (length xs)"
    and small: "int (length xs) - n + int (length vs) < 2 ^ 30 - 2 ^ 13"
  shows "\<exists>array'. replace_values fresh array l n vs (int (length vs)) = Some array' \<and>
    array_rep array' (take (nat l) xs @ map (retained (ar_callbacks array)) vs @ drop (nat (l + n)) xs) \<and>
    ar_mutable array' \<and> ar_callbacks array' = ar_callbacks array \<and> ar_mutations array' = ar_mutations array + 1 \<and>
    ar_calls array' = ar_calls array @ retain_calls (ar_callbacks array) vs @
      release_calls (ar_callbacks array) (take (nat n) (drop (nat l) xs))"
proof -
  let ?cb = "ar_callbacks array" and ?k = "int (length vs)" and ?f = "int (length xs) - n + int (length vs)"
  define a1 where "a1 = (array_log array (retain_calls ?cb vs))\<lparr>ar_mutations := ar_mutations array + 1\<rparr>"
  have a1: "array_rep a1 xs" "ar_mutable a1" "ar_callbacks a1 = ?cb" "ar_mutations a1 = ar_mutations array + 1"
    "ar_calls a1 = ar_calls array @ retain_calls ?cb vs"
    using rep m by (simp_all add: a1_def array_rep_def array_log_def)
  obtain a2 ys where a2: "(if 0 < n then CFArrayReleaseValues a1 l n False else Some a1) = Some a2" "array_rep a2 ys"
    "length ys = length xs" "\<forall>i. 0 \<le> i \<and> \<not> (l \<le> i \<and> i < l + n) \<longrightarrow> cell ys i = cell xs i"
    "array_frame a2 = array_frame a1"
    "ar_calls a2 = ar_calls a1 @ release_calls ?cb (take (nat n) (drop (nat l) xs))"
  proof (cases "0 < n")
    case True
    have rc: "release_calls ?cb zs = (if ac_release (ar_callbacks a1) \<noteq> None then map Item_released zs else [])" for zs
      by (simp add: release_calls_def a1(3))
    from ReleaseValues_law [OF a1(1) r(1) True r(3) a1(2)] show thesis
      unfolding rc [symmetric] using True by (elim exE conjE) (rule that, simp only: if_True, assumption+)
  next
    case False
    with r(2) a1 show thesis by (intro that [of a1 xs]) (simp_all add: release_calls_def)
  qed
  have fr: "ar_mutable a2" "ar_callbacks a2 = ?cb" "ar_mutations a2 = ar_mutations array + 1"
    using a2(5) a1 by (simp_all add: array_frame_def)
  have room: "l + n \<le> int (length ys)" "0 \<le> ?k" "int (length ys) - n + ?k < 2 ^ 30 - 2 ^ 13"
    using r(3) small a2(3) by simp_all
  from make_room_law [OF a2(2) fr(1) r(1,2) room, of fresh] obtain d where
    d: "(if ar_store a2 = None
      then if 0 \<le> ?f
        then do { capacity \<leftarrow> CFArrayDequeRoundUpCapacity ?f;
                  Some (a2\<lparr>ar_store := Some \<lparr>dq_leftIdx = (capacity - ?k) sdiv 2,
                    dq_capacity = capacity, dq_buckets = map fresh [0..<nat capacity]\<rparr>\<rparr>) }
        else Some a2
      else if n \<noteq> ?k then CFArrayRepositionDequeRegions fresh a2 l n ?k
      else Some a2) = Some (a2\<lparr>ar_store := Some d\<rparr>)" "gap d (take (nat l) ys) ?k (drop (nat (l + n)) ys)"
    unfolding a2(3) by blast
  define a3 where "a3 = a2\<lparr>ar_store := Some d\<rparr>"
  have lp: "int (length (take (nat l) xs)) = l" using r by (auto simp: min_def)
  have "gap d (take (nat l) xs) (int (length (map (retained ?cb) vs))) (drop (nat (l + n)) xs)"
    using d(2) cell_take_eq [OF a2(3,4) r(1,2)] by simp
  from copy_in_law [OF _ this, of a3] obtain d' where
    d': "copy_in_values a3 l (map (retained ?cb) vs) ?k = Some (a3\<lparr>ar_store := Some d'\<rparr>)"
    "gap d' (take (nat l) xs @ map (retained ?cb) vs @ drop (nat (l + n)) xs) 0 []"
    unfolding lp by (auto simp: a3_def)
  have cnt: "ar_count array = int (length xs)" by (rule array_rep_count [OF rep])
  let ?r = "(a3\<lparr>ar_store := Some d'\<rparr>)\<lparr>ar_count := ?f\<rparr>"
  have "replace_values fresh array l n vs ?k = Some ?r"
    unfolding replace_values_def Let_def retain_values_law Option.bind_lunit prod.case cnt a1_def [symmetric]
      a2(1) d(1) a3_def [symmetric] d'(1) ..
  moreover have "array_rep ?r (take (nat l) xs @ map (retained ?cb) vs @ drop (nat (l + n)) xs)"
    using d'(2) fr(1) r by (auto simp: array_rep_def a3_def min_def)
  ultimately show ?thesis using fr a2(6) a1(5) by (intro exI [of _ ?r]) (simp add: a3_def)
qed

section \<open>Histories\<close>

text \<open>The operations that change an array, and what each does to the list of its values.\<close>

datatype array_op = Append u64 | Insert int u64 | SetAt int u64 | Remove int | Exchange int int
  | Replace int int "u64 list" | RemoveAll

fun array_step :: "(nat \<Rightarrow> u64) \<Rightarrow> CFArray \<Rightarrow> array_op \<Rightarrow> CFArray option" where
  "array_step fresh array (Append v) = CFArrayAppendValue fresh array v"
| "array_step fresh array (Insert idx v) = CFArrayInsertValueAtIndex fresh array idx v"
| "array_step fresh array (SetAt idx v) = CFArraySetValueAtIndex fresh array idx v"
| "array_step fresh array (Remove idx) = CFArrayRemoveValueAtIndex fresh array idx"
| "array_step fresh array (Exchange idx1 idx2) = CFArrayExchangeValuesAtIndices array idx1 idx2"
| "array_step fresh array (Replace l n vs) = CFArrayReplaceValues fresh array l n vs (int (length vs))"
| "array_step fresh array RemoveAll = CFArrayRemoveAllValues array"

fun list_step :: "CFArrayCallBacks \<Rightarrow> u64 list \<Rightarrow> array_op \<Rightarrow> u64 list" where
  "list_step cb xs (Append v) = xs @ [retained cb v]"
| "list_step cb xs (Insert idx v) = take (nat idx) xs @ retained cb v # drop (nat idx) xs"
| "list_step cb xs (SetAt idx v) = (if idx = int (length xs) then xs @ [retained cb v] else xs[nat idx := retained cb v])"
| "list_step cb xs (Remove idx) = take (nat idx) xs @ drop (Suc (nat idx)) xs"
| "list_step cb xs (Exchange idx1 idx2) = xs[nat idx1 := xs ! nat idx2, nat idx2 := xs ! nat idx1]"
| "list_step cb xs (Replace l n vs) = take (nat l) xs @ map (retained cb) vs @ drop (nat (l + n)) xs"
| "list_step cb xs RemoveAll = []"

text \<open>The indexes an operation may be called with, and the bound on the number of values.\<close>

definition array_limit :: nat where "array_limit = 2 ^ 30 - 2 ^ 13 - 1"

fun index_ok :: "u64 list \<Rightarrow> array_op \<Rightarrow> bool" where
  "index_ok xs (Append v) = True"
| "index_ok xs (Insert idx v) = (0 \<le> idx \<and> idx \<le> int (length xs))"
| "index_ok xs (SetAt idx v) = (0 \<le> idx \<and> idx \<le> int (length xs))"
| "index_ok xs (Remove idx) = (0 \<le> idx \<and> idx < int (length xs))"
| "index_ok xs (Exchange idx1 idx2) = (0 \<le> idx1 \<and> idx1 < int (length xs) \<and> 0 \<le> idx2 \<and> idx2 < int (length xs))"
| "index_ok xs (Replace l n vs) = (0 \<le> l \<and> 0 \<le> n \<and> l + n \<le> int (length xs))"
| "index_ok xs RemoveAll = True"

definition array_op_ok :: "CFArrayCallBacks \<Rightarrow> u64 list \<Rightarrow> array_op \<Rightarrow> bool" where
  "array_op_ok cb xs x \<longleftrightarrow> index_ok xs x \<and> length (list_step cb xs x) \<le> array_limit"

text \<open>The values of an array, and the values retained through the callbacks of the array and not released.\<close>

definition array_list :: "CFArray \<Rightarrow> u64 list" where
  "array_list array = (if ar_mutable array
     then (case ar_store array of None \<Rightarrow> []
       | Some d \<Rightarrow> map (\<lambda>i. cell (dq_buckets d) (dq_leftIdx d + int i)) [0..<nat (ar_count array)])
     else ar_items array)"

lemma array_list_rep: "array_rep array xs \<Longrightarrow> array_list array = xs"
  by (auto simp: array_rep_def array_list_def gap_def cell_def split: if_splits option.splits intro!: nth_equalityI)

definition retains_of :: "array_call list \<Rightarrow> u64 multiset" where
  "retains_of cs = mset (concat (map (\<lambda>c. case c of Item_retained v \<Rightarrow> [v] | _ \<Rightarrow> []) cs))"

definition releases_of :: "array_call list \<Rightarrow> u64 multiset" where
  "releases_of cs = mset (concat (map (\<lambda>c. case c of Item_released v \<Rightarrow> [v] | _ \<Rightarrow> []) cs))"

text \<open>A mutable array in order: its values are in the deque, and when both callbacks are there the
  values retained and not released are exactly its values.\<close>

definition array_inv :: "CFArray \<Rightarrow> bool" where
  "array_inv array \<longleftrightarrow> ar_mutable array \<and> array_rep array (array_list array) \<and>
     (ac_retain (ar_callbacks array) \<noteq> None \<longrightarrow> ac_release (ar_callbacks array) \<noteq> None \<longrightarrow>
       retains_of (ar_calls array) = releases_of (ar_calls array) + mset (array_list array))"

lemma calls_of_simps [simp]:
  "retains_of [] = {#}" "releases_of [] = {#}"
  "retains_of (cs @ ds) = retains_of cs + retains_of ds" "releases_of (cs @ ds) = releases_of cs + releases_of ds"
  "retains_of (Item_retained v # cs) = add_mset v (retains_of cs)" "retains_of (Item_released v # cs) = retains_of cs"
  "releases_of (Item_retained v # cs) = releases_of cs" "releases_of (Item_released v # cs) = add_mset v (releases_of cs)"
  by (simp_all add: retains_of_def releases_of_def)

lemma calls_of_values:
  "retains_of (release_calls cb xs) = {#}" "releases_of (retain_calls cb vs) = {#}"
  "retains_of (retain_calls cb vs) = (if ac_retain cb = None then {#} else mset (map (retained cb) vs))"
  "releases_of (release_calls cb xs) = (if ac_release cb = None then {#} else mset xs)"
proof -
  have m: "retains_of (map (\<lambda>v. Item_retained (retained cb v)) vs) = mset (map (retained cb) vs)"
    "releases_of (map (\<lambda>v. Item_retained (retained cb v)) vs) = {#}" for vs by (induction vs) simp_all
  have n: "retains_of (map Item_released xs) = {#}" "releases_of (map Item_released xs) = mset xs" for xs
    by (induction xs) simp_all
  show "retains_of (release_calls cb xs) = {#}" "releases_of (retain_calls cb vs) = {#}"
    "retains_of (retain_calls cb vs) = (if ac_retain cb = None then {#} else mset (map (retained cb) vs))"
    "releases_of (release_calls cb xs) = (if ac_release cb = None then {#} else mset xs)"
    by (simp_all add: retain_calls_def release_calls_def m n)
qed

text \<open>The calls made by an operation account for the change of the values.\<close>

definition balanced :: "CFArrayCallBacks \<Rightarrow> array_call list \<Rightarrow> u64 list \<Rightarrow> u64 list \<Rightarrow> bool" where
  "balanced cb cs xs ys \<longleftrightarrow> (ac_retain cb \<noteq> None \<longrightarrow> ac_release cb \<noteq> None \<longrightarrow>
     retains_of cs + mset xs = releases_of cs + mset ys)"

definition step_result :: "CFArray \<Rightarrow> u64 list \<Rightarrow> CFArray option \<Rightarrow> u64 list \<Rightarrow> bool" where
  "step_result array xs result ys \<longleftrightarrow> (\<exists>array' cs. result = Some array' \<and> array_rep array' ys \<and>
     ar_mutable array' \<and> ar_callbacks array' = ar_callbacks array \<and>
     ar_mutations array' = ar_mutations array + 1 \<and> ar_calls array' = ar_calls array @ cs \<and>
     balanced (ar_callbacks array) cs xs ys)"

lemma mset_slices: "mset xs = mset (take a xs) + mset (take b (drop a xs)) + mset (drop (a + b) xs)"
  by (metis append_take_drop_id drop_drop add.commute mset_append union_assoc)

lemma replace_step:
  assumes rep: "array_rep array xs" and m: "ar_mutable array" and r: "0 \<le> l" "0 \<le> n" "l + n \<le> int (length xs)"
    and small: "int (length xs) - n + int (length vs) \<le> int array_limit" and k: "k = int (length vs)"
    and ys: "ys = take (nat l) xs @ map (retained (ar_callbacks array)) vs @ drop (nat (l + n)) xs"
  shows "step_result array xs (replace_values fresh array l n vs k) ys"
proof -
  let ?cb = "ar_callbacks array" and ?cs = "retain_calls (ar_callbacks array) vs @
      release_calls (ar_callbacks array) (take (nat n) (drop (nat l) xs))"
  have "int (length xs) - n + int (length vs) < 2 ^ 30 - 2 ^ 13" using small by (simp add: array_limit_def)
  from replace_law [OF rep m r this, of fresh, folded k ys] obtain array' where
    a: "replace_values fresh array l n vs k = Some array'" "array_rep array' ys" "ar_mutable array'"
      "ar_callbacks array' = ?cb" "ar_mutations array' = ar_mutations array + 1" "ar_calls array' = ar_calls array @ ?cs"
    by (elim exE conjE) (rule that)
  have "nat (l + n) = nat l + nat n" using r by (simp add: nat_add_distrib)
  then have "balanced ?cb ?cs xs ys"
    unfolding balanced_def ys calls_of_simps calls_of_values using mset_slices [of xs "nat l" "nat n"] by simp
  with a show ?thesis unfolding step_result_def by blast
qed

lemma set_at_step:
  assumes rep: "array_rep array xs" and m: "ar_mutable array" and i: "0 \<le> i" "i < int (length xs)"
  shows "step_result array xs (CFArraySetValueAtIndex fresh array i v) (xs[nat i := retained (ar_callbacks array) v])"
proof -
  let ?cb = "ar_callbacks array" and ?new = "retained (ar_callbacks array) v"
  define a1 where "a1 = array_log array (retain_calls ?cb [v])"
  have rep1: "array_rep a1 xs" using rep by (simp add: a1_def)
  from set_bucket_law [OF rep1 i, of ?new] obtain a2 where a2: "set_bucket a1 i ?new = Some a2"
    "array_rep a2 (xs[nat i := ?new])" "array_frame a2 = array_frame a1" "ar_calls a2 = ar_calls a1"
    by (elim exE conjE) (rule that)
  have fr: "ar_mutable a2" "ar_callbacks a2 = ?cb" "ar_mutations a2 = ar_mutations array"
    using a2(3) m by (simp_all add: array_frame_def a1_def)
  let ?r = "(array_log a2 (release_calls ?cb [cell xs i]))\<lparr>ar_mutations := ar_mutations array + 1\<rparr>"
  have cnt: "ar_count array \<noteq> i" using array_rep_count [OF rep] i by simp
  have rl: "(if ac_release ?cb \<noteq> None then array_log a2 [Item_released (cell xs i)] else a2) =
      array_log a2 (release_calls ?cb [cell xs i])" by (simp add: release_calls_def array_log_def)
  have rv: "retain_values ?cb [v] 1 = Some ([?new], retain_calls ?cb [v])" using retain_values_law [of ?cb "[v]"] by simp
  have run: "CFArraySetValueAtIndex fresh array i v = Some ?r"
    using cnt a2(1) fr unfolding CFArraySetValueAtIndex_def rv a1_def [symmetric]
    by (simp add: bucket_value [OF rep1 i] rl Let_def a1_def [symmetric] del: not_None_eq)
  have "balanced ?cb (retain_calls ?cb [v] @ release_calls ?cb [cell xs i]) xs (xs[nat i := ?new])"
    unfolding balanced_def calls_of_simps calls_of_values using i by (auto simp: mset_update cell_def nat_less_iff)
  moreover have "ar_calls ?r = ar_calls array @ (retain_calls ?cb [v] @ release_calls ?cb [cell xs i])"
    using a2(4) by (simp add: a1_def)
  moreover have "array_rep ?r (xs[nat i := ?new])" using a2(2) by (simp add: array_rep_def array_log_def)
  ultimately show ?thesis using run fr a2(4) unfolding step_result_def
    by (intro exI [of _ ?r] exI [of _ "retain_calls ?cb [v] @ release_calls ?cb [cell xs i]"]) simp
qed

lemma exchange_step:
  assumes rep: "array_rep array xs" and m: "ar_mutable array" and i: "0 \<le> i" "i < int (length xs)"
    and j: "0 \<le> j" "j < int (length xs)"
  shows "step_result array xs (CFArrayExchangeValuesAtIndices array i j) (xs[nat i := xs ! nat j, nat j := xs ! nat i])"
proof -
  from set_bucket_law [OF rep i, of "cell xs j"] obtain a1 where a1: "set_bucket array i (cell xs j) = Some a1"
    "array_rep a1 (xs[nat i := cell xs j])" "array_frame a1 = array_frame array" "ar_calls a1 = ar_calls array"
    by (elim exE conjE) (rule that)
  have "j < int (length (xs[nat i := cell xs j]))" using j by simp
  from set_bucket_law [OF a1(2) j(1) this, of "cell xs i"] obtain a2 where a2: "set_bucket a1 j (cell xs i) = Some a2"
    "array_rep a2 (xs[nat i := cell xs j, nat j := cell xs i])" "array_frame a2 = array_frame a1" "ar_calls a2 = ar_calls a1"
    by (elim exE conjE) (rule that)
  let ?r = "a2\<lparr>ar_mutations := ar_mutations array + 1\<rparr>"
  have fr: "ar_mutable a2" "ar_callbacks a2 = ar_callbacks array" "ar_mutations a2 = ar_mutations array"
    using a2(3) a1(3) m by (simp_all add: array_frame_def)
  have "CFArrayExchangeValuesAtIndices array i j = Some ?r"
    using a1(1) a2(1) fr(3) by (simp add: CFArrayExchangeValuesAtIndices_def bucket_value [OF rep i] bucket_value [OF rep j])
  moreover have "array_rep ?r (xs[nat i := xs ! nat j, nat j := xs ! nat i])"
    using a2(2) by (simp add: array_rep_def cell_def)
  moreover have "mset (xs[nat i := xs ! nat j, nat j := xs ! nat i]) = mset xs"
    using i j by (intro mset_swap) auto
  then have "balanced (ar_callbacks array) [] xs (xs[nat i := xs ! nat j, nat j := xs ! nat i])"
    by (simp add: balanced_def)
  ultimately show ?thesis using fr a1(4) a2(4) unfolding step_result_def
    by (intro exI [of _ ?r] exI [of _ "[]"]) simp
qed

lemma remove_all_step:
  assumes rep: "array_rep array xs" and m: "ar_mutable array"
  shows "step_result array xs (CFArrayRemoveAllValues array) []"
proof -
  from ReleaseValues_all [OF rep m] obtain a where a: "CFArrayReleaseValues array 0 (ar_count array) True = Some a"
    "array_rep a []" "ar_store a = None" "ar_mutable a" "ar_callbacks a = ar_callbacks array"
    "ar_mutations a = ar_mutations array" "ar_calls a = ar_calls array @ release_calls (ar_callbacks array) xs"
    unfolding release_calls_def by fastforce
  let ?r = "a\<lparr>ar_count := 0, ar_mutations := ar_mutations array + 1\<rparr>"
  have "CFArrayRemoveAllValues array = Some ?r" using a(1,6) by (simp add: CFArrayRemoveAllValues_def)
  moreover have "array_rep ?r []" using a(2,3,4) by (simp add: array_rep_def)
  moreover have "balanced (ar_callbacks array) (release_calls (ar_callbacks array) xs) xs []"
    by (simp add: balanced_def calls_of_values)
  ultimately show ?thesis using a(4-7) unfolding step_result_def
    by (intro exI [of _ ?r] exI [of _ "release_calls (ar_callbacks array) xs"]) simp
qed

lemma array_step_law:
  assumes rep: "array_rep array xs" and m: "ar_mutable array" and ok: "array_op_ok (ar_callbacks array) xs x"
  shows "step_result array xs (array_step fresh array x) (list_step (ar_callbacks array) xs x)"
proof (cases x)
  case (Append v)
  show ?thesis unfolding Append array_step.simps list_step.simps CFArrayAppendValue_def array_rep_count [OF rep]
    by (rule replace_step [OF rep m]) (use ok Append in \<open>simp_all add: array_op_ok_def\<close>)
next
  case (Insert idx v)
  show ?thesis unfolding Insert array_step.simps list_step.simps CFArrayInsertValueAtIndex_def
    by (rule replace_step [OF rep m]) (use ok Insert in \<open>auto simp: array_op_ok_def min_def split: if_splits\<close>)
next
  case (SetAt idx v)
  show ?thesis
  proof (cases "idx = int (length xs)")
    case True
    with array_rep_count [OF rep] have e: "CFArraySetValueAtIndex fresh array idx v = replace_values fresh array idx 0 [v] 1"
      by (simp add: CFArraySetValueAtIndex_def)
    show ?thesis unfolding SetAt array_step.simps list_step.simps e if_P [OF True]
      by (rule replace_step [OF rep m]) (use ok SetAt True in \<open>simp_all add: array_op_ok_def\<close>)
  next
    case False
    then have "0 \<le> idx" "idx < int (length xs)" using ok SetAt by (auto simp: array_op_ok_def)
    from set_at_step [OF rep m this] False SetAt show ?thesis by simp
  qed
next
  case (Remove idx)
  then have i: "0 \<le> idx" "idx < int (length xs)" "length xs - 1 \<le> array_limit"
    using ok by (auto simp: array_op_ok_def min_def split: if_splits)
  then have "nat (idx + 1) = Suc (nat idx)" by simp
  with i show ?thesis unfolding Remove array_step.simps list_step.simps CFArrayRemoveValueAtIndex_def
    by (intro replace_step [OF rep m]) auto
next
  case (Exchange i j)
  with ok exchange_step [OF rep m, of i j] show ?thesis by (simp add: array_op_ok_def)
next
  case (Replace l n vs)
  show ?thesis unfolding Replace array_step.simps list_step.simps CFArrayReplaceValues_def
    by (rule replace_step [OF rep m]) (use ok Replace in \<open>auto simp: array_op_ok_def min_def split: if_splits\<close>)
next
  case RemoveAll
  with remove_all_step [OF rep m] show ?thesis by simp
qed

text \<open>Any history of operations with indexes in range does on the values what it does on a list, and
  keeps the invariant: the contract of \<open>guarded_history\<close>.\<close>

lemma array_inv_step:
  assumes "array_inv array" "array_op_ok (ar_callbacks array) (array_list array) x"
  shows "\<exists>array'. array_step fresh array x = Some array' \<and> array_inv array' \<and>
    ar_callbacks array' = ar_callbacks array \<and>
    array_list array' = list_step (ar_callbacks array) (array_list array) x"
proof -
  from assms(1) have i: "ar_mutable array" "array_rep array (array_list array)"
    "ac_retain (ar_callbacks array) \<noteq> None \<longrightarrow> ac_release (ar_callbacks array) \<noteq> None \<longrightarrow>
       retains_of (ar_calls array) = releases_of (ar_calls array) + mset (array_list array)"
    unfolding array_inv_def by blast+
  from array_step_law [OF i(2,1) assms(2), of fresh] obtain array' cs where
    a: "array_step fresh array x = Some array'" "array_rep array' (list_step (ar_callbacks array) (array_list array) x)"
      "ar_mutable array'" "ar_callbacks array' = ar_callbacks array" "ar_calls array' = ar_calls array @ cs"
      "balanced (ar_callbacks array) cs (array_list array) (list_step (ar_callbacks array) (array_list array) x)"
    unfolding step_result_def by blast
  note l = array_list_rep [OF a(2)]
  have "array_inv array'" unfolding array_inv_def l a(4,5) calls_of_simps
    using a(2,3,6) i(3) by (simp add: balanced_def ac_simps)
  with a l show ?thesis by blast
qed

interpretation array_hist: guarded_history "array_step fresh" array_list array_inv ar_callbacks
    list_step array_op_ok "\<lambda>_. 0" "\<lambda>_. 0" for fresh
  using array_inv_step by unfold_locales auto

section \<open>Reading\<close>

definition slice :: "u64 list \<Rightarrow> int \<Rightarrow> int \<Rightarrow> u64 list" where
  "slice xs l n = take (nat n) (drop (nat l) xs)"

lemma array_range_Cons: "0 < n \<Longrightarrow> array_range l n = l # array_range (l + 1) (n - 1)"
proof -
  assume "0 < n"
  then have "nat n = Suc (nat (n - 1))" by simp
  then have "[0..<nat n] = 0 # map Suc [0..<nat (n - 1)]" by (metis map_Suc_upt upt_conv_Cons zero_less_Suc)
  then show ?thesis by (simp add: array_range_def comp_def algebra_simps)
qed

lemma array_values:
  assumes "array_rep array xs" "\<forall>i\<in>set idxs. 0 \<le> i \<and> i < int (length xs)"
  shows "\<forall>i\<in>set idxs. CFArrayGetValueAtIndex array i = Some (cell xs i)"
  using assms by (simp add: CFArrayGetValueAtIndex_def bucket_value)

lemma range_inside: "0 \<le> l \<Longrightarrow> l + n \<le> int (length xs) \<Longrightarrow> \<forall>i\<in>set (array_range l n). 0 \<le> i \<and> i < int (length xs)"
  by (auto simp: array_range_set)

lemma count_of_value_law: "\<forall>i\<in>set idxs. CFArrayGetValueAtIndex array i = Some (f i) \<Longrightarrow>
    count_of_value array v idxs c = Some (c + int (length (filter (array_matches array v) (map f idxs))))"
  by (induction idxs arbitrary: c) auto

lemma index_of_value_law: "\<forall>i\<in>set idxs. CFArrayGetValueAtIndex array i = Some (f i) \<Longrightarrow>
    index_of_value array v idxs = Some (case find (\<lambda>i. array_matches array v (f i)) idxs of Some i \<Rightarrow> i | None \<Rightarrow> - 1)"
  by (induction idxs) auto

lemma contains_value_law: "\<forall>i\<in>set idxs. CFArrayGetValueAtIndex array i = Some (f i) \<Longrightarrow>
    contains_value array v idxs = Some (\<exists>i\<in>set idxs. array_matches array v (f i))"
  by (induction idxs) auto

lemma array_apply_law: "\<forall>i\<in>set idxs. CFArrayGetValueAtIndex array i = Some (f i) \<Longrightarrow>
    array_apply applier array idxs s = Some (fold applier (map f idxs) s)"
  by (induction idxs arbitrary: s) auto

lemma ArrayGetValues_law:
  assumes rep: "array_rep array xs" and r: "0 \<le> l" "0 \<le> n" "l + n \<le> int (length xs)" "nat n \<le> length buf"
  shows "CFArrayGetValues array l n buf = Some (slice xs l n @ drop (nat n) buf)"
proof (cases "0 < n")
  case True
  obtain bs f where b: "CFArrayGetBucketsPtr array = Some (bs, f)" "0 \<le> f"
    "f + int (length xs) \<le> int (length bs)" "\<forall>i. 0 \<le> i \<and> i < int (length xs) \<longrightarrow> cell bs (f + i) = cell xs i"
  proof (cases "ar_mutable array")
    case True
    with rep \<open>0 < n\<close> r obtain d where d: "ar_store array = Some d" "gap d xs 0 []"
      by (auto simp: array_rep_def split: option.splits)
    note g = gapD [OF d(2)]
    show thesis by (rule that [of "dq_buckets d" "dq_leftIdx d"])
      (use True d g in \<open>auto simp: CFArrayGetBucketsPtr_def\<close>)
  next
    case False
    with rep show thesis by (intro that [of xs 0]) (auto simp: CFArrayGetBucketsPtr_def array_rep_def)
  qed
  have pos: "0 \<le> f + l" "f + l + n \<le> int (length bs)" "0 + n \<le> int (length buf)" using b r by auto
  obtain ys where ys: "memmove buf 0 bs (f + l) n = Some ys" "length ys = length buf"
    "\<And>i. 0 \<le> i \<Longrightarrow> i < int (length buf) \<Longrightarrow> cell ys i = (if 0 \<le> i \<and> i < 0 + n then cell bs (f + l + (i - 0)) else cell buf i)"
    using memmove_cells [OF order.refl pos(1) r(2) pos(2,3)] by blast
  have "ys = slice xs l n @ drop (nat n) buf"
  proof (rule nth_equalityI)
    show "length ys = length (slice xs l n @ drop (nat n) buf)" using ys(2) r by (auto simp: slice_def min_def)
    fix i assume i: "i < length ys"
    have c: "cell bs (f + (l + int i)) = cell xs (l + int i)" if "int i < n" using b(4) that r by auto
    have "ys ! i = cell ys (int i)" by (simp add: cell_def)
    also have "\<dots> = (if int i < n then cell bs (f + l + int i) else cell buf (int i))" using ys(2,3) i by simp
    also have "\<dots> = (slice xs l n @ drop (nat n) buf) ! i"
      using c r i ys(2) by (auto simp: cell_def slice_def nth_append nat_add_distrib add.assoc)
    finally show "ys ! i = (slice xs l n @ drop (nat n) buf) ! i" .
  qed
  with True b(1) ys(1) show ?thesis by (simp add: CFArrayGetValues_def)
qed (use r in \<open>simp add: CFArrayGetValues_def slice_def\<close>)

lemma equal_loop_law:
  assumes "\<forall>i\<in>set idxs. CFArrayGetBucketAtIndex a1 i = Some (f i)" "\<forall>i\<in>set idxs. CFArrayGetBucketAtIndex a2 i = Some (g i)"
  shows "array_equal_loop eq a1 a2 idxs =
    Some (\<forall>i\<in>set idxs. f i = g i \<or> (case eq of Some (addr, equal) \<Rightarrow> equal (f i) (g i) | None \<Rightarrow> False))"
  using assms by (induction idxs) (auto split: option.splits)

lemma CFArrayEqual_law:
  assumes "array_rep array xs" "array_rep other ys"
  shows "CFArrayEqual array other = Some (length xs = length ys \<and>
    map_option fst (ac_equal (ar_callbacks array)) = map_option fst (ac_equal (ar_callbacks other)) \<and>
    (\<forall>i<length xs. xs ! i = ys ! i \<or>
      (case ac_equal (ar_callbacks array) of Some (addr, equal) \<Rightarrow> equal (xs ! i) (ys ! i) | None \<Rightarrow> False)))"
proof (cases "length xs = length ys")
  case True
  let ?idxs = "array_range 0 (int (length xs))"
  have "\<forall>i\<in>set ?idxs. CFArrayGetBucketAtIndex array i = Some (cell xs i)"
    "\<forall>i\<in>set ?idxs. CFArrayGetBucketAtIndex other i = Some (cell ys i)"
    using bucket_value [OF assms(1)] bucket_value [OF assms(2)] True by (simp_all add: array_range_set)
  note loop = equal_loop_law [OF this, of "ac_equal (ar_callbacks array)"]
  have idx: "(\<forall>i\<in>set ?idxs. P (cell xs i) (cell ys i)) = (\<forall>i<length xs. P (xs ! i) (ys ! i))" for P
    by (auto simp: array_range_def cell_def)
  show ?thesis using True
    unfolding CFArrayEqual_def Let_def array_rep_count [OF assms(1)] array_rep_count [OF assms(2)] loop
      idx [where P = "\<lambda>a b. a = b \<or> (case ac_equal (ar_callbacks array) of
        Some (addr, equal) \<Rightarrow> equal a b | None \<Rightarrow> False)"] by auto
qed (use array_rep_count [OF assms(1)] array_rep_count [OF assms(2)] in \<open>simp add: CFArrayEqual_def\<close>)

section \<open>Creation\<close>

text \<open>The buckets of an immutable array are as many as were asked for while their size fits a \<open>UInt32\<close>.\<close>

lemma init_immutable:
  assumes "0 \<le> n" "n < 2 ^ 28"
  shows "ar_items (CFArrayInit cftype True n cb) = replicate (nat n) 0"
    "\<not> ar_mutable (CFArrayInit cftype True n cb)" "ar_calls (CFArrayInit cftype True n cb) = []"
  using assms by (simp_all add: CFArrayInit_def CFArrayGetSizeOfType_def Let_def split: prod.split)

text \<open>The functions at equal addresses are equal.\<close>

definition cftype_known :: "CFArrayCallBacks \<Rightarrow> CFArrayCallBacks \<Rightarrow> bool" where
  "cftype_known cftype cb \<longleftrightarrow> (CFArrayCallBacksMatchCFType cftype cb \<longrightarrow> cb = cftype)"

lemma match_null: "CFArrayCallBacksMatchNull (Some cb) \<longleftrightarrow> cb = kCFNullArrayCallBacks"
  by (cases cb) (auto simp: CFArrayCallBacksMatchNull_def kCFNullArrayCallBacks_def)

lemma init_callbacks: "cftype_known cftype cb \<Longrightarrow> ar_callbacks (CFArrayInit cftype immutable n (Some cb)) = cb"
  by (auto simp: CFArrayInit_def Let_def match_null cftype_known_def)

lemma init_items_law:
  "length (ar_items a) = length pre + length vs \<Longrightarrow> take (length pre) (ar_items a) = map (retained (ar_callbacks a)) pre \<Longrightarrow>
   \<exists>a'. init_items a (pre @ vs) [length pre..<length pre + length vs] = Some a' \<and>
     ar_items a' = map (retained (ar_callbacks a)) (pre @ vs) \<and> array_frame a' = array_frame a \<and>
     ar_calls a' = ar_calls a @ retain_calls (ar_callbacks a) vs"
proof (induction vs arbitrary: a pre)
  case (Cons v vs)
  let ?cb = "ar_callbacks a" and ?n = "length pre"
  define b where "b = array_log (a\<lparr>ar_items := (ar_items a)[?n := retained ?cb v]\<rparr>) (retain_calls ?cb [v])"
  have fr: "ar_callbacks b = ?cb" "array_frame b = array_frame a" "ar_calls b = ar_calls a @ retain_calls ?cb [v]"
    "ar_items b = (ar_items a)[?n := retained ?cb v]" by (simp_all add: b_def array_frame_def array_log_def)
  have len: "?n < length (ar_items a)" using Cons.prems(1) by simp
  have "take (length (pre @ [v])) (ar_items b) = map (retained (ar_callbacks b)) (pre @ [v])"
    using Cons.prems(2) len by (simp add: fr take_Suc_conv_app_nth)
  from Cons.IH [of b "pre @ [v]", OF _ this] Cons.prems(1) obtain a' where
    a': "init_items b (pre @ v # vs) [Suc ?n..<Suc (?n + length vs)] = Some a'"
      "ar_items a' = map (retained ?cb) (pre @ v # vs)" "array_frame a' = array_frame a"
      "ar_calls a' = ar_calls b @ retain_calls ?cb vs" by (auto simp: fr)
  have b: "(let (w, calls) = (case ac_retain ?cb of
        Some (addr, retain) \<Rightarrow> (retain v, [Item_retained (retain v)]) | None \<Rightarrow> (v, [])) in
      Option.bind (wr (ar_items a) ?n w) (\<lambda>items. init_items (array_log (a\<lparr>ar_items := items\<rparr>) calls) (pre @ v # vs) is)) =
      init_items b (pre @ v # vs) is" for "is"
    using len by (auto simp: b_def retained_def retain_calls_def split: option.split)
  have rd: "rd (pre @ v # vs) ?n = Some v" by simp
  have upt: "[?n..<?n + length (v # vs)] = ?n # [Suc ?n..<Suc (?n + length vs)]"
    by (rule trans [OF upt_conv_Cons]) simp_all
  have "init_items a (pre @ v # vs) [?n..<?n + length (v # vs)] = Some a'"
    unfolding upt init_items.simps rd Option.bind_lunit b a'(1) ..
  moreover have "ar_calls a' = ar_calls a @ retain_calls ?cb (v # vs)"
    using a'(4) by (simp add: fr retain_calls_def)
  ultimately show ?case using a'(2,3) by blast
qed (simp add: retain_calls_def)

lemma ArrayCreate_law:
  assumes "cftype_known cftype cb" "length vs < 2 ^ 28"
  shows "\<exists>a. CFArrayCreate cftype vs (int (length vs)) (Some cb) = Some a \<and> \<not> ar_mutable a \<and>
    array_rep a (map (retained cb) vs) \<and> ar_callbacks a = cb \<and> ar_calls a = retain_calls cb vs"
proof -
  let ?i = "CFArrayInit cftype True (int (length vs)) (Some cb)"
  have "int (length vs) < 2 ^ 28" using assms(2) by simp
  note i = init_immutable [OF _ this, of cftype "Some cb"] init_callbacks [OF assms(1), of True "int (length vs)"]
  from init_items_law [of ?i "[]" vs] i obtain a where a: "init_items ?i vs [0..<length vs] = Some a"
    "ar_items a = map (retained cb) vs" "array_frame a = array_frame ?i" "ar_calls a = retain_calls cb vs" by auto
  then show ?thesis using i by (auto simp: CFArrayCreate_def array_rep_def array_frame_def)
qed

lemma copy_items_init: "\<forall>i\<in>set idxs. i < length xs \<Longrightarrow> array_rep a xs \<Longrightarrow>
    copy_items a b idxs = init_items b xs idxs"
proof (induction idxs arbitrary: b)
  case (Cons i idxs)
  have v: "CFArrayGetValueAtIndex a (int i) = Some (xs ! i)" "rd xs i = Some (xs ! i)"
    using Cons.prems bucket_value [of a xs "int i"] by (simp_all add: CFArrayGetValueAtIndex_def cell_def)
  from Cons show ?case by (simp add: v split: prod.split)
qed simp

lemma ArrayCreateCopy_law:
  assumes "array_rep a xs" "cftype_known cftype (ar_callbacks a)" "length xs < 2 ^ 28"
  shows "\<exists>b. CFArrayCreateCopy cftype a = Some b \<and> \<not> ar_mutable b \<and>
    array_rep b (map (retained (ar_callbacks a)) xs) \<and> ar_callbacks b = ar_callbacks a \<and>
    ar_calls b = retain_calls (ar_callbacks a) xs"
proof -
  have "CFArrayCreateCopy cftype a = CFArrayCreate cftype xs (int (length xs)) (Some (ar_callbacks a))"
    using copy_items_init [OF _ assms(1), of "[0..<length xs]"] array_rep_count [OF assms(1)]
    by (simp add: CFArrayCreateCopy_def CFArrayCreate_def CFArrayGetCount_def Let_def)
  with ArrayCreate_law [OF assms(2,3)] show ?thesis by simp
qed

lemma append_values_step:
  "array_rep a xs \<Longrightarrow> ar_mutable a \<Longrightarrow> \<forall>i\<in>set idxs. CFArrayGetValueAtIndex other i = Some (f i) \<Longrightarrow>
   length xs + length idxs \<le> array_limit \<Longrightarrow>
   \<exists>a'. append_values fresh a other idxs = Some a' \<and>
     array_rep a' (xs @ map (\<lambda>i. retained (ar_callbacks a) (f i)) idxs) \<and> ar_mutable a' \<and>
     ar_callbacks a' = ar_callbacks a"
proof (induction idxs arbitrary: a xs)
  case (Cons i idxs)
  have "array_op_ok (ar_callbacks a) xs (Append (f i))" using Cons.prems(4) by (simp add: array_op_ok_def)
  from array_step_law [OF Cons.prems(1,2) this, of fresh] obtain b where
    b: "CFArrayAppendValue fresh a (f i) = Some b" "array_rep b (xs @ [retained (ar_callbacks a) (f i)])"
      "ar_mutable b" "ar_callbacks b = ar_callbacks a" by (auto simp: step_result_def)
  from Cons.IH [OF b(2,3)] Cons.prems(3,4) b show ?case by auto
qed simp

lemma init_mutable: "array_rep (CFArrayInit cftype False n cb) []" "ar_mutable (CFArrayInit cftype False n cb)"
  "ar_store (CFArrayInit cftype False n cb) = None" "ar_calls (CFArrayInit cftype False n cb) = []"
  by (simp_all add: CFArrayInit_def array_rep_def Let_def split: prod.split)

lemma SetCapacity_new:
  assumes "ar_mutable a" "array_rep a []" "ar_store a = None" "n < 2 ^ 30"
  shows "\<exists>b. CFArraySetCapacity fresh a n = Some b \<and> array_rep b [] \<and> ar_mutable b \<and> ar_callbacks b = ar_callbacks a"
proof -
  obtain c where c: "CFArrayDequeRoundUpCapacity n = Some c" "n \<le> c" "4 \<le> c" "c \<le> 2 ^ 30"
    by (rule RoundUpCapacity_law [OF assms(4)])
  then show ?thesis using assms by (auto simp: CFArraySetCapacity_def array_rep_def gap_def)
qed

lemma CreateMutableCopy_law:
  assumes rep: "array_rep a xs" and cb: "cftype_known cftype (ar_callbacks a)" and len: "length xs \<le> array_limit"
  shows "\<exists>b. CFArrayCreateMutableCopy fresh cftype capacity a = Some b \<and> ar_mutable b \<and>
    array_rep b (map (retained (ar_callbacks a)) xs) \<and> ar_callbacks b = ar_callbacks a"
proof -
  let ?i = "CFArrayInit cftype False capacity (Some (ar_callbacks a))"
  have "int (length xs) < 2 ^ 30" using len by (simp add: array_limit_def)
  from SetCapacity_new [OF init_mutable(2,1,3) this] init_mutable init_callbacks [OF cb] obtain b where
    b: "(if 0 = capacity then CFArraySetCapacity fresh ?i (int (length xs)) else Some ?i) = Some b"
      "array_rep b []" "ar_mutable b" "ar_callbacks b = ar_callbacks a" by (cases "0 = capacity") (auto, metis)
  have vals: "\<forall>i\<in>set (array_range 0 (int (length xs))). CFArrayGetValueAtIndex a i = Some (cell xs i)"
    by (rule array_values [OF rep range_inside]) simp_all
  have "length [] + length (array_range 0 (int (length xs))) \<le> array_limit" using len by (simp add: array_range_def)
  from append_values_step [OF b(2,3) vals this, of fresh] obtain c where
    "append_values fresh b a (array_range 0 (int (length xs))) = Some c" "ar_mutable c" "ar_callbacks c = ar_callbacks a"
    "array_rep c (map (\<lambda>i. retained (ar_callbacks a) (cell xs i)) (array_range 0 (int (length xs))))"
    using b(4) by auto
  moreover have "map (\<lambda>i. retained (ar_callbacks a) (cell xs i)) (array_range 0 (int (length xs))) = map (retained (ar_callbacks a)) xs"
    by (rule nth_equalityI) (simp_all add: array_range_def cell_def)
  ultimately show ?thesis using b(1) array_rep_count [OF rep]
    by (simp add: CFArrayCreateMutableCopy_def CFArrayGetCount_def)
qed

section \<open>Properties\<close>

text \<open>C2. Refinement of a list: for every history of appending, inserting, setting, removing,
  exchanging, replacing and clearing with indexes in range and at most \<open>array_limit\<close> values, a new
  mutable array never leaves its buckets and ends with the values the same history gives on a list,
  which \<open>CFArrayGetValueAtIndex\<close> and \<open>CFArrayGetCount\<close> read; and when the array has both callbacks,
  what it has retained and not released are exactly these values.\<close>

theorem CFArray_histories_refine:
  assumes "cftype_known cftype cb" "accepted (list_step cb) (array_op_ok cb) [] ops"
  shows "\<exists>array xs. run_steps (array_step fresh) (CFArrayCreateMutable cftype capacity (Some cb)) ops = Some array \<and>
    xs = foldl (list_step cb) [] ops \<and> CFArrayGetCount array = int (length xs) \<and>
    (\<forall>i<length xs. CFArrayGetValueAtIndex array (int i) = Some (xs ! i)) \<and>
    (ac_retain cb \<noteq> None \<longrightarrow> ac_release cb \<noteq> None \<longrightarrow>
      retains_of (ar_calls array) = releases_of (ar_calls array) + mset xs)"
proof -
  let ?new = "CFArrayCreateMutable cftype capacity (Some cb)"
  have new: "array_rep ?new []" "ar_mutable ?new" "ar_calls ?new = []" "ar_callbacks ?new = cb"
    by (simp_all add: CFArrayCreateMutable_def init_mutable init_callbacks [OF assms(1)])
  have l: "array_list ?new = []" by (rule array_list_rep [OF new(1)])
  have inv: "array_inv ?new" using new by (simp add: array_inv_def l)
  from array_hist.guarded_run [OF inv, of ops fresh] assms(2) obtain array where
    a: "run_steps (array_step fresh) ?new ops = Some array" "array_inv array" "ar_callbacks array = cb"
      "array_list array = foldl (list_step cb) [] ops" by (auto simp: new(4) l)
  then have rep: "array_rep array (foldl (list_step cb) [] ops)" by (simp add: array_inv_def)
  show ?thesis using a rep
    by (intro exI [of _ array] exI [of _ "foldl (list_step cb) [] ops"])
      (auto simp: array_inv_def CFArrayGetCount_def array_rep_count CFArrayGetValueAtIndex_def bucket_value cell_def)
qed

text \<open>C37. Reading a range: counting, finding the first and the last index, testing for and copying
  values, and applying a function see exactly the values of the range in their order, and equality
  compares all of them.\<close>

theorem CFArray_reads:
  assumes "array_rep array xs" "array_rep other ys" "0 \<le> l" "0 \<le> n" "l + n \<le> int (length xs)" "nat n \<le> length buf"
  shows "CFArrayGetCountOfValue array l n v = Some (int (length (filter (array_matches array v) (slice xs l n)))) \<and>
    CFArrayGetFirstIndexOfValue array l n v =
      Some (case find (\<lambda>i. array_matches array v (cell xs i)) (array_range l n) of Some i \<Rightarrow> i | None \<Rightarrow> - 1) \<and>
    CFArrayGetLastIndexOfValue array l n v =
      Some (case find (\<lambda>i. array_matches array v (cell xs i)) (rev (array_range l n)) of Some i \<Rightarrow> i | None \<Rightarrow> - 1) \<and>
    CFArrayContainsValue array l n v = Some (\<exists>x\<in>set (slice xs l n). array_matches array v x) \<and>
    CFArrayGetValues array l n buf = Some (slice xs l n @ drop (nat n) buf) \<and>
    CFArrayApplyFunction applier array l n s = Some (fold applier (slice xs l n) s) \<and>
    CFArrayEqual array other = Some (length xs = length ys \<and>
      map_option fst (ac_equal (ar_callbacks array)) = map_option fst (ac_equal (ar_callbacks other)) \<and>
      (\<forall>i<length xs. xs ! i = ys ! i \<or>
        (case ac_equal (ar_callbacks array) of Some (addr, equal) \<Rightarrow> equal (xs ! i) (ys ! i) | None \<Rightarrow> False)))"
proof -
  have s: "map (cell xs) (array_range l n) = slice xs l n" unfolding slice_def by (rule map_cell_range [OF assms(3,5)])
  note vals = array_values [OF assms(1) range_inside [OF assms(3,5)]]
  have rvals: "\<forall>i\<in>set (rev (array_range l n)). CFArrayGetValueAtIndex array i = Some (cell xs i)" using vals by simp
  have member: "(\<exists>i\<in>set (array_range l n). array_matches array v (cell xs i)) = (\<exists>x\<in>set (slice xs l n). array_matches array v x)"
    unfolding s [symmetric] by auto
  show ?thesis
    unfolding CFArrayGetCountOfValue_def CFArrayGetFirstIndexOfValue_def CFArrayGetLastIndexOfValue_def
      CFArrayContainsValue_def CFArrayApplyFunction_def count_of_value_law [OF vals] index_of_value_law [OF vals]
      index_of_value_law [OF rvals] contains_value_law [OF vals] array_apply_law [OF vals] s member
      CFArrayEqual_law [OF assms(1,2)] ArrayGetValues_law [OF assms(1,3,4,5,6)] by simp
qed

text \<open>C38. Creating an array from values, copying any array to an immutable or a mutable one, and
  appending a range of another array: the new array has these values, each retained once if the
  callbacks ask for it.\<close>

theorem CFArray_copies:
  assumes "cftype_known cftype cb" "length vs < 2 ^ 28"
    and "array_rep array xs" "cftype_known cftype (ar_callbacks array)" "length xs < 2 ^ 28"
    and "array_rep target ys" "ar_mutable target" "0 \<le> l" "0 \<le> n" "l + n \<le> int (length xs)"
      "length ys + nat n \<le> array_limit"
  shows "(\<exists>a. CFArrayCreate cftype vs (int (length vs)) (Some cb) = Some a \<and> \<not> ar_mutable a \<and>
      array_rep a (map (retained cb) vs) \<and> ar_calls a = retain_calls cb vs) \<and>
    (\<exists>b. CFArrayCreateCopy cftype array = Some b \<and> \<not> ar_mutable b \<and>
      array_rep b (map (retained (ar_callbacks array)) xs) \<and> ar_calls b = retain_calls (ar_callbacks array) xs) \<and>
    (\<exists>c. CFArrayCreateMutableCopy fresh cftype capacity array = Some c \<and> ar_mutable c \<and>
      array_rep c (map (retained (ar_callbacks array)) xs)) \<and>
    (\<exists>d. CFArrayAppendArray fresh target array l n = Some d \<and>
      array_rep d (ys @ map (retained (ar_callbacks target)) (slice xs l n)))"
proof -
  have "length xs \<le> array_limit" using assms(5) by (simp add: array_limit_def)
  note copies = ArrayCreate_law [OF assms(1,2)] ArrayCreateCopy_law [OF assms(3-5)] CreateMutableCopy_law [OF assms(3,4) this, of fresh capacity]
  note vals = array_values [OF assms(3) range_inside [OF assms(8,10)]]
  have "length ys + length (array_range l n) \<le> array_limit" using assms(11) by (simp add: array_range_def)
  note appended = append_values_step [OF assms(6,7) vals this, of fresh]
  have "map (\<lambda>i. retained (ar_callbacks target) (cell xs i)) (array_range l n) =
      map (retained (ar_callbacks target)) (slice xs l n)"
    unfolding slice_def map_cell_range [OF assms(8,10), symmetric] by simp
  with copies appended show ?thesis unfolding CFArrayAppendArray_def by auto
qed

section \<open>Witnesses\<close>

text \<open>A mutable array with the values 5, 6, 7 in a deque of eight buckets, callbacks that count
  references, and an equality of parities.\<close>

definition counting_callbacks :: CFArrayCallBacks where
  "counting_callbacks = \<lparr>ac_retain = Some (1, \<lambda>v. v), ac_release = Some 2, ac_copyDescription = None,
     ac_equal = Some (3, \<lambda>a b. a AND 1 = b AND 1)\<rparr>"

definition example_array :: CFArray where
  "example_array = \<lparr>ar_mutable = True, ar_count = 3, ar_mutations = 1, ar_callbacks = counting_callbacks, ar_items = [],
     ar_store = Some \<lparr>dq_leftIdx = 2, dq_capacity = 8, dq_buckets = [0, 0, 5, 6, 7, 0, 0, 0]\<rparr>, ar_calls = []\<rparr>"

lemma array_example_facts: "array_rep example_array [5, 6, 7]" "ar_mutable example_array"
  "ar_callbacks example_array = counting_callbacks" "cftype_known kCFNullArrayCallBacks counting_callbacks"
  "retained counting_callbacks v = v"
proof -
  have "P i" if "P 0" "P 1" "P 2" "0 \<le> i" "i < 3" for P and i :: int
  proof -
    from that consider "i = 0" | "i = 1" | "i = 2" by linarith
    then show ?thesis using that by cases auto
  qed
  then have three: "(\<forall>i. 0 \<le> i \<and> i < 3 \<longrightarrow> P i) \<longleftrightarrow> P 0 \<and> P 1 \<and> P 2" for P :: "int \<Rightarrow> bool" by auto
  show "array_rep example_array [5, 6, 7]"
    by (simp add: array_rep_def example_array_def gap_def cell_def three) auto
qed (simp_all add: example_array_def counting_callbacks_def cftype_known_def CFArrayCallBacksMatchCFType_def
    kCFNullArrayCallBacks_def retained_def)

lemma CFArray_histories_refine_witness:
  "\<exists>array xs. run_steps (array_step (\<lambda>_. 9)) (CFArrayCreateMutable kCFNullArrayCallBacks 0 (Some counting_callbacks))
      [Append 4, Insert 0 5, Replace 1 1 [7, 8, 9], Exchange 0 3, Remove 1] = Some array \<and>
    xs = [9, 8, 5] \<and> CFArrayGetCount array = int (length xs) \<and>
    (\<forall>i<length xs. CFArrayGetValueAtIndex array (int i) = Some (xs ! i))"
proof -
  have ok: "accepted (list_step counting_callbacks) (array_op_ok counting_callbacks) []
      [Append 4, Insert 0 5, Replace 1 1 [7, 8, 9], Exchange 0 3, Remove 1]"
    by (simp add: array_op_ok_def array_limit_def array_example_facts(5))
  have xs: "foldl (list_step counting_callbacks) [] [Append 4, Insert 0 5, Replace 1 1 [7, 8, 9], Exchange 0 3, Remove 1] = [9, 8, 5]"
    by (simp add: array_example_facts(5))
  show ?thesis
    using CFArray_histories_refine [OF array_example_facts(4) ok, of "\<lambda>_. 9" 0] unfolding xs by blast
qed

lemma array_example_matches: "array_matches example_array 9 5" "\<not> array_matches example_array 9 6"
  "array_matches example_array 9 7"
  by code_simp+

lemma CFArray_reads_witness:
  "CFArrayGetCountOfValue example_array 0 3 9 = Some 2 \<and> CFArrayGetLastIndexOfValue example_array 0 3 9 = Some 2"
  using CFArray_reads [OF array_example_facts(1,1), of 0 3 "[0, 0, 0]" 9 "\<lambda>_ n. n" 0]
  by (auto simp: slice_def array_range_def cell_def upt_rec array_example_matches)

lemma CFArray_copies_witness:
  "\<exists>d. CFArrayAppendArray (\<lambda>_. 0) example_array example_array 1 2 = Some d \<and> array_rep d [5, 6, 7, 6, 7]"
  using CFArray_copies [OF array_example_facts(4), of "[1]" example_array "[5, 6, 7]" example_array "[5, 6, 7]" 1 2 "\<lambda>_. 0" 0]
    array_example_facts by (simp add: slice_def array_limit_def)

text \<open>\<open>_CFArraySetCapacity\<close> copies all the old buckets, so a capacity that rounds up to less than the
  old one, though not less than the count, writes past the new block.\<close>

lemma CFArraySetCapacity_shrinks_out_of_bounds: "CFArraySetCapacity (\<lambda>_. 0) example_array 3 = None"
  by code_simp

text \<open>The capacity is computed by a shift of an \<open>int\<close>, which is undefined from \<open>2 ^ 30\<close> values on.\<close>

lemma CFArrayDequeRoundUpCapacity_overflow:
  "CFArrayDequeRoundUpCapacity (2 ^ 30) = None"
proof -
  have "(2::nat) ^ 30 < 2 ^ flsl (2 ^ 30)" by (rule flsl_bound)
  then have "30 < flsl (2 ^ 30)" by (rule power_less_imp_less_exp [rotated]) simp
  then show ?thesis by (simp add: CFArrayDequeRoundUpCapacity_def)
qed

text \<open>The size of an immutable array is computed in 32 bits: for \<open>2 ^ 29\<close> values no bucket is
  allocated, and creating the array writes the first value out of bounds.\<close>

lemma CFArrayCreate_size_wraps:
  "ar_items (CFArrayInit cftype True (2 ^ 29) None) = []"
  "CFArrayCreate cftype (replicate (2 ^ 29) v) (2 ^ 29) None = None"
proof -
  have init: "ar_items (CFArrayInit cftype True (2 ^ 29) None) = []" "ar_callbacks (CFArrayInit cftype True (2 ^ 29) None) = kCFNullArrayCallBacks"
    by (simp_all add: CFArrayInit_def CFArrayGetSizeOfType_def CFArrayCallBacksMatchNull_def)
  then show "ar_items (CFArrayInit cftype True (2 ^ 29) None) = []" by simp
  have "[0..<nat (2 ^ 29)] = 0 # [1..<2 ^ 29]" by (subst upt_conv_Cons) simp_all
  then show "CFArrayCreate cftype (replicate (2 ^ 29) v) (2 ^ 29) None = None"
    using init by (simp only: CFArrayCreate_def init_items.simps) (simp add: kCFNullArrayCallBacks_def wr_def rd_def)
qed

end
