(* ===== verification/ArraySorting.thy ===== *)
theory ArraySorting
  imports PointerArrayLaws SortPointers
begin

text \<open>
  \<open>CFArraySortValues\<close>, through the buffer that \<open>CFQSortArray\<close> sorts or, when the array has only one of
  the callbacks retain and release, by exchanges in place, and the binary search
  \<open>CFArrayBSearchValues\<close>.  Both are shown on any range of an array.
\<close>

section \<open>Sorting\<close>

definition CFArrayCompareValues :: "(u64 \<Rightarrow> u64 \<Rightarrow> CFComparisonResult) \<Rightarrow> u8 list \<Rightarrow> u8 list \<Rightarrow> CFComparisonResult" where
  "CFArrayCompareValues func v1 v2 = func (ptr_of_bytes v1) (ptr_of_bytes v2)"

text \<open>The bubble sort for arrays with only one of the callbacks retain and release: one pass of
  \<open>m\<close> comparisons from \<open>idx\<close>, and the passes.\<close>

fun zsort_pass :: "(u64 \<Rightarrow> u64 \<Rightarrow> CFComparisonResult) \<Rightarrow> CFArray \<Rightarrow> int \<Rightarrow> nat \<Rightarrow> CFArray option" where
  "zsort_pass comparator array idx 0 = Some array"
| "zsort_pass comparator array idx (Suc m) =
     do { a \<leftarrow> CFArrayGetValueAtIndex array idx;
          b \<leftarrow> CFArrayGetValueAtIndex array (idx + 1);
          array \<leftarrow> (if cmp_int (comparator b a) < 0
            then CFArrayExchangeValuesAtIndices array idx (idx + 1) else Some array);
          zsort_pass comparator array (idx + 1) m }"

fun CFZSort :: "(u64 \<Rightarrow> u64 \<Rightarrow> CFComparisonResult) \<Rightarrow> CFArray \<Rightarrow> int \<Rightarrow> nat \<Rightarrow> CFArray option" where
  "CFZSort comparator array location cnt =
     (if 1 < cnt
      then do { array \<leftarrow> zsort_pass comparator array location (cnt - 1);
                CFZSort comparator array location (cnt - 1) }
      else Some array)"

declare CFZSort.simps [simp del]

text \<open>\<open>new\<close> and \<open>active\<close> are those of \<open>CFQSortArray\<close>, new memory and the number of processors;
  the values are sorted in a buffer, as the bytes they are in memory.\<close>

definition sort_buffer :: "(nat \<Rightarrow> nat) \<Rightarrow> nat \<Rightarrow> (u64 \<Rightarrow> u64 \<Rightarrow> CFComparisonResult) \<Rightarrow> u64 list \<Rightarrow> int
    \<Rightarrow> u64 list option" where
  "sort_buffer new active comparator values n =
     do { bytes \<leftarrow> CFQSortArray new active (concat (map ptr_bytes values)) (nat n) 8 (CFArrayCompareValues comparator);
          Some (map (\<lambda>idx. ptr_of_bytes (element bytes 8 idx)) [0..<nat n]) }"

definition CFArraySortValues :: "(nat \<Rightarrow> u64) \<Rightarrow> (nat \<Rightarrow> nat) \<Rightarrow> nat \<Rightarrow> CFArray \<Rightarrow> int \<Rightarrow> int
    \<Rightarrow> (u64 \<Rightarrow> u64 \<Rightarrow> CFComparisonResult) \<Rightarrow> CFArray option" where
  "CFArraySortValues fresh new active array location n comparator =
     (let immutable = \<not> ar_mutable array; cb = ar_callbacks array in
      if \<not> immutable \<and> ((ac_retain cb \<noteq> None \<and> ac_release cb = None) \<or> (ac_retain cb = None \<and> ac_release cb \<noteq> None))
      then CFZSort comparator array location (nat n)
      else if n < 2 then Some array
      else do { values \<leftarrow> CFArrayGetValues array location n (map fresh [0..<nat n]);
                values \<leftarrow> sort_buffer new active comparator values n;
                if \<not> immutable then CFArrayReplaceValues fresh array location n values n else Some array })"

text \<open>The private \<open>_CFArraySortValues\<close>, for a whole array.\<close>

definition sort_all_values :: "(nat \<Rightarrow> u64) \<Rightarrow> (nat \<Rightarrow> nat) \<Rightarrow> nat \<Rightarrow> CFArray
    \<Rightarrow> (u64 \<Rightarrow> u64 \<Rightarrow> CFComparisonResult) \<Rightarrow> CFArray option" where
  "sort_all_values fresh new active array comparator =
     (let n = CFArrayGetCount array in
      if n < 2 then Some array
      else do { values \<leftarrow> CFArrayGetValues array 0 n (map fresh [0..<nat n]);
                values \<leftarrow> sort_buffer new active comparator values n;
                CFArrayReplaceValues fresh array 0 n values n })"

section \<open>Searching\<close>

fun bsearch_loop :: "CFArray \<Rightarrow> int \<Rightarrow> u64 \<Rightarrow> (u64 \<Rightarrow> u64 \<Rightarrow> CFComparisonResult) \<Rightarrow> nat \<Rightarrow> int \<Rightarrow> int option" where
  "bsearch_loop array location v comparator 0 idx = Some idx"
| "bsearch_loop array location v comparator (Suc lg) idx =
     do { item \<leftarrow> CFArrayGetValueAtIndex array (location + idx + 2 ^ lg);
          bsearch_loop array location v comparator lg
            (if cmp_int (comparator item v) < 0 then idx + 2 ^ lg else idx) }"

definition CFArrayBSearchValues :: "CFArray \<Rightarrow> int \<Rightarrow> int \<Rightarrow> u64 \<Rightarrow> (u64 \<Rightarrow> u64 \<Rightarrow> CFComparisonResult) \<Rightarrow> int option" where
  "CFArrayBSearchValues array location n v comparator =
     (if n \<le> 0 then Some location
      else do { item \<leftarrow> CFArrayGetValueAtIndex array (location + n - 1);
                if cmp_int (comparator item v) < 0 then Some (location + n)
                else do { item \<leftarrow> CFArrayGetValueAtIndex array location;
                          if cmp_int (comparator v item) < 0 then Some location
                          else let lg = flsl (nat n) - 1 in
                            if 31 \<le> lg then None
                            else do { item \<leftarrow> CFArrayGetValueAtIndex array (location + - 1 + 2 ^ lg);
                                      idx \<leftarrow> bsearch_loop array location v comparator lg
                                        (if cmp_int (comparator item v) < 0 then n - 2 ^ lg else - 1);
                                      Some (idx + 1 + location) } } })"

section \<open>The order of the search\<close>

text \<open>In the range, the values less than the one looked for come first, \<open>k\<close> of them.\<close>

lemma flsl_power: "0 < n \<Longrightarrow> 2 ^ (flsl n - 1) \<le> n"
proof (induction n rule: flsl.induct)
  case (1 n)
  show ?case
  proof (cases "n = 1")
    case True
    then show ?thesis by (simp add: flsl.simps)
  next
    case False
    then have d: "0 < n div 2" "n \<noteq> 0" using 1(2) by auto
    then have "flsl (n div 2) \<noteq> 0" by (subst flsl.simps) simp
    then obtain k where k: "flsl (n div 2) = Suc k" by (cases "flsl (n div 2)") auto
    have "2 ^ k \<le> n div 2" using 1(1) [OF d(2,1)] k by simp
    moreover have "flsl n = Suc (Suc k)" using k d(2) by (subst flsl.simps) simp
    ultimately show ?thesis by simp
  qed
qed

lemma bsearch_loop_law:
  assumes get: "\<And>i. 0 \<le> i \<Longrightarrow> i < n \<Longrightarrow> CFArrayGetValueAtIndex array (l + i) = Some (f i)"
    and less: "\<And>i. 0 \<le> i \<Longrightarrow> i < n \<Longrightarrow> cmp_int (comparator (f i) v) < 0 \<longleftrightarrow> i < k"
  shows "- 1 \<le> idx \<Longrightarrow> idx < k \<Longrightarrow> k \<le> idx + 2 ^ lg \<Longrightarrow> idx + 2 ^ lg \<le> n \<Longrightarrow>
    bsearch_loop array l v comparator lg idx = Some (k - 1)"
proof (induction lg arbitrary: idx)
  case (Suc lg)
  let ?p = "idx + 2 ^ lg"
  have pos: "(1::int) \<le> 2 ^ lg" by simp
  have p: "0 \<le> ?p" "?p < n" using Suc.prems pos by auto
  have g: "CFArrayGetValueAtIndex array (l + idx + 2 ^ lg) = Some (f ?p)" using get [OF p] by (simp add: algebra_simps)
  show ?case
  proof (cases "?p < k")
    case True
    have "bsearch_loop array l v comparator lg ?p = Some (k - 1)" by (rule Suc.IH) (use Suc.prems p True in auto)
    with True less [OF p] g show ?thesis by simp
  next
    case False
    have "bsearch_loop array l v comparator lg idx = Some (k - 1)" by (rule Suc.IH) (use Suc.prems pos False in auto)
    with False less [OF p] g show ?thesis by simp
  qed
qed simp

lemma BSearchValues_law:
  assumes get: "\<And>i. 0 \<le> i \<Longrightarrow> i < n \<Longrightarrow> CFArrayGetValueAtIndex array (l + i) = Some (f i)"
    and less: "\<And>i. 0 \<le> i \<Longrightarrow> i < n \<Longrightarrow> cmp_int (comparator (f i) v) < 0 \<longleftrightarrow> i < k"
    and k: "0 \<le> k" "k \<le> n" and n: "n < 2 ^ 31"
    and flip: "0 < n \<Longrightarrow> cmp_int (comparator v (f 0)) < 0 \<Longrightarrow> \<not> cmp_int (comparator (f 0) v) < 0"
  shows "CFArrayBSearchValues array l n v comparator = Some (l + k)"
proof (cases "0 < n")
  case True
  have ends: "CFArrayGetValueAtIndex array (l + n - 1) = Some (f (n - 1))" "CFArrayGetValueAtIndex array l = Some (f 0)"
    using get [of "n - 1"] get [of 0] True by (simp_all add: algebra_simps)
  show ?thesis
  proof (cases "k = n")
    case True
    with \<open>0 < n\<close> less [of "n - 1"] ends show ?thesis by (simp add: CFArrayBSearchValues_def)
  next
    case False
    then have last: "\<not> cmp_int (comparator (f (n - 1)) v) < 0" using less [of "n - 1"] k True by simp
    show ?thesis
    proof (cases "cmp_int (comparator v (f 0)) < 0")
      case True
      then have "k = 0" using flip less [of 0] k \<open>0 < n\<close> by auto
      with True last ends \<open>0 < n\<close> show ?thesis by (simp add: CFArrayBSearchValues_def)
    next
      case first: False
      define lg where "lg = flsl (nat n) - 1"
      have "nat n < 2 ^ 31" using n by (simp add: nat_less_iff)
      then have lg: "lg < 31" using flsl_le [of "nat n" 31] by (simp add: lg_def)
      have "2 ^ lg \<le> nat n" unfolding lg_def by (rule flsl_power) (use True in simp)
      then have low: "2 ^ lg \<le> n" using True by (simp add: le_nat_iff)
      have "flsl (nat n) \<noteq> 0" using True by (subst flsl.simps) simp
      then have "nat n < 2 ^ Suc lg" using flsl_bound [of "nat n"] by (simp add: lg_def)
      then have high: "n < 2 * 2 ^ lg" using nat_less_iff [of n "2 ^ Suc lg"] True by simp
      have pos: "(1::int) \<le> 2 ^ lg" by simp
      let ?p = "2 ^ lg - 1 :: int"
      have p: "0 \<le> ?p" "?p < n" using low pos by auto
      have g: "CFArrayGetValueAtIndex array (l + - 1 + 2 ^ lg) = Some (f ?p)" using get [OF p] by (simp add: algebra_simps)
      let ?idx = "if cmp_int (comparator (f ?p) v) < 0 then n - 2 ^ lg else - 1"
      have "bsearch_loop array l v comparator lg ?idx = Some (k - 1)"
        by (rule bsearch_loop_law [where n = n and f = f and array = array and l = l and v = v and k = k and comparator = comparator, OF get less]) (use less [OF p] k False low high pos in auto)
      moreover have "flsl (nat n) - Suc 0 = lg" by (simp add: lg_def)
      ultimately show ?thesis using True last first ends g lg by (simp add: CFArrayBSearchValues_def Let_def)
    qed
  qed
qed (use k in \<open>simp add: CFArrayBSearchValues_def\<close>)

section \<open>The bubble sort\<close>

fun bubble :: "('a \<Rightarrow> 'a \<Rightarrow> bool) \<Rightarrow> 'a list \<Rightarrow> 'a list" where
  "bubble lt (x # y # xs) = (if lt y x then y # bubble lt (x # xs) else x # bubble lt (y # xs))"
| "bubble lt xs = xs"

fun bubble_sort :: "('a \<Rightarrow> 'a \<Rightarrow> bool) \<Rightarrow> nat \<Rightarrow> 'a list \<Rightarrow> 'a list" where
  "bubble_sort lt 0 xs = xs"
| "bubble_sort lt (Suc n) xs = bubble_sort lt n (bubble lt (take (Suc n) xs) @ drop (Suc n) xs)"

lemma length_bubble [simp]: "length (bubble lt xs) = length xs"
  by (induction lt xs rule: bubble.induct) auto

lemma mset_bubble [simp]: "mset (bubble lt xs) = mset xs"
  by (induction lt xs rule: bubble.induct) auto

lemma bubble_map: "bubble lt (map f xs) = map f (bubble (\<lambda>a b. lt (f a) (f b)) xs)"
  by (induction "\<lambda>a b. lt (f a) (f b)" xs rule: bubble.induct) auto

lemma bubble_sort_map: "bubble_sort lt n (map f xs) = map f (bubble_sort (\<lambda>a b. lt (f a) (f b)) n xs)"
  by (induction n arbitrary: xs) (simp_all add: bubble_map take_map drop_map flip: map_append)

lemma length_bubble_sort [simp]: "length (bubble_sort lt n xs) = length xs"
  by (induction n arbitrary: xs) auto

lemma mset_bubble_sort [simp]: "mset (bubble_sort lt n xs) = mset xs"
  by (induction n arbitrary: xs) (simp_all, metis append_take_drop_id mset_append)

context sort_order begin

text \<open>Equal elements stand in ascending order.\<close>

definition stable :: "nat list \<Rightarrow> bool" where
  "stable = sorted_wrt (\<lambda>a b. le a b \<longrightarrow> le b a \<longrightarrow> a < b)"

lemma before_stable: "sorted_wrt before xs \<Longrightarrow> stable xs"
  unfolding stable_def by (erule sorted_wrt_mono_rel [rotated]) (auto simp: before_def)

lemma bubble_law:
  "stable (x # xs) \<Longrightarrow> stable (bubble (\<lambda>a b. \<not> le b a) (x # xs)) \<and>
    (\<exists>ys z. bubble (\<lambda>a b. \<not> le b a) (x # xs) = ys @ [z] \<and> (\<forall>a\<in>set ys. before a z))"
proof (induction xs arbitrary: x)
  case (Cons y xs)
  let ?less = "\<lambda>a b. \<not> le b a"
  have hd: "le x y \<longrightarrow> le y x \<longrightarrow> x < y" and tl: "stable (x # xs)" "stable (y # xs)"
    using Cons.prems by (simp_all add: stable_def)
  show ?case
  proof (cases "le x y")
    case True
    then have b: "before x y" using hd by (simp add: before_def)
    from Cons.IH [OF tl(2)] obtain ys z where ys: "stable (bubble ?less (y # xs))"
      "bubble ?less (y # xs) = ys @ [z]" "\<forall>a\<in>set ys. before a z" by blast
    have s: "set (bubble ?less (y # xs)) = insert y (set xs)" by (metis list.simps(15) mset_bubble set_mset_mset)
    have "y = z \<or> before y z" using s ys(2,3) by auto
    then have "before x z" using b before_trans by blast
    moreover have "stable (x # bubble ?less (y # xs))" using Cons.prems ys(1) s by (auto simp: stable_def)
    ultimately show ?thesis using True ys(2,3) by (intro conjI exI [of _ "x # ys"] exI [of _ z]) auto
  next
    case False
    then have b: "before y x" using total [of x y] by (auto simp: before_def le_def)
    from Cons.IH [OF tl(1)] obtain ys z where ys: "stable (bubble ?less (x # xs))"
      "bubble ?less (x # xs) = ys @ [z]" "\<forall>a\<in>set ys. before a z" by blast
    have s: "set (bubble ?less (x # xs)) = insert x (set xs)" by (metis list.simps(15) mset_bubble set_mset_mset)
    have "x = z \<or> before x z" using s ys(2,3) by auto
    then have "before y z" using b before_trans by blast
    moreover have "stable (y # bubble ?less (x # xs))" using Cons.prems ys(1) s False by (auto simp: stable_def)
    ultimately show ?thesis using False ys(2,3) by (intro conjI exI [of _ "y # ys"] exI [of _ z]) auto
  qed
qed (simp add: stable_def)

lemma bubble_sort_law:
  "n \<le> length xs \<Longrightarrow> stable (take n xs) \<Longrightarrow> sorted_wrt before (drop n xs) \<Longrightarrow>
   \<forall>a\<in>set (take n xs). \<forall>b\<in>set (drop n xs). before a b \<Longrightarrow>
   sorted_wrt before (bubble_sort (\<lambda>a b. \<not> le b a) n xs)"
proof (induction n arbitrary: xs)
  case (Suc n)
  let ?less = "\<lambda>a b. \<not> le b a" and ?t = "take (Suc n) xs"
  have "?t \<noteq> []" using Suc.prems(1) by auto
  then obtain x ts where t: "?t = x # ts" by (cases ?t) auto
  from bubble_law [of x ts] Suc.prems(2) obtain ys z where b: "stable (bubble ?less ?t)" "bubble ?less ?t = ys @ [z]"
    "\<forall>a\<in>set ys. before a z" unfolding t by blast
  have len: "length ys = n" using arg_cong [OF b(2), of length] Suc.prems(1) by simp
  have set: "insert z (set ys) = set ?t" using arg_cong [OF b(2), of mset] by (metis mset_bubble set_mset_mset list.simps(15)
        set_append Un_insert_right empty_set sup_bot.right_neutral)
  let ?xs = "bubble ?less ?t @ drop (Suc n) xs"
  have parts: "take n ?xs = ys" "drop n ?xs = z # drop (Suc n) xs" using len b(2) by simp_all
  have "sorted_wrt before (bubble_sort ?less n ?xs)"
  proof (rule Suc.IH)
    show "n \<le> length ?xs" using Suc.prems(1) by simp
    show "stable (take n ?xs)" using b(1,2) unfolding parts by (simp add: stable_def sorted_wrt_append)
    show "sorted_wrt before (drop n ?xs)" using Suc.prems(3,4) set unfolding parts by auto
    show "\<forall>a\<in>set (take n ?xs). \<forall>c\<in>set (drop n ?xs). before a c" using Suc.prems(4) b(3) set unfolding parts by auto
  qed
  then show ?case by simp
qed simp

end

text \<open>The passes over the array are those over the list of its values.\<close>

definition same_array :: "CFArray \<Rightarrow> CFArray \<Rightarrow> bool" where
  "same_array a b \<longleftrightarrow> ar_mutable b \<and> ar_callbacks b = ar_callbacks a \<and> ar_calls b = ar_calls a"

lemma exchange_calls: "CFArrayExchangeValuesAtIndices a i j = Some b \<Longrightarrow> ar_calls b = ar_calls a"
  by (auto simp: CFArrayExchangeValuesAtIndices_def set_bucket_def Let_def split: Option.bind_splits if_splits)

lemma zsort_pass_law:
  "array_rep a (pre @ seg @ post) \<Longrightarrow> ar_mutable a \<Longrightarrow> length seg = Suc m \<Longrightarrow>
   \<exists>b. zsort_pass comparator a (int (length pre)) m = Some b \<and> same_array a b \<and>
     array_rep b (pre @ bubble (\<lambda>x y. cmp_int (comparator x y) < 0) seg @ post)"
proof (induction m arbitrary: a pre seg)
  case 0
  then obtain x where "seg = [x]" by (cases seg) auto
  with 0 show ?case by (simp add: same_array_def)
next
  case (Suc m)
  then obtain x y zs where seg: "seg = x # y # zs" by (cases seg; cases "tl seg") auto
  let ?i = "int (length pre)" and ?less = "\<lambda>x y. cmp_int (comparator x y) < 0"
  let ?xs = "pre @ seg @ post"
  have inside: "0 \<le> ?i" "?i < int (length ?xs)" "0 \<le> ?i + 1" "?i + 1 < int (length ?xs)" using seg by auto
  have at: "cell ?xs ?i = x" "cell ?xs (?i + 1) = y" by (simp_all add: cell_def seg nat_add_distrib nth_append)
  have get: "CFArrayGetValueAtIndex a ?i = Some x" "CFArrayGetValueAtIndex a (?i + 1) = Some y"
    using bucket_value [OF Suc.prems(1) inside(1,2)] bucket_value [OF Suc.prems(1) inside(3,4)]
    by (simp_all only: CFArrayGetValueAtIndex_def at)
  have next_i: "int (length (pre @ [w])) = ?i + 1" for w by simp
  show ?case
  proof (cases "?less y x")
    case True
    from exchange_step [OF Suc.prems(1,2) inside] obtain b where b: "CFArrayExchangeValuesAtIndices a ?i (?i + 1) = Some b"
      "array_rep b (?xs[nat ?i := ?xs ! nat (?i + 1), nat (?i + 1) := ?xs ! nat ?i])" "ar_mutable b"
      "ar_callbacks b = ar_callbacks a" unfolding step_result_def by blast
    have "?xs[nat ?i := ?xs ! nat (?i + 1), nat (?i + 1) := ?xs ! nat ?i] = (pre @ [y]) @ (x # zs) @ post"
      using at by (simp add: cell_def seg nat_add_distrib list_update_append)
    with b(2) have "array_rep b ((pre @ [y]) @ (x # zs) @ post)" by simp
    note IH = Suc.IH [OF this b(3), unfolded next_i]
    have "length (x # zs) = Suc m" using Suc.prems(3) seg by simp
    from IH [OF this] obtain c where
      c: "zsort_pass comparator b (?i + 1) m = Some c" "same_array b c"
        "array_rep c ((pre @ [y]) @ bubble ?less (x # zs) @ post)" by auto
    have "zsort_pass comparator a ?i (Suc m) = Some c" using get True b(1) c(1) by simp
    moreover have "same_array a c" using b(3,4) c(2) exchange_calls [OF b(1)] by (simp add: same_array_def)
    ultimately show ?thesis using c(3) True seg by auto
  next
    case False
    have "array_rep a ((pre @ [x]) @ (y # zs) @ post)" using Suc.prems(1) seg by simp
    note IH = Suc.IH [OF this Suc.prems(2), unfolded next_i]
    have "length (y # zs) = Suc m" using Suc.prems(3) seg by simp
    from IH [OF this] obtain c where
      c: "zsort_pass comparator a (?i + 1) m = Some c" "same_array a c"
        "array_rep c ((pre @ [x]) @ bubble ?less (y # zs) @ post)" by auto
    have "zsort_pass comparator a ?i (Suc m) = Some c" using get False c(1) by simp
    with c(2,3) False seg show ?thesis by auto
  qed
qed

lemma CFZSort_law:
  "array_rep a (pre @ seg @ post) \<Longrightarrow> ar_mutable a \<Longrightarrow> n \<le> length seg \<Longrightarrow>
   \<exists>b. CFZSort comparator a (int (length pre)) n = Some b \<and> same_array a b \<and>
     array_rep b (pre @ bubble_sort (\<lambda>x y. cmp_int (comparator x y) < 0) n seg @ post)"
proof (induction n arbitrary: a seg)
  case 0
  then show ?case by (simp add: CFZSort.simps same_array_def)
next
  case (Suc n)
  let ?less = "\<lambda>x y. cmp_int (comparator x y) < 0" and ?i = "int (length pre)"
  show ?case
  proof (cases n)
    case 0
    then obtain x xs where "seg = x # xs" using Suc.prems(3) by (cases seg) auto
    with 0 Suc.prems(1,2) show ?thesis by (simp add: CFZSort.simps same_array_def)
  next
    case (Suc m)
    have "array_rep a (pre @ take (Suc n) seg @ (drop (Suc n) seg @ post))"
      using Suc.prems(1) by (metis append_assoc append_take_drop_id)
    from zsort_pass_law [OF this \<open>ar_mutable a\<close>, of n comparator] \<open>Suc n \<le> length seg\<close> obtain b where
      b: "zsort_pass comparator a ?i n = Some b" "same_array a b"
        "array_rep b (pre @ (bubble ?less (take (Suc n) seg) @ drop (Suc n) seg) @ post)" by auto
    have "ar_mutable b" "n \<le> length (bubble ?less (take (Suc n) seg) @ drop (Suc n) seg)"
      using b(2) \<open>Suc n \<le> length seg\<close> by (auto simp: same_array_def)
    from Suc.IH [OF b(3) this] obtain c where c: "CFZSort comparator b ?i n = Some c" "same_array b c"
      "array_rep c (pre @ bubble_sort ?less n (bubble ?less (take (Suc n) seg) @ drop (Suc n) seg) @ post)" by blast
    have "CFZSort comparator a ?i (Suc n) = Some c" using b(1) c(1) Suc by (simp add: CFZSort.simps)
    moreover have "same_array a c" using b(2) c(2) by (simp add: same_array_def)
    ultimately show ?thesis using c(3) by auto
  qed
qed

section \<open>The sorted range\<close>

text \<open>The values in the order of the comparison, those that compare equal in the order they had.\<close>

definition stably_sorted :: "(u64 \<Rightarrow> u64 \<Rightarrow> CFComparisonResult) \<Rightarrow> u64 list \<Rightarrow> u64 list \<Rightarrow> bool" where
  "stably_sorted comparator xs ys \<longleftrightarrow> (\<exists>idxs. mset idxs = mset [0..<length xs] \<and>
     sorted_wrt (index_before (\<lambda>a b. comparator (xs ! a) (xs ! b))) idxs \<and> ys = map ((!) xs) idxs)"

lemma stably_sorted_small: "length xs < 2 \<Longrightarrow> stably_sorted comparator xs xs"
  unfolding stably_sorted_def
  by (intro exI [of _ "[0..<length xs]"]) (cases xs, auto simp: map_nth)

lemma stably_sorted_length: "stably_sorted comparator xs ys \<Longrightarrow> length ys = length xs"
  unfolding stably_sorted_def by (metis diff_zero length_map length_upt size_mset)

lemma stably_sorted_set: "stably_sorted comparator xs ys \<Longrightarrow> set ys = set xs"
  unfolding stably_sorted_def using permuted_mset mset_eq_setD by blast

lemma sort_buffer_law:
  assumes "pointer_order comparator" "length xs \<le> array_limit"
  shows "\<exists>ys. sort_buffer new active comparator xs (int (length xs)) = Some ys \<and> stably_sorted comparator xs ys"
proof -
  have "length xs \<le> (2 ^ 63 - 1) div 8" using assms(2) by (simp add: array_limit_def)
  from sort_pointers_law [OF assms(1) this, of new active] obtain idxs where
    q: "CFQSortArray new active (concat (map ptr_bytes xs)) (length xs) 8 (CFArrayCompareValues comparator) =
      Some (concat (map ptr_bytes (map ((!) xs) idxs)))" and perm: "mset idxs = mset [0..<length xs]"
    and sorted: "sorted_wrt (index_before (\<lambda>a b. comparator (xs ! a) (xs ! b))) idxs"
    unfolding CFArrayCompareValues_def [abs_def] by blast
  have "length idxs = length xs" using mset_eq_length [OF perm] by simp
  then have "sort_buffer new active comparator xs (int (length xs)) = Some (map ((!) xs) idxs)"
    using q decode_ptrs [of "map ((!) xs) idxs"] by (simp add: sort_buffer_def)
  with perm sorted show ?thesis unfolding stably_sorted_def by blast
qed

text \<open>"Less" of the comparison: what is not "not greater" the other way around.\<close>

definition flips :: "(u64 \<Rightarrow> u64 \<Rightarrow> CFComparisonResult) \<Rightarrow> bool" where
  "flips comparator \<longleftrightarrow> (\<forall>x y. cmp_int (comparator x y) < 0 \<longleftrightarrow> 0 < cmp_int (comparator y x))"

lemma bubble_sort_sorted:
  assumes order: "pointer_order comparator" and flip: "flips comparator"
  shows "stably_sorted comparator xs (bubble_sort (\<lambda>x y. cmp_int (comparator x y) < 0) (length xs) xs)"
proof -
  let ?c = "\<lambda>a b. comparator (xs ! a) (xs ! b)" and ?is = "[0..<length xs]"
  have ord: "sort_order ?c" by (rule pointer_order_at [OF order])
  let ?lt = "\<lambda>a b. \<not> sort_order.le ?c b a"
  have lt: "(\<lambda>a b. cmp_int (?c a b) < 0) = ?lt"
    using flip by (intro ext) (auto simp: flips_def sort_order.le_def [OF ord] not_le)
  have "sort_order.stable ?c ?is" unfolding sort_order.stable_def [OF ord]
    using sorted_wrt_upt by (rule sorted_wrt_mono_rel [rotated]) simp
  then have "sorted_wrt (sort_order.before ?c) (bubble_sort ?lt (length xs) ?is)"
    by (intro sort_order.bubble_sort_law [OF ord]) simp_all
  moreover have "bubble_sort (\<lambda>x y. cmp_int (comparator x y) < 0) (length xs) (map ((!) xs) ?is) =
      map ((!) xs) (bubble_sort ?lt (length xs) ?is)"
    unfolding bubble_sort_map lt ..
  ultimately show ?thesis unfolding stably_sorted_def before_eq [OF ord] map_nth
    by (intro exI [of _ "bubble_sort ?lt (length xs) ?is"]) simp
qed

lemma slice_parts:
  assumes "0 \<le> l" "0 \<le> n" "l + n \<le> int (length xs)"
  shows "xs = take (nat l) xs @ slice xs l n @ drop (nat (l + n)) xs" "int (length (slice xs l n)) = n"
    "int (length (take (nat l) xs)) = l"
proof -
  have "drop (nat (l + n)) xs = drop (nat n) (drop (nat l) xs)" using assms by (simp add: nat_add_distrib add.commute)
  then show "xs = take (nat l) xs @ slice xs l n @ drop (nat (l + n)) xs"
    by (simp only: slice_def append_take_drop_id)
qed (use assms in \<open>auto simp: slice_def min_def\<close>)

lemma SortValues_law:
  assumes rep: "array_rep array xs" and m: "ar_mutable array" and r: "0 \<le> l" "0 \<le> n" "l + n \<le> int (length xs)"
    and len: "length xs \<le> array_limit" and order: "pointer_order comparator" "flips comparator"
    and keep: "\<forall>v\<in>set xs. retained (ar_callbacks array) v = v"
  shows "\<exists>array' ys. CFArraySortValues fresh new active array l n comparator = Some array' \<and> ar_mutable array' \<and>
    stably_sorted comparator (slice xs l n) ys \<and> array_rep array' (take (nat l) xs @ ys @ drop (nat (l + n)) xs)"
proof -
  let ?cb = "ar_callbacks array" and ?s = "slice xs l n"
  note p = slice_parts [OF r]
  have rep': "array_rep array (take (nat l) xs @ ?s @ drop (nat (l + n)) xs)" using rep p(1) by simp
  consider (bubble) "(ac_retain ?cb \<noteq> None \<and> ac_release ?cb = None) \<or> (ac_retain ?cb = None \<and> ac_release ?cb \<noteq> None)"
    | (small) "\<not> ((ac_retain ?cb \<noteq> None \<and> ac_release ?cb = None) \<or> (ac_retain ?cb = None \<and> ac_release ?cb \<noteq> None))" "n < 2"
    | (merge) "\<not> ((ac_retain ?cb \<noteq> None \<and> ac_release ?cb = None) \<or> (ac_retain ?cb = None \<and> ac_release ?cb \<noteq> None))" "\<not> n < 2"
    by blast
  then show ?thesis
  proof cases
    case bubble
    have sn: "nat n = length ?s" using p(2) by simp
    from CFZSort_law [OF rep' m, of "nat n" comparator] obtain b where
      b: "CFZSort comparator array l (nat n) = Some b" "same_array array b" "array_rep b (take (nat l) xs @
        bubble_sort (\<lambda>x y. cmp_int (comparator x y) < 0) (nat n) ?s @ drop (nat (l + n)) xs)"
      unfolding p(3) using sn by auto
    have run: "CFArraySortValues fresh new active array l n comparator = Some b"
      using bubble m b(1) by (simp add: CFArraySortValues_def Let_def del: not_None_eq)
    have "stably_sorted comparator ?s (bubble_sort (\<lambda>x y. cmp_int (comparator x y) < 0) (nat n) ?s)"
      unfolding sn by (rule bubble_sort_sorted [OF order])
    with run b(2,3) show ?thesis by (intro exI [of _ b]) (auto simp: same_array_def)
  next
    case small
    then have "CFArraySortValues fresh new active array l n comparator = Some array"
      using m unfolding CFArraySortValues_def Let_def by auto
    moreover have "stably_sorted comparator ?s ?s" by (rule stably_sorted_small) (use small p(2) in simp)
    ultimately show ?thesis using rep' m by blast
  next
    case merge
    have "nat n \<le> length (map fresh [0..<nat n])" by simp
    from ArrayGetValues_law [OF rep r this] have vals: "CFArrayGetValues array l n (map fresh [0..<nat n]) = Some ?s" by simp
    have "length ?s \<le> array_limit" using len by (simp add: slice_def)
    from sort_buffer_law [OF order(1) this, of new active] obtain ys where
      ys: "sort_buffer new active comparator ?s n = Some ys" "stably_sorted comparator ?s ys" unfolding p(2) by blast
    have ly: "int (length ys) = n" using stably_sorted_length [OF ys(2)] p(2) by simp
    have "set ys \<subseteq> set xs" using stably_sorted_set [OF ys(2)] by (auto simp: slice_def dest: in_set_takeD in_set_dropD)
    then have kept: "map (retained ?cb) ys = ys" using keep by (intro map_idI) auto
    have "int (length xs) - n + int (length ys) \<le> int array_limit" using ly len by simp
    from replace_step [OF rep m r this ly [symmetric] refl, of fresh] obtain b where
      b: "replace_values fresh array l n ys n = Some b" "ar_mutable b"
        "array_rep b (take (nat l) xs @ ys @ drop (nat (l + n)) xs)" unfolding step_result_def kept by blast
    have "CFArraySortValues fresh new active array l n comparator = Some b"
      unfolding CFArraySortValues_def Let_def vals Option.bind_lunit ys(1) CFArrayReplaceValues_def b(1)
      using merge m by auto
    with b ys(2) show ?thesis by blast
  qed
qed

section \<open>Properties\<close>

text \<open>C18. \<open>CFArraySortValues\<close> on a range of a mutable array, with callbacks that return the value they
  retain: the values of the range end in the order of the comparison, equal ones in the order they had,
  and the values around it stay, whether the array is sorted through a buffer or in place; an immutable
  array is left as it is.\<close>

theorem CFArraySortValues_stable:
  assumes "array_rep array xs" "0 \<le> l" "0 \<le> n" "l + n \<le> int (length xs)" "length xs \<le> array_limit"
    and "pointer_order comparator" "flips comparator" "\<forall>v\<in>set xs. retained (ar_callbacks array) v = v"
  shows "\<exists>array' ys. CFArraySortValues fresh new active array l n comparator = Some array' \<and>
    (if ar_mutable array
     then stably_sorted comparator (slice xs l n) ys \<and> array_rep array' (take (nat l) xs @ ys @ drop (nat (l + n)) xs)
     else array' = array)"
proof (cases "ar_mutable array")
  case True
  with SortValues_law [OF assms(1) True assms(2-8), of fresh new active] show ?thesis by auto
next
  case False
  have "nat n \<le> length (map fresh [0..<nat n])" by simp
  from ArrayGetValues_law [OF assms(1-4) this] have vals: "CFArrayGetValues array l n (map fresh [0..<nat n]) = Some (slice xs l n)" by simp
  have "length (slice xs l n) \<le> array_limit" using assms(5) by (simp add: slice_def)
  from sort_buffer_law [OF assms(6) this, of new active] obtain ys where
    "sort_buffer new active comparator (slice xs l n) n = Some ys" unfolding slice_parts(2) [OF assms(2-4)] by blast
  then show ?thesis using False vals by (simp add: CFArraySortValues_def Let_def)
qed

text \<open>C10. \<open>CFArrayBSearchValues\<close> on a range where the values less than the one looked for come first:
  the search ends within the range and returns the position after them, in which the value can be
  inserted.  The second probe needs that the first value is not both less and greater.\<close>

theorem CFArrayBSearchValues_position:
  assumes "array_rep array xs" "0 \<le> l" "0 \<le> n" "l + n \<le> int (length xs)" "n < 2 ^ 31"
    and "slice xs l n = low @ high" "\<forall>x\<in>set low. cmp_int (comparator x v) < 0" "\<forall>x\<in>set high. \<not> cmp_int (comparator x v) < 0"
    and "\<forall>x\<in>set low. \<not> cmp_int (comparator v x) < 0"
  shows "CFArrayBSearchValues array l n v comparator = Some (l + int (length low))"
proof (rule BSearchValues_law)
  have s: "map (cell xs) (array_range l n) = low @ high" using map_cell_range [OF assms(2,4)] assms(6) by (simp add: slice_def)
  have len: "nat n = length low + length high" using arg_cong [OF s, of length] by (simp add: array_range_def)
  have at: "cell xs (l + i) = (low @ high) ! nat i" if "0 \<le> i" "i < n" for i
    using that by (simp flip: s add: array_range_def nat_less_iff)
  show "CFArrayGetValueAtIndex array (l + i) = Some (cell xs (l + i))" if "0 \<le> i" "i < n" for i
    using that assms(2,4) bucket_value [OF assms(1)] by (simp add: CFArrayGetValueAtIndex_def)
  show "cmp_int (comparator (cell xs (l + i)) v) < 0 \<longleftrightarrow> i < int (length low)" if i: "0 \<le> i" "i < n" for i
  proof (cases "i < int (length low)")
    case True
    then show ?thesis using assms(7) i by (simp add: at [OF i] nth_append nat_less_iff)
  next
    case False
    then have "nat i - length low < length high" using i len by auto
    then show ?thesis using assms(8) i False by (simp add: at [OF i] nth_append nat_less_iff)
  qed
  show "0 \<le> int (length low)" "int (length low) \<le> n" "n < 2 ^ 31" using len assms(3,5) by auto
  show "\<not> cmp_int (comparator (cell xs (l + 0)) v) < 0" if n: "0 < n" and lt: "cmp_int (comparator v (cell xs (l + 0))) < 0"
  proof -
    have e: "cell xs (l + 0) = (low @ high) ! 0" using at [of 0] n by simp
    have "(low @ high) ! 0 \<in> set low \<union> set high" using len n by (metis nth_mem length_append set_append zero_less_nat_eq)
    then show ?thesis using assms(8,9) lt unfolding e by auto
  qed
qed

section \<open>Witnesses\<close>

lemma pointer_values_order: "pointer_order cmp_of" "flips cmp_of"
  by (auto simp: pointer_order_def flips_def cmp_of_def cmp_int_def)

lemma CFArraySortValues_stable_witness:
  "\<exists>array' ys. CFArraySortValues (\<lambda>_. 0) (\<lambda>_. 0) 1 example_array 1 2 (\<lambda>a b. cmp_of b a) = Some array' \<and>
    stably_sorted (\<lambda>a b. cmp_of b a) [6, 7] ys \<and> array_rep array' ([5] @ ys @ [])"
proof -
  have ord: "pointer_order (\<lambda>a b. cmp_of b a)" "flips (\<lambda>a b. cmp_of b a)"
    by (auto simp: pointer_order_def flips_def cmp_of_def cmp_int_def)
  show ?thesis
    using CFArraySortValues_stable [OF array_example_facts(1) _ _ _ _ ord, of 1 2 "\<lambda>_. 0" "\<lambda>_. 0" 1] array_example_facts(2,3,5)
    by (simp add: slice_def array_limit_def)
qed

lemma CFArrayBSearchValues_position_witness:
  "CFArrayBSearchValues example_array 0 3 6 cmp_of = Some (0 + int (length [5 :: u64]))"
  by (rule CFArrayBSearchValues_position [OF array_example_facts(1), where high = "[6, 7]"])
    (simp_all add: slice_def cmp_of_def cmp_int_def)

end
