(* ===== verification/Spec2Isabelle.thy ===== *)
theory Spec2Isabelle
  imports BigNumberString BigNumberCreate BitVector BinaryHeap SortConcurrent GregorianDate ChildTree
    Dictionary SetCollection BagCollection LinkList ArrayAlgorithms ArraySorting
begin

text \<open>
  \<^bold>\<open>The program.\<close>  The repository is an iOS application that demonstrates techniques of Objective-C
  and C, together with the sources the demonstrations study, among them the CoreFoundation library
  CF-1153.18.  The logic of its own that is C code is of two kinds: the data structures and
  algorithms of CoreFoundation under \<open>iOSLearnigDemo/General/SourceLib/CF-1153.18\<close>, and the exercises
  under \<open>iOSLearnigDemo/iOSLearnigDemo/algo\<close> (a stack, linked lists, sorting, searching and strings).
  This development models both and proves what makes each component correct.

  \<^bold>\<open>How the parts depend on each other.\<close>  CFDictionary, CFSet and CFBag are three instances of one
  template over CFBasicHash, the hash table.  CFTree and CFArray sort through \<open>CFQSortArray\<close> of
  CFSortFunctions, on the bytes of an array of pointers.  CFBigNumber gives CFNumber its decimal
  texts and exact values; CFDate keeps the calendar arithmetic.  CFBinaryHeap and CFBitVector stand
  alone.  The exercises have lists of nodes linked by pointers in common with CFTree.

  \<^bold>\<open>Theories and sources\<close> (file names are those of CF-1153.18 unless another directory is named):

  \<^item> CF_Prelude: C integer types, comparison results, checked access to arrays and blocks, \<open>flsl\<close>, the
    contracts \<open>guarded_history\<close> and \<open>history\<close> of operations that refine an abstract state.
  \<^item> BigNumber, BigNumberString, BigNumberCreate: \<open>CFBigNumber.c\<close>.  A number is a record of five 32-bit
    digits and a sign; initialisation and reading at every width, comparison, addition and
    subtraction; decimal text both ways; conversion from the bytes of a number and to the smallest type.
  \<^item> DecimalDigits: digits as characters, shared by BigNumberString and ArrayAlgorithms.
  \<^item> BitVector: \<open>CFBitVector.c\<close>.  8-bit buckets with the most significant bit first; one mapper over
    the buckets of a range serves counting, reading, setting and flipping, as in the code.
  \<^item> BinaryHeap: \<open>CFBinaryHeap.c\<close>.  The array of the heap, its callbacks and a log of retain and
    release; \<open>sift_up\<close> and \<open>sift_down\<close> are the loops of adding and of removing the minimum.
  \<^item> SortFunctions: \<open>CFSortFunctions.c\<close>.  The merge sort of indexes, the concurrent odd-even merge of
    sections, and the sorts of elements of any size.  OddEvenMerge: the algorithm of the concurrent sort on
    lists of sections.  SortConcurrent: the concurrent sort on its array and temporaries.  SortPointers:
    the use of the sorts on arrays of pointers.
  \<^item> GregorianDate: \<open>CFDate.c\<close>, dates, units, day numbers.
  \<^item> LinkedPaths: chains of nodes in a store.  ChildTree: \<open>CFTree.c\<close> over a store of nodes.
  \<^item> PointerArray, PointerArrayLaws, ArraySorting: \<open>CFArray.c\<close>.  The deque with its free space on both
    sides, the four ways of repositioning its regions, the operations, sorting and binary search.
  \<^item> BasicHash: \<open>CFBasicHash.c\<close>, \<open>CFBasicHash.h\<close> and \<open>CFBasicHashFindBucket.m\<close>, all definitions.
    BasicHashSlots: open addressing without stores.  BasicHashStores: the stores as slots.
    BasicHashUpdates: changes of one bucket.  BasicHashMap: the table as a finite map.
  \<^item> HashCollections, Dictionary, SetCollection, BagCollection: \<open>CFDictionary.c\<close>, \<open>CFSet.c\<close>, \<open>CFBag.c\<close>.
  \<^item> LinkList: \<open>algo/dataStructure/Stack.c\<close>, \<open>Stack.h\<close> and the C functions of
    \<open>algo/LinkListViewController.m\<close>.
  \<^item> ArrayAlgorithms: the C functions of \<open>algo/SortViewController.m\<close>, \<open>StringArrayViewController.m\<close>
    and \<open>StringViewController.m\<close>.

  \<^bold>\<open>How the code is modelled.\<close>  A struct is a record with the fields of the code, an enum a datatype,
  an operation a function from the state to the new state.  \<open>None\<close> is every way the code does not
  deliver a result: an access outside a block or through NULL, \<open>HALT\<close>, an undefined shift, and a loop
  that does not end (such loops are \<open>partial_function (option)\<close> and are shown to end where they
  do).  So a theorem that gives \<open>Some\<close> also says that the memory accesses are in bounds and the loops
  end.  Machine integers are words where they wrap or are used bitwise (digits of big numbers, buckets,
  hash codes, the 16-bit counters and the stored counts of the hash table, pointers), and integers or
  naturals with the bound stated where the code cannot reach it.  Callbacks are parameters; those the
  code compares carry an address.  Calls of retain and release go to a log in the state.  Memory that
  the code allocates and does not initialise is a parameter (\<open>fresh\<close>).  The target is LP64 with
  \<open>DEPLOYMENT_TARGET_MACOSX\<close>, a release build (assertions check nothing), no garbage collector.

  \<^bold>\<open>What the lemmas show.\<close>
  \<^item> Representation: \<open>tree_rep\<close>, \<open>array_rep\<close>, \<open>hash_wf\<close> with \<open>content\<close>, the heap order, \<open>path\<close> relate a
    state to the list, map, multiset or sequence it stands for; every operation has a law over it.
  \<^item> Histories: \<open>guarded_history\<close> is interpreted on the operations of CFArray, \<open>history\<close> on those of the
    hash table, the dictionary, the set and the bag; from the law of a single step every history
    refines the same history on lists, maps, sets and multiplicities, without a failing access.
    Other contracts are \<open>sort_order\<close> (comparison callbacks), and those of BitVector, BinaryHeap and
    ChildTree, each interpreted on the functions of the code.
  \<^item> Sorting is stable and in order, whatever way the code takes: buffers and places of CFArray, and the
    sequential and the concurrent sort of indexes, whose rounds are an odd-even transposition sort of blocks.
  \<^item> Round trips: numbers and their texts, times and dates, bit vectors and bytes.
  \<^item> Deviations: where the code does not do what it means to, a lemma evaluates it at an input that
    shows it (their names say what happens: \<open>_out_of_bounds\<close>, \<open>_unsorted\<close>, \<open>_loses\<close>, \<open>_wraps\<close>).

  \<^bold>\<open>Bounds.\<close>  A heap or array capacity is \<open>1 << flsl(n)\<close> in an \<open>int\<close>: theorems are for fewer than
  \<open>2 ^ 30\<close> elements, arrays for \<open>array_limit\<close>, which leaves room for the slack of at most 8192.  A
  hash table holds at most \<open>room_limit\<close> = 2003267722 entries, the largest capacity in its table of
  sizes that 32 bits hold.  Arrays created with their values have fewer than \<open>2 ^ 28\<close>, since their size is
  computed in 32 bits.  Sorting takes up to \<open>(2 ^ 63 - 1) div 8\<close> elements.  Dates are for times of a
  whole number of seconds for which doubles are exact (up to 2 to the 52, 142 million years); the 32-bit
  fields of dates and units are checked for overflow, and the properties of adding and subtracting units
  say when none occurs.  The most negative integers of 32, 64 and 128 bits are left out where the code
  negates them.  Counts of the hash table are naturals, the same as \<open>CFIndex\<close> below 2 to the 63.  Lists and strings
  of the exercises are shorter than \<open>INT_MAX\<close>.

  \<^bold>\<open>Not modelled.\<close>
  \<^item> In the modelled files: the descriptions made with CFString formatting, the registration of types,
    dispatch to Objective-C objects (except collections copied from them), the branches for the
    garbage collector, double and exponential hashing beyond the definitions (the laws are for linear
    probing, which the collections use), and the interleaving of the blocks of a \<open>dispatch_apply\<close>, which
    write disjoint parts and run in order here.
  \<^item> The rest of CoreFoundation: strings, URLs, bundles, property lists, locales and formatters work
    on Unicode tables, ICU and the file system; run loops, sockets, streams and ports are calls of
    the operating system; CFRuntime and CFBase manage allocation and reference counts, which the models
    take from the log.
  \<^item> libdispatch and objc4 (two staged libraries of the system: atomics, assembly, kernel calls),
    Chameleon, the Pods (AFNetworking, SDWebImage, libwebp and others) are code of third parties.
    \<open>main.cpp\<close>, \<open>TestClass.cpp\<close>, \<open>AutoReleaseObj.cpp\<close> and \<open>WeakObject.cpp\<close> are output of a compiler.
  \<^item> The view controllers and demonstrations in Objective-C build user interfaces and log;
    \<open>HookCMethod.c\<close> is a copy of fishhook, which patches tables of the dynamic linker.
\<close>

end
